(* ===== verification/Eth_Prelude.thy ===== *)
theory Eth_Prelude
  imports Main "HOL-Library.Word"
begin

text \<open>
  Shared vocabulary of the development: the C integer types of the Patmos tool chain as words,
  the collections the component proofs draw on, and generic facts on words and on loops that
  several components use.  \<open>unsigned char\<close> is \<open>u8\<close>, \<open>unsigned short\<close> is \<open>u16\<close>,
  \<open>unsigned\<close> and \<open>int\<close> are \<open>u32\<close> (arithmetic wraps, signed readings are taken with
  \<open>sint\<close>), \<open>unsigned long long\<close> is \<open>u64\<close>.  A C conversion to a narrower or wider
  unsigned type is \<open>ucast\<close>.
\<close>

unbundle bit_operations_syntax

type_synonym u8 = "8 word"
type_synonym u16 = "16 word"
type_synonym u32 = "32 word"
type_synonym u64 = "64 word"

text \<open>A packet buffer: 32-bit words at word-aligned byte offsets.\<close>

type_synonym buffer = "u32 \<Rightarrow> u32"

named_theorems masks \<open>literal bit masks as \<open>take_bit\<close>\<close>
named_theorems frame_simps \<open>what a buffer access returns after a buffer update\<close>

text \<open>What C leaves undefined and a caller can reach: an access outside an array, a division by zero, a
  variable that is read before it was written.\<close>

datatype fault = Out_of_bounds | Division_by_zero | Uninitialised

section \<open>Literal masks\<close>

lemma and_3_take_bit [masks]: "a AND 3 = take_bit 2 (a :: u32)"
  by (simp add: take_bit_eq_mask mask_eq_exp_minus_1)

text \<open>Rounding down to a word boundary.\<close>

lemma and_not_3: "x AND NOT 3 = push_bit 2 (drop_bit 2 (x :: u32))"
proof -
  have three: "(3 :: int) = mask 2" by (simp add: mask_eq_exp_minus_1)
  have three: "bit (3 :: int) i \<longleftrightarrow> i < 2" for i unfolding three by (auto simp: bit_mask_iff)
  have two: "2 \<le> i \<Longrightarrow> Suc (Suc (i - 2)) = i" for i by simp
  show ?thesis by (intro bit_eqI) (auto simp: bit_simps three two)
qed

lemma and_FF_take_bit [masks]:
  "a AND 0xFF = take_bit 8 (a :: u32)"  "0xFF AND a = take_bit 8 (a :: u32)"
  by (simp_all add: take_bit_eq_mask mask_eq_exp_minus_1 and.commute)

lemma and_FFFF_take_bit [masks]:
  "a AND 0xFFFF = take_bit 16 (a :: u32)"  "0xFFFF AND a = take_bit 16 (a :: u32)"
  by (simp_all add: take_bit_eq_mask mask_eq_exp_minus_1 and.commute)

lemma FF_mask: "(0xFF :: u32) = mask 8"
  by (simp add: mask_eq_exp_minus_1)

lemma bit_FF: "bit (0xFF :: u32) n \<longleftrightarrow> n < 8"
  unfolding FF_mask by (auto simp: bit_mask_iff simp del: mask_numeral)

lemma bit_255_int: "bit (255 :: int) n \<longleftrightarrow> n < 8"
proof -
  have "(255 :: int) = mask 8" by (simp add: mask_eq_exp_minus_1)
  then show ?thesis by (simp only: bit_mask_iff) simp
qed

section \<open>Byte lanes of a 32-bit word\<close>

lemma lane_cases:
  obtains "take_bit 2 (a :: u32) = 0" | "take_bit 2 a = 1" | "take_bit 2 a = 2" | "take_bit 2 a = 3"
proof -
  have "unat (take_bit 2 a) < 4"
    using take_bit_nat_less_exp [of 2 "unat a"] by (simp only: unsigned_take_bit_eq) simp
  then have "unat (take_bit 2 a) = unat (0 :: u32) \<or> unat (take_bit 2 a) = unat (1 :: u32)
    \<or> unat (take_bit 2 a) = unat (2 :: u32) \<or> unat (take_bit 2 a) = unat (3 :: u32)" by auto
  then show ?thesis using that by (metis word_unat_eq_iff)
qed

lemma lane_shift_le: "unat (24 - 8 * take_bit 2 (a :: u32)) \<le> 24"
  by (rule lane_cases [of a]) auto

lemma masked_add_eq_or:
  "(x AND NOT (push_bit s 0xFF)) + push_bit s (take_bit 8 y) =
   (x AND NOT (push_bit s 0xFF)) OR push_bit s (take_bit 8 (y :: u32))"
  by (rule disjunctive_add) (auto simp: bit_simps bit_FF bit_255_int)

text \<open>Replacing one byte of a word by the mask-and-add idiom of the driver.\<close>

lemma bit_masked_insert:
  "s \<le> 24 \<Longrightarrow>
   bit ((x AND NOT (push_bit s 0xFF)) + push_bit s (take_bit 8 y)) n \<longleftrightarrow>
   (if s \<le> n \<and> n < s + 8 then bit y (n - s) else bit (x :: u32) n)"
  by (auto simp: masked_add_eq_or bit_simps bit_FF bit_255_int dest: bit_imp_le_length)

section \<open>Byte values\<close>

lemma take_bit_8_ucast [simp]: "take_bit 8 (ucast (x :: u8) :: u32) = ucast x"
  by (rule bit_eqI) (auto simp: bit_simps dest: bit_imp_le_length)

lemma ucast_ucast_u8 [simp]: "(ucast (ucast (x :: u8) :: u32) :: u8) = x"
  by (rule bit_eqI) (auto simp: bit_simps)

lemma ucast_u8_inj [simp]: "(ucast (x :: u8) :: u32) = ucast y \<longleftrightarrow> x = y"
  by (metis ucast_ucast_u8)

lemma ucast_take_bit_8 [simp]: "(ucast (take_bit 8 (x :: u32)) :: u8) = ucast x"
  by (rule bit_eqI) (auto simp: bit_simps)

lemma u16_bytes [simp]:
  "take_bit 8 (ucast (drop_bit 8 (c :: u16)) :: u32) = ucast (drop_bit 8 c)"
  "take_bit 8 (ucast (c AND 0xFF) :: u32) = ucast (c AND 0xFF)"
proof -
  have "bit c (8 + n) \<Longrightarrow> n < 8" for n using bit_imp_le_length [of c "8 + n"] by simp
  then show "take_bit 8 (ucast (drop_bit 8 c) :: u32) = ucast (drop_bit 8 c)"
    by (auto intro!: bit_eqI simp: bit_simps)
qed (auto intro!: bit_eqI simp: bit_simps bit_255_int)

lemma byte_less:
  assumes "take_bit 8 (x :: u32) = x"
  shows "unat x < 256"
proof -
  have "unat x = take_bit 8 (unat x)" using assms by (simp flip: unsigned_take_bit_eq)
  also have "\<dots> < 2 ^ 8" by (rule take_bit_nat_less_exp)
  finally show ?thesis by simp
qed

lemma unat_ucast_u8: "unat (x :: u32) < 256 \<Longrightarrow> unat (ucast x :: u8) = unat x"
  by (simp add: unsigned_ucast_eq take_bit_nat_eq_self)

lemma ucast_u8_eq_iff: "unat (x :: u32) < 256 \<Longrightarrow> (ucast x :: u8) = w \<longleftrightarrow> unat x = unat w"
  by (metis unat_ucast_u8 word_unat_eq_iff)

section \<open>Offsets\<close>

text \<open>Frame offsets stay in the form \<open>base + numeral\<close>.\<close>

lemma offset_add [simp]:
  "(a :: u32) + numeral k + numeral l = a + numeral (k + l)"
  "a + numeral k + 1 = a + numeral (k + num.One)"
  "a + 1 + numeral l = a + numeral (num.One + l)"
  by (simp_all only: add.assoc numeral_plus_numeral numeral_plus_one one_plus_numeral)

lemma take_bit_2_add: "take_bit 2 (take_bit 2 a + take_bit 2 b) = take_bit 2 (a + b :: u32)"
  by transfer (simp add: take_bit_eq_mod mod_simps)

lemma take_bit_2_round: "take_bit 2 (a - take_bit 2 a) = (0 :: u32)"
  by (metis add_diff_cancel_right' bits_ident take_bit_push_bit diff_self_eq_0 take_bit_0 push_bit_of_0)

lemma unat_less_32: "unat (c :: u32) < 4294967296"
  using unsigned_less [of c] by simp

lemma unat_less_16: "unat (c :: u16) < 65536"
  using unsigned_less [of c] by simp

lemma unat_minus_1 [simp]: "unat (- 1 :: u32) = 4294967295"
  by (simp add: unsigned_minus_1_eq_mask mask_eq_exp_minus_1)

lemma unat_of_nat_u32: "n < 2 ^ 32 \<Longrightarrow> unat (of_nat n :: u32) = n"
  by (simp add: unat_of_nat take_bit_nat_eq_self)

lemma offset_eq_iff:
  assumes "i < 2 ^ 32"
  shows "(a :: u32) = base + of_nat i \<longleftrightarrow> unat (a - base) = i"
proof -
  have "a = base + of_nat i \<longleftrightarrow> a - base = of_nat i"
    by (auto simp: algebra_simps)
  also have "\<dots> \<longleftrightarrow> unat (a - base) = unat (of_nat i :: u32)"
    by (rule word_unat_eq_iff)
  finally show ?thesis using assms by (simp add: unat_of_nat_u32)
qed

text \<open>An upward copy reads its \<open>n\<close>-th source byte before it overwrites it.\<close>

lemma copy_source_intact:
  assumes "n < (2 :: nat) ^ 32" "n < unat (t - s :: u32)"
  shows "\<not> unat (s + of_nat n - t) < n"
proof
  assume lt: "unat (s + of_nat n - t) < n"
  define k where "k = unat (s + of_nat n - t)"
  have "s + of_nat n = t + of_nat k"
    using offset_eq_iff [of k "s + of_nat n" t] lt assms k_def by simp
  then have "t - s = of_nat n - of_nat k" by (simp add: algebra_simps)
  also have "\<dots> = of_nat (n - k)" using lt k_def by simp
  finally have "unat (t - s) = n - k" using assms by (simp add: unat_of_nat_u32 less_imp_diff_less)
  with assms show False by simp
qed

section \<open>Areas of the buffer\<close>

text \<open>Address \<open>a\<close> is one of the \<open>n\<close> bytes from \<open>base\<close> on (addresses wrap around).\<close>

definition within :: "u32 \<Rightarrow> u32 \<Rightarrow> nat \<Rightarrow> bool" where
  "within a base n \<longleftrightarrow> unat (a - base) < n"

lemma within_0 [simp]: "\<not> within a base 0"
  by (simp add: within_def)

lemma within_Suc: "n < 2 ^ 32 \<Longrightarrow> within a base (Suc n) \<longleftrightarrow> within a base n \<or> a = base + of_nat n"
  by (auto simp: within_def less_Suc_eq offset_eq_iff)

text \<open>Two areas of \<open>n\<close> bytes that do not share an address.\<close>

definition apart :: "u32 \<Rightarrow> u32 \<Rightarrow> nat \<Rightarrow> bool" where
  "apart p q n \<longleftrightarrow> n \<le> unat (p - q) \<and> n \<le> unat (q - p)"

lemma apart_not_within:
  assumes "apart p q n" "within a p n"
  shows "\<not> within a q n"
proof
  assume "within a q n"
  define x y where "x = a - p" and "y = a - q"
  have "unat x < n" "unat y < n" using assms(2) \<open>within a q n\<close> by (simp_all add: within_def x_def y_def)
  have pq: "p - q = y - x" "q - p = x - y" by (simp_all add: x_def y_def)
  show False
  proof (cases "x \<le> y")
    case True
    then have "unat (p - q) \<le> unat y" by (simp add: pq unat_sub)
    with \<open>unat y < n\<close> assms(1) show False by (simp add: apart_def)
  next
    case False
    then have "unat (q - p) \<le> unat x" by (simp add: pq unat_sub)
    with \<open>unat x < n\<close> assms(1) show False by (simp add: apart_def)
  qed
qed

section \<open>Loops whose rounds may not return\<close>

text \<open>
  A loop whose body polls hardware: a round does not return (\<open>None\<close>), ends the loop with a result
  (\<open>Inl\<close>) or goes on in a new state (\<open>Inr\<close>).  \<open>ends rnd s r\<close>: finitely many rounds from \<open>s\<close> end
  with \<open>r\<close>.
\<close>

inductive ends :: "('s \<Rightarrow> ('r + 's) option) \<Rightarrow> 's \<Rightarrow> 'r \<Rightarrow> bool" for rnd where
  ends_now: "rnd s = Some (Inl r) \<Longrightarrow> ends rnd s r"
| ends_later: "rnd s = Some (Inr s') \<Longrightarrow> ends rnd s' r \<Longrightarrow> ends rnd s r"

text \<open>The contract of such a loop: its equation, and that it has no other way to return.\<close>

locale round_loop =
  fixes loop :: "'s \<Rightarrow> 'r option"
    and rnd :: "'s \<Rightarrow> ('r + 's) option"
  assumes unfold: "loop s = (case rnd s of None \<Rightarrow> None | Some (Inl r) \<Rightarrow> Some r | Some (Inr s') \<Rightarrow> loop s')"
    and least: "loop s = Some r \<Longrightarrow> ends rnd s r"
begin

lemma returns_iff_ends: "loop s = Some r \<longleftrightarrow> ends rnd s r"
proof
  assume "ends rnd s r"
  then show "loop s = Some r"
    by induction (simp_all add: unfold)
qed (rule least)

text \<open>A property of every state in which a round ends the loop is a property of the result.\<close>

lemma result_inv:
  assumes "loop s = Some r" "I s"
    and "\<And>s s'. I s \<Longrightarrow> rnd s = Some (Inr s') \<Longrightarrow> I s'"
    and "\<And>s r. I s \<Longrightarrow> rnd s = Some (Inl r) \<Longrightarrow> Q r"
  shows "Q r"
  using least [OF assms(1)] assms(2)
  by induction (use assms(3,4) in blast)+

end

end
