(* ===== verification/Patmos_IO.thy ===== *)
theory Patmos_IO
  imports Eth_Prelude
begin

text \<open>
  The I/O layer \<^verbatim>\<open>c/ethlib/eth_patmos_io.c\<close>: access to the registers of the Ethernet
  controller and to its packet buffer.

  The controller, the timers and the memory-mapped devices are hardware and not C code: they are
  a parameter \<open>E :: env\<close> of every operation that touches them.  The value a volatile read
  returns, and what the controller writes into the packet buffers by DMA, are arbitrary functions
  of the history of accesses; a theorem for all \<open>E\<close> holds for every device.  The history is
  the field \<open>trace\<close> of the machine state (most recent access first), so the order of the
  accesses is part of what is proved.
\<close>

section \<open>The machine and its environment\<close>

datatype io_event =
    EthRd u32 u32      \<comment> \<open>register offset and value, controller 0\<close>
  | EthWr u32 u32
  | Eth1Rd u32 u32     \<comment> \<open>controller 1\<close>
  | Eth1Wr u32 u32
  | IoRd u32 u32       \<comment> \<open>other memory-mapped device: address and value\<close>
  | IoWr u32 u32
  | CpuUsecs u64       \<comment> \<open>\<open>get_cpu_usecs\<close> of the run-time system\<close>
  | CpuCycles u64      \<comment> \<open>\<open>get_cpu_cycles\<close>\<close>
  | ArmTimer u64       \<comment> \<open>\<open>arm_clock_timer\<close>\<close>
  | ExcRegister u32 string  \<comment> \<open>\<open>exc_register\<close>: exception and name of the handler\<close>
  | IntrUnmask u32     \<comment> \<open>\<open>intr_unmask\<close>\<close>
  | IntrClearPending   \<comment> \<open>\<open>intr_clear_all_pending\<close>\<close>
  | IntrEnable         \<comment> \<open>\<open>intr_enable\<close>\<close>

type_synonym io_trace = "io_event list"

record env =
  eth_val :: "io_trace \<Rightarrow> u32 \<Rightarrow> u32"
  eth1_val :: "io_trace \<Rightarrow> u32 \<Rightarrow> u32"
  io_val :: "io_trace \<Rightarrow> u32 \<Rightarrow> u32"
  usecs_val :: "io_trace \<Rightarrow> u64"
  cycles_val :: "io_trace \<Rightarrow> u64"
  dma :: "io_trace \<Rightarrow> buffer \<Rightarrow> buffer"
  dma1 :: "io_trace \<Rightarrow> buffer \<Rightarrow> buffer"
  timer_loclk :: u32   \<comment> \<open>the address \<open>__PATMOS_TIMER_LOCLK\<close> of the run-time system\<close>

record machine =
  trace :: io_trace
  buff :: buffer
  buff1 :: buffer

text \<open>One access: it is recorded, and the controllers may have updated their buffers.\<close>

definition io_step :: "env \<Rightarrow> io_event \<Rightarrow> 'a machine_scheme \<Rightarrow> 'a machine_scheme" where
  "io_step E e m =
     m\<lparr>trace := e # trace m,
       buff := dma E (e # trace m) (buff m),
       buff1 := dma1 E (e # trace m) (buff1 m)\<rparr>"

text \<open>Pointer arithmetic on an \<open>unsigned *\<close>: element \<open>idx\<close> is at byte offset \<open>4 * idx\<close>.\<close>

definition word_ptr :: "u32 \<Rightarrow> u32" where
  "word_ptr idx = push_bit 2 idx"

section \<open>Controller registers\<close>

definition eth_iowr :: "env \<Rightarrow> u32 \<Rightarrow> u32 \<Rightarrow> 'a machine_scheme \<Rightarrow> 'a machine_scheme" where
  "eth_iowr E addr data m = io_step E (EthWr (word_ptr (drop_bit 2 addr)) data) m"

definition eth_iord :: "env \<Rightarrow> u32 \<Rightarrow> 'a machine_scheme \<Rightarrow> u32 \<times> 'a machine_scheme" where
  "eth_iord E addr m =
     (let r = word_ptr (drop_bit 2 addr); v = eth_val E (trace m) r
      in (v, io_step E (EthRd r v) m))"

definition eth_iowr1 :: "env \<Rightarrow> u32 \<Rightarrow> u32 \<Rightarrow> 'a machine_scheme \<Rightarrow> 'a machine_scheme" where
  "eth_iowr1 E addr data m = io_step E (Eth1Wr (word_ptr (drop_bit 2 addr)) data) m"

definition eth_iord1 :: "env \<Rightarrow> u32 \<Rightarrow> 'a machine_scheme \<Rightarrow> u32 \<times> 'a machine_scheme" where
  "eth_iord1 E addr m =
     (let r = word_ptr (drop_bit 2 addr); v = eth1_val E (trace m) r
      in (v, io_step E (Eth1Rd r v) m))"

text \<open>The run-time functions and other devices the C code reads and writes.\<close>

definition get_cpu_usecs :: "env \<Rightarrow> 'a machine_scheme \<Rightarrow> u64 \<times> 'a machine_scheme" where
  "get_cpu_usecs E m = (let v = usecs_val E (trace m) in (v, io_step E (CpuUsecs v) m))"

definition get_cpu_cycles :: "env \<Rightarrow> 'a machine_scheme \<Rightarrow> u64 \<times> 'a machine_scheme" where
  "get_cpu_cycles E m = (let v = cycles_val E (trace m) in (v, io_step E (CpuCycles v) m))"

definition io_rd :: "env \<Rightarrow> u32 \<Rightarrow> 'a machine_scheme \<Rightarrow> u32 \<times> 'a machine_scheme" where
  "io_rd E addr m = (let v = io_val E (trace m) addr in (v, io_step E (IoRd addr v) m))"

definition io_wr :: "env \<Rightarrow> u32 \<Rightarrow> u32 \<Rightarrow> 'a machine_scheme \<Rightarrow> 'a machine_scheme" where
  "io_wr E addr data m = io_step E (IoWr addr data) m"

section \<open>Packet buffer\<close>

text \<open>
  The buffer is plain memory between two register accesses, so its operations are functions of the
  buffer alone.  \<open>mem_iord\<close> takes an \<open>int\<close>: its shift is arithmetic.
\<close>

definition mem_iowr :: "buffer \<Rightarrow> u32 \<Rightarrow> u32 \<Rightarrow> buffer" where
  "mem_iowr b addr data = b(word_ptr (drop_bit 2 addr) := data)"

definition mem_iowr_byte :: "buffer \<Rightarrow> u32 \<Rightarrow> u32 \<Rightarrow> buffer" where
  "mem_iowr_byte b addr data =
     (let previous_data = b (word_ptr (drop_bit 2 addr));
          shift_factor = unat (24 - 8 * (addr AND 0x03));
          msk = NOT (push_bit shift_factor 0x000000FF);
          data1 = push_bit shift_factor (0x000000FF AND data);
          data2 = (previous_data AND msk) + data1
      in b(word_ptr (drop_bit 2 addr) := data2))"

definition mem_iord :: "buffer \<Rightarrow> u32 \<Rightarrow> u32" where
  "mem_iord b addr = b (word_ptr (signed_drop_bit 2 addr))"

definition mem_iord_byte :: "buffer \<Rightarrow> u32 \<Rightarrow> u32" where
  "mem_iord_byte b addr =
     (let full_data = b (word_ptr (drop_bit 2 addr));
          shift_factor = unat (24 - 8 * (addr AND 0x03));
          msk = push_bit shift_factor 0x000000FF
      in drop_bit shift_factor (full_data AND msk))"

text \<open>The second controller has its own copies of the four buffer operations.\<close>

definition mem_iowr1 :: "buffer \<Rightarrow> u32 \<Rightarrow> u32 \<Rightarrow> buffer" where
  "mem_iowr1 b addr data = b(word_ptr (drop_bit 2 addr) := data)"

definition mem_iowr1_byte :: "buffer \<Rightarrow> u32 \<Rightarrow> u32 \<Rightarrow> buffer" where
  "mem_iowr1_byte b addr data =
     (let previous_data = b (word_ptr (drop_bit 2 addr));
          shift_factor = unat (24 - 8 * (addr AND 0x03));
          msk = NOT (push_bit shift_factor 0x000000FF);
          data1 = push_bit shift_factor (0x000000FF AND data);
          data2 = (previous_data AND msk) + data1
      in b(word_ptr (drop_bit 2 addr) := data2))"

definition mem_iord1 :: "buffer \<Rightarrow> u32 \<Rightarrow> u32" where
  "mem_iord1 b addr = b (word_ptr (signed_drop_bit 2 addr))"

definition mem_iord_byte1 :: "buffer \<Rightarrow> u32 \<Rightarrow> u32" where
  "mem_iord_byte1 b addr =
     (let full_data = b (word_ptr (drop_bit 2 addr));
          shift_factor = unat (24 - 8 * (addr AND 0x03));
          msk = push_bit shift_factor 0x000000FF
      in drop_bit shift_factor (full_data AND msk))"

section \<open>The byte view of the buffer\<close>

lemma word_ptr_eq_iff:
  "word_ptr (drop_bit 2 a) = word_ptr (drop_bit 2 a') \<Longrightarrow> take_bit 2 a = take_bit 2 a' \<Longrightarrow> a = a'"
  by (metis bits_ident word_ptr_def)

lemma word_ptr_signed: "word_ptr (signed_drop_bit 2 a) = word_ptr (drop_bit 2 a)"
  by (rule bit_eqI) (auto simp: word_ptr_def bit_simps)

lemma bit_mem_iord_byte:
  "bit (mem_iord_byte b a) n \<longleftrightarrow>
     n < 8 \<and> bit (b (word_ptr (drop_bit 2 a))) (unat (24 - 8 * take_bit 2 a) + n)"
  by (rule lane_cases [of a])
    (auto simp: mem_iord_byte_def Let_def and_3_take_bit bit_simps bit_FF bit_255_int)

lemma bit_mem_iowr_byte:
  "bit (mem_iowr_byte b a v w) n \<longleftrightarrow>
     (if w = word_ptr (drop_bit 2 a) \<and> unat (24 - 8 * take_bit 2 a) \<le> n
         \<and> n < unat (24 - 8 * take_bit 2 a) + 8
      then bit v (n - unat (24 - 8 * take_bit 2 a)) else bit (b w) n)"
  using bit_masked_insert [OF lane_shift_le]
  by (simp add: mem_iowr_byte_def Let_def and_3_take_bit and_FF_take_bit)

lemma mem_iord_byte_other_word:
  "word_ptr (drop_bit 2 a) \<noteq> word_ptr (drop_bit 2 a') \<Longrightarrow>
   mem_iord_byte (mem_iowr_byte b a v) a' = mem_iord_byte b a'"
  by (intro bit_eqI) (simp add: bit_mem_iord_byte bit_mem_iowr_byte)

lemma mem_iord_byte_other_lane:
  "take_bit 2 a \<noteq> take_bit 2 a' \<Longrightarrow>
   mem_iord_byte (mem_iowr_byte b a v) a' = mem_iord_byte b a'"
  by (rule lane_cases [of a]; rule lane_cases [of a'])
    (auto intro!: bit_eqI simp: bit_mem_iord_byte bit_mem_iowr_byte)

lemma mem_iord_byte_same: "mem_iord_byte (mem_iowr_byte b a v) a = take_bit 8 v"
  by (auto intro!: bit_eqI simp: bit_mem_iord_byte bit_mem_iowr_byte bit_simps)

lemma mem_iord_iowr_byte [frame_simps]:
  "mem_iord_byte (mem_iowr_byte b a v) a' = (if a = a' then take_bit 8 v else mem_iord_byte b a')"
  using mem_iord_byte_other_word mem_iord_byte_other_lane mem_iord_byte_same word_ptr_eq_iff
  by metis

lemma mem_iord_byte_take_bit [simp]: "take_bit 8 (mem_iord_byte b a) = mem_iord_byte b a"
  by (rule bit_eqI) (auto simp: bit_simps bit_mem_iord_byte)

section \<open>Word accesses in bytes\<close>

text \<open>The memory is big-endian: the byte at an aligned address is the top byte of the word.\<close>

definition aligned4 :: "u32 \<Rightarrow> bool" where
  "aligned4 a \<longleftrightarrow> take_bit 2 a = 0"

lemma aligned4_add [intro]:
  assumes "aligned4 a" "take_bit 2 n = 0"
  shows "aligned4 (a + n)"
  using assms take_bit_2_add [of a n] by (simp add: aligned4_def)

lemma aligned4_lanes:
  assumes "aligned4 a"
  shows "take_bit 2 a = 0" "take_bit 2 (a + 1) = 1" "take_bit 2 (a + 2) = 2" "take_bit 2 (a + 3) = 3"
  using assms take_bit_2_add [of a 1] take_bit_2_add [of a 2] take_bit_2_add [of a 3]
  by (simp_all add: aligned4_def)

lemma word_ptr_lane: "word_ptr (drop_bit 2 a) = a - take_bit 2 a"
  by (metis add_diff_cancel_right' bits_ident word_ptr_def)

lemma aligned4_word_ptr:
  assumes "aligned4 a"
  shows "word_ptr (drop_bit 2 a) = a" "word_ptr (drop_bit 2 (a + 1)) = a"
    "word_ptr (drop_bit 2 (a + 2)) = a" "word_ptr (drop_bit 2 (a + 3)) = a"
  using aligned4_lanes [OF assms] by (simp_all add: word_ptr_lane)

lemma mem_iord_byte_lane:
  "mem_iord_byte b a =
     take_bit 8 (drop_bit (unat (24 - 8 * take_bit 2 a)) (b (word_ptr (drop_bit 2 a))))"
  by (rule bit_eqI) (auto simp: bit_mem_iord_byte bit_simps ac_simps)

lemma mem_iord_byte_aligned:
  assumes "aligned4 a"
  shows "mem_iord_byte b a = take_bit 8 (drop_bit 24 (b a))"
    "mem_iord_byte b (a + 1) = take_bit 8 (drop_bit 16 (b a))"
    "mem_iord_byte b (a + 2) = take_bit 8 (drop_bit 8 (b a))"
    "mem_iord_byte b (a + 3) = take_bit 8 (b a)"
  by (simp_all add: mem_iord_byte_lane aligned4_lanes [OF assms] aligned4_word_ptr [OF assms])

lemma mem_iord_byte_iowr [frame_simps]:
  assumes "aligned4 a"
  shows "mem_iord_byte (mem_iowr b a w) a' =
    (if a' = a then take_bit 8 (drop_bit 24 w)
     else if a' = a + 1 then take_bit 8 (drop_bit 16 w)
     else if a' = a + 2 then take_bit 8 (drop_bit 8 w)
     else if a' = a + 3 then take_bit 8 w
     else mem_iord_byte b a')"
proof (cases "word_ptr (drop_bit 2 a') = a")
  case True
  have upd: "mem_iowr b a w a = w"
    by (simp add: mem_iowr_def aligned4_word_ptr [OF assms])
  from True have "a' = a + take_bit 2 a'" by (metis diff_add_cancel add.commute word_ptr_lane)
  then consider "a' = a" | "a' = a + 1" | "a' = a + 2" | "a' = a + 3"
    by (metis lane_cases add.right_neutral)
  then show ?thesis
    by cases (simp_all add: mem_iord_byte_aligned [OF assms] upd)
next
  case False
  then have "a' \<noteq> a" "a' \<noteq> a + 1" "a' \<noteq> a + 2" "a' \<noteq> a + 3"
    using aligned4_word_ptr [OF assms] by auto
  with False show ?thesis
    by (simp add: mem_iord_byte_lane mem_iowr_def aligned4_word_ptr [OF assms])
qed

lemma word_of_bytes:
  "(w :: u32) = push_bit 24 (take_bit 8 (drop_bit 24 w)) OR push_bit 16 (take_bit 8 (drop_bit 16 w))
     OR push_bit 8 (take_bit 8 (drop_bit 8 w)) OR take_bit 8 w" (is "_ = ?r")
proof (rule bit_eqI)
  fix n assume "possible_bit TYPE(32 word) n"
  then consider "n < 8" | "8 \<le> n" "n < 16" | "16 \<le> n" "n < 24" | "24 \<le> n" "n < 32"
    by (simp add: possible_bit_def) linarith
  then show "bit w n \<longleftrightarrow> bit ?r n"
    by cases (auto simp: bit_simps)
qed

lemma mem_iord_bytes:
  assumes "aligned4 a"
  shows "mem_iord b a = push_bit 24 (mem_iord_byte b a) OR push_bit 16 (mem_iord_byte b (a + 1))
    OR push_bit 8 (mem_iord_byte b (a + 2)) OR mem_iord_byte b (a + 3)"
  unfolding mem_iord_byte_aligned [OF assms]
  using word_of_bytes [of "b a"] by (simp add: mem_iord_def word_ptr_signed aligned4_word_ptr [OF assms])

lemma mem_iord_unaligned: "mem_iord b a = mem_iord b (a - take_bit 2 a)"
  by (simp add: mem_iord_def word_ptr_signed word_ptr_lane take_bit_2_round)

section \<open>The byte-store interface\<close>

text \<open>
  What the protocol layers rely on: a store of bytes, read and written one byte at a time.
  Both controllers provide it.
\<close>

locale byte_store =
  fixes rd :: "'b \<Rightarrow> u32 \<Rightarrow> u32"
    and wr :: "'b \<Rightarrow> u32 \<Rightarrow> u32 \<Rightarrow> 'b"
  assumes rd_wr: "rd (wr b a v) a' = (if a = a' then take_bit 8 v else rd b a')"
    and rd_byte: "take_bit 8 (rd b a) = rd b a"
begin

lemma rd_less: "unat (rd b a) < 256"
  by (rule byte_less) (rule rd_byte)

text \<open>A loop that stores \<open>f i\<close> at \<open>base + i\<close> for \<open>i < n\<close>.\<close>

lemma rd_fill:
  assumes "n \<le> 2 ^ 32"
  shows "rd (fold (\<lambda>i b. wr b (base + of_nat i) (f i)) [0..<n] b) a =
     (if within a base n then take_bit 8 (f (unat (a - base))) else rd b a)"
  using assms
proof (induction n)
  case 0
  then show ?case by simp
next
  case (Suc n)
  then have n: "n < 2 ^ 32" by simp
  from Suc show ?case
    by (auto simp: rd_wr within_Suc [OF n] unat_of_nat_u32 [OF n])
qed

text \<open>A loop that copies \<open>n\<close> bytes upwards, reading what it has written where the areas overlap.\<close>

lemma rd_copy:
  assumes "n \<le> 2 ^ 32" "n \<le> unat (t - s)"
  shows "rd (fold (\<lambda>i b. wr b (t + of_nat i) (rd b (s + of_nat i))) [0..<n] b) a =
     (if within a t n then rd b (s + (a - t)) else rd b a)"
  using assms
proof (induction n arbitrary: a)
  case 0
  then show ?case by simp
next
  case (Suc n)
  let ?b = "fold (\<lambda>i b. wr b (t + of_nat i) (rd b (s + of_nat i))) [0..<n] b"
  from Suc.prems have n: "n < 2 ^ 32" by simp
  have "\<not> within (s + of_nat n) t n"
    unfolding within_def by (rule copy_source_intact) (use Suc.prems n in auto)
  then have "rd ?b (s + of_nat n) = rd b (s + of_nat n)"
    using Suc by simp
  with Suc show ?case by (auto simp: rd_wr rd_byte within_Suc [OF n])
qed

text \<open>A loop that moves \<open>n\<close> bytes from \<open>q\<close> to \<open>p\<close> and puts \<open>f i\<close> in their place.\<close>

lemma rd_swap:
  assumes "n < 2 ^ 32" "apart p q n"
  shows "rd (fold (\<lambda>i b. wr (wr b (p + of_nat i) (rd b (q + of_nat i))) (q + of_nat i) (f i)) [0..<n] b) a =
     (if within a p n then rd b (q + (a - p))
      else if within a q n then take_bit 8 (f (unat (a - q)))
      else rd b a)"
proof -
  have "rd (fold (\<lambda>i b. wr (wr b (p + of_nat i) (rd b (q + of_nat i))) (q + of_nat i) (f i)) [0..<k] b) a =
     (if within a p k then rd b (q + (a - p))
      else if within a q k then take_bit 8 (f (unat (a - q)))
      else rd b a)" if "k \<le> n" for k
    using that
  proof (induction k arbitrary: a)
    case 0
    then show ?case by simp
  next
    case (Suc k)
    let ?b = "fold (\<lambda>i b. wr (wr b (p + of_nat i) (rd b (q + of_nat i))) (q + of_nat i) (f i)) [0..<k] b"
    from Suc.prems assms have k: "k < 2 ^ 32" "k < n" by simp_all
    have qn: "within (q + of_nat k) q n" "\<not> within (q + of_nat k) q k"
      and pn: "within (p + of_nat k) p n" "\<not> within (p + of_nat k) p k"
      using k by (simp_all add: within_def unat_of_nat_u32 [OF k(1)])
    have not_qp: "\<not> within (q + of_nat k) p n" using apart_not_within [OF assms(2)] qn(1) by blast
    have not_pq: "\<not> within (p + of_nat k) q n" using apart_not_within [OF assms(2) pn(1)] .
    have mono: "within x y k \<Longrightarrow> within x y n" for x y using k by (simp add: within_def)
    have src: "rd ?b (q + of_nat k) = rd b (q + of_nat k)"
      using Suc qn not_qp mono by auto
    have ne: "q + of_nat k \<noteq> p + of_nat k" using not_qp pn(1) by auto
    show ?case
      using Suc src ne not_qp not_pq mono
      by (auto simp: rd_wr rd_byte within_Suc [OF k(1)] unat_of_nat_u32 [OF k(1)])
  qed
  then show ?thesis by simp
qed

end

text \<open>The two controllers' byte accessors are byte stores.\<close>

interpretation eth0: byte_store mem_iord_byte mem_iowr_byte
  by unfold_locales (simp_all add: mem_iord_iowr_byte)

lemma mem_byte1_eq: "mem_iord_byte1 = mem_iord_byte" "mem_iowr1_byte = mem_iowr_byte"
  by (simp_all add: fun_eq_iff mem_iord_byte1_def mem_iord_byte_def mem_iowr1_byte_def mem_iowr_byte_def)

interpretation eth1: byte_store mem_iord_byte1 mem_iowr1_byte
  unfolding mem_byte1_eq by unfold_locales (simp_all add: mem_iord_iowr_byte)

end
