(* ===== verification/Eth_Mac_Driver.thy ===== *)
theory Eth_Mac_Driver
  imports Patmos_IO
begin

text \<open>
  The controller driver \<^verbatim>\<open>c/ethlib/eth_mac_driver.c\<close>: sending and receiving a frame through
  the buffer descriptors, and the register accessors.  A busy-wait loop is a
  \<^theory_text>\<open>partial_function (option)\<close>: \<open>None\<close> is a loop that never ends.
\<close>

section \<open>Register map (\<^verbatim>\<open>eth_mac_driver.h\<close>)\<close>

abbreviation (input) MODER_ADDR :: u32 where "MODER_ADDR \<equiv> 0x00"
abbreviation (input) INT_SOURCE_ADDR :: u32 where "INT_SOURCE_ADDR \<equiv> 0x04"
abbreviation (input) INT_MASK_ADDR :: u32 where "INT_MASK_ADDR \<equiv> 0x08"
abbreviation (input) TX_BD_NUM_ADDR :: u32 where "TX_BD_NUM_ADDR \<equiv> 0x20"
abbreviation (input) MIICOMMAND_ADDR :: u32 where "MIICOMMAND_ADDR \<equiv> 0x2C"
abbreviation (input) MIIADDRESS_ADDR :: u32 where "MIIADDRESS_ADDR \<equiv> 0x30"
abbreviation (input) MIITX_DATA_ADDR :: u32 where "MIITX_DATA_ADDR \<equiv> 0x34"
abbreviation (input) MIISTATUS :: u32 where "MIISTATUS \<equiv> 0x3C"
abbreviation (input) WCTRLDATA_BIT :: u32 where "WCTRLDATA_BIT \<equiv> 0x4"
abbreviation (input) BUSY_BIT :: u32 where "BUSY_BIT \<equiv> 0x2"
abbreviation (input) TX_BD_ADDR_BASE :: u32 where "TX_BD_ADDR_BASE \<equiv> 0x400"
abbreviation (input) RX_BD_ADDR_BASE :: "u32 \<Rightarrow> u32" where "RX_BD_ADDR_BASE n \<equiv> TX_BD_ADDR_BASE + n * 8"
abbreviation (input) INT_SOURCE_RXB_BIT :: u32 where "INT_SOURCE_RXB_BIT \<equiv> 0x0004"
abbreviation (input) INT_SOURCE_TXB_BIT :: u32 where "INT_SOURCE_TXB_BIT \<equiv> 0x0001"
abbreviation (input) RX_BD_EMPTY_BIT :: u32 where "RX_BD_EMPTY_BIT \<equiv> 0x8000"
abbreviation (input) RX_BD_IRQEN_BIT :: u32 where "RX_BD_IRQEN_BIT \<equiv> 0x4000"
abbreviation (input) RX_BD_WRAP_BIT :: u32 where "RX_BD_WRAP_BIT \<equiv> 0x2000"
abbreviation (input) TX_BD_READY_BIT :: u32 where "TX_BD_READY_BIT \<equiv> 0x8000"
abbreviation (input) TX_BD_IRQEN_BIT :: u32 where "TX_BD_IRQEN_BIT \<equiv> 0x4000"
abbreviation (input) TX_BD_WRAP_BIT :: u32 where "TX_BD_WRAP_BIT \<equiv> 0x2000"
abbreviation (input) TX_BD_PAD_EN_BIT :: u32 where "TX_BD_PAD_EN_BIT \<equiv> 0x1000"

section \<open>Sending\<close>

text \<open>\<open>while (free==1) free = (eth_iord(TX_BD_ADDR_BASE) & 0x8000);\<close> with \<open>unsigned char free\<close>.\<close>

partial_function (option) send_wait_free ::
  "env \<Rightarrow> u8 \<Rightarrow> 'a machine_scheme \<Rightarrow> 'a machine_scheme option" where
  "send_wait_free E free m =
     (if free = 1 then
        (case eth_iord E TX_BD_ADDR_BASE m of (v, m') \<Rightarrow> send_wait_free E (ucast (v AND 0x8000)) m')
      else Some m)"

text \<open>\<open>while (done==0) done = (eth_iord(INT_SOURCE_ADDR) & 0x1);\<close>\<close>

partial_function (option) send_wait_done ::
  "env \<Rightarrow> u8 \<Rightarrow> 'a machine_scheme \<Rightarrow> 'a machine_scheme option" where
  "send_wait_done E done m =
     (if done = 0 then
        (case eth_iord E INT_SOURCE_ADDR m of (v, m') \<Rightarrow> send_wait_done E (ucast (v AND 0x1)) m')
      else Some m)"

definition eth_mac_send :: "env \<Rightarrow> u32 \<Rightarrow> u32 \<Rightarrow> 'a machine_scheme \<Rightarrow> 'a machine_scheme option" where
  "eth_mac_send E tx_addr frame_length m =
     (case send_wait_free E 1 m of
        None \<Rightarrow> None
      | Some m \<Rightarrow>
          let m = eth_iowr E INT_SOURCE_ADDR 0x00000001 m;
              m = eth_iowr E (TX_BD_ADDR_BASE + 4) tx_addr m;
              m = eth_iowr E TX_BD_ADDR_BASE (push_bit 16 frame_length OR 0xF000) m
          in send_wait_done E 0 m)"

definition eth_mac_send_nb :: "env \<Rightarrow> u32 \<Rightarrow> u32 \<Rightarrow> 'a machine_scheme \<Rightarrow> u32 \<times> 'a machine_scheme" where
  "eth_mac_send_nb E tx_addr frame_length m =
     (let (v, m) = eth_iord E TX_BD_ADDR_BASE m
      in if v AND TX_BD_READY_BIT = 1 then (0, m)
         else
           let m = eth_iowr E (TX_BD_ADDR_BASE + 4) tx_addr m;
               m = eth_iowr E TX_BD_ADDR_BASE (push_bit 16 frame_length OR 0xF000) m;
               m = eth_iowr E INT_SOURCE_ADDR INT_SOURCE_TXB_BIT m;
               m = eth_iowr E TX_BD_ADDR_BASE
                     (TX_BD_READY_BIT OR TX_BD_IRQEN_BIT OR TX_BD_WRAP_BIT OR TX_BD_PAD_EN_BIT) m
           in (1, m))"

section \<open>Receiving\<close>

partial_function (option) rx_poll :: "env \<Rightarrow> 'a machine_scheme \<Rightarrow> 'a machine_scheme option" where
  "rx_poll E m =
     (case eth_iord E INT_SOURCE_ADDR m of (v, m') \<Rightarrow>
        if v AND INT_SOURCE_RXB_BIT = 0 then rx_poll E m' else Some m')"

text \<open>The polling loop with a timeout: the flag says whether a frame came.\<close>

partial_function (option) rx_poll_timeout ::
  "env \<Rightarrow> u64 \<Rightarrow> u64 \<Rightarrow> 'a machine_scheme \<Rightarrow> (bool \<times> 'a machine_scheme) option" where
  "rx_poll_timeout E start_time timeout m =
     (case eth_iord E INT_SOURCE_ADDR m of (v, m') \<Rightarrow>
        if v AND INT_SOURCE_RXB_BIT = 0 then
          (case get_cpu_usecs E m' of (t, m'') \<Rightarrow>
             if t - start_time \<ge> timeout then Some (False, m'')
             else rx_poll_timeout E start_time timeout m'')
        else Some (True, m'))"

text \<open>Releasing the receive descriptor, the common end of the receive functions.\<close>

definition rx_release :: "env \<Rightarrow> 'a machine_scheme \<Rightarrow> 'a machine_scheme" where
  "rx_release E m =
     (let m = eth_iowr E INT_SOURCE_ADDR INT_SOURCE_RXB_BIT m;
          (n, m) = eth_iord E TX_BD_NUM_ADDR m
      in eth_iowr E (RX_BD_ADDR_BASE n) (RX_BD_EMPTY_BIT OR RX_BD_IRQEN_BIT OR RX_BD_WRAP_BIT) m)"

definition eth_mac_receive ::
  "env \<Rightarrow> u32 \<Rightarrow> u64 \<Rightarrow> 'a machine_scheme \<Rightarrow> (u32 \<times> 'a machine_scheme) option" where
  "eth_mac_receive E rx_addr timeout m =
     (let (n, m) = eth_iord E TX_BD_NUM_ADDR m;
          m = eth_iowr E (RX_BD_ADDR_BASE n + 4) rx_addr m
      in if timeout = 0 then
           (case rx_poll E m of None \<Rightarrow> None | Some m \<Rightarrow> Some (1, rx_release E m))
         else
           let (start_time, m) = get_cpu_usecs E m
           in (case rx_poll_timeout E start_time timeout m of
                 None \<Rightarrow> None
               | Some (got, m) \<Rightarrow> Some (if got then (1, rx_release E m) else (0, m))))"

definition eth_mac_receive_nb :: "env \<Rightarrow> u32 \<Rightarrow> 'a machine_scheme \<Rightarrow> u32 \<times> 'a machine_scheme" where
  "eth_mac_receive_nb E rx_addr m =
     (let (n, m) = eth_iord E TX_BD_NUM_ADDR m;
          m = eth_iowr E (RX_BD_ADDR_BASE n + 4) rx_addr m;
          (v, m) = eth_iord E INT_SOURCE_ADDR m;
          ans = (if v AND INT_SOURCE_RXB_BIT = 0 then 0 else 1)
      in (ans, rx_release E m))"

definition eth_mac_has_frame :: "env \<Rightarrow> u32 \<Rightarrow> 'a machine_scheme \<Rightarrow> u32 \<times> 'a machine_scheme" where
  "eth_mac_has_frame E rx_addr m =
     (let (v, m) = eth_iord E INT_SOURCE_ADDR m
      in (if v AND INT_SOURCE_RXB_BIT = 0 then 0 else 1, m))"

definition eth_mac_isready_rx_buffer ::
  "env \<Rightarrow> u32 \<Rightarrow> u32 \<Rightarrow> 'a machine_scheme \<Rightarrow> u32 \<times> 'a machine_scheme" where
  "eth_mac_isready_rx_buffer E rx_buff rx_bd m =
     (let (v, m) = eth_iord E rx_bd m
      in (if v AND RX_BD_EMPTY_BIT = 0 then 0 else 1, m))"

definition eth_mac_clear_rx_buffer ::
  "env \<Rightarrow> u32 \<Rightarrow> u32 \<Rightarrow> 'a machine_scheme \<Rightarrow> 'a machine_scheme" where
  "eth_mac_clear_rx_buffer E rx_buff rx_bd m =
     (let (temp_config, m) = eth_iord E INT_SOURCE_ADDR m;
          m = eth_iowr E INT_SOURCE_ADDR (temp_config OR INT_SOURCE_RXB_BIT) m;
          (temp_config, m) = eth_iord E rx_bd m
      in eth_iowr E rx_bd
           (temp_config OR (RX_BD_EMPTY_BIT OR RX_BD_IRQEN_BIT OR RX_BD_WRAP_BIT)) m)"

definition eth_mac_initialize :: "env \<Rightarrow> 'a machine_scheme \<Rightarrow> 'a machine_scheme" where
  "eth_mac_initialize E m =
     (let m = eth_iowr E 0x40 0xEEF0DA42 m;
          m = eth_iowr E 0x44 0x000000FF m;
          m = eth_iowr E 0x00 0x0000A423 m;
          (n, m) = eth_iord E TX_BD_NUM_ADDR m
      in eth_iowr E (RX_BD_ADDR_BASE n) (RX_BD_EMPTY_BIT OR RX_BD_IRQEN_BIT OR RX_BD_WRAP_BIT) m)"

section \<open>Register accessors\<close>

definition set_tx_enable :: "env \<Rightarrow> 'a machine_scheme \<Rightarrow> 'a machine_scheme" where
  "set_tx_enable E m = (let (data, m) = eth_iord E 0x00 m in eth_iowr E 0x00 (data OR 0x0002) m)"

definition get_tx_enable :: "env \<Rightarrow> 'a machine_scheme \<Rightarrow> u32 \<times> 'a machine_scheme" where
  "get_tx_enable E m = (let (data, m) = eth_iord E 0x00 m in (data AND 0x0002, m))"

definition set_rx_enable :: "env \<Rightarrow> 'a machine_scheme \<Rightarrow> 'a machine_scheme" where
  "set_rx_enable E m = (let (data, m) = eth_iord E 0x00 m in eth_iowr E 0x00 (data OR 0x0001) m)"

definition get_rx_enable :: "env \<Rightarrow> 'a machine_scheme \<Rightarrow> u32 \<times> 'a machine_scheme" where
  "get_rx_enable E m = (let (data, m) = eth_iord E 0x00 m in (data AND 0x0001, m))"

definition set_int_source_rxb :: "env \<Rightarrow> 'a machine_scheme \<Rightarrow> 'a machine_scheme" where
  "set_int_source_rxb E m =
     (let (data, m) = eth_iord E 0x04 m in eth_iowr E 0x04 (data OR push_bit 3 1) m)"

definition get_int_source_rxb :: "env \<Rightarrow> 'a machine_scheme \<Rightarrow> u32 \<times> 'a machine_scheme" where
  "get_int_source_rxb E m = (let (data, m) = eth_iord E 0x04 m in (drop_bit 3 data AND 1, m))"

text \<open>The error branch prints two lines and leaves the register alone.\<close>

definition set_tx_db_num :: "env \<Rightarrow> u32 \<Rightarrow> 'a machine_scheme \<Rightarrow> 'a machine_scheme" where
  "set_tx_db_num E data m = (if data < 0x80 then eth_iowr E 0x20 data m else m)"

definition get_tx_db_num :: "env \<Rightarrow> 'a machine_scheme \<Rightarrow> u32 \<times> 'a machine_scheme" where
  "get_tx_db_num E m = eth_iord E 0x20 m"

definition set_mac_address :: "env \<Rightarrow> u32 \<Rightarrow> u32 \<Rightarrow> 'a machine_scheme \<Rightarrow> 'a machine_scheme" where
  "set_mac_address E my_mac0 my_mac1 m = eth_iowr E 0x44 my_mac1 (eth_iowr E 0x40 my_mac0 m)"

definition get_mac_address :: "env \<Rightarrow> 'a machine_scheme \<Rightarrow> u64 \<times> 'a machine_scheme" where
  "get_mac_address E m =
     (let (hi, m) = eth_iord E 0x44 m;
          my_mac = (ucast hi :: u64);
          (lo, m) = eth_iord E 0x40 m
      in (push_bit 32 my_mac + ucast lo, m))"

definition set_tx_bd :: "env \<Rightarrow> u32 \<Rightarrow> 'a machine_scheme \<Rightarrow> 'a machine_scheme" where
  "set_tx_bd E data m = eth_iowr E 0x400 data m"

definition get_tx_db :: "env \<Rightarrow> 'a machine_scheme \<Rightarrow> u32 \<times> 'a machine_scheme" where
  "get_tx_db E m = eth_iord E 0x400 m"

definition get_tx_db_mem_pointer :: "env \<Rightarrow> 'a machine_scheme \<Rightarrow> u32 \<times> 'a machine_scheme" where
  "get_tx_db_mem_pointer E m = eth_iord E (0x400 + 0x04) m"

definition set_rx_bd :: "env \<Rightarrow> u32 \<Rightarrow> 'a machine_scheme \<Rightarrow> 'a machine_scheme" where
  "set_rx_bd E data m =
     (let (tx_db_num, m) = get_tx_db_num E m in eth_iowr E (0x400 + tx_db_num * 0x08) data m)"

definition get_rx_db :: "env \<Rightarrow> 'a machine_scheme \<Rightarrow> u32 \<times> 'a machine_scheme" where
  "get_rx_db E m =
     (let (tx_db_num, m) = get_tx_db_num E m in eth_iord E (0x400 + tx_db_num * 0x08) m)"

definition get_rx_db_length :: "env \<Rightarrow> 'a machine_scheme \<Rightarrow> u32 \<times> 'a machine_scheme" where
  "get_rx_db_length E m =
     (let (_, m) = get_tx_db_num E m; (rx_db, m) = get_rx_db E m in (drop_bit 16 rx_db, m))"

definition get_rx_db_mem_pointer :: "env \<Rightarrow> 'a machine_scheme \<Rightarrow> u32 \<times> 'a machine_scheme" where
  "get_rx_db_mem_pointer E m =
     (let (tx_db_num, m) = get_tx_db_num E m in eth_iord E (0x400 + tx_db_num * 0x08 + 0x04) m)"

definition set_rx_db_empty :: "env \<Rightarrow> 'a machine_scheme \<Rightarrow> 'a machine_scheme" where
  "set_rx_db_empty E m =
     (let (tx_db_num, m) = get_tx_db_num E m;
          cur_addr_rx_db = 0x400 + tx_db_num * 0x08;
          (cur_data, m) = eth_iord E cur_addr_rx_db m
      in eth_iowr E cur_addr_rx_db (cur_data OR push_bit 15 1) m)"

definition get_rx_db_empty :: "env \<Rightarrow> 'a machine_scheme \<Rightarrow> u32 \<times> 'a machine_scheme" where
  "get_rx_db_empty E m =
     (let (tx_db_num, m) = get_tx_db_num E m;
          (cur_data, m) = eth_iord E (0x400 + tx_db_num * 0x08) m
      in (drop_bit 15 cur_data AND 1, m))"

definition set_rx_db_irq :: "env \<Rightarrow> 'a machine_scheme \<Rightarrow> 'a machine_scheme" where
  "set_rx_db_irq E m =
     (let (tx_db_num, m) = get_tx_db_num E m;
          cur_addr_rx_db = 0x400 + tx_db_num * 0x08;
          (cur_data, m) = eth_iord E cur_addr_rx_db m
      in eth_iowr E cur_addr_rx_db (cur_data OR push_bit 14 1) m)"

definition get_rx_db_irq :: "env \<Rightarrow> 'a machine_scheme \<Rightarrow> u32 \<times> 'a machine_scheme" where
  "get_rx_db_irq E m =
     (let (tx_db_num, m) = get_tx_db_num E m;
          (cur_data, m) = eth_iord E (0x400 + tx_db_num * 0x08) m
      in (drop_bit 14 cur_data AND 1, m))"

definition send_phy_command :: "env \<Rightarrow> u16 \<Rightarrow> u8 \<Rightarrow> u8 \<Rightarrow> 'a machine_scheme \<Rightarrow> u32 \<times> 'a machine_scheme" where
  "send_phy_command E cmd reg_addr phy_addr m =
     (let (v, m) = eth_iord E MIISTATUS m
      in if v AND BUSY_BIT \<noteq> BUSY_BIT then
           let m = eth_iowr E MIITX_DATA_ADDR (ucast cmd) m;
               m = eth_iowr E MIIADDRESS_ADDR
                     (push_bit 8 (ucast reg_addr AND 0xF) OR (ucast phy_addr AND 0xF)) m;
               m = eth_iowr E MIICOMMAND_ADDR WCTRLDATA_BIT m
           in (1, m)
         else (0, m))"

definition eth_read_register :: "env \<Rightarrow> u32 \<Rightarrow> 'a machine_scheme \<Rightarrow> u32 \<times> 'a machine_scheme" where
  "eth_read_register E addr m = eth_iord E addr m"

section \<open>What every access does to the state\<close>

lemma io_step_trace [simp]: "trace (io_step E e m) = e # trace m"
  by (simp add: io_step_def)

lemma eth_iowr_trace [simp]:
  "trace (eth_iowr E addr data m) = EthWr (word_ptr (drop_bit 2 addr)) data # trace m"
  by (simp add: eth_iowr_def)

lemma eth_iord_trace [simp]:
  "trace (snd (eth_iord E addr m)) =
     EthRd (word_ptr (drop_bit 2 addr)) (fst (eth_iord E addr m)) # trace m"
  by (simp add: eth_iord_def Let_def)

lemma fst_eth_iord: "fst (eth_iord E addr m) = eth_val E (trace m) (word_ptr (drop_bit 2 addr))"
  by (simp add: eth_iord_def Let_def)

lemma eth_iord_pair:
  "eth_iord E addr m =
     (let v = eth_val E (trace m) (word_ptr (drop_bit 2 addr))
      in (v, io_step E (EthRd (word_ptr (drop_bit 2 addr)) v) m))"
  by (simp add: eth_iord_def Let_def)

lemma word_ptr_numeral [simp]: "word_ptr (numeral k) = push_bit 2 (numeral k)" "word_ptr 0 = 0"
  "word_ptr 1 = 4"
  by (simp_all add: word_ptr_def)

section \<open>Sending\<close>

text \<open>
  \<open>0x8000\<close> does not fit an \<open>unsigned char\<close>: the loop that should wait for a free
  descriptor reads the descriptor once and goes on, whatever it reads.
\<close>

lemma ready_bit_as_char: "(ucast (v AND 0x8000 :: u32) :: u8) = 0"
  by (rule bit_eqI) (auto simp: bit_simps bit_numeral_word_iff less_Suc_eq numeral_eq_Suc)

lemma send_wait_free_once:
  "send_wait_free E 1 m = Some (snd (eth_iord E TX_BD_ADDR_BASE m))"
  by (simp add: send_wait_free.simps [of E 1 m] send_wait_free.simps [of E 0] ready_bit_as_char
      split: prod.splits)

section \<open>Busy-wait loops\<close>

text \<open>
  The contract of a busy-wait loop: one round either ends the loop or moves on, and the loop returns
  only by ending in some round (it is the least solution of its equation).
\<close>

locale poll_loop =
  fixes loop :: "'s \<Rightarrow> 'r option"
    and nxt :: "'s \<Rightarrow> 's"
    and stop :: "'s \<Rightarrow> bool"
    and res :: "'s \<Rightarrow> 'r"
  assumes round: "loop s = (if stop s then Some (res s) else loop (nxt s))"
    and least: "loop s = Some r \<Longrightarrow> \<exists>n. stop ((nxt ^^ n) s)"
begin

lemma runs_until:
  "(\<forall>k < n. \<not> stop ((nxt ^^ k) s)) \<Longrightarrow> stop ((nxt ^^ n) s) \<Longrightarrow> loop s = Some (res ((nxt ^^ n) s))"
proof (induction n arbitrary: s)
  case 0
  then show ?case by (simp add: round [of s])
next
  case (Suc n)
  have "\<not> stop ((nxt ^^ k) (nxt s))" if "k < n" for k
    using Suc.prems(1) that by (metis Suc_less_eq comp_apply funpow_Suc_right)
  then have "loop (nxt s) = Some (res ((nxt ^^ n) (nxt s)))"
    using Suc.prems(2) by (intro Suc.IH) (simp_all add: funpow_swap1)
  moreover have "\<not> stop s" using Suc.prems(1) by (metis funpow_0 zero_less_Suc)
  ultimately show ?case by (simp add: round [of s] funpow_swap1)
qed

theorem returns_iff:
  "loop s = Some r \<longleftrightarrow>
     (\<exists>n. (\<forall>k < n. \<not> stop ((nxt ^^ k) s)) \<and> stop ((nxt ^^ n) s) \<and> r = res ((nxt ^^ n) s))"
proof
  assume r: "loop s = Some r"
  then have "\<exists>n. stop ((nxt ^^ n) s)" by (rule least)
  then obtain n where n: "stop ((nxt ^^ n) s)" "\<forall>k < n. \<not> stop ((nxt ^^ k) s)"
    unfolding exists_least_iff [of "\<lambda>n. stop ((nxt ^^ n) s)"] by blast
  with r have "r = res ((nxt ^^ n) s)" using runs_until [OF n(2,1)] by simp
  with n show "\<exists>n. (\<forall>k < n. \<not> stop ((nxt ^^ k) s)) \<and> stop ((nxt ^^ n) s) \<and> r = res ((nxt ^^ n) s)"
    by blast
next
  assume "\<exists>n. (\<forall>k < n. \<not> stop ((nxt ^^ k) s)) \<and> stop ((nxt ^^ n) s) \<and> r = res ((nxt ^^ n) s)"
  then show "loop s = Some r" using runs_until by blast
qed

lemma terminates_iff: "(\<exists>r. loop s = Some r) \<longleftrightarrow> (\<exists>n. stop ((nxt ^^ n) s))"
proof
  assume "\<exists>n. stop ((nxt ^^ n) s)"
  then show "\<exists>r. loop s = Some r"
    unfolding exists_least_iff [of "\<lambda>n. stop ((nxt ^^ n) s)"] using runs_until by blast
qed (blast dest: least)

end

section \<open>The driver's loops as busy-wait loops\<close>

text \<open>One poll of the interrupt source register, and the value it returns.\<close>

definition int_poll :: "env \<Rightarrow> 'a machine_scheme \<Rightarrow> 'a machine_scheme" where
  "int_poll E m = snd (eth_iord E INT_SOURCE_ADDR m)"

definition int_source :: "env \<Rightarrow> 'a machine_scheme \<Rightarrow> u32" where
  "int_source E m = eth_val E (trace m) INT_SOURCE_ADDR"

lemma int_read: "eth_iord E INT_SOURCE_ADDR m = (int_source E m, int_poll E m)"
  by (simp add: int_poll_def int_source_def eth_iord_def Let_def)

lemma int_poll_trace [simp]: "trace (int_poll E m) = EthRd 4 (int_source E m) # trace m"
  by (simp add: int_poll_def int_source_def fst_eth_iord)

lemma int_polls_trace:
  "trace ((int_poll E ^^ n) m) =
     map (\<lambda>k. EthRd 4 (int_source E ((int_poll E ^^ k) m))) (rev [0..<n]) @ trace m"
  by (induction n) simp_all

lemma least_Suc: "\<exists>n. P ((f ^^ n) (f s)) \<Longrightarrow> \<exists>n. P ((f ^^ n) s)"
  by (metis comp_apply funpow_Suc_right)

lemma txb_as_char: "(ucast (v AND 1 :: u32) :: u8) = 0 \<longleftrightarrow> v AND 1 = 0"
  by (cases "even v") (auto simp: and_one_eq mod_2_eq_odd)

lemma send_wait_done_stop: "d \<noteq> 0 \<Longrightarrow> send_wait_done E d m = Some m"
  by (simp add: send_wait_done.simps)

lemma send_wait_done_least:
  assumes "send_wait_done E d m = Some m'"
  shows "d = 0 \<longrightarrow> (\<exists>n. int_source E ((int_poll E ^^ n) m) AND 1 \<noteq> 0)"
proof (rule send_wait_done.raw_induct
    [where P = "\<lambda>E d m m'. d = 0 \<longrightarrow> (\<exists>n. int_source E ((int_poll E ^^ n) m) AND 1 \<noteq> 0)", OF _ assms])
  fix f :: "env \<Rightarrow> u8 \<Rightarrow> 'a machine_scheme \<Rightarrow> 'a machine_scheme option" and E d m m'
  assume IH: "\<And>E d m m'. f E d m = Some m' \<Longrightarrow>
      d = 0 \<longrightarrow> (\<exists>n. int_source E ((int_poll E ^^ n) m) AND 1 \<noteq> 0)"
    and eq: "(if d = 0 then
        (case eth_iord E INT_SOURCE_ADDR m of (v, m') \<Rightarrow> f E (ucast (v AND 0x1)) m')
      else Some m) = Some m'"
  show "d = 0 \<longrightarrow> (\<exists>n. int_source E ((int_poll E ^^ n) m) AND 1 \<noteq> 0)"
  proof (cases "int_source E m AND 1 = 0")
    case True
    then have "d = 0 \<longrightarrow> f E 0 (int_poll E m) = Some m'"
      using eq by (simp add: int_read split: if_split_asm)
    then show ?thesis
      using IH [of E 0] least_Suc [of "\<lambda>m. int_source E m AND 1 \<noteq> 0" "int_poll E" m] by blast
  qed (auto intro: exI [of _ 0])
qed

interpretation tx_wait: poll_loop "send_wait_done E 0" "int_poll E"
    "\<lambda>m. int_source E m AND 1 \<noteq> 0" "int_poll E" for E
proof
  show "send_wait_done E 0 m = (if int_source E m AND 1 \<noteq> 0 then Some (int_poll E m)
      else send_wait_done E 0 (int_poll E m))" for m :: "'a machine_scheme"
    by (simp add: send_wait_done.simps [of E 0 m] int_read send_wait_done_stop flip: txb_as_char)
  show "\<exists>n. int_source E ((int_poll E ^^ n) m) AND 1 \<noteq> 0"
    if "send_wait_done E 0 m = Some r" for m r :: "'a machine_scheme"
    using send_wait_done_least [OF that] by simp
qed

lemma rx_poll_least:
  assumes "rx_poll E m = Some m'"
  shows "\<exists>n. int_source E ((int_poll E ^^ n) m) AND INT_SOURCE_RXB_BIT \<noteq> 0"
proof (rule rx_poll.raw_induct
    [where P = "\<lambda>E m m'. \<exists>n. int_source E ((int_poll E ^^ n) m) AND INT_SOURCE_RXB_BIT \<noteq> 0", OF _ assms])
  fix f :: "env \<Rightarrow> 'a machine_scheme \<Rightarrow> 'a machine_scheme option" and E m m'
  assume IH: "\<And>E m m'. f E m = Some m' \<Longrightarrow>
      \<exists>n. int_source E ((int_poll E ^^ n) m) AND INT_SOURCE_RXB_BIT \<noteq> 0"
    and eq: "(case eth_iord E INT_SOURCE_ADDR m of (v, m') \<Rightarrow>
        if v AND INT_SOURCE_RXB_BIT = 0 then f E m' else Some m') = Some m'"
  show "\<exists>n. int_source E ((int_poll E ^^ n) m) AND INT_SOURCE_RXB_BIT \<noteq> 0"
  proof (cases "int_source E m AND INT_SOURCE_RXB_BIT = 0")
    case True
    then have "f E (int_poll E m) = Some m'" using eq by (simp add: int_read)
    then show ?thesis
      using IH least_Suc [of "\<lambda>m. int_source E m AND INT_SOURCE_RXB_BIT \<noteq> 0" "int_poll E" m] by blast
  qed (auto intro: exI [of _ 0])
qed

interpretation rx_wait: poll_loop "rx_poll E" "int_poll E"
    "\<lambda>m. int_source E m AND INT_SOURCE_RXB_BIT \<noteq> 0" "int_poll E" for E
proof
  show "rx_poll E m = (if int_source E m AND INT_SOURCE_RXB_BIT \<noteq> 0 then Some (int_poll E m)
      else rx_poll E (int_poll E m))" for m :: "'a machine_scheme"
    by (simp add: rx_poll.simps [of E m] int_read)
qed (rule rx_poll_least)

text \<open>A round of the loop with a timeout: a poll, then a look at the clock.\<close>

definition rx_round :: "env \<Rightarrow> 'a machine_scheme \<Rightarrow> 'a machine_scheme" where
  "rx_round E m = snd (get_cpu_usecs E (int_poll E m))"

definition rx_frame :: "env \<Rightarrow> 'a machine_scheme \<Rightarrow> bool" where
  "rx_frame E m \<longleftrightarrow> int_source E m AND INT_SOURCE_RXB_BIT \<noteq> 0"

definition rx_late :: "env \<Rightarrow> u64 \<Rightarrow> u64 \<Rightarrow> 'a machine_scheme \<Rightarrow> bool" where
  "rx_late E t0 timeout m \<longleftrightarrow> timeout \<le> usecs_val E (trace (int_poll E m)) - t0"

lemma clock_read: "get_cpu_usecs E (int_poll E m) = (usecs_val E (trace (int_poll E m)), rx_round E m)"
  by (simp add: rx_round_def get_cpu_usecs_def Let_def)

lemma rx_poll_timeout_least:
  assumes "rx_poll_timeout E t0 timeout m = Some r"
  shows "\<exists>n. rx_frame E ((rx_round E ^^ n) m) \<or> rx_late E t0 timeout ((rx_round E ^^ n) m)"
proof (rule rx_poll_timeout.raw_induct
    [where P = "\<lambda>E t0 timeout m r. \<exists>n. rx_frame E ((rx_round E ^^ n) m) \<or>
       rx_late E t0 timeout ((rx_round E ^^ n) m)", OF _ assms])
  fix f :: "env \<Rightarrow> u64 \<Rightarrow> u64 \<Rightarrow> 'a machine_scheme \<Rightarrow> (bool \<times> 'a machine_scheme) option"
    and E t0 timeout m r
  assume IH: "\<And>E t0 timeout m r. f E t0 timeout m = Some r \<Longrightarrow>
      \<exists>n. rx_frame E ((rx_round E ^^ n) m) \<or> rx_late E t0 timeout ((rx_round E ^^ n) m)"
    and eq: "(case eth_iord E INT_SOURCE_ADDR m of (v, m') \<Rightarrow>
        if v AND INT_SOURCE_RXB_BIT = 0 then
          (case get_cpu_usecs E m' of (t, m'') \<Rightarrow>
             if t - t0 \<ge> timeout then Some (False, m'') else f E t0 timeout m'')
        else Some (True, m')) = Some r"
  show "\<exists>n. rx_frame E ((rx_round E ^^ n) m) \<or> rx_late E t0 timeout ((rx_round E ^^ n) m)"
  proof (cases "rx_frame E m \<or> rx_late E t0 timeout m")
    case True
    then show ?thesis by (intro exI [of _ 0]) simp
  next
    case False
    then have "f E t0 timeout (rx_round E m) = Some r"
      using eq by (simp add: int_read clock_read rx_frame_def rx_late_def del: int_poll_trace)
    from IH [OF this] show ?thesis
      using least_Suc [of "\<lambda>m. rx_frame E m \<or> rx_late E t0 timeout m"] by blast
  qed
qed

interpretation rx_timed: poll_loop "rx_poll_timeout E t0 timeout" "rx_round E"
    "\<lambda>m. rx_frame E m \<or> rx_late E t0 timeout m"
    "\<lambda>m. if rx_frame E m then (True, int_poll E m) else (False, rx_round E m)" for E t0 timeout
proof
  show "rx_poll_timeout E t0 timeout m =
      (if rx_frame E m \<or> rx_late E t0 timeout m
       then Some (if rx_frame E m then (True, int_poll E m) else (False, rx_round E m))
       else rx_poll_timeout E t0 timeout (rx_round E m))" for m :: "'a machine_scheme"
    by (simp add: rx_poll_timeout.simps [of E t0 timeout m] int_read clock_read rx_frame_def rx_late_def
        del: int_poll_trace)
qed (rule rx_poll_timeout_least)

section \<open>The state handed to the controller\<close>

text \<open>The state in which the frame has been handed to the controller.\<close>

definition send_issued :: "env \<Rightarrow> u32 \<Rightarrow> u32 \<Rightarrow> 'a machine_scheme \<Rightarrow> 'a machine_scheme" where
  "send_issued E tx_addr frame_length m =
     eth_iowr E TX_BD_ADDR_BASE (push_bit 16 frame_length OR 0xF000)
       (eth_iowr E (TX_BD_ADDR_BASE + 4) tx_addr
         (eth_iowr E INT_SOURCE_ADDR 1 (snd (eth_iord E TX_BD_ADDR_BASE m))))"

lemma eth_mac_send_eq:
  "eth_mac_send E tx_addr frame_length m = send_wait_done E 0 (send_issued E tx_addr frame_length m)"
  by (simp add: eth_mac_send_def send_wait_free_once send_issued_def)

lemma send_issued_trace:
  "trace (send_issued E tx_addr frame_length m) =
     [EthWr 0x400 (push_bit 16 frame_length OR 0xF000), EthWr 0x404 tx_addr, EthWr 4 1,
      EthRd 0x400 (eth_val E (trace m) 0x400)] @ trace m"
  by (simp add: send_issued_def fst_eth_iord)

section \<open>A register file as a reference device\<close>

fun last_written :: "u32 \<Rightarrow> io_trace \<Rightarrow> u32" where
  "last_written r [] = 0"
| "last_written r (EthWr r' v # tr) = (if r = r' then v else last_written r tr)"
| "last_written r (_ # tr) = last_written r tr"

text \<open>
  A register the controller does not change by itself: a read returns what was last written.
  The OpenCores controller documents this of the mode register, of the number of transmit
  descriptors, of the MAC address registers and of descriptors it is not working on.
\<close>

definition plain_register :: "env \<Rightarrow> u32 \<Rightarrow> bool" where
  "plain_register E r \<longleftrightarrow> (\<forall>tr. eth_val E tr r = last_written r tr)"

text \<open>A device all of whose registers are plain, whose clock ticks once per access.\<close>

definition regfile_env :: env where
  "regfile_env =
     \<lparr>eth_val = (\<lambda>tr r. last_written r tr), eth1_val = (\<lambda>_ _. 0), io_val = (\<lambda>_ _. 0),
      usecs_val = (\<lambda>tr. of_nat (length tr)), cycles_val = (\<lambda>tr. of_nat (length tr)),
      dma = (\<lambda>_ b. b), dma1 = (\<lambda>_ b. b), timer_loclk = 0xF0020004\<rparr>"

definition start_machine :: machine where
  "start_machine = \<lparr>trace = [], buff = (\<lambda>_. 0), buff1 = (\<lambda>_. 0)\<rparr>"

lemma plain_regfile_env: "plain_register regfile_env r"
  by (simp add: plain_register_def regfile_env_def)

lemma plain_read:
  "plain_register E (word_ptr (drop_bit 2 addr)) \<Longrightarrow>
   eth_iord E addr m =
     (last_written (word_ptr (drop_bit 2 addr)) (trace m),
      io_step E (EthRd (word_ptr (drop_bit 2 addr))
        (last_written (word_ptr (drop_bit 2 addr)) (trace m))) m)"
  by (simp add: plain_register_def eth_iord_def Let_def)

section \<open>Properties of the driver\<close>

text \<open>The accesses of a blocking transmission that returns.\<close>

lemma eth_mac_send_trace:
  assumes "eth_mac_send E tx_addr frame_length m = Some m'"
  shows "\<exists>v vs. v AND 1 \<noteq> 0 \<and> (\<forall>w \<in> set vs. w AND 1 = 0) \<and>
      trace m' = EthRd 4 v # map (EthRd 4) vs @
        [EthWr 0x400 (push_bit 16 frame_length OR 0xF000), EthWr 0x404 tx_addr, EthWr 4 1,
         EthRd 0x400 (eth_val E (trace m) 0x400)] @ trace m"
proof -
  let ?m = "send_issued E tx_addr frame_length m"
  let ?v = "\<lambda>k. int_source E ((int_poll E ^^ k) ?m)"
  obtain n where n: "\<forall>k < n. ?v k AND 1 = 0" "?v n AND 1 \<noteq> 0" and m': "m' = int_poll E ((int_poll E ^^ n) ?m)"
    using assms unfolding eth_mac_send_eq tx_wait.returns_iff by auto
  have "trace m' = EthRd 4 (?v n) # map (EthRd 4) (map ?v (rev [0..<n])) @ trace ?m"
    by (simp add: m' int_polls_trace)
  moreover have "\<forall>w \<in> set (map ?v (rev [0..<n])). w AND 1 = 0"
    using n(1) by simp
  ultimately show ?thesis
    using n(2) by (intro exI [of _ "?v n"] exI [of _ "map ?v (rev [0..<n])"]) (simp add: send_issued_trace)
qed

text \<open>C14: whatever the controller does, when \<open>eth_mac_send\<close> returns it has made exactly these
  accesses, in this order: one read of the transmit descriptor, the acknowledgement of the
  transmit interrupt, the frame address, the descriptor with the length and the ready bits, and
  then polls of the interrupt source of which only the last shows a completed transmission.\<close>

theorem eth_mac_send_accesses:
  assumes "eth_mac_send E tx_addr frame_length m = Some m'"
  shows "\<exists>v vs. v AND 1 \<noteq> 0 \<and> (\<forall>w \<in> set vs. w AND 1 = 0) \<and>
      trace m' = EthRd 4 v # map (EthRd 4) vs @
        [EthWr 0x400 (push_bit 16 frame_length OR 0xF000), EthWr 0x404 tx_addr, EthWr 4 1,
         EthRd 0x400 (eth_val E (trace m) 0x400)] @ trace m"
  by (rule eth_mac_send_trace [OF assms])

text \<open>\<open>eth_mac_send\<close> returns if and only if the controller reports a completed transmission
  in some poll after the frame has been handed over; otherwise it never returns.\<close>

theorem eth_mac_send_returns_iff:
  "(\<exists>m'. eth_mac_send E tx_addr frame_length m = Some m') \<longleftrightarrow>
   (\<exists>n. int_source E ((int_poll E ^^ n) (send_issued E tx_addr frame_length m)) AND 1 \<noteq> 0)"
  unfolding eth_mac_send_eq by (rule tx_wait.terminates_iff)

lemma send_nb_effect:
  "fst (eth_mac_send_nb E tx_addr frame_length m) = 1 \<and>
   trace (snd (eth_mac_send_nb E tx_addr frame_length m)) =
     [EthWr 0x400 0xF000, EthWr 4 1, EthWr 0x400 (push_bit 16 frame_length OR 0xF000),
      EthWr 0x404 tx_addr, EthRd 0x400 (eth_val E (trace m) 0x400)] @ trace m"
proof -
  have "v AND 0x8000 \<noteq> (1 :: u32)" for v
  proof
    assume "v AND 0x8000 = 1"
    then have "odd (v AND 0x8000)" by simp
    then show False by (simp add: even_and_iff)
  qed
  then show ?thesis
    by (simp add: eth_mac_send_nb_def Let_def eth_iord_pair)
qed

text \<open>\<open>eth_mac_send_nb\<close> never refuses: it returns 1 and makes the same five accesses whether
  the descriptor is still owned by the controller or not, and the last one overwrites the length
  it has just stored with 0.\<close>

theorem eth_mac_send_nb_never_refuses:
  "fst (eth_mac_send_nb E tx_addr frame_length m) = 1 \<and>
   trace (snd (eth_mac_send_nb E tx_addr frame_length m)) =
     [EthWr 0x400 0xF000, EthWr 4 1, EthWr 0x400 (push_bit 16 frame_length OR 0xF000),
      EthWr 0x404 tx_addr, EthRd 0x400 (eth_val E (trace m) 0x400)] @ trace m"
  by (rule send_nb_effect)

text \<open>The state in which \<open>eth_mac_receive\<close> starts to poll.\<close>

definition rx_armed :: "env \<Rightarrow> u32 \<Rightarrow> 'a machine_scheme \<Rightarrow> 'a machine_scheme" where
  "rx_armed E rx_addr m =
     eth_iowr E (RX_BD_ADDR_BASE (eth_val E (trace m) 0x20) + 4) rx_addr (snd (eth_iord E TX_BD_NUM_ADDR m))"

definition rx_start_time :: "env \<Rightarrow> u32 \<Rightarrow> 'a machine_scheme \<Rightarrow> u64" where
  "rx_start_time E rx_addr m = fst (get_cpu_usecs E (rx_armed E rx_addr m))"

definition rx_start :: "env \<Rightarrow> u32 \<Rightarrow> 'a machine_scheme \<Rightarrow> 'a machine_scheme" where
  "rx_start E rx_addr m = snd (get_cpu_usecs E (rx_armed E rx_addr m))"

lemma eth_mac_receive_timed:
  "timeout \<noteq> 0 \<Longrightarrow>
   eth_mac_receive E rx_addr timeout m =
     map_option (\<lambda>(got, m). if got then (1, rx_release E m) else (0, m))
       (rx_poll_timeout E (rx_start_time E rx_addr m) timeout (rx_start E rx_addr m))"
  by (simp add: eth_mac_receive_def rx_armed_def rx_start_time_def rx_start_def Let_def eth_iord_pair
      get_cpu_usecs_def split: option.splits prod.splits)

text \<open>C15: with a timeout, \<open>eth_mac_receive\<close> ends in the first round in which a frame is reported
  or the deadline has passed: with 1 and the descriptor released when a frame is reported, with 0
  and the descriptor left alone when the deadline has passed first.\<close>

theorem eth_mac_receive_outcome:
  assumes "timeout \<noteq> 0"
  shows "eth_mac_receive E rx_addr timeout m = Some (r, m') \<longleftrightarrow>
    (\<exists>n. (\<forall>k < n. \<not> rx_frame E ((rx_round E ^^ k) (rx_start E rx_addr m)) \<and>
                 \<not> rx_late E (rx_start_time E rx_addr m) timeout ((rx_round E ^^ k) (rx_start E rx_addr m))) \<and>
      (let mn = (rx_round E ^^ n) (rx_start E rx_addr m)
       in rx_frame E mn \<and> r = 1 \<and> m' = rx_release E (int_poll E mn) \<or>
          \<not> rx_frame E mn \<and> rx_late E (rx_start_time E rx_addr m) timeout mn \<and>
            r = 0 \<and> m' = rx_round E mn))"
proof -
  have "eth_mac_receive E rx_addr timeout m = Some (r, m') \<longleftrightarrow>
      (\<exists>got m1. rx_poll_timeout E (rx_start_time E rx_addr m) timeout (rx_start E rx_addr m) = Some (got, m1) \<and>
        (r, m') = (if got then (1, rx_release E m1) else (0, m1)))"
    unfolding eth_mac_receive_timed [OF assms] by auto
  then show ?thesis
    unfolding rx_timed.returns_iff by (auto simp: Let_def split: if_splits)
qed

theorem eth_mac_receive_outcome_witness:
  "\<exists>m'. eth_mac_receive regfile_env 0x800 1 start_machine = Some (0, m') \<and> (1 :: u64) \<noteq> 0"
proof -
  have h: "(1 :: u64) \<noteq> 0" by simp
  show ?thesis
    unfolding eth_mac_receive_outcome [OF h]
    by (intro exI [of _ "rx_round regfile_env (rx_start regfile_env 0x800 start_machine)"] conjI exI [of _ 0] h)
      (simp_all add: rx_frame_def rx_late_def int_source_def rx_start_def rx_armed_def rx_start_time_def
        start_machine_def regfile_env_def eth_iord_pair Let_def get_cpu_usecs_def eth_iowr_def)
qed

text \<open>The MAC address read back is the one that was set.\<close>

theorem mac_address_roundtrip:
  assumes "plain_register E 0x40" "plain_register E 0x44"
  shows "fst (get_mac_address E (set_mac_address E my_mac0 my_mac1 m)) =
    push_bit 32 (ucast my_mac1) + ucast my_mac0"
  using assms
  by (simp add: get_mac_address_def set_mac_address_def plain_register_def eth_iord_def eth_iowr_def Let_def)

theorem mac_address_roundtrip_witness:
  "fst (get_mac_address regfile_env (set_mac_address regfile_env 0x6EF0DA42 0x0080 start_machine)) = 0x00806EF0DA42"
  using mac_address_roundtrip [OF plain_regfile_env plain_regfile_env, of "0x6EF0DA42" "0x0080" start_machine]
  by simp

theorem eth_mac_send_accesses_witness:
  "\<exists>m' v vs. eth_mac_send regfile_env 0x100 42 start_machine = Some m' \<and> v AND 1 \<noteq> 0 \<and>
     trace m' = EthRd 4 v # map (EthRd 4) vs @
       [EthWr 0x400 0x2AF000, EthWr 0x404 0x100, EthWr 4 1, EthRd 0x400 0]"
proof -
  have "\<exists>n. int_source regfile_env ((int_poll regfile_env ^^ n)
      (send_issued regfile_env 0x100 42 start_machine)) AND 1 \<noteq> 0"
    by (intro exI [of _ 0]) (simp add: int_source_def regfile_env_def send_issued_trace)
  then obtain m' where r: "eth_mac_send regfile_env 0x100 42 start_machine = Some m'"
    unfolding eth_mac_send_eq tx_wait.terminates_iff [symmetric] by blast
  from eth_mac_send_accesses [OF r] show ?thesis
    using r by (auto simp: start_machine_def regfile_env_def)
qed

section \<open>What the driver does not touch\<close>

text \<open>A part \<open>f\<close> of the state that no access changes is not changed by a transmission or a reception.\<close>

lemma send_stable:
  assumes "eth_mac_send E tx_addr n m = Some m'" "\<And>e m. f (io_step E e m) = f m"
  shows "f m' = f m"
proof -
  have acc: "f (eth_iowr E a v m) = f m" "f (snd (eth_iord E a m)) = f m" "f (int_poll E m) = f m" for a v m
    by (simp_all add: eth_iowr_def eth_iord_def int_poll_def Let_def assms(2))
  have "f ((int_poll E ^^ k) m) = f m" for k m by (induction k) (simp_all add: acc)
  then show ?thesis
    using assms(1) unfolding eth_mac_send_eq tx_wait.returns_iff by (auto simp: acc send_issued_def)
qed

lemma receive_stable:
  assumes "eth_mac_receive E rx_addr timeout m = Some (r, m')" "\<And>e m. f (io_step E e m) = f m"
  shows "f m' = f m"
proof -
  have acc: "f (eth_iowr E a v m) = f m" "f (snd (eth_iord E a m)) = f m" "f (int_poll E m) = f m"
      "f (snd (get_cpu_usecs E m)) = f m" for a v m
    by (simp_all add: eth_iowr_def eth_iord_def int_poll_def get_cpu_usecs_def Let_def assms(2))
  have rel: "f (rx_release E m) = f m" "f (rx_round E m) = f m" for m
    by (simp_all add: rx_release_def rx_round_def acc Let_def split_beta)
  have it: "f ((rx_round E ^^ k) m) = f m" "f ((int_poll E ^^ k) m) = f m" for k m
    by (induction k) (simp_all add: acc rel)
  have start: "f (rx_start E rx_addr m) = f m" by (simp add: rx_start_def rx_armed_def acc)
  show ?thesis
  proof (cases "timeout = 0")
    case True
    then show ?thesis
      using assms(1) by (auto simp: eth_mac_receive_def Let_def split_beta rx_wait.returns_iff acc rel it split: option.splits)
  next
    case False
    then show ?thesis
      using assms(1) unfolding eth_mac_receive_timed [OF False]
      by (auto simp: rx_timed.returns_iff acc rel it start split: if_splits)
  qed
qed

end
