(* ===== verification/Mac.thy ===== *)
theory Mac
  imports Eth_Mac_Driver
begin

text \<open>
  The link layer \<^verbatim>\<open>c/ethlib/mac.c\<close>: classification of a received frame and MAC addresses.
  \<open>unsigned char[6]\<close> is a list of six bytes; an output array is returned.
\<close>

datatype eth_protocol =
  TIMEOUT | UNSUPPORTED | IP | ICMP | UDP | TCP | PTP | ARP | LLDP | MDNS | TTE_PCF | TTE_MSG | INTERNOC_MSG

record mac_state = machine +
  my_mac :: "u8 list"

definition my_mac_init :: "u8 list" where
  "my_mac_init = [0x00, 0x80, 0x6e, 0xF0, 0xDA, 0x42]"

definition mac_packet_type :: "buffer \<Rightarrow> u32 \<Rightarrow> eth_protocol" where
  "mac_packet_type m addr =
     (let b = ucast (mem_iord_byte m (addr + 13)) :: u8
      in if mem_iord_byte m (addr + 12) = 0x08 then
           if b = 0x00 then
             (let b = ucast (mem_iord_byte m (addr + 23)) :: u8
              in if b = 0x01 then ICMP
                 else if b = 0x11 then UDP
                 else if b = 0x06 then TCP
                 else UNSUPPORTED)
           else if b = 0x06 then ARP
           else UNSUPPORTED
         else if mem_iord_byte m (addr + 12) = 0x88 then
           if b = 0xc then LLDP
           else if b = 0xf7 then PTP
           else UNSUPPORTED
         else if mem_iord_byte m (addr + 12) = 0x89 then
           if b = 0x1d then TTE_PCF
           else UNSUPPORTED
         else UNSUPPORTED)"

definition mac_addr_sender :: "buffer \<Rightarrow> u32 \<Rightarrow> u8 list" where
  "mac_addr_sender m rx_addr =
     [ucast (mem_iord_byte m (rx_addr + 6 + 0)), ucast (mem_iord_byte m (rx_addr + 6 + 1)),
      ucast (mem_iord_byte m (rx_addr + 6 + 2)), ucast (mem_iord_byte m (rx_addr + 6 + 3)),
      ucast (mem_iord_byte m (rx_addr + 6 + 4)), ucast (mem_iord_byte m (rx_addr + 6 + 5))]"

definition mac_addr_dest :: "buffer \<Rightarrow> u32 \<Rightarrow> u8 list" where
  "mac_addr_dest m rx_addr =
     [ucast (mem_iord_byte m (rx_addr + 0)), ucast (mem_iord_byte m (rx_addr + 1)),
      ucast (mem_iord_byte m (rx_addr + 2)), ucast (mem_iord_byte m (rx_addr + 3)),
      ucast (mem_iord_byte m (rx_addr + 4)), ucast (mem_iord_byte m (rx_addr + 5))]"

definition mac_compare_mac :: "u8 list \<Rightarrow> u8 list \<Rightarrow> u8" where
  "mac_compare_mac mac1 mac2 =
     (if mac1 ! 0 = mac2 ! 0 \<and> mac1 ! 1 = mac2 ! 1 \<and> mac1 ! 2 = mac2 ! 2 \<and>
         mac1 ! 3 = mac2 ! 3 \<and> mac1 ! 4 = mac2 ! 4 \<and> mac1 ! 5 = mac2 ! 5 then 1 else 0)"

section \<open>Addresses\<close>

lemma list_eq_6: "length xs = 6 \<Longrightarrow> xs = [xs ! 0, xs ! 1, xs ! 2, xs ! 3, xs ! 4, xs ! 5]"
  by (rule nth_equalityI) (auto simp: less_Suc_eq nth_Cons' numeral_eq_Suc)

lemma mac_compare_mac_iff:
  assumes "length mac1 = 6" "length mac2 = 6"
  shows "mac_compare_mac mac1 mac2 = 1 \<longleftrightarrow> mac1 = mac2"
  using list_eq_6 [OF assms(1)] list_eq_6 [OF assms(2)]
  by (auto simp: mac_compare_mac_def)

section \<open>Classification\<close>

text \<open>The EtherType of a frame and the protocol byte of its IPv4 header.\<close>

definition ether_type :: "buffer \<Rightarrow> u32 \<Rightarrow> nat" where
  "ether_type m addr = 256 * unat (mem_iord_byte m (addr + 12)) + unat (mem_iord_byte m (addr + 13))"

text \<open>The classification as a table of EtherTypes and IPv4 protocol numbers.\<close>

definition classify :: "nat \<Rightarrow> nat \<Rightarrow> eth_protocol" where
  "classify et proto =
     (if et = 0x0800 then
        (if proto = 1 then ICMP else if proto = 17 then UDP else if proto = 6 then TCP else UNSUPPORTED)
      else if et = 0x0806 then ARP
      else if et = 0x880C then LLDP
      else if et = 0x88F7 then PTP
      else if et = 0x891D then TTE_PCF
      else UNSUPPORTED)"

lemma classify_bytes:
  assumes "x < 256" "y < 256"
  shows "classify (256 * x + y) proto =
    (if x = 0x08 then
       (if y = 0 then
          (if proto = 1 then ICMP else if proto = 17 then UDP else if proto = 6 then TCP else UNSUPPORTED)
        else if y = 0x06 then ARP else UNSUPPORTED)
     else if x = 0x88 then (if y = 0xc then LLDP else if y = 0xf7 then PTP else UNSUPPORTED)
     else if x = 0x89 then (if y = 0x1d then TTE_PCF else UNSUPPORTED)
     else UNSUPPORTED)"
proof -
  have "256 * x + y = 256 * h + l \<longleftrightarrow> x = h \<and> y = l" if "l < 256" for h l :: nat
  proof
    assume eq: "256 * x + y = 256 * h + l"
    have "x = (256 * x + y) div 256" "h = (256 * h + l) div 256" using assms that by auto
    with eq show "x = h \<and> y = l" by simp
  qed simp
  from this [of 0 8] this [of 6 8] this [of 12 136] this [of 247 136] this [of 29 137]
  show ?thesis using assms by (auto simp: classify_def)
qed

lemma word_numeral_iff:
  "(x :: u32) = numeral k \<longleftrightarrow> unat x = unat (numeral k :: u32)"
  by (rule word_unat_eq_iff)

text \<open>A received frame is classified by its 16-bit EtherType and, for IPv4, by the protocol
  number of its header, and by nothing else.\<close>

theorem mac_packet_type_classifies:
  "mac_packet_type m addr = classify (ether_type m addr) (unat (mem_iord_byte m (addr + 23)))"
  unfolding ether_type_def classify_bytes [OF eth0.rd_less eth0.rd_less]
  by (simp add: mac_packet_type_def Let_def ucast_u8_eq_iff eth0.rd_less word_numeral_iff unat_eq_0)

end
