(* ===== verification/Checksum.thy ===== *)
theory Checksum
  imports Patmos_IO
begin

text \<open>
  The Internet checksum as the IPv4, UDP and TCP layers compute it: a 32-bit sum of big-endian
  16-bit words, three conditional folds of the carries, complement.  The folding code occurs in
  \<^verbatim>\<open>ipv4.c\<close>, \<^verbatim>\<open>udp.c\<close> and \<^verbatim>\<open>tcp.c\<close> with the same text.  It is related here to one's complement
  arithmetic on natural numbers.
\<close>

section \<open>The code\<close>

definition csum_fold :: "u32 \<Rightarrow> u32" where
  "csum_fold c = (if (c AND 0xFFFF0000) > 0 then (c AND 0xFFFF) + drop_bit 16 c else c)"

definition csum_fold3 :: "u32 \<Rightarrow> u32" where
  "csum_fold3 c = csum_fold (csum_fold (csum_fold c))"

text \<open>The values of \<open>i\<close> in \<open>for (i = 0; i < n; i = i + 2)\<close>.\<close>

definition evens :: "nat \<Rightarrow> nat list" where
  "evens n = map (\<lambda>k. 2 * k) [0..<(n + 1) div 2]"

section \<open>Natural-number view\<close>

definition byte_at :: "buffer \<Rightarrow> u32 \<Rightarrow> nat" where
  "byte_at b a = unat (mem_iord_byte b a)"

definition half_at :: "buffer \<Rightarrow> u32 \<Rightarrow> nat" where
  "half_at b a = 256 * byte_at b a + byte_at b (a + 1)"

text \<open>The sum of \<open>n\<close> consecutive big-endian 16-bit words from \<open>a\<close>.\<close>

definition half_sum :: "buffer \<Rightarrow> u32 \<Rightarrow> nat \<Rightarrow> nat" where
  "half_sum b a n = (\<Sum>k < n. half_at b (a + of_nat (2 * k)))"

text \<open>The representative of \<open>n\<close> modulo 65535 that one's complement addition gives.\<close>

definition ones_rep :: "nat \<Rightarrow> nat" where
  "ones_rep n = (if n = 0 then 0 else (n - 1) mod 65535 + 1)"

lemma byte_at_less: "byte_at b a < 256"
  by (simp add: byte_at_def eth0.rd_less)

lemma mem_iord_byte_of_nat: "mem_iord_byte b a = of_nat (byte_at b a)"
  by (simp add: byte_at_def)

lemma half_at_less: "half_at b a < 65536"
  using byte_at_less [of b a] byte_at_less [of b "a + 1"] by (simp add: half_at_def)

lemma half_word: "push_bit 8 (mem_iord_byte b a) + mem_iord_byte b (a + 1) = of_nat (half_at b a)"
  by (simp add: half_at_def mem_iord_byte_of_nat push_bit_eq_mult)

lemma half_word_or: "push_bit 8 (mem_iord_byte b a) OR mem_iord_byte b a' = push_bit 8 (mem_iord_byte b a) + mem_iord_byte b a'"
  by (intro disjunctive_add [symmetric]) (auto simp: bit_push_bit_iff bit_mem_iord_byte)

lemma half_sum_le: "half_sum b a n \<le> 65535 * n"
proof -
  have "half_sum b a n \<le> (\<Sum>k < n. 65535)"
    unfolding half_sum_def by (rule sum_mono) (use half_at_less less_Suc_eq_le in \<open>simp add: less_Suc_eq_le [symmetric]\<close>)
  then show ?thesis by simp
qed

section \<open>Folding\<close>

definition fold_nat :: "nat \<Rightarrow> nat" where
  "fold_nat n = (if n < 65536 then n else n mod 65536 + n div 65536)"

lemma unat_halves: "unat (take_bit 16 (c :: u32)) = unat c mod 65536" "unat (drop_bit 16 c) = unat c div 65536"
  using take_bit_eq_mod [of 16 "unat c"] drop_bit_eq_div [of 16 "unat c"]
  by (simp_all only: unsigned_take_bit_eq unat_drop_bit_eq) simp_all

lemma high_half_pos: "(c AND 0xFFFF0000 > (0 :: u32)) \<longleftrightarrow> \<not> unat c < 65536"
proof -
  have "c AND NOT (mask 16) = push_bit 16 (drop_bit 16 c)"
    by (auto intro!: bit_eqI simp: bit_simps)
  moreover have "NOT (mask 16) = (0xFFFF0000 :: u32)" by (simp add: mask_eq_exp_minus_1)
  ultimately have eq: "c AND 0xFFFF0000 = push_bit 16 (drop_bit 16 c)" by simp
  have "push_bit 16 (drop_bit 16 c) = 0 \<longleftrightarrow> unat c < 65536"
  proof
    assume "push_bit 16 (drop_bit 16 c) = 0"
    then have "take_bit 16 c = c" using bits_ident [of 16 c] by simp
    then show "unat c < 65536" using unat_halves(1) [of c] by simp
  next
    assume "unat c < 65536"
    then have "drop_bit 16 c = 0" using unat_halves(2) [of c] by (simp add: unat_eq_0)
    then show "push_bit 16 (drop_bit 16 c) = 0" by simp
  qed
  then show ?thesis by (simp add: eq word_gt_0)
qed

lemma unat_csum_fold: "unat (csum_fold c) = fold_nat (unat c)"
proof -
  have "unat c mod 65536 + unat c div 65536 < 4294967296"
    using unat_less_32 [of c] by (simp add: div_less_dividend)
  then show ?thesis
    by (simp add: csum_fold_def high_half_pos fold_nat_def and_FFFF_take_bit unat_word_ariths unat_halves)
qed

lemma fold_nat_mod: "fold_nat n mod 65535 = n mod 65535"
proof -
  define q r where "q = n div 65536" and "r = n mod 65536"
  have "n = 65536 * q + r" by (simp add: q_def r_def)
  then have "n mod 65535 = ((r + q) + 65535 * q) mod 65535" by (intro arg_cong [of _ _ "\<lambda>k. k mod 65535"]) simp
  also have "\<dots> = (r + q) mod 65535" by (rule mod_mult_self2)
  finally have "n mod 65535 = (r + q) mod 65535" .
  moreover have "fold_nat n = (if n < 65536 then n else r + q)"
    by (simp only: fold_nat_def q_def r_def)
  ultimately show ?thesis by presburger
qed

lemma fold_nat_pos: "0 < n \<Longrightarrow> 0 < fold_nat n"
  by (auto simp: fold_nat_def div_greater_zero_iff)

lemma fold_nat_0 [simp]: "fold_nat 0 = 0"
  by (simp add: fold_nat_def)

lemma fold_nat_bounds:
  "n < 4294967296 \<Longrightarrow> fold_nat n < 131072" "n < 131072 \<Longrightarrow> fold_nat n \<le> 65536"
  "n \<le> 65536 \<Longrightarrow> fold_nat n \<le> 65535"
  by (auto simp: fold_nat_def)

lemma ones_rep_unique:
  assumes "0 < n" "0 < r" "r \<le> 65535" "r mod 65535 = n mod 65535"
  shows "r = ones_rep n"
proof -
  from assms(4) obtain q1 q2 where q: "r + 65535 * q1 = n + 65535 * q2"
    by (metis nat_mod_eq_iff)
  with assms have "(r - 1) + 65535 * q1 = (n - 1) + 65535 * q2" by linarith
  then have "(r - 1) mod 65535 = (n - 1) mod 65535" by (metis mod_mult_self2)
  then show ?thesis using assms by (simp add: ones_rep_def)
qed

lemma unat_csum_fold3: "unat (csum_fold3 c) = ones_rep (unat c)"
proof (cases "unat c = 0")
  case True
  then show ?thesis by (simp add: csum_fold3_def unat_csum_fold ones_rep_def)
next
  case False
  then show ?thesis
    unfolding csum_fold3_def unat_csum_fold using unat_less_32 [of c]
    by (intro ones_rep_unique) (auto intro!: fold_nat_pos fold_nat_bounds simp: fold_nat_mod)
qed

section \<open>Complement and verification\<close>

text \<open>The last step of the three checksum functions.\<close>

definition csum_not :: "u32 \<Rightarrow> u32" where
  "csum_not c = NOT c AND 0xFFFF"

lemma ones_rep_le: "ones_rep n \<le> 65535"
  by (simp add: ones_rep_def Suc_le_eq)

lemma ones_rep_mod: "ones_rep n mod 65535 = n mod 65535"
proof (cases "n = 0")
  case False
  have "ones_rep n mod 65535 = ((n - 1) mod 65535 + 1) mod 65535" using False by (simp add: ones_rep_def)
  also have "\<dots> = (n - 1 + 1) mod 65535" by (rule mod_add_left_eq)
  finally show ?thesis using False by simp
qed (simp add: ones_rep_def)

lemma ones_rep_full_iff: "ones_rep n = 65535 \<longleftrightarrow> 0 < n \<and> 65535 dvd n"
proof
  assume full: "ones_rep n = 65535"
  then have "n mod 65535 = 0" using ones_rep_mod [of n] by simp
  moreover have "n \<noteq> 0" using full by (cases n) (simp_all add: ones_rep_def)
  ultimately show "0 < n \<and> 65535 dvd n" by auto
next
  assume "0 < n \<and> 65535 dvd n"
  then have "65535 = ones_rep n" by (intro ones_rep_unique) auto
  then show "ones_rep n = 65535" by simp
qed

lemma unat_csum_not: "unat c \<le> 65535 \<Longrightarrow> unat (csum_not c) = 65535 - unat c"
proof -
  assume le: "unat c \<le> 65535"
  then have c: "take_bit 16 c = c"
    using unat_halves(1) [of c] by (simp add: word_unat_eq_iff)
  have "csum_not c = mask 16 - take_bit 16 c"
    unfolding csum_not_def and_FFFF_take_bit by (simp add: take_bit_not_eq_mask_diff)
  also have "\<dots> = 65535 - c" by (simp add: c mask_eq_exp_minus_1)
  finally show ?thesis using le by (simp add: unat_sub word_le_nat_alt)
qed

lemma unat_checksum: "unat (csum_not (csum_fold3 c)) = 65535 - ones_rep (unat c)"
  using ones_rep_le by (simp add: unat_csum_not unat_csum_fold3)

lemma checksum_zero_iff: "csum_not (csum_fold3 c) = 0 \<longleftrightarrow> 0 < unat c \<and> 65535 dvd unat c"
proof -
  have "csum_not (csum_fold3 c) = 0 \<longleftrightarrow> ones_rep (unat c) = 65535"
    using ones_rep_le [of "unat c"] by (auto simp: unat_eq_0 [symmetric] unat_checksum)
  then show ?thesis by (simp add: ones_rep_full_iff)
qed

text \<open>Adding the complement of a sum to the sum gives a sum that verifies.\<close>

lemma checksum_closes: "0 < n + (65535 - ones_rep n) \<and> 65535 dvd n + (65535 - ones_rep n)"
proof (cases "n = 0")
  case False
  have le: "ones_rep n \<le> n"
    using mod_less_eq_dividend [of "n - 1" 65535] False by (simp add: ones_rep_def)
  then have "65535 dvd n - ones_rep n"
    using ones_rep_mod [of n] by (metis mod_eq_dvd_iff_nat)
  moreover have "n + (65535 - ones_rep n) = (n - ones_rep n) + 65535"
    using le ones_rep_le [of n] by linarith
  ultimately show ?thesis using False by simp
qed (simp add: ones_rep_def)

section \<open>The summing loop\<close>

lemma evens_double [simp]: "evens (2 * n) = map (\<lambda>k. 2 * k) [0..<n]"
  by (simp add: evens_def)

lemma half_sum_Suc: "half_sum b a (Suc n) = half_sum b a n + half_at b (a + of_nat (2 * n))"
  by (simp add: half_sum_def)

lemma csum_loop:
  "fold (\<lambda>i c. c + push_bit 8 (mem_iord_byte b (p + of_nat i)) + (mem_iord_byte b (p + 1 + of_nat i) AND 0xFF))
     (evens (2 * n)) c = c + of_nat (half_sum b p n)"
  unfolding evens_double
proof (induction n)
  case 0
  then show ?case by (simp add: half_sum_def)
next
  case (Suc n)
  then show ?case
    by (simp add: half_sum_Suc and_FF_take_bit half_word [symmetric] ac_simps del: of_nat_mult)
qed

section \<open>Sums and stores\<close>

lemma mem_and_FF: "mem_iord_byte b a AND 0xFF = of_nat (byte_at b a)"
  by (simp add: and_FF_take_bit byte_at_def)

lemma byte_at_wr [frame_simps]:
  "byte_at (mem_iowr_byte b a v) a' = (if a = a' then unat (take_bit 8 v) else byte_at b a')"
  by (simp add: byte_at_def mem_iord_iowr_byte)

lemma half_sum_add:
  "half_sum b a (n + k) = half_sum b a n + half_sum b (a + of_nat (2 * n)) k"
proof (induction k)
  case (Suc k)
  then show ?case by (simp add: half_sum_Suc algebra_simps)
qed (simp add: half_sum_def)

lemma half_sum_cong:
  assumes "\<And>k. k < 2 * n \<Longrightarrow> mem_iord_byte b (p + of_nat k) = mem_iord_byte b' (q + of_nat k)"
  shows "half_sum b p n = half_sum b' q n"
  unfolding half_sum_def half_at_def byte_at_def
proof (rule sum.cong)
  fix k assume "k \<in> {..<n}"
  then show "256 * unat (mem_iord_byte b (p + of_nat (2 * k))) + unat (mem_iord_byte b (p + of_nat (2 * k) + 1)) =
      256 * unat (mem_iord_byte b' (q + of_nat (2 * k))) + unat (mem_iord_byte b' (q + of_nat (2 * k) + 1))"
    using assms [of "2 * k"] assms [of "2 * k + 1"] by (simp add: ac_simps)
qed simp

lemma half_sum_1: "half_sum b a 1 = half_at b a"
  by (simp add: half_sum_def)

lemma offset_before:
  assumes "i < 2 * n" "2 * n \<le> unat (x - a :: u32)"
  shows "x \<noteq> a + of_nat i"
proof
  assume "x = a + of_nat i"
  moreover have "i < 2 ^ 32" using assms unat_less_32 [of "x - a"] by simp
  ultimately have "unat (x - a) = i" by (simp add: offset_eq_iff)
  with assms show False by simp
qed

text \<open>A store outside the summed words does not change the sum.\<close>

lemma half_sum_wr:
  assumes "2 * n \<le> unat (x - a)"
  shows "half_sum (mem_iowr_byte b x v) a n = half_sum b a n"
  unfolding half_sum_def half_at_def
proof (rule sum.cong)
  fix k assume "k \<in> {..<n}"
  then have "2 * k < 2 * n" "2 * k + 1 < 2 * n" by auto
  then have "x \<noteq> a + of_nat (2 * k)" "x \<noteq> a + of_nat (2 * k + 1)"
    using offset_before [OF _ assms] by blast+
  then show "256 * byte_at (mem_iowr_byte b x v) (a + of_nat (2 * k)) +
      byte_at (mem_iowr_byte b x v) (a + of_nat (2 * k) + 1) =
      256 * byte_at b (a + of_nat (2 * k)) + byte_at b (a + of_nat (2 * k) + 1)"
    by (simp add: byte_at_wr add.assoc add.commute [of 1])
qed simp

text \<open>Storing a checksum: high byte, then low byte.\<close>

definition store16 :: "buffer \<Rightarrow> u32 \<Rightarrow> u16 \<Rightarrow> buffer" where
  "store16 b a c = mem_iowr_byte (mem_iowr_byte b a (ucast (drop_bit 8 c))) (a + 1) (ucast (c AND 0xFF))"

lemma bytes_of_u16: "256 * unat (take_bit 8 (ucast (drop_bit 8 (c :: u16)) :: u32))
  + unat (take_bit 8 (ucast (c AND 0xFF) :: u32)) = unat c"
proof -
  have "c AND 0xFF = take_bit 8 c" by (simp add: take_bit_eq_mask mask_eq_exp_minus_1)
  then have lo: "unat (take_bit 8 (ucast (c AND 0xFF) :: u32)) = unat c mod 256"
    using take_bit_eq_mod [of 8 "unat c"] by (simp add: unsigned_take_bit_eq unsigned_ucast_eq min_def)
  have hi: "unat (take_bit 8 (ucast (drop_bit 8 c) :: u32)) = unat c div 256"
    using drop_bit_eq_div [of 8 "unat c"] unat_less_16 [of c]
    by (simp add: unsigned_take_bit_eq unsigned_ucast_eq unat_drop_bit_eq take_bit_nat_eq_self less_mult_imp_div_less)
  show ?thesis unfolding lo hi by simp
qed

lemma half_at_store16: "half_at (store16 b a c) a = unat c"
  using bytes_of_u16 [of c] by (simp add: half_at_def store16_def byte_at_wr)

lemma half_sum_store16:
  "2 * n \<le> unat (x - a) \<Longrightarrow> 2 * n \<le> unat (x + 1 - a) \<Longrightarrow> half_sum (store16 b x c) a n = half_sum b a n"
  by (simp add: store16_def half_sum_wr)

section \<open>Frames on the wire\<close>

text \<open>The same \<open>n\<close> bytes at \<open>p\<close> in buffer \<open>b\<close> and at \<open>p'\<close> in buffer \<open>b'\<close>: a frame on the wire.\<close>

definition same_frame :: "nat \<Rightarrow> buffer \<Rightarrow> u32 \<Rightarrow> buffer \<Rightarrow> u32 \<Rightarrow> bool" where
  "same_frame n b p b' p' \<longleftrightarrow>
     list_all (\<lambda>k. mem_iord_byte b (p + of_nat k) = mem_iord_byte b' (p' + of_nat k)) [0..<n]"

lemma same_frame_byte:
  assumes "same_frame n b p b' p'" "unat k < n"
  shows "mem_iord_byte b (p + k) = mem_iord_byte b' (p' + k)"
proof -
  have "mem_iord_byte b (p + of_nat (unat k)) = mem_iord_byte b' (p' + of_nat (unat k))"
    using assms unfolding same_frame_def list_all_iff by (metis atLeast_upt lessThan_iff)
  then show ?thesis by simp
qed

end
