(* ===== verification/Ipv4.thy ===== *)
theory Ipv4
  imports Mac Checksum
begin

text \<open>
  The IPv4 layer \<^verbatim>\<open>c/ethlib/ipv4.c\<close>: header fields of a received packet, the address of the
  node, and the header checksum.

  Plain \<open>char\<close> has an implementation-defined sign.  The functions that shift a \<open>char\<close>
  right take the sign as a parameter \<open>sc\<close> (\<open>True\<close>: signed); their results are the eight
  bits of the \<open>char\<close>.
\<close>

record ip_state = mac_state +
  my_ip :: "u8 list"

record iphead_t =
  ver_headlen :: u8
  dscp_ecn :: u8
  ip_length :: u16
  identification :: u16
  flags_fragmentoff :: u16
  ttl :: u8
  protocol :: u8
  head_checksum :: u16
  source_ip :: "u8 list"
  destination_ip :: "u8 list"

definition my_ip_init :: "u8 list" where
  "my_ip_init = [192, 168, 24, 50]"

text \<open>The node after start-up, with packet buffer \<open>b\<close>.\<close>

definition boot_state :: "buffer \<Rightarrow> ip_state" where
  "boot_state b = \<lparr>trace = [], buff = b, buff1 = \<lambda>_. 0, my_mac = my_mac_init, my_ip = my_ip_init\<rparr>"

text \<open>\<open>c >> n\<close> for a \<open>char c\<close> stored back into a \<open>char\<close>: promotion to \<open>int\<close>, arithmetic shift.\<close>

definition char_shr :: "bool \<Rightarrow> nat \<Rightarrow> u8 \<Rightarrow> u8" where
  "char_shr sc n c = ucast (signed_drop_bit n (if sc then scast c else ucast c :: u32))"

section \<open>Header fields\<close>

definition ipv4_get_version :: "bool \<Rightarrow> buffer \<Rightarrow> u32 \<Rightarrow> u8" where
  "ipv4_get_version sc b pkt_addr =
     (let version = ucast (mem_iord_byte b (pkt_addr + 14)) in char_shr sc 4 version)"

definition ipv4_get_type_of_service :: "bool \<Rightarrow> buffer \<Rightarrow> u32 \<Rightarrow> u8" where
  "ipv4_get_type_of_service sc b pkt_addr =
     (let type = ucast (mem_iord_byte b (pkt_addr + 14 + 1)) in char_shr sc 2 type)"

definition ipv4_get_length :: "buffer \<Rightarrow> u32 \<Rightarrow> u16" where
  "ipv4_get_length b pkt_addr =
     (let len = ucast (mem_iord_byte b (pkt_addr + 14 + 2)) :: u16;
          len = push_bit 8 len
      in ucast (ucast len + mem_iord_byte b (pkt_addr + 14 + 3)))"

definition ipv4_get_identification :: "buffer \<Rightarrow> u32 \<Rightarrow> u32" where
  "ipv4_get_identification b pkt_addr =
     (let identification = mem_iord_byte b (pkt_addr + 14 + 4);
          identification = push_bit 8 identification
      in identification + mem_iord_byte b (pkt_addr + 14 + 5))"

definition ipv4_get_flags :: "bool \<Rightarrow> buffer \<Rightarrow> u32 \<Rightarrow> u8" where
  "ipv4_get_flags sc b pkt_addr =
     (let flags = ucast (mem_iord_byte b (pkt_addr + 14 + 6)) in char_shr sc 5 flags)"

definition ipv4_get_ttl :: "buffer \<Rightarrow> u32 \<Rightarrow> u8" where
  "ipv4_get_ttl b pkt_addr = ucast (mem_iord_byte b (pkt_addr + 14 + 8))"

definition ipv4_get_protocol :: "buffer \<Rightarrow> u32 \<Rightarrow> u8" where
  "ipv4_get_protocol b pkt_addr = ucast (mem_iord_byte b (pkt_addr + 14 + 9))"

definition ipv4_get_checksum :: "buffer \<Rightarrow> u32 \<Rightarrow> u32" where
  "ipv4_get_checksum b pkt_addr =
     push_bit 8 (mem_iord_byte b (pkt_addr + 24)) + (mem_iord_byte b (pkt_addr + 25) AND 0xFF)"

definition ipv4_get_source_ip :: "buffer \<Rightarrow> u32 \<Rightarrow> u8 list" where
  "ipv4_get_source_ip b pkt_addr = map (\<lambda>i. ucast (mem_iord_byte b (pkt_addr + 26 + of_nat i))) [0..<4]"

definition ipv4_get_destination_ip :: "buffer \<Rightarrow> u32 \<Rightarrow> u8 list" where
  "ipv4_get_destination_ip b pkt_addr =
     map (\<lambda>i. ucast (mem_iord_byte b (pkt_addr + 30 + of_nat i))) [0..<4]"

section \<open>Support functions\<close>

definition ipv4_compare_ip :: "u8 list \<Rightarrow> u8 list \<Rightarrow> u32" where
  "ipv4_compare_ip ip1 ip2 =
     (if ip1 ! 0 = ip2 ! 0 \<and> ip1 ! 1 = ip2 ! 1 \<and> ip1 ! 2 = ip2 ! 2 \<and> ip1 ! 3 = ip2 ! 3 then 1 else 0)"

definition ipv4_set_my_ip :: "u8 list \<Rightarrow> 'a ip_state_scheme \<Rightarrow> 'a ip_state_scheme" where
  "ipv4_set_my_ip new_ip s = s\<lparr>my_ip := fold (\<lambda>i ip. ip[i := new_ip ! i]) [0..<4] (my_ip s)\<rparr>"

text \<open>The loop over the header words, the same in the two checksum functions.\<close>

definition ipv4_header_sum :: "buffer \<Rightarrow> u32 \<Rightarrow> u32" where
  "ipv4_header_sum b pkt_addr =
     fold (\<lambda>i checksum. checksum + push_bit 8 (mem_iord_byte b (pkt_addr + 14 + of_nat i))
             + (mem_iord_byte b (pkt_addr + 15 + of_nat i) AND 0xFF)) (evens 20) 0"

definition ipv4_compute_checksum :: "buffer \<Rightarrow> u32 \<Rightarrow> u16" where
  "ipv4_compute_checksum b pkt_addr =
     (let checksum = ipv4_header_sum b pkt_addr;
          checksum = checksum - push_bit 8 (mem_iord_byte b (pkt_addr + 24))
                       + (mem_iord_byte b (pkt_addr + 25) AND 0xFF);
          checksum = csum_fold3 checksum;
          checksum = csum_not checksum
      in ucast checksum)"

definition ipv4_verify_checksum :: "buffer \<Rightarrow> u32 \<Rightarrow> u32" where
  "ipv4_verify_checksum b pkt_addr =
     (let checksum = ipv4_header_sum b pkt_addr;
          checksum = csum_fold3 checksum;
          checksum = csum_not checksum
      in if checksum = 0 then 1 else 0)"

section \<open>Addresses\<close>

lemma upt_4: "[0..<4] = [0, 1, 2, 3 :: nat]"
  by (simp add: upt_rec)

lemma ipv4_get_source_ip_eq: "ipv4_get_source_ip b pkt_addr =
  [ucast (mem_iord_byte b (pkt_addr + 26)), ucast (mem_iord_byte b (pkt_addr + 27)),
   ucast (mem_iord_byte b (pkt_addr + 28)), ucast (mem_iord_byte b (pkt_addr + 29))]"
  by (simp add: ipv4_get_source_ip_def upt_4)

lemma ipv4_get_destination_ip_eq: "ipv4_get_destination_ip b pkt_addr =
  [ucast (mem_iord_byte b (pkt_addr + 30)), ucast (mem_iord_byte b (pkt_addr + 31)),
   ucast (mem_iord_byte b (pkt_addr + 32)), ucast (mem_iord_byte b (pkt_addr + 33))]"
  by (simp add: ipv4_get_destination_ip_def upt_4)

lemma length_ips [simp]:
  "length (ipv4_get_source_ip b p) = 4" "length (ipv4_get_destination_ip b p) = 4"
  by (simp_all add: ipv4_get_source_ip_def ipv4_get_destination_ip_def)

lemma ipv4_compare_ip_refl [simp]: "ipv4_compare_ip ip ip = 1"
  by (simp add: ipv4_compare_ip_def)

lemma list_eq_4: "length xs = 4 \<Longrightarrow> xs = [xs ! 0, xs ! 1, xs ! 2, xs ! 3]"
  by (rule nth_equalityI) (auto simp: less_Suc_eq nth_Cons' numeral_eq_Suc)

lemma ipv4_compare_ip_iff:
  assumes "length ip1 = 4" "length ip2 = 4"
  shows "ipv4_compare_ip ip1 ip2 = 1 \<longleftrightarrow> ip1 = ip2" "ipv4_compare_ip ip1 ip2 = 0 \<longleftrightarrow> ip1 \<noteq> ip2"
  using list_eq_4 [OF assms(1)] list_eq_4 [OF assms(2)]
  by (auto simp: ipv4_compare_ip_def)

lemma ipv4_set_my_ip_eq:
  assumes "length (my_ip s) = 4" "length new_ip = 4"
  shows "my_ip (ipv4_set_my_ip new_ip s) = new_ip"
proof -
  obtain a b c d where old: "my_ip s = [a, b, c, d]" using list_eq_4 [OF assms(1)] by blast
  obtain a' b' c' d' where new: "new_ip = [a', b', c', d']" using list_eq_4 [OF assms(2)] by blast
  show ?thesis by (simp add: ipv4_set_my_ip_def upt_4 old new)
qed

section \<open>Header checksum\<close>

lemma ipv4_get_length_eq:
  "ipv4_get_length b p = ucast (push_bit 8 (mem_iord_byte b (p + 16)) OR mem_iord_byte b (p + 17))"
proof -
  have "(ucast (push_bit 8 (ucast (mem_iord_byte b a) :: u16)) :: u32) = push_bit 8 (mem_iord_byte b a)" for a
    by (auto intro!: bit_eqI simp: bit_unsigned_iff bit_push_bit_iff bit_mem_iord_byte)
  then show ?thesis by (simp add: ipv4_get_length_def Let_def half_word_or)
qed

lemma ipv4_header_sum_eq: "ipv4_header_sum b pkt_addr = of_nat (half_sum b (pkt_addr + 14) 10)"
  using csum_loop [of b "pkt_addr + 14" 10 0] by (simp add: ipv4_header_sum_def)

lemma unat_ipv4_header_sum: "unat (ipv4_header_sum b pkt_addr) = half_sum b (pkt_addr + 14) 10"
  using half_sum_le [of b "pkt_addr + 14" 10]
  by (simp add: ipv4_header_sum_eq unat_of_nat take_bit_nat_eq_self)

text \<open>The header sum splits into the checksum field and the rest.\<close>

definition ipv4_rest_sum :: "buffer \<Rightarrow> u32 \<Rightarrow> nat" where
  "ipv4_rest_sum b pkt_addr =
     half_sum b (pkt_addr + 14) 5 + half_sum b (pkt_addr + 26) 4"

lemma ipv4_header_split:
  "half_sum b (pkt_addr + 14) 10 = ipv4_rest_sum b pkt_addr + half_at b (pkt_addr + 24)"
proof -
  have "half_sum b (pkt_addr + 14) (5 + (1 + 4)) = ipv4_rest_sum b pkt_addr + half_at b (pkt_addr + 24)"
    unfolding half_sum_add half_sum_1 ipv4_rest_sum_def by simp
  then show ?thesis by simp
qed

lemma ipv4_compute_checksum_eq:
  "unat (ipv4_compute_checksum b pkt_addr) =
     65535 - ones_rep (ipv4_rest_sum b pkt_addr + 2 * byte_at b (pkt_addr + 25))"
proof -
  let ?n = "ipv4_rest_sum b pkt_addr + 2 * byte_at b (pkt_addr + 25)"
  have lt: "?n < 2 ^ 32"
    using half_sum_le [of b "pkt_addr + 14" 5] half_sum_le [of b "pkt_addr + 26" 4]
      byte_at_less [of b "pkt_addr + 25"] by (simp add: ipv4_rest_sum_def)
  have "ipv4_header_sum b pkt_addr - push_bit 8 (mem_iord_byte b (pkt_addr + 24))
      + (mem_iord_byte b (pkt_addr + 25) AND 0xFF) = of_nat ?n"
    unfolding mem_and_FF
    by (simp add: ipv4_header_sum_eq ipv4_header_split half_at_def mem_iord_byte_of_nat push_bit_eq_mult)
  then have "ipv4_compute_checksum b pkt_addr = ucast (csum_not (csum_fold3 (of_nat ?n)))"
    by (simp add: ipv4_compute_checksum_def Let_def)
  then have "unat (ipv4_compute_checksum b pkt_addr) = take_bit 16 (65535 - ones_rep ?n)"
    by (simp only: unsigned_ucast_eq unat_checksum unat_of_nat_u32 [OF lt]) simp
  then show ?thesis by (simp add: take_bit_nat_eq_self)
qed

lemma ipv4_verify_checksum_eq:
  "ipv4_verify_checksum b pkt_addr =
     (if 0 < half_sum b (pkt_addr + 14) 10 \<and> 65535 dvd half_sum b (pkt_addr + 14) 10 then 1 else 0)"
  by (simp add: ipv4_verify_checksum_def Let_def checksum_zero_iff unat_ipv4_header_sum)

text \<open>What the send functions do with the header checksum: compute it and store its two bytes.\<close>

definition ipv4_store_checksum :: "buffer \<Rightarrow> u32 \<Rightarrow> buffer" where
  "ipv4_store_checksum b tx_addr = store16 b (tx_addr + 24) (ipv4_compute_checksum b tx_addr)"

lemma ipv4_rest_sum_store: "ipv4_rest_sum (store16 b (p + 24) c) p = ipv4_rest_sum b p"
  by (simp add: ipv4_rest_sum_def half_sum_store16)

lemma ipv4_store_verifies:
  assumes "byte_at b (p + 25) = 0"
  shows "ipv4_verify_checksum (ipv4_store_checksum b p) p = 1"
  using checksum_closes [of "ipv4_rest_sum b p"] assms
  by (simp add: ipv4_verify_checksum_eq ipv4_header_split ipv4_store_checksum_def half_at_store16
      ipv4_rest_sum_store ipv4_compute_checksum_eq)

text \<open>Storing the complement of a sum that counts \<open>k\<close> too much closes the header only for \<open>k = 0\<close>.\<close>

lemma checksum_closes_iff:
  assumes "k < 65535"
  shows "0 < n + (65535 - ones_rep (n + k)) \<and> 65535 dvd n + (65535 - ones_rep (n + k)) \<longleftrightarrow> k = 0"
proof (cases "k = 0")
  case True
  then show ?thesis using checksum_closes [of n] by simp
next
  case False
  have "\<not> 65535 dvd n + (65535 - ones_rep (n + k))"
  proof
    assume "65535 dvd n + (65535 - ones_rep (n + k))"
    then have "(n + (65535 - ones_rep (n + k)) + ones_rep (n + k)) mod 65535 = ones_rep (n + k) mod 65535" by auto
    then have "n mod 65535 = (n + k) mod 65535" using ones_rep_le [of "n + k"] by (simp add: ones_rep_mod)
    then have "65535 dvd k" by (metis add_diff_cancel_left' le_add1 mod_eq_dvd_iff_nat)
    with False assms show False by (auto dest: dvd_imp_le)
  qed
  with False show ?thesis by simp
qed

text \<open>C16: a header into which the computed checksum has been stored is accepted by
  \<open>ipv4_verify_checksum\<close> if and only if the low byte of the checksum field was 0 before.  The
  comment on \<open>ipv4_compute_checksum\<close> says that the function ignores the field; it subtracts the high
  byte but adds the low byte a second time, so any other value there gives a header that no
  verification accepts.\<close>

theorem ipv4_checksum_roundtrip_iff:
  "ipv4_verify_checksum (ipv4_store_checksum b p) p = 1 \<longleftrightarrow> mem_iord_byte b (p + 25) = 0"
proof -
  have "2 * byte_at b (p + 25) < 65535" using byte_at_less [of b "p + 25"] by simp
  from checksum_closes_iff [OF this, of "ipv4_rest_sum b p"]
  have "ipv4_verify_checksum (ipv4_store_checksum b p) p = 1 \<longleftrightarrow> byte_at b (p + 25) = 0"
    by (simp add: ipv4_verify_checksum_eq ipv4_header_split ipv4_store_checksum_def half_at_store16
        ipv4_rest_sum_store ipv4_compute_checksum_eq)
  then show ?thesis by (simp add: byte_at_def unat_eq_0)
qed

text \<open>The header checksum is accepted exactly when the one's complement sum of the ten header
  words is the negative zero, that is when their sum is a positive multiple of 65535.\<close>

theorem ipv4_verify_checksum_iff:
  "ipv4_verify_checksum b p = 1 \<longleftrightarrow>
     0 < half_sum b (p + 14) 10 \<and> half_sum b (p + 14) 10 mod 65535 = 0"
  by (auto simp: ipv4_verify_checksum_eq)

text \<open>What \<open>ipv4_compute_checksum\<close> returns: it leaves out the high byte of the checksum field
  but counts its low byte twice, instead of ignoring the field.\<close>

theorem ipv4_compute_checksum_exact:
  "unat (ipv4_compute_checksum b p) =
     65535 - ones_rep (ipv4_rest_sum b p + 2 * unat (mem_iord_byte b (p + 25)))"
  using ipv4_compute_checksum_eq [of b p] by (simp add: byte_at_def)

end
