(* ===== verification/Icmp.thy ===== *)
theory Icmp
  imports Ipv4
begin

text \<open>
  The ICMP layer \<^verbatim>\<open>c/ethlib/icmp.c\<close>: the ping responder.  The reply is built in the packet
  buffer, so \<open>icmp_build_ping_reply\<close> is a function of the buffer and of the node's addresses.
\<close>

definition icmp_get_type :: "buffer \<Rightarrow> u32 \<Rightarrow> u8" where
  "icmp_get_type b pkt_addr = ucast (mem_iord_byte b (pkt_addr + 34))"

definition icmp_get_code :: "buffer \<Rightarrow> u32 \<Rightarrow> u8" where
  "icmp_get_code b pkt_addr = ucast (mem_iord_byte b (pkt_addr + 35))"

definition icmp_get_quench :: "buffer \<Rightarrow> u32 \<Rightarrow> u32" where
  "icmp_get_quench b pkt_addr = mem_iord b (pkt_addr + 38)"

definition icmp_build_ping_reply ::
  "u8 list \<Rightarrow> u8 list \<Rightarrow> u32 \<Rightarrow> u32 \<Rightarrow> buffer \<Rightarrow> u32 \<times> buffer" where
  "icmp_build_ping_reply mac ip rx_addr tx_addr b =
     (let frame_length = 14 + (push_bit 8 (mem_iord_byte b (rx_addr + 16)) OR mem_iord_byte b (rx_addr + 17));
          b = (if rx_addr \<noteq> tx_addr then
                 fold (\<lambda>i b. mem_iowr_byte b (tx_addr + of_nat i) (mem_iord_byte b (rx_addr + of_nat i)))
                   [0..<unat frame_length] b
               else b);
          b = fold (\<lambda>i b. mem_iowr_byte
                 (mem_iowr_byte b (tx_addr + of_nat i) (mem_iord_byte b (tx_addr + 6 + of_nat i)))
                 (tx_addr + 6 + of_nat i) (ucast (mac ! i))) [0..<6] b;
          b = fold (\<lambda>i b. mem_iowr_byte
                 (mem_iowr_byte b (tx_addr + 30 + of_nat i) (mem_iord_byte b (tx_addr + 26 + of_nat i)))
                 (tx_addr + 26 + of_nat i) (ucast (ip ! i))) [0..<4] b;
          b = mem_iowr_byte b (tx_addr + 34) 0x00;
          checksum = ucast (push_bit 8 (mem_iord_byte b (tx_addr + 36)) OR mem_iord_byte b (tx_addr + 37)) :: u16;
          checksum = ucast (NOT (NOT (ucast checksum :: u32) - 0x0800)) :: u16;
          b = mem_iowr_byte b (tx_addr + 36) (ucast (drop_bit 8 checksum));
          b = mem_iowr_byte b (tx_addr + 37) (ucast (checksum AND 0xff))
      in (frame_length, b))"

definition icmp_process_received ::
  "env \<Rightarrow> u32 \<Rightarrow> u32 \<Rightarrow> 'a ip_state_scheme \<Rightarrow> (u32 \<times> 'a ip_state_scheme) option" where
  "icmp_process_received E rx_addr tx_addr s =
     (if icmp_get_type (buff s) rx_addr = 0x08 then
        let destination_ip = ipv4_get_destination_ip (buff s) rx_addr
        in if ipv4_compare_ip destination_ip (my_ip s) \<noteq> 0 then
             let (frame_length, b) = icmp_build_ping_reply (my_mac s) (my_ip s) rx_addr tx_addr (buff s)
             in (case eth_mac_send E tx_addr frame_length (s\<lparr>buff := b\<rparr>) of
                   None \<Rightarrow> None
                 | Some s \<Rightarrow> Some (1, s))
           else Some (0, s)
      else Some (0, s))"

section \<open>The reply frame\<close>

text \<open>The frame the copy loop leaves at \<open>tx_addr\<close>.\<close>

lemma copy_frame:
  assumes "rx = tx \<or> n \<le> unat (tx - rx)" "n \<le> 2 ^ 32"
  shows "mem_iord_byte (if rx \<noteq> tx then
      fold (\<lambda>i b. mem_iowr_byte b (tx + of_nat i) (mem_iord_byte b (rx + of_nat i))) [0..<n] b else b) a =
    (if within a tx n then mem_iord_byte b (rx + (a - tx)) else mem_iord_byte b a)"
  using assms by (auto simp: eth0.rd_copy)

lemma apart_offsets [simp]: "apart tx (tx + 6) 6" "apart (tx + 30) (tx + 26) 4"
  "apart (tx + 32) (tx + 22) 6" "apart (tx + 38) (tx + 28) 4"
  by (simp_all add: apart_def)

text \<open>What one's complement arithmetic asks of the checksum when the type byte falls from 8 to 0.\<close>

lemma checksum_update_u16:
  "(ucast (NOT (NOT (ucast (c :: u16) :: u32) - 0x0800)) :: u16) = c + 0x0800"
proof -
  have "NOT (NOT (ucast c :: u32) - 0x0800) = ucast c + 0x0800"
    by (simp add: not_eq_complement)
  moreover have "unat (ucast (ucast c + 0x0800 :: u32) :: u16) = unat (c + 0x0800)"
    using unat_less_16 [of c] by (simp add: unsigned_ucast_eq unat_word_ariths take_bit_eq_mod)
  then have "(ucast (ucast c + 0x0800 :: u32) :: u16) = c + 0x0800" by (simp only: word_unat_eq_iff)
  ultimately show ?thesis by (simp only:)
qed

definition icmp_checksum_field :: "buffer \<Rightarrow> u32 \<Rightarrow> u16" where
  "icmp_checksum_field b p = ucast (push_bit 8 (mem_iord_byte b (p + 36)) OR mem_iord_byte b (p + 37))"

definition ping_frame_length :: "buffer \<Rightarrow> u32 \<Rightarrow> u32" where
  "ping_frame_length b rx = 14 + (push_bit 8 (mem_iord_byte b (rx + 16)) OR mem_iord_byte b (rx + 17))"

lemma within_offset_iff: "within (tx + k) tx n \<longleftrightarrow> unat k < n"
  by (simp add: within_def)

lemma icmp_reply_frame:
  assumes sep: "rx = tx \<or> unat (ping_frame_length b rx) \<le> unat (tx - rx)"
    and len: "38 \<le> unat (ping_frame_length b rx)"
  shows "mem_iord_byte (snd (icmp_build_ping_reply mac ip rx tx b)) a =
    (if a = tx + 37 then ucast ((icmp_checksum_field b rx + 0x0800) AND 0xff)
     else if a = tx + 36 then ucast (drop_bit 8 (icmp_checksum_field b rx + 0x0800))
     else if a = tx + 34 then 0
     else if within a (tx + 30) 4 then mem_iord_byte b (rx + 26 + (a - (tx + 30)))
     else if within a (tx + 26) 4 then ucast (ip ! unat (a - (tx + 26)))
     else if within a tx 6 then mem_iord_byte b (rx + 6 + (a - tx))
     else if within a (tx + 6) 6 then ucast (mac ! unat (a - (tx + 6)))
     else if within a tx (unat (ping_frame_length b rx)) then mem_iord_byte b (rx + (a - tx))
     else mem_iord_byte b a)"
proof -
  let ?L = "unat (ping_frame_length b rx)"
  define b0 where "b0 = (if rx \<noteq> tx then
      fold (\<lambda>i b. mem_iowr_byte b (tx + of_nat i) (mem_iord_byte b (rx + of_nat i))) [0..<?L] b else b)"
  define b1 where "b1 = fold (\<lambda>i b. mem_iowr_byte
      (mem_iowr_byte b (tx + of_nat i) (mem_iord_byte b (tx + 6 + of_nat i)))
      (tx + 6 + of_nat i) (ucast (mac ! i))) [0..<6] b0"
  define b2 where "b2 = fold (\<lambda>i b. mem_iowr_byte
      (mem_iowr_byte b (tx + 30 + of_nat i) (mem_iord_byte b (tx + 26 + of_nat i)))
      (tx + 26 + of_nat i) (ucast (ip ! i))) [0..<4] b1"
  have L: "?L \<le> 2 ^ 32" using unat_less_32 [of "ping_frame_length b rx"] by simp
  have r0: "mem_iord_byte b0 a = (if within a tx ?L then mem_iord_byte b (rx + (a - tx)) else mem_iord_byte b a)"
    for a unfolding b0_def by (rule copy_frame [OF sep L])
  have r1: "mem_iord_byte b1 a = (if within a tx 6 then mem_iord_byte b0 (tx + 6 + (a - tx))
      else if within a (tx + 6) 6 then ucast (mac ! unat (a - (tx + 6))) else mem_iord_byte b0 a)"
    for a unfolding b1_def by (simp add: eth0.rd_swap)
  have r2: "mem_iord_byte b2 a = (if within a (tx + 30) 4 then mem_iord_byte b1 (tx + 26 + (a - (tx + 30)))
      else if within a (tx + 26) 4 then ucast (ip ! unat (a - (tx + 26))) else mem_iord_byte b1 a)"
    for a unfolding b2_def by (simp add: eth0.rd_swap)
  have m1: "mem_iord_byte b0 (tx + 6 + y) = mem_iord_byte b (rx + 6 + y)" if "unat y < 6" for y
    using that len unfolding r0 by (auto simp: within_def unat_word_ariths add.assoc)
  have m2: "mem_iord_byte b1 (tx + 26 + y) = mem_iord_byte b (rx + 26 + y)" if "unat y < 4" for y
    using that len unfolding r1 r0 by (auto simp: within_def unat_word_ariths add.assoc)
  have c: "mem_iord_byte b2 (tx + 36) = mem_iord_byte b (rx + 36)" "mem_iord_byte b2 (tx + 37) = mem_iord_byte b (rx + 37)"
    using len unfolding r2 r1 r0 by (simp_all add: within_def)
  have "snd (icmp_build_ping_reply mac ip rx tx b) =
      mem_iowr_byte (mem_iowr_byte (mem_iowr_byte b2 (tx + 34) 0) (tx + 36)
        (ucast (drop_bit 8 (icmp_checksum_field b rx + 0x0800))))
        (tx + 37) (ucast ((icmp_checksum_field b rx + 0x0800) AND 0xff))"
    by (simp add: icmp_build_ping_reply_def Let_def checksum_update_u16 icmp_checksum_field_def mem_iord_iowr_byte c
        flip: ping_frame_length_def b0_def b1_def b2_def)
  then show ?thesis
    using m2 [of "a - (tx + 30)"] m1 [of "a - tx"]
    by (auto simp: mem_iord_iowr_byte r2 r1 r0 within_def)
qed

text \<open>The reply read through the accessors of the lower layers.\<close>

lemma within_numeral [simp]:
  "within (tx + numeral k) tx n \<longleftrightarrow> unat (numeral k :: u32) < n"
  "within tx tx n \<longleftrightarrow> 0 < n" "within (tx + 1) tx n \<longleftrightarrow> 1 < n"
  by (simp_all add: within_def)

lemma icmp_reply_byte:
  assumes "rx = tx \<or> unat (ping_frame_length b rx) \<le> unat (tx - rx)"
    and "38 \<le> k" "k < unat (ping_frame_length b rx)"
  shows "mem_iord_byte (snd (icmp_build_ping_reply mac ip rx tx b)) (tx + of_nat k) =
    mem_iord_byte b (rx + of_nat k)"
proof -
  have k: "k < 2 ^ 32" using assms(3) unat_less_32 [of "ping_frame_length b rx"] by simp
  have ne: "of_nat k \<noteq> j" if "unat j < 38" for j :: u32
    using that assms(2) unat_of_nat_u32 [OF k] by auto
  have out: "\<not> within (tx + of_nat k) (tx + j) n" if "unat j + n \<le> 38" for j n
  proof -
    have "of_nat k - j = of_nat (k - unat j)" using that assms(2) by (simp add: of_nat_diff)
    moreover have "unat (of_nat (k - unat j) :: u32) = k - unat j"
      using k by (intro unat_of_nat_u32) linarith
    ultimately show ?thesis using that assms(2) by (simp add: within_def)
  qed
  have out0: "\<not> within (tx + of_nat k) tx 6"
    using assms(2) by (simp add: within_def unat_of_nat_u32 [OF k])
  show ?thesis
    using assms by (simp add: icmp_reply_frame ne out out0) (simp add: within_def unat_of_nat_u32 [OF k])
qed

text \<open>The sum of the 16-bit words of the ICMP message: type and code, checksum, the rest.\<close>

lemma icmp_sum_split:
  "half_sum b (p + 34) (n + 2) = half_at b (p + 34) + half_at b (p + 36) + half_sum b (p + 38) n"
  using half_sum_add [of b "p + 34" 1 "1 + n"] half_sum_add [of b "p + 36" 1 n]
  by (simp add: half_sum_1 [simplified])

lemma unat_icmp_checksum_field: "unat (icmp_checksum_field b p) = half_at b (p + 36)"
  using half_word [of b "p + 36"] half_at_less [of b "p + 36"]
  by (simp add: icmp_checksum_field_def half_word_or unsigned_ucast_eq unat_of_nat take_bit_nat_eq_self)

lemma icmp_reply_halves:
  assumes "rx = tx \<or> unat (ping_frame_length b rx) \<le> unat (tx - rx)"
    and "unat (ping_frame_length b rx) = 38 + 2 * n"
    and r_def: "r = snd (icmp_build_ping_reply mac ip rx tx b)"
  shows "half_at r (tx + 34) = byte_at b (rx + 35)"
    and "half_at r (tx + 36) = (half_at b (rx + 36) + 2048) mod 65536"
    and "half_sum r (tx + 38) n = half_sum b (rx + 38) n"
proof -
  have len: "38 \<le> unat (ping_frame_length b rx)" using assms(2) by simp
  note frame = icmp_reply_frame [OF assms(1) len]
  show "half_at r (tx + 34) = byte_at b (rx + 35)"
    unfolding r_def half_at_def byte_at_def using len by (simp add: frame within_def)
  have "half_at r (tx + 36) = unat (icmp_checksum_field b rx + 0x0800)"
    using bytes_of_u16 [of "icmp_checksum_field b rx + 0x0800"]
    unfolding r_def half_at_def byte_at_def by (simp add: frame within_def)
  then show "half_at r (tx + 36) = (half_at b (rx + 36) + 2048) mod 65536"
    by (simp add: unat_word_ariths unat_icmp_checksum_field)
  show "half_sum r (tx + 38) n = half_sum b (rx + 38) n"
  proof (rule half_sum_cong)
    fix k assume "k < 2 * n"
    then show "mem_iord_byte r (tx + 38 + of_nat k) = mem_iord_byte b (rx + 38 + of_nat k)"
      using icmp_reply_byte [OF assms(1), of "38 + k"] assms(2) by (simp add: r_def add.assoc)
  qed
qed

text \<open>The reply to a ping goes back to the sender: the sender's hardware and IP address become
  the destination, those of the node the source, the type becomes 0 (echo reply), and every byte
  after the ICMP checksum is the byte of the request.  The frame may be built in place or in an
  area that the copy loop does not overwrite before reading.\<close>

theorem icmp_reply_contents:
  assumes "rx = tx \<or> unat (ping_frame_length b rx) \<le> unat (tx - rx)"
    and "38 \<le> unat (ping_frame_length b rx)" "length mac = 6" "length ip = 4"
  shows "fst (icmp_build_ping_reply mac ip rx tx b) = ping_frame_length b rx \<and>
    (let r = snd (icmp_build_ping_reply mac ip rx tx b)
     in mac_addr_dest r tx = mac_addr_sender b rx \<and> mac_addr_sender r tx = mac \<and>
        ipv4_get_destination_ip r tx = ipv4_get_source_ip b rx \<and> ipv4_get_source_ip r tx = ip \<and>
        icmp_get_type r tx = 0 \<and> icmp_get_code r tx = icmp_get_code b rx \<and>
        (\<forall>k. 38 \<le> k \<and> k < unat (ping_frame_length b rx) \<longrightarrow>
           mem_iord_byte r (tx + of_nat k) = mem_iord_byte b (rx + of_nat k)))"
proof -
  note frame = icmp_reply_frame [OF assms(1,2)]
  show ?thesis
    using assms(2) list_eq_6 [OF assms(3)] list_eq_4 [OF assms(4)] icmp_reply_byte [OF assms(1)]
    by (simp add: Let_def mac_addr_dest_def mac_addr_sender_def ipv4_get_destination_ip_eq ipv4_get_source_ip_eq
        icmp_get_type_def icmp_get_code_def frame within_def)
      (simp add: icmp_build_ping_reply_def ping_frame_length_def Let_def)
qed

theorem icmp_reply_contents_witness:
  "mac_addr_dest (snd (icmp_build_ping_reply my_mac_init my_ip_init 0 0x800 ((\<lambda>_. 0)(8 := 0x12340000, 16 := 0x001C0000)))) 0x800 =
    [0, 0, 0x12, 0x34, 0, 0]"
proof -
  let ?b = "(\<lambda>_. 0)(8 := 0x12340000, 16 := 0x001C0000) :: buffer"
  have len: "ping_frame_length ?b 0 = 42"
    by (simp add: ping_frame_length_def mem_iord_byte_lane)
  have "mac_addr_dest (snd (icmp_build_ping_reply my_mac_init my_ip_init 0 0x800 ?b)) 0x800 = mac_addr_sender ?b 0"
    using icmp_reply_contents [of 0 "0x800" ?b my_mac_init my_ip_init]
    by (simp add: len my_mac_init_def my_ip_init_def Let_def)
  then show ?thesis by (simp add: mac_addr_sender_def mem_iord_byte_lane)
qed

text \<open>C17: the reply to a ping whose ICMP checksum is right has a right checksum if and only if the
  checksum of the request is below \<open>0xF800\<close>: the update adds \<open>0x0800\<close> without the end-around
  carry of one's complement arithmetic.\<close>

theorem icmp_reply_checksum_valid_iff:
  assumes "rx = tx \<or> unat (ping_frame_length b rx) \<le> unat (tx - rx)"
    and "unat (ping_frame_length b rx) = 38 + 2 * n"
    and "icmp_get_type b rx = 8"
    and "0 < half_sum b (rx + 34) (n + 2)" "65535 dvd half_sum b (rx + 34) (n + 2)"
  shows "65535 dvd half_sum (snd (icmp_build_ping_reply mac ip rx tx b)) (tx + 34) (n + 2) \<longleftrightarrow>
    half_at b (rx + 36) < 0xF800"
proof -
  let ?r = "snd (icmp_build_ping_reply mac ip rx tx b)" and ?S = "half_sum b (rx + 34) (n + 2)"
  have "byte_at b (rx + 34) = 8"
    using assms(3) eth0.rd_less [of b "rx + 34"] by (simp add: icmp_get_type_def byte_at_def ucast_u8_eq_iff)
  then have S: "?S = 2048 + byte_at b (rx + 35) + half_at b (rx + 36) + half_sum b (rx + 38) n"
    unfolding icmp_sum_split by (simp add: half_at_def)
  have R: "half_sum ?r (tx + 34) (n + 2) =
      byte_at b (rx + 35) + (half_at b (rx + 36) + 2048) mod 65536 + half_sum b (rx + 38) n"
    unfolding icmp_sum_split icmp_reply_halves [OF assms(1,2) refl] by simp
  show ?thesis
  proof (cases "half_at b (rx + 36) < 0xF800")
    case True
    then show ?thesis using assms(5) unfolding S R by (simp add: ac_simps)
  next
    case False
    have "(half_at b (rx + 36) + 2048) mod 65536 = half_at b (rx + 36) + 2048 - 65536"
      using False half_at_less [of b "rx + 36"] by (simp add: mod_if)
    then have SR: "?S = half_sum ?r (tx + 34) (n + 2) + 65536" using False unfolding S R by simp
    have "\<not> 65535 dvd half_sum ?r (tx + 34) (n + 2)"
    proof
      assume "65535 dvd half_sum ?r (tx + 34) (n + 2)"
      then have "65535 dvd (65536 :: nat)" using assms(5) unfolding SR by (metis dvd_add_right_iff)
      then show False by simp
    qed
    with False show ?thesis by simp
  qed
qed

theorem icmp_reply_checksum_valid_iff_witness:
  "65535 dvd half_sum (snd (icmp_build_ping_reply my_mac_init my_ip_init 0 0
     ((\<lambda>_. 0)(16 := 0x001C0000, 32 := 0x00000800, 36 := 0xF7FF0000)))) 34 4"
proof -
  let ?b = "(\<lambda>_. 0)(16 := 0x001C0000, 32 := 0x00000800, 36 := 0xF7FF0000) :: buffer"
  have "ping_frame_length ?b 0 = 42" "icmp_get_type ?b 0 = 8"
    by (simp_all add: ping_frame_length_def icmp_get_type_def mem_iord_byte_lane)
  moreover have "half_at ?b 36 = 0xF7FF" "half_sum ?b 34 4 = 65535"
    by (simp_all add: half_sum_def half_at_def byte_at_def mem_iord_byte_lane lessThan_nat_numeral lessThan_Suc)
  ultimately show ?thesis
    using icmp_reply_checksum_valid_iff [of 0 0 ?b 2 my_mac_init my_ip_init] by simp
qed

text \<open>\<open>icmp_process_received\<close> answers exactly the echo requests addressed to the node; any other
  message leaves buffer, controller and addresses untouched.  An answer is one transmission of the
  reply frame with the length of the request.\<close>

theorem icmp_answers_own_pings:
  assumes "length (my_ip s) = 4"
  shows "icmp_process_received E rx tx s =
    (if icmp_get_type (buff s) rx = 8 \<and> ipv4_get_destination_ip (buff s) rx = my_ip s
     then map_option (Pair 1) (eth_mac_send E tx (ping_frame_length (buff s) rx)
            (s\<lparr>buff := snd (icmp_build_ping_reply (my_mac s) (my_ip s) rx tx (buff s))\<rparr>))
     else Some (0, s))"
proof -
  have "fst (icmp_build_ping_reply mac ip rx tx b) = ping_frame_length b rx" for mac ip b
    by (simp add: icmp_build_ping_reply_def ping_frame_length_def Let_def)
  then show ?thesis
    by (simp add: icmp_process_received_def Let_def ipv4_compare_ip_iff [OF _ assms] split_beta split: option.splits)
qed

theorem icmp_answers_own_pings_witness:
  "icmp_process_received regfile_env 0 0x800
     (boot_state (\<lambda>_. 0)) = Some (0, boot_state (\<lambda>_. 0))"
  using icmp_answers_own_pings [of "boot_state (\<lambda>_. 0)" regfile_env 0 "0x800"]
  by (simp add: boot_state_def my_ip_init_def icmp_get_type_def mem_iord_byte_lane)

end
