(* ===== verification/Arp.thy ===== *)
theory Arp
  imports Ipv4
begin

text \<open>
  The ARP layer \<^verbatim>\<open>c/ethlib/arp.c\<close>: the table of resolved addresses, request and reply frames, and
  the resolver.  The table is the list of the \<open>ARP_TABLE_SIZE\<close> entries of the C array.
\<close>

section \<open>The ARP table\<close>

record arp_table_entry =
  used :: u8
  ip_addr :: "u8 list"
  mac_addr :: "u8 list"

record arp_state = ip_state +
  arp_table :: "arp_table_entry list"

abbreviation (input) ARP_TABLE_SIZE :: nat where "ARP_TABLE_SIZE \<equiv> 8"

text \<open>A C loop that copies the first \<open>n\<close> elements of an array.\<close>

definition copy_array :: "nat \<Rightarrow> 'b list \<Rightarrow> 'b list \<Rightarrow> 'b list" where
  "copy_array n src dst = fold (\<lambda>j xs. xs[j := src ! j]) [0..<n] dst"

definition arp_table_init :: "arp_table_entry list \<Rightarrow> arp_table_entry list" where
  "arp_table_init tab = fold (\<lambda>i tab. tab[i := (tab ! i)\<lparr>used := 0\<rparr>]) [0..<ARP_TABLE_SIZE] tab"

text \<open>The condition of the search and the delete loop.\<close>

definition entry_matches :: "arp_table_entry \<Rightarrow> u8 list \<Rightarrow> bool" where
  "entry_matches e ip \<longleftrightarrow> used e = 1 \<and> ip_addr e ! 0 = ip ! 0 \<and> ip_addr e ! 1 = ip ! 1 \<and>
     ip_addr e ! 2 = ip ! 2 \<and> ip_addr e ! 3 = ip ! 3"

function arp_table_search_from ::
  "nat \<Rightarrow> arp_table_entry list \<Rightarrow> u8 list \<Rightarrow> u8 list \<Rightarrow> u32 \<times> u8 list" where
  "arp_table_search_from i tab ip mac =
     (if i < ARP_TABLE_SIZE then
        if entry_matches (tab ! i) ip then (1, copy_array 6 (mac_addr (tab ! i)) mac)
        else arp_table_search_from (i + 1) tab ip mac
      else (0, mac))"

  by pat_completeness auto

termination arp_table_search_from
  by (relation "measure (\<lambda>(i, tab, ip, mac). ARP_TABLE_SIZE - i)") auto

declare arp_table_search_from.simps [simp del]

definition arp_table_search :: "arp_table_entry list \<Rightarrow> u8 list \<Rightarrow> u8 list \<Rightarrow> u32 \<times> u8 list" where
  "arp_table_search tab ip mac = arp_table_search_from 0 tab ip mac"

definition arp_table_delete_entry :: "arp_table_entry list \<Rightarrow> u8 list \<Rightarrow> u32 \<times> arp_table_entry list" where
  "arp_table_delete_entry tab ip =
     fold (\<lambda>i (ans, tab). if entry_matches (tab ! i) ip
                          then (1, tab[i := (tab ! i)\<lparr>used := 0\<rparr>]) else (ans, tab))
       [0..<ARP_TABLE_SIZE] (0, tab)"

text \<open>
  \<open>while(arp_table[i].used == 1 && i<ARP_TABLE_SIZE) i++;\<close> reads one entry past the table when it is
  full: \<open>beyond\<close> is the byte found there.
\<close>

definition used_at :: "u8 \<Rightarrow> arp_table_entry list \<Rightarrow> nat \<Rightarrow> u8" where
  "used_at beyond tab i = (if i < ARP_TABLE_SIZE then used (tab ! i) else beyond)"

function arp_table_free_slot :: "u8 \<Rightarrow> arp_table_entry list \<Rightarrow> nat \<Rightarrow> nat" where
  "arp_table_free_slot beyond tab i =
     (if used_at beyond tab i = 1 \<and> i < ARP_TABLE_SIZE then arp_table_free_slot beyond tab (i + 1) else i)"

  by pat_completeness auto

termination arp_table_free_slot
  by (relation "measure (\<lambda>(beyond, tab, i). ARP_TABLE_SIZE - i)") auto

declare arp_table_free_slot.simps [simp del]

definition arp_table_new_entry ::
  "u8 \<Rightarrow> arp_table_entry list \<Rightarrow> u8 list \<Rightarrow> u8 list \<Rightarrow> arp_table_entry list" where
  "arp_table_new_entry beyond tab ip mac =
     (let previous_mac = replicate 6 0;
          tab = (if fst (arp_table_search tab ip previous_mac) = 1
                 then snd (arp_table_delete_entry tab ip) else tab);
          i = arp_table_free_slot beyond tab 0;
          i = (if i = ARP_TABLE_SIZE then 0 else i);
          e = tab ! i
      in tab[i := \<lparr>used = 1, ip_addr = copy_array 4 ip (ip_addr e), mac_addr = copy_array 6 mac (mac_addr e)\<rparr>])"

section \<open>Fields of an ARP packet\<close>

definition arp_get_target_ip :: "buffer \<Rightarrow> u32 \<Rightarrow> u8 list" where
  "arp_get_target_ip b pkt_addr = map (\<lambda>i. ucast (mem_iord_byte b (pkt_addr + 38 + of_nat i))) [0..<4]"

definition arp_get_target_mac :: "buffer \<Rightarrow> u32 \<Rightarrow> u8 list" where
  "arp_get_target_mac b pkt_addr = map (\<lambda>i. ucast (mem_iord_byte b (pkt_addr + 32 + of_nat i))) [0..<6]"

definition arp_get_sender_ip :: "buffer \<Rightarrow> u32 \<Rightarrow> u8 list" where
  "arp_get_sender_ip b pkt_addr = map (\<lambda>i. ucast (mem_iord_byte b (pkt_addr + 28 + of_nat i))) [0..<4]"

definition arp_get_operation :: "buffer \<Rightarrow> u32 \<Rightarrow> u16" where
  "arp_get_operation b pkt_addr =
     ucast (push_bit 8 (mem_iord_byte b (pkt_addr + 20)) + (mem_iord_byte b (pkt_addr + 21) AND 0xFF))"

definition arp_get_sender_mac :: "buffer \<Rightarrow> u32 \<Rightarrow> u8 list" where
  "arp_get_sender_mac b pkt_addr = map (\<lambda>i. ucast (mem_iord_byte b (pkt_addr + 22 + of_nat i))) [0..<6]"

section \<open>Frames and protocol\<close>

definition arp_build_reply ::
  "u8 list \<Rightarrow> u8 list \<Rightarrow> u32 \<Rightarrow> u32 \<Rightarrow> buffer \<Rightarrow> u32 \<times> buffer" where
  "arp_build_reply mac ip rx_addr tx_addr b =
     (let frame_length = 42;
          b = (if rx_addr \<noteq> tx_addr then
                 fold (\<lambda>i b. mem_iowr_byte b (tx_addr + of_nat i) (mem_iord_byte b (rx_addr + of_nat i)))
                   [0..<unat frame_length] b
               else b);
          b = fold (\<lambda>i b. mem_iowr_byte
                 (mem_iowr_byte b (tx_addr + of_nat i) (mem_iord_byte b (tx_addr + 6 + of_nat i)))
                 (tx_addr + 6 + of_nat i) (ucast (mac ! i))) [0..<6] b;
          b = mem_iowr_byte b (tx_addr + 21) 2;
          b = fold (\<lambda>i b. mem_iowr_byte
                 (mem_iowr_byte b (tx_addr + 32 + of_nat i) (mem_iord_byte b (tx_addr + 22 + of_nat i)))
                 (tx_addr + 22 + of_nat i) (ucast (mac ! i))) [0..<6] b;
          b = fold (\<lambda>i b. mem_iowr_byte
                 (mem_iowr_byte b (tx_addr + 38 + of_nat i) (mem_iord_byte b (tx_addr + 28 + of_nat i)))
                 (tx_addr + 28 + of_nat i) (ucast (ip ! i))) [0..<4] b
      in (frame_length, b))"

definition arp_process_received ::
  "env \<Rightarrow> u8 \<Rightarrow> u32 \<Rightarrow> u32 \<Rightarrow> 'a arp_state_scheme \<Rightarrow> (u32 \<times> 'a arp_state_scheme) option" where
  "arp_process_received E beyond rx_addr tx_addr s =
     (let target_ip = arp_get_target_ip (buff s) rx_addr
      in if ipv4_compare_ip target_ip (my_ip s) = 1 then
           if mem_iord_byte (buff s) (rx_addr + 21) = 0x01 then
             let (frame_length, b) = arp_build_reply (my_mac s) (my_ip s) rx_addr tx_addr (buff s)
             in (case eth_mac_send E tx_addr frame_length (s\<lparr>buff := b\<rparr>) of
                   None \<Rightarrow> None
                 | Some s \<Rightarrow> Some (1, s))
           else if mem_iord_byte (buff s) (rx_addr + 21) = 0x02 then
             let target_mac = arp_get_target_mac (buff s) rx_addr
             in if mac_compare_mac target_mac (my_mac s) = 1 then
                  let sender_ip = arp_get_sender_ip (buff s) rx_addr;
                      sender_mac = arp_get_sender_mac (buff s) rx_addr
                  in Some (2, s\<lparr>arp_table := arp_table_new_entry beyond (arp_table s) sender_ip sender_mac\<rparr>)
                else Some (0, s)
           else Some (0, s)
         else Some (0, s))"

definition arp_build_request ::
  "u8 list \<Rightarrow> u8 list \<Rightarrow> u32 \<Rightarrow> u8 list \<Rightarrow> buffer \<Rightarrow> u32 \<times> buffer" where
  "arp_build_request mac ip tx_addr target_ip b =
     (let frame_length = 42;
          b = fold (\<lambda>i b.
                let b = mem_iowr_byte b (tx_addr + of_nat i) 0xFF;
                    b = mem_iowr_byte b (tx_addr + 6 + of_nat i) (ucast (mac ! i));
                    b = mem_iowr_byte b (tx_addr + 22 + of_nat i) (ucast (mac ! i))
                in mem_iowr_byte b (tx_addr + 32 + of_nat i) 0x00) [0..<6] b;
          b = fold (\<lambda>i b.
                let b = mem_iowr_byte b (tx_addr + 28 + of_nat i) (ucast (ip ! i))
                in mem_iowr_byte b (tx_addr + 38 + of_nat i) (ucast (target_ip ! i))) [0..<4] b;
          b = mem_iowr b (tx_addr + 12) 0x08060001;
          b = mem_iowr b (tx_addr + 16) 0x08000604;
          b = mem_iowr_byte b (tx_addr + 20) 0x00;
          b = mem_iowr_byte b (tx_addr + 21) 0x01
      in (frame_length, b))"

text \<open>One round of the resolver: the body of its \<open>do\<close> loop, with the value of \<open>ans\<close> after it.\<close>

definition arp_resolve_round ::
  "env \<Rightarrow> u8 \<Rightarrow> u32 \<Rightarrow> u32 \<Rightarrow> u8 list \<Rightarrow> 'a arp_state_scheme \<Rightarrow> (u8 \<times> 'a arp_state_scheme) option" where
  "arp_resolve_round E beyond rx_addr tx_addr target_ip s =
     (let (frame_length, b) = arp_build_request (my_mac s) (my_ip s) tx_addr target_ip (buff s)
      in case eth_mac_send E tx_addr frame_length (s\<lparr>buff := b\<rparr>) of
           None \<Rightarrow> None
         | Some s \<Rightarrow> (case eth_mac_receive E rx_addr 100000 s of
             None \<Rightarrow> None
           | Some (got, s) \<Rightarrow>
               if got = 1 \<and> mac_packet_type (buff s) rx_addr = ARP then
                 (case arp_process_received E beyond rx_addr tx_addr s of
                    None \<Rightarrow> None
                  | Some (p, s) \<Rightarrow>
                      Some (if p = 2 \<and> fst (arp_table_search (arp_table s) target_ip (replicate 6 0)) = 1
                            then 1 else 0, s))
               else Some (0, s)))"

partial_function (option) arp_resolve_loop ::
  "env \<Rightarrow> u8 \<Rightarrow> u32 \<Rightarrow> u32 \<Rightarrow> u8 list \<Rightarrow> u64 \<Rightarrow> u64 \<Rightarrow> 'a arp_state_scheme \<Rightarrow>
     (u8 \<times> 'a arp_state_scheme) option" where
  "arp_resolve_loop E beyond rx_addr tx_addr target_ip timeout start_time s =
     (case arp_resolve_round E beyond rx_addr tx_addr target_ip s of
        None \<Rightarrow> None
      | Some (ans, s) \<Rightarrow>
          if ans = 0 then
            (case get_cpu_usecs E s of (t, s) \<Rightarrow>
               if t - start_time < timeout
               then arp_resolve_loop E beyond rx_addr tx_addr target_ip timeout start_time s
               else Some (0, s))
          else Some (ans, s))"

definition arp_resolve_ip ::
  "env \<Rightarrow> u8 \<Rightarrow> u32 \<Rightarrow> u32 \<Rightarrow> u8 list \<Rightarrow> u64 \<Rightarrow> 'a arp_state_scheme \<Rightarrow> (u8 \<times> 'a arp_state_scheme) option" where
  "arp_resolve_ip E beyond rx_addr tx_addr target_ip timeout s =
     (case get_cpu_usecs E s of (start_time, s) \<Rightarrow>
        arp_resolve_loop E beyond rx_addr tx_addr target_ip timeout start_time s)"

section \<open>The table as a partial map\<close>

lemma copy_array_eq:
  assumes "length src = n" "length dst = n"
  shows "copy_array n src dst = src"
proof -
  have "fold (\<lambda>j xs. xs[j := src ! j]) [0..<k] dst = take k src @ drop k dst" if "k \<le> n" for k
    using that
  proof (induction k)
    case (Suc k)
    then show ?case using assms
      by (simp add: take_Suc_conv_app_nth list_update_append Cons_nth_drop_Suc [symmetric])
  qed simp
  from this [of n] show ?thesis using assms by (simp add: copy_array_def)
qed

text \<open>The shape of the table, and that no address has two used entries.\<close>

definition arp_shape :: "arp_table_entry list \<Rightarrow> bool" where
  "arp_shape tab \<longleftrightarrow> length tab = ARP_TABLE_SIZE \<and>
     list_all (\<lambda>e. length (ip_addr e) = 4 \<and> length (mac_addr e) = 6) tab"

definition arp_wf :: "arp_table_entry list \<Rightarrow> bool" where
  "arp_wf tab \<longleftrightarrow> arp_shape tab \<and>
     list_all (\<lambda>i. list_all (\<lambda>j. used (tab ! i) = 1 \<and> used (tab ! j) = 1 \<and>
         ip_addr (tab ! i) = ip_addr (tab ! j) \<longrightarrow> i = j) [0..<ARP_TABLE_SIZE]) [0..<ARP_TABLE_SIZE]"

text \<open>The address the table gives for \<open>ip\<close>.\<close>

definition arp_lookup :: "arp_table_entry list \<Rightarrow> u8 list \<Rightarrow> u8 list option" where
  "arp_lookup tab ip =
     (case arp_table_search tab ip (replicate 6 0) of (r, mac) \<Rightarrow> if r = 1 then Some mac else None)"

lemma entry_matches_iff:
  "length (ip_addr e) = 4 \<Longrightarrow> length ip = 4 \<Longrightarrow> entry_matches e ip \<longleftrightarrow> used e = 1 \<and> ip_addr e = ip"
  using list_eq_4 [of "ip_addr e"] list_eq_4 [of ip] by (auto simp: entry_matches_def)

lemma arp_table_search_from_find:
  assumes "length tab = ARP_TABLE_SIZE" "i \<le> ARP_TABLE_SIZE"
  shows "arp_table_search_from i tab ip mac =
    (case find (\<lambda>e. entry_matches e ip) (drop i tab) of
       Some e \<Rightarrow> (1, copy_array 6 (mac_addr e) mac) | None \<Rightarrow> (0, mac))"
  using assms
proof (induction i tab ip mac rule: arp_table_search_from.induct)
  case (1 i tab ip mac)
  show ?case
  proof (cases "i < ARP_TABLE_SIZE")
    case True
    then have "drop i tab = tab ! i # drop (Suc i) tab" using "1.prems" by (simp add: Cons_nth_drop_Suc)
    then show ?thesis using 1 True by (simp add: arp_table_search_from.simps [of i])
  qed (use "1.prems" in \<open>simp add: arp_table_search_from.simps [of 8]\<close>)
qed

lemma arp_lookup_find:
  assumes "arp_shape tab"
  shows "arp_lookup tab ip = map_option mac_addr (find (\<lambda>e. entry_matches e ip) tab)"
proof (cases "find (\<lambda>e. entry_matches e ip) tab")
  case (Some e)
  then have "length (mac_addr e) = 6"
    using assms by (auto simp: arp_shape_def list_all_iff find_Some_iff)
  with Some show ?thesis using assms
    by (simp add: arp_lookup_def arp_table_search_def arp_table_search_from_find arp_shape_def copy_array_eq)
qed (use assms in \<open>simp add: arp_lookup_def arp_table_search_def arp_table_search_from_find arp_shape_def\<close>)

lemma arp_wf_iff:
  "arp_wf tab \<longleftrightarrow> arp_shape tab \<and> (\<forall>i < ARP_TABLE_SIZE. \<forall>j < ARP_TABLE_SIZE. used (tab ! i) = 1 \<longrightarrow>
     used (tab ! j) = 1 \<longrightarrow> ip_addr (tab ! i) = ip_addr (tab ! j) \<longrightarrow> i = j)"
  by (auto simp: arp_wf_def list_all_iff)

text \<open>In a well-formed table a lookup finds exactly what a used entry holds.\<close>

lemma arp_lookup_Some_iff:
  assumes "arp_wf tab" "length ip = 4"
  shows "arp_lookup tab ip = Some mac \<longleftrightarrow>
    (\<exists>i < ARP_TABLE_SIZE. used (tab ! i) = 1 \<and> ip_addr (tab ! i) = ip \<and> mac_addr (tab ! i) = mac)"
proof -
  have shape: "arp_shape tab" using assms by (simp add: arp_wf_def)
  have len: "length tab = 8" "\<And>i. i < 8 \<Longrightarrow> length (ip_addr (tab ! i)) = 4"
    using shape by (simp_all add: arp_shape_def list_all_iff)
  have m: "i < 8 \<Longrightarrow> entry_matches (tab ! i) ip \<longleftrightarrow> used (tab ! i) = 1 \<and> ip_addr (tab ! i) = ip" for i
    using len assms(2) by (simp add: entry_matches_iff)
  have uniq: "i = j" if "i < 8" "j < 8" "entry_matches (tab ! i) ip" "entry_matches (tab ! j) ip" for i j
    using assms(1) that m by (auto simp: arp_wf_iff)
  have "arp_lookup tab ip = Some mac \<longleftrightarrow> (\<exists>i < 8. entry_matches (tab ! i) ip \<and> mac_addr (tab ! i) = mac)"
  proof
    assume "arp_lookup tab ip = Some mac"
    then show "\<exists>i < 8. entry_matches (tab ! i) ip \<and> mac_addr (tab ! i) = mac"
      using len(1) by (auto simp: arp_lookup_find [OF shape] find_Some_iff)
  next
    assume "\<exists>i < 8. entry_matches (tab ! i) ip \<and> mac_addr (tab ! i) = mac"
    then obtain i where i: "i < 8" "entry_matches (tab ! i) ip" "mac_addr (tab ! i) = mac" by blast
    then have "find (\<lambda>e. entry_matches e ip) tab = Some (tab ! i)"
      using len(1) uniq by (auto simp: find_Some_iff intro!: exI [of _ i] dest: less_trans)
    with i show "arp_lookup tab ip = Some mac" by (simp add: arp_lookup_find [OF shape])
  qed
  then show ?thesis using m by auto
qed

section \<open>What the table operations do\<close>

text \<open>The entry after a deletion of \<open>ip\<close>.\<close>

definition cleared :: "u8 list \<Rightarrow> arp_table_entry \<Rightarrow> arp_table_entry" where
  "cleared ip e = (if entry_matches e ip then e\<lparr>used := 0\<rparr> else e)"

lemma arp_table_delete_entry_eq:
  assumes "length tab = ARP_TABLE_SIZE"
  shows "arp_table_delete_entry tab ip =
    (if \<exists>e \<in> set tab. entry_matches e ip then 1 else 0, map (cleared ip) tab)"
proof -
  let ?step = "\<lambda>i (ans, tab). if entry_matches (tab ! i) ip
    then (1, tab[i := (tab ! i)\<lparr>used := 0\<rparr>]) else (ans, tab)"
  have "fold ?step [0..<k] (0 :: u32, tab) =
      (if \<exists>e \<in> set (take k tab). entry_matches e ip then 1 else 0,
       map (cleared ip) (take k tab) @ drop k tab)" if "k \<le> length tab" for k
    using that
  proof (induction k)
    case (Suc k)
    then have k: "k < length tab" by simp
    have "drop k tab = tab ! k # drop (Suc k) tab" using k by (simp add: Cons_nth_drop_Suc)
    then show ?case using Suc k
      by (simp add: take_Suc_conv_app_nth nth_append list_update_append cleared_def)
  qed simp
  from this [of 8] show ?thesis using assms by (simp add: arp_table_delete_entry_def)
qed

lemma arp_table_init_eq:
  assumes "length tab = ARP_TABLE_SIZE"
  shows "arp_table_init tab = map (\<lambda>e. e\<lparr>used := 0\<rparr>) tab"
proof -
  have "fold (\<lambda>i tab. tab[i := (tab ! i)\<lparr>used := 0\<rparr>]) [0..<k] tab =
      map (\<lambda>e. e\<lparr>used := 0\<rparr>) (take k tab) @ drop k tab" if "k \<le> length tab" for k
    using that
  proof (induction k)
    case (Suc k)
    then have "drop k tab = tab ! k # drop (Suc k) tab" by (simp add: Cons_nth_drop_Suc)
    then show ?case using Suc by (simp add: take_Suc_conv_app_nth nth_append list_update_append)
  qed simp
  from this [of 8] show ?thesis using assms by (simp add: arp_table_init_def)
qed

lemma arp_table_free_slot_spec:
  "i \<le> ARP_TABLE_SIZE \<Longrightarrow> arp_table_free_slot beyond tab i = n \<Longrightarrow>
   n \<le> ARP_TABLE_SIZE \<and> i \<le> n \<and> (\<forall>j. i \<le> j \<and> j < n \<longrightarrow> used (tab ! j) = 1) \<and>
   (n < ARP_TABLE_SIZE \<longrightarrow> used (tab ! n) \<noteq> 1)"
proof (induction beyond tab i arbitrary: n rule: arp_table_free_slot.induct)
  case (1 beyond tab i)
  show ?case
  proof (cases "used_at beyond tab i = 1 \<and> i < 8")
    case True
    then have "n \<le> 8 \<and> i + 1 \<le> n \<and> (\<forall>j. i + 1 \<le> j \<and> j < n \<longrightarrow> used (tab ! j) = 1) \<and>
        (n < 8 \<longrightarrow> used (tab ! n) \<noteq> 1)"
      using 1 by (simp add: arp_table_free_slot.simps [of beyond tab i])
    with True show ?thesis
      by (auto simp: used_at_def le_less Suc_le_eq) (metis Suc_leI le_eq_less_or_eq)+
  next
    case False
    then have "arp_table_free_slot beyond tab i = i"
      by (subst arp_table_free_slot.simps) (simp only: if_False)
    then have "n = i" using "1.prems" by simp
    with False "1.prems" show ?thesis by (auto simp: used_at_def)
  qed
qed

text \<open>The slot \<open>arp_table_new_entry\<close> writes does not depend on the byte past the table.\<close>

definition slot_for :: "arp_table_entry list \<Rightarrow> nat" where
  "slot_for tab = (if list_all (\<lambda>e. used e = 1) tab then 0
     else length (takeWhile (\<lambda>e. used e = 1) tab))"

lemma free_slot_eq:
  assumes "length tab = ARP_TABLE_SIZE"
  shows "(let i = arp_table_free_slot beyond tab 0 in if i = ARP_TABLE_SIZE then 0 else i) = slot_for tab"
proof -
  define n where "n = arp_table_free_slot beyond tab 0"
  have n: "n \<le> 8" "\<And>j. j < n \<Longrightarrow> used (tab ! j) = 1" "n < 8 \<Longrightarrow> used (tab ! n) \<noteq> 1"
    using arp_table_free_slot_spec [of 0 beyond tab n] by (simp_all add: n_def)
  show ?thesis
  proof (cases "n = 8")
    case True
    then show ?thesis using n(2) assms
      by (simp add: n_def [symmetric] slot_for_def list_all_length)
  next
    case False
    then have "n < length tab" "\<not> list_all (\<lambda>e. used e = 1) tab"
      using n assms by (auto simp: list_all_length intro!: exI [of _ n])
    moreover have "takeWhile (\<lambda>e. used e = 1) tab = take n tab"
      using n calculation(1) assms by (intro takeWhile_eq_take_P_nth) auto
    ultimately show ?thesis by (simp add: n_def [symmetric] slot_for_def False)
  qed
qed

lemma slot_for_less: "length tab = ARP_TABLE_SIZE \<Longrightarrow> slot_for tab < ARP_TABLE_SIZE"
  using free_slot_eq [of tab 0] arp_table_free_slot_spec [of 0 0 tab, OF _ refl] by (auto simp: Let_def split: if_splits)

lemma arp_table_new_entry_eq:
  assumes "arp_wf tab" "length ip = 4" "length mac = 6"
  shows "arp_table_new_entry beyond tab ip mac =
    (let tab' = map (cleared ip) tab
     in tab'[slot_for tab' := \<lparr>used = 1, ip_addr = ip, mac_addr = mac\<rparr>])"
proof -
  let ?t = "map (cleared ip) tab"
  have shape: "arp_shape tab" and len: "length tab = 8" using assms by (simp_all add: arp_wf_def arp_shape_def)
  have "map (cleared ip) tab = tab" if "find (\<lambda>e. entry_matches e ip) tab = None"
    using that by (intro map_idI) (auto simp: cleared_def find_None_iff)
  then have t: "(if fst (arp_table_search tab ip (replicate 6 0)) = 1 then snd (arp_table_delete_entry tab ip) else tab) = ?t"
    using len by (auto simp: arp_table_search_def arp_table_search_from_find arp_table_delete_entry_eq split: option.splits)
  have "slot_for ?t < length ?t" using slot_for_less [of ?t] len by simp
  then have "tab ! slot_for ?t \<in> set tab" "?t ! slot_for ?t = cleared ip (tab ! slot_for ?t)" by simp_all
  then have l: "length (ip_addr (?t ! slot_for ?t)) = 4" "length (mac_addr (?t ! slot_for ?t)) = 6"
    using shape by (auto simp: arp_shape_def list_all_iff cleared_def)
  have "(let i = arp_table_free_slot beyond ?t 0 in if i = ARP_TABLE_SIZE then 0 else i) = slot_for ?t"
    using len by (intro free_slot_eq) simp
  then show ?thesis
    unfolding arp_table_new_entry_def t Let_def
    by (simp only:) (simp add: copy_array_eq l assms)
qed

lemma cleared_fields:
  "length (ip_addr e) = 4 \<Longrightarrow> length ip = 4 \<Longrightarrow> used (cleared ip e) = 1 \<longleftrightarrow> used e = 1 \<and> ip_addr e \<noteq> ip"
  "ip_addr (cleared ip e) = ip_addr e" "mac_addr (cleared ip e) = mac_addr e"
  by (auto simp: cleared_def entry_matches_iff)

text \<open>Whether a new entry for \<open>ip\<close> finds no free slot.\<close>

definition arp_full :: "arp_table_entry list \<Rightarrow> u8 list \<Rightarrow> bool" where
  "arp_full tab ip \<longleftrightarrow> list_all (\<lambda>e. used e = 1 \<and> ip_addr e \<noteq> ip) tab"

lemma slot_for_cases:
  assumes "arp_wf tab" "length ip = 4"
  shows "if arp_full tab ip then slot_for (map (cleared ip) tab) = 0
    else \<not> (used (tab ! slot_for (map (cleared ip) tab)) = 1 \<and> ip_addr (tab ! slot_for (map (cleared ip) tab)) \<noteq> ip)"
proof -
  let ?t = "map (cleared ip) tab"
  have len: "length tab = 8" "\<And>e. e \<in> set tab \<Longrightarrow> length (ip_addr e) = 4"
    using assms(1) by (auto simp: arp_wf_def arp_shape_def list_all_iff)
  have full: "arp_full tab ip \<longleftrightarrow> list_all (\<lambda>e. used e = 1) ?t"
    using len(2) assms(2) by (auto simp: arp_full_def list_all_iff cleared_fields)
  show ?thesis
  proof (cases "arp_full tab ip")
    case True
    then have "list_all (\<lambda>e. used e = 1) ?t" using full by blast
    then have "slot_for ?t = 0" unfolding slot_for_def by (rule if_P)
    with True show ?thesis by simp
  next
    case False
    then have slot: "slot_for ?t = length (takeWhile (\<lambda>e. used e = 1) ?t)"
      using full unfolding slot_for_def by (intro if_not_P) blast
    have "slot_for ?t < length ?t" using slot_for_less [of ?t] len by simp
    then have "used (?t ! slot_for ?t) \<noteq> 1"
      unfolding slot by (rule nth_length_takeWhile)
    with \<open>slot_for ?t < length ?t\<close> False show ?thesis
      using len assms(2) by (simp add: cleared_fields)
  qed
qed

lemma arp_wf_new_entry:
  assumes "arp_wf tab" "length ip = 4" "length mac = 6"
  shows "arp_wf (arp_table_new_entry beyond tab ip mac)"
proof -
  let ?t = "map (cleared ip) tab" and ?e = "\<lparr>used = 1, ip_addr = ip, mac_addr = mac\<rparr>"
  have shape: "length tab = 8" "\<And>i. i < 8 \<Longrightarrow> length (ip_addr (tab ! i)) = 4" "\<And>i. i < 8 \<Longrightarrow> length (mac_addr (tab ! i)) = 6"
    using assms(1) by (simp_all add: arp_wf_def arp_shape_def list_all_iff)
  have t: "used (?t ! i) = 1 \<longleftrightarrow> used (tab ! i) = 1 \<and> ip_addr (tab ! i) \<noteq> ip"
      "ip_addr (?t ! i) = ip_addr (tab ! i)" "mac_addr (?t ! i) = mac_addr (tab ! i)" if "i < 8" for i
    using that shape assms(2) by (simp_all add: cleared_fields)
  have slot: "slot_for ?t < 8" using slot_for_less [of ?t] shape by simp
  then have "arp_shape (?t[slot_for ?t := ?e])"
    using shape assms unfolding arp_shape_def list_all_length by (auto simp: nth_list_update cleared_fields)
  moreover have "i = j" if "i < 8" "j < 8" "used (?t[slot_for ?t := ?e] ! i) = 1" "used (?t[slot_for ?t := ?e] ! j) = 1"
      "ip_addr (?t[slot_for ?t := ?e] ! i) = ip_addr (?t[slot_for ?t := ?e] ! j)" for i j
    using that assms(1) shape(1) slot t
    by (cases "i = slot_for ?t"; cases "j = slot_for ?t") (auto simp: arp_wf_iff nth_list_update)
  ultimately show ?thesis
    unfolding arp_table_new_entry_eq [OF assms] Let_def by (auto simp: arp_wf_iff)
qed

lemma arp_lookup_new_entry:
  assumes "arp_wf tab" "length ip = 4" "length mac = 6" "length ip' = 4"
  shows "arp_lookup (arp_table_new_entry beyond tab ip mac) ip' =
    (if ip' = ip then Some mac
     else if arp_full tab ip \<and> ip' = ip_addr (tab ! 0) then None
     else arp_lookup tab ip')"
proof -
  let ?t = "map (cleared ip) tab" and ?e = "\<lparr>used = 1, ip_addr = ip, mac_addr = mac\<rparr>"
  let ?new = "?t[slot_for ?t := ?e]"
  have new: "arp_table_new_entry beyond tab ip mac = ?new" "arp_wf ?new"
    using arp_table_new_entry_eq [OF assms(1-3)] arp_wf_new_entry [OF assms(1-3)] by (simp_all add: Let_def)
  have len: "length tab = 8" "\<And>i. i < 8 \<Longrightarrow> length (ip_addr (tab ! i)) = 4"
    using assms(1) by (simp_all add: arp_wf_def arp_shape_def list_all_iff)
  have slot: "slot_for ?t < 8" using slot_for_less [of ?t] len by simp
  have iff: "arp_lookup ?new ip' = Some m \<longleftrightarrow>
      (if ip' = ip then m = mac
       else \<exists>i < 8. i \<noteq> slot_for ?t \<and> used (tab ! i) = 1 \<and> ip_addr (tab ! i) = ip' \<and> mac_addr (tab ! i) = m)" for m
  proof -
    have nth: "?new ! i = (if i = slot_for ?t then ?e else cleared ip (tab ! i))" if "i < 8" for i
      using that len slot by (simp add: nth_list_update)
    have "arp_lookup ?new ip' = Some m \<longleftrightarrow> (\<exists>i < 8. if i = slot_for ?t then ip = ip' \<and> mac = m
        else used (tab ! i) = 1 \<and> ip_addr (tab ! i) \<noteq> ip \<and> ip_addr (tab ! i) = ip' \<and> mac_addr (tab ! i) = m)"
      unfolding arp_lookup_Some_iff [OF new(2) assms(4)] using len assms(2)
      by (intro ex_cong1 conj_cong refl) (simp add: nth cleared_fields)
    then show ?thesis using slot by auto
  qed
  have "arp_lookup ?new ip' = Some m \<longleftrightarrow>
      (if ip' = ip then Some mac else if arp_full tab ip \<and> ip' = ip_addr (tab ! 0) then None
       else arp_lookup tab ip') = Some m" for m
  proof (cases "arp_full tab ip")
    case True
    then have z: "slot_for ?t = 0" "used (tab ! 0) = 1"
      using slot_for_cases [OF assms(1,2)] len by (simp_all add: arp_full_def list_all_length)
    have uniq: "\<And>i. i < 8 \<Longrightarrow> used (tab ! i) = 1 \<Longrightarrow> ip_addr (tab ! i) = ip_addr (tab ! 0) \<Longrightarrow> i = 0"
      using assms(1) z(2) by (auto simp: arp_wf_iff)
    show ?thesis
    proof (cases "ip' = ip_addr (tab ! 0)")
      case zero: True
      then show ?thesis by (subst iff) (use True uniq z(1) in auto)
    next
      case False
      then have "i \<noteq> 0 \<and> used (tab ! i) = 1 \<and> ip_addr (tab ! i) = ip' \<and> mac_addr (tab ! i) = m \<longleftrightarrow>
          used (tab ! i) = 1 \<and> ip_addr (tab ! i) = ip' \<and> mac_addr (tab ! i) = m" for i
        by (cases "i = 0") auto
      then show ?thesis by (subst iff) (use False z(1) assms(1,4) in \<open>auto simp: arp_lookup_Some_iff\<close>)
    qed
  next
    case False
    then have "\<not> (used (tab ! slot_for ?t) = 1 \<and> ip_addr (tab ! slot_for ?t) \<noteq> ip)"
      using slot_for_cases [OF assms(1,2)] by simp
    then show ?thesis unfolding iff using False assms(1,4) by (auto simp: arp_lookup_Some_iff)
  qed
  then show ?thesis unfolding new(1) by (metis not_Some_eq)
qed

lemma arp_wf_delete:
  assumes "arp_wf tab" "length ip = 4"
  shows "arp_wf (snd (arp_table_delete_entry tab ip))"
proof -
  have len: "length tab = 8" "\<And>i. i < 8 \<Longrightarrow> length (ip_addr (tab ! i)) = 4"
    using assms(1) by (simp_all add: arp_wf_def arp_shape_def list_all_iff)
  then show ?thesis using assms
    by (auto simp: arp_wf_iff arp_shape_def list_all_length arp_table_delete_entry_eq cleared_fields)
qed

lemma arp_lookup_delete:
  assumes "arp_wf tab" "length ip = 4" "length ip' = 4"
  shows "arp_lookup (snd (arp_table_delete_entry tab ip)) ip' = (if ip' = ip then None else arp_lookup tab ip')"
proof -
  have len: "length tab = 8" "\<And>i. i < 8 \<Longrightarrow> length (ip_addr (tab ! i)) = 4"
    using assms(1) by (simp_all add: arp_wf_def arp_shape_def list_all_iff)
  have "arp_lookup (snd (arp_table_delete_entry tab ip)) ip' = Some m \<longleftrightarrow>
      (if ip' = ip then None else arp_lookup tab ip') = Some m" for m
    unfolding arp_lookup_Some_iff [OF arp_wf_delete [OF assms(1,2)] assms(3)]
    using len assms by (auto simp: arp_lookup_Some_iff arp_table_delete_entry_eq cleared_fields)
  then show ?thesis by (metis not_Some_eq)
qed

section \<open>The address-cache interface\<close>

text \<open>
  What the resolver relies on: a table of bindings that may forget a binding to make room but never
  returns an outdated one.
\<close>

datatype ('k, 'v) cache_op = Bind 'k 'v | Unbind 'k

locale addr_cache =
  fixes lookup :: "'t \<Rightarrow> 'k \<Rightarrow> 'v option"
    and bind :: "'t \<Rightarrow> 'k \<Rightarrow> 'v \<Rightarrow> 't"
    and unbind :: "'t \<Rightarrow> 'k \<Rightarrow> 't"
    and inv :: "'t \<Rightarrow> bool"
    and key :: "'k \<Rightarrow> bool"
    and val :: "'v \<Rightarrow> bool"
  assumes inv_bind: "inv t \<Longrightarrow> key k \<Longrightarrow> val v \<Longrightarrow> inv (bind t k v)"
    and inv_unbind: "inv t \<Longrightarrow> key k \<Longrightarrow> inv (unbind t k)"
    and lookup_bind_same: "inv t \<Longrightarrow> key k \<Longrightarrow> val v \<Longrightarrow> lookup (bind t k v) k = Some v"
    and lookup_bind_other: "inv t \<Longrightarrow> key k \<Longrightarrow> val v \<Longrightarrow> key k' \<Longrightarrow> k' \<noteq> k \<Longrightarrow>
      lookup (bind t k v) k' = Some w \<Longrightarrow> lookup t k' = Some w"
    and lookup_unbind: "inv t \<Longrightarrow> key k \<Longrightarrow> key k' \<Longrightarrow>
      lookup (unbind t k) k' = (if k' = k then None else lookup t k')"
begin

definition apply_op :: "('k, 'v) cache_op \<Rightarrow> 't \<Rightarrow> 't" where
  "apply_op c t = (case c of Bind k v \<Rightarrow> bind t k v | Unbind k \<Rightarrow> unbind t k)"

definition op_ok :: "('k, 'v) cache_op \<Rightarrow> bool" where
  "op_ok c \<longleftrightarrow> (case c of Bind k v \<Rightarrow> key k \<and> val v | Unbind k \<Rightarrow> key k)"

lemma inv_run: "inv t \<Longrightarrow> list_all op_ok cs \<Longrightarrow> inv (fold apply_op cs t)"
  by (induction cs arbitrary: t) (auto simp: apply_op_def op_ok_def inv_bind inv_unbind split: cache_op.splits)

lemma no_outdated:
  assumes "inv t" "list_all op_ok cs" "key k" "lookup (fold apply_op cs t) k = Some v"
  shows "fold (\<lambda>c m. case c of Bind k v \<Rightarrow> m(k \<mapsto> v) | Unbind k \<Rightarrow> m(k := None)) cs (lookup t) k = Some v"
  using assms
proof (induction cs arbitrary: v rule: rev_induct)
  case (snoc c cs)
  let ?t = "fold apply_op cs t"
  have inv: "inv ?t" and c: "lookup (apply_op c ?t) k = Some v" "op_ok c" using snoc.prems inv_run by auto
  show ?case
  proof (cases c)
    case (Bind k' v')
    then have "lookup (bind ?t k' v') k = Some v" "key k'" "val v'"
      using c by (simp_all add: apply_op_def op_ok_def)
    then show ?thesis
      using snoc Bind inv lookup_bind_same [of ?t k' v'] lookup_bind_other [of ?t k' v' k v] by auto
  next
    case (Unbind k')
    then have "lookup (unbind ?t k') k = Some v" "key k'"
      using c by (simp_all add: apply_op_def op_ok_def)
    then show ?thesis
      using snoc Unbind inv lookup_unbind [of ?t k' k] by (auto split: if_splits)
  qed
qed simp

end

interpretation arp: addr_cache arp_lookup "arp_table_new_entry beyond"
    "\<lambda>tab ip. snd (arp_table_delete_entry tab ip)" arp_wf
    "\<lambda>ip :: u8 list. length ip = 4" "\<lambda>mac :: u8 list. length mac = 6" for beyond
  by unfold_locales
    (simp_all add: arp_wf_new_entry arp_wf_delete arp_lookup_new_entry arp_lookup_delete split: if_splits)

text \<open>A history of table updates.\<close>

definition arp_update :: "u8 \<Rightarrow> (u8 list, u8 list) cache_op \<Rightarrow> arp_table_entry list \<Rightarrow> arp_table_entry list" where
  "arp_update beyond c tab = (case c of Bind ip mac \<Rightarrow> arp_table_new_entry beyond tab ip mac
     | Unbind ip \<Rightarrow> snd (arp_table_delete_entry tab ip))"

definition arp_update_ok :: "(u8 list, u8 list) cache_op \<Rightarrow> bool" where
  "arp_update_ok c \<longleftrightarrow> (case c of Bind ip mac \<Rightarrow> length ip = 4 \<and> length mac = 6 | Unbind ip \<Rightarrow> length ip = 4)"

text \<open>The bindings the history asks for, with nothing forgotten.\<close>

definition arp_bindings :: "(u8 list, u8 list) cache_op list \<Rightarrow> u8 list \<rightharpoonup> u8 list" where
  "arp_bindings cs = fold (\<lambda>c m. case c of Bind k v \<Rightarrow> m(k \<mapsto> v) | Unbind k \<Rightarrow> m(k := None)) cs Map.empty"

definition arp_table_zero :: "arp_table_entry list" where
  "arp_table_zero = replicate ARP_TABLE_SIZE \<lparr>used = 0, ip_addr = replicate 4 0, mac_addr = replicate 6 0\<rparr>"

lemma arp_wf_zero: "arp_wf arp_table_zero"
  by (auto simp: arp_wf_iff arp_shape_def arp_table_zero_def list_all_iff)

lemma arp_lookup_zero: "length ip = 4 \<Longrightarrow> arp_lookup arp_table_zero ip = None"
proof -
  assume "length ip = 4"
  moreover have "used (arp_table_zero ! i) = 0" if "i < 8" for i using that by (simp add: arp_table_zero_def)
  ultimately have "arp_lookup arp_table_zero ip \<noteq> Some mac" for mac
    by (auto simp: arp_lookup_Some_iff [OF arp_wf_zero])
  then show ?thesis by auto
qed

text \<open>A node with an empty table.\<close>

definition arp_boot :: "u8 list \<Rightarrow> u8 list \<Rightarrow> buffer \<Rightarrow> arp_state" where
  "arp_boot mac ip b = \<lparr>trace = [], buff = b, buff1 = \<lambda>_. 0, my_mac = mac, my_ip = ip, arp_table = arp_table_zero\<rparr>"

section \<open>Frames\<close>

lemma arp_fields_eq:
  "arp_get_target_ip b p = [ucast (mem_iord_byte b (p + 38)), ucast (mem_iord_byte b (p + 39)),
     ucast (mem_iord_byte b (p + 40)), ucast (mem_iord_byte b (p + 41))]"
  "arp_get_sender_ip b p = [ucast (mem_iord_byte b (p + 28)), ucast (mem_iord_byte b (p + 29)),
     ucast (mem_iord_byte b (p + 30)), ucast (mem_iord_byte b (p + 31))]"
  "arp_get_target_mac b p = [ucast (mem_iord_byte b (p + 32)), ucast (mem_iord_byte b (p + 33)),
     ucast (mem_iord_byte b (p + 34)), ucast (mem_iord_byte b (p + 35)),
     ucast (mem_iord_byte b (p + 36)), ucast (mem_iord_byte b (p + 37))]"
  "arp_get_sender_mac b p = [ucast (mem_iord_byte b (p + 22)), ucast (mem_iord_byte b (p + 23)),
     ucast (mem_iord_byte b (p + 24)), ucast (mem_iord_byte b (p + 25)),
     ucast (mem_iord_byte b (p + 26)), ucast (mem_iord_byte b (p + 27))]"
  by (simp_all add: arp_get_target_ip_def arp_get_sender_ip_def arp_get_target_mac_def arp_get_sender_mac_def
      upt_rec)

lemma apart_arp [simp]: "apart tx (tx + 6) 6" "apart (tx + 32) (tx + 22) 6" "apart (tx + 38) (tx + 28) 4"
  by (simp_all add: apart_def)

lemma arp_reply_frame:
  assumes sep: "rx = tx \<or> 42 \<le> unat (tx - rx)"
  shows "mem_iord_byte (snd (arp_build_reply mac ip rx tx b)) a =
    (if within a (tx + 38) 4 then mem_iord_byte b (rx + 28 + (a - (tx + 38)))
     else if within a (tx + 28) 4 then ucast (ip ! unat (a - (tx + 28)))
     else if within a (tx + 32) 6 then mem_iord_byte b (rx + 22 + (a - (tx + 32)))
     else if within a (tx + 22) 6 then ucast (mac ! unat (a - (tx + 22)))
     else if a = tx + 21 then 2
     else if within a tx 6 then mem_iord_byte b (rx + 6 + (a - tx))
     else if within a (tx + 6) 6 then ucast (mac ! unat (a - (tx + 6)))
     else if within a tx 42 then mem_iord_byte b (rx + (a - tx))
     else mem_iord_byte b a)"
proof -
  define b0 where "b0 = (if rx \<noteq> tx then
      fold (\<lambda>i b. mem_iowr_byte b (tx + of_nat i) (mem_iord_byte b (rx + of_nat i))) [0..<42] b else b)"
  define b1 where "b1 = fold (\<lambda>i b. mem_iowr_byte
      (mem_iowr_byte b (tx + of_nat i) (mem_iord_byte b (tx + 6 + of_nat i)))
      (tx + 6 + of_nat i) (ucast (mac ! i))) [0..<6] b0"
  define b2 where "b2 = fold (\<lambda>i b. mem_iowr_byte
      (mem_iowr_byte b (tx + 32 + of_nat i) (mem_iord_byte b (tx + 22 + of_nat i)))
      (tx + 22 + of_nat i) (ucast (mac ! i))) [0..<6] (mem_iowr_byte b1 (tx + 21) 2)"
  define b3 where "b3 = fold (\<lambda>i b. mem_iowr_byte
      (mem_iowr_byte b (tx + 38 + of_nat i) (mem_iord_byte b (tx + 28 + of_nat i)))
      (tx + 28 + of_nat i) (ucast (ip ! i))) [0..<4] b2"
  have r: "snd (arp_build_reply mac ip rx tx b) = b3"
    by (simp add: arp_build_reply_def Let_def b3_def b2_def b1_def b0_def)
  have r0: "mem_iord_byte b0 a = (if within a tx 42 then mem_iord_byte b (rx + (a - tx)) else mem_iord_byte b a)"
    for a unfolding b0_def using sep by (auto simp: eth0.rd_copy)
  have r1: "mem_iord_byte b1 a = (if within a tx 6 then mem_iord_byte b0 (tx + 6 + (a - tx))
      else if within a (tx + 6) 6 then ucast (mac ! unat (a - (tx + 6))) else mem_iord_byte b0 a)"
    for a unfolding b1_def by (simp add: eth0.rd_swap)
  have r2: "mem_iord_byte b2 a = (if within a (tx + 32) 6 then mem_iord_byte (mem_iowr_byte b1 (tx + 21) 2) (tx + 22 + (a - (tx + 32)))
      else if within a (tx + 22) 6 then ucast (mac ! unat (a - (tx + 22)))
      else mem_iord_byte (mem_iowr_byte b1 (tx + 21) 2) a)"
    for a unfolding b2_def by (simp add: eth0.rd_swap)
  have r3: "mem_iord_byte b3 a = (if within a (tx + 38) 4 then mem_iord_byte b2 (tx + 28 + (a - (tx + 38)))
      else if within a (tx + 28) 4 then ucast (ip ! unat (a - (tx + 28))) else mem_iord_byte b2 a)"
    for a unfolding b3_def by (simp add: eth0.rd_swap)
  have m1: "mem_iord_byte b0 (tx + 6 + y) = mem_iord_byte b (rx + 6 + y)" if "unat y < 6" for y
    using that unfolding r0 by (auto simp: within_def unat_word_ariths add.assoc)
  have m2: "mem_iord_byte (mem_iowr_byte b1 (tx + 21) 2) (tx + 22 + y) = mem_iord_byte b (rx + 22 + y)" if "unat y < 6" for y
  proof -
    have k: "unat (k + y) = unat k + unat y" if "unat k \<le> 100" for k
      using that \<open>unat y < 6\<close> by (simp add: unat_word_ariths)
    have "1 + y \<noteq> 0" using k [of 1] by (metis add_is_0 numeral_le_one_iff one_neq_zero unat_0 unat_1 one_le_numeral)
    then show ?thesis
      using that unfolding mem_iord_iowr_byte r1 r0 by (auto simp: within_def add.assoc k)
  qed
  have m3: "mem_iord_byte b2 (tx + 28 + y) = mem_iord_byte b (rx + 28 + y)" if "unat y < 4" for y
  proof -
    have k: "unat (k + y) = unat k + unat y" if "unat k \<le> 100" for k
      using that \<open>unat y < 4\<close> by (simp add: unat_word_ariths)
    have "unat (7 + y) \<noteq> 0" using k [of 7] by simp
    then have "7 + y \<noteq> 0" by (metis unat_0)
    moreover have "\<not> unat (y - 4) < 6"
      using unat_word_ariths(1) [of 4 "y - 4"] that by auto
    ultimately show ?thesis
      using that unfolding r2 mem_iord_iowr_byte r1 r0 by (auto simp: within_def add.assoc k diff_add_eq)
  qed
  show ?thesis
    unfolding r using m3 [of "a - (tx + 38)"] m2 [of "a - (tx + 32)"] m1 [of "a - tx"]
    by (simp add: r3 r2 r1 r0 within_def mem_iord_iowr_byte)
qed

lemma arp_reply_fields:
  assumes "rx = tx \<or> 42 \<le> unat (tx - rx)" "length mac = 6" "length ip = 4"
    and r: "r = snd (arp_build_reply mac ip rx tx b)"
  shows "mac_addr_dest r tx = mac_addr_sender b rx" "mac_addr_sender r tx = mac"
    "arp_get_sender_mac r tx = mac" "arp_get_sender_ip r tx = ip"
    "arp_get_target_mac r tx = arp_get_sender_mac b rx" "arp_get_target_ip r tx = arp_get_sender_ip b rx"
    "mem_iord_byte r (tx + 21) = 2" "mac_packet_type r tx = ARP \<longleftrightarrow> mac_packet_type b rx = ARP"
proof -
  note frame = arp_reply_frame [OF assms(1), of mac ip b, folded r]
  show "mac_addr_dest r tx = mac_addr_sender b rx" "mac_addr_sender r tx = mac"
    "arp_get_sender_mac r tx = mac" "arp_get_sender_ip r tx = ip"
    using list_eq_6 [OF assms(2)] list_eq_4 [OF assms(3)]
    by (simp_all add: mac_addr_dest_def mac_addr_sender_def arp_fields_eq frame within_def)
  show "arp_get_target_mac r tx = arp_get_sender_mac b rx" "arp_get_target_ip r tx = arp_get_sender_ip b rx"
    by (simp_all add: arp_fields_eq frame within_def)
  show "mem_iord_byte r (tx + 21) = 2" by (simp add: frame within_def)
  have "mem_iord_byte r (tx + 12) = mem_iord_byte b (rx + 12)" "mem_iord_byte r (tx + 13) = mem_iord_byte b (rx + 13)"
    by (simp_all add: frame within_def)
  then show "mac_packet_type r tx = ARP \<longleftrightarrow> mac_packet_type b rx = ARP"
    by (simp add: mac_packet_type_def Let_def)
qed

lemma upt_6: "[0..<6] = [0, 1, 2, 3, 4, 5 :: nat]"
  by (simp add: upt_rec)

lemma arp_request_fields:
  assumes "aligned4 tx" "length mac = 6" "length ip = 4" "length target_ip = 4"
    and r: "r = snd (arp_build_request mac ip tx target_ip b)"
  shows "mac_addr_dest r tx = [0xFF, 0xFF, 0xFF, 0xFF, 0xFF, 0xFF]" "mac_addr_sender r tx = mac"
    "mac_packet_type r tx = ARP" "arp_get_operation r tx = 1" "mem_iord_byte r (tx + 21) = 1"
    "arp_get_sender_mac r tx = mac" "arp_get_sender_ip r tx = ip"
    "arp_get_target_mac r tx = [0, 0, 0, 0, 0, 0]" "arp_get_target_ip r tx = target_ip"
proof -
  have al: "aligned4 (tx + 12)" "aligned4 (tx + 16)" using assms(1) by (auto intro: aligned4_add)
  note rd = r arp_build_request_def Let_def upt_6 upt_4 mem_iord_iowr_byte mem_iord_byte_iowr [OF al(1)]
    mem_iord_byte_iowr [OF al(2)]
  show "mac_addr_dest r tx = [0xFF, 0xFF, 0xFF, 0xFF, 0xFF, 0xFF]" by (simp add: mac_addr_dest_def rd)
  show "mac_addr_sender r tx = mac"
    using list_eq_6 [OF assms(2)] by (simp add: mac_addr_sender_def rd)
  show "mac_packet_type r tx = ARP" by (simp add: mac_packet_type_def rd)
  show "mem_iord_byte r (tx + 21) = 1" by (simp add: rd)
  then show "arp_get_operation r tx = 1" by (simp add: arp_get_operation_def) (simp add: rd)
  show "arp_get_sender_mac r tx = mac"
    using list_eq_6 [OF assms(2)] by (simp add: arp_fields_eq rd)
  show "arp_get_sender_ip r tx = ip"
    using list_eq_4 [OF assms(3)] by (simp add: arp_fields_eq rd)
  show "arp_get_target_mac r tx = [0, 0, 0, 0, 0, 0]" by (simp add: arp_fields_eq rd)
  show "arp_get_target_ip r tx = target_ip"
    using list_eq_4 [OF assms(4)] by (simp add: arp_fields_eq rd)
qed

section \<open>The protocol\<close>

lemma same_frame_arp:
  assumes "same_frame 42 b p b' p'"
  shows "arp_get_target_ip b p = arp_get_target_ip b' p'" "arp_get_sender_ip b p = arp_get_sender_ip b' p'"
    "arp_get_target_mac b p = arp_get_target_mac b' p'" "arp_get_sender_mac b p = arp_get_sender_mac b' p'"
    "mem_iord_byte b (p + 21) = mem_iord_byte b' (p' + 21)"
  by (simp_all add: arp_fields_eq same_frame_byte [OF assms])

lemma length_arp_fields [simp]:
  "length (arp_get_target_ip b p) = 4" "length (arp_get_sender_ip b p) = 4"
  "length (arp_get_target_mac b p) = 6" "length (arp_get_sender_mac b p) = 6"
  by (simp_all add: arp_fields_eq)

lemma mac_compare_mac_refl [simp]: "mac_compare_mac m m = 1"
  by (simp add: mac_compare_mac_def)

lemma fst_arp_build_reply [simp]: "fst (arp_build_reply mac ip rx tx b) = 42"
  by (simp add: arp_build_reply_def Let_def)

lemma arp_process_received_eq:
  assumes "length (my_ip s) = 4" "length (my_mac s) = 6"
  shows "arp_process_received E beyond rx tx s =
    (if arp_get_target_ip (buff s) rx \<noteq> my_ip s then Some (0, s)
     else if mem_iord_byte (buff s) (rx + 21) = 1 then
       map_option (Pair 1) (eth_mac_send E tx 42
         (s\<lparr>buff := snd (arp_build_reply (my_mac s) (my_ip s) rx tx (buff s))\<rparr>))
     else if mem_iord_byte (buff s) (rx + 21) = 2 \<and> arp_get_target_mac (buff s) rx = my_mac s then
       Some (2, s\<lparr>arp_table := arp_table_new_entry beyond (arp_table s)
                   (arp_get_sender_ip (buff s) rx) (arp_get_sender_mac (buff s) rx)\<rparr>)
     else Some (0, s))"
  using assms
  by (simp add: arp_process_received_def Let_def ipv4_compare_ip_iff mac_compare_mac_iff split_beta
      split: option.splits)

text \<open>C13: after a new entry for \<open>ip\<close> a lookup of \<open>ip\<close> gives the new hardware address; every other
  address keeps its binding, except that in a full table the entry in slot 0 is given up.  The table
  stays well-formed (no address has two entries), and the byte read past the end of a full table
  does not matter.\<close>

theorem arp_new_entry_binds:
  assumes "arp_wf tab" "length ip = 4" "length mac = 6" "length ip' = 4"
  shows "arp_wf (arp_table_new_entry beyond tab ip mac) \<and>
    arp_lookup (arp_table_new_entry beyond tab ip mac) ip' =
      (if ip' = ip then Some mac
       else if arp_full tab ip \<and> ip' = ip_addr (tab ! 0) then None
       else arp_lookup tab ip') \<and>
    arp_table_new_entry beyond tab ip mac = arp_table_new_entry 0 tab ip mac"
  using arp_wf_new_entry [OF assms(1-3)] arp_lookup_new_entry [OF assms]
  by (simp add: arp_table_new_entry_eq [OF assms(1-3)])

theorem arp_new_entry_binds_witness:
  "arp_lookup (arp_table_new_entry 7 arp_table_zero [192, 168, 24, 1] [0, 1, 2, 3, 4, 5]) [192, 168, 24, 1] =
    Some [0, 1, 2, 3, 4, 5]"
  using arp_new_entry_binds [OF arp_wf_zero, of "[192, 168, 24, 1]" "[0, 1, 2, 3, 4, 5]" "[192, 168, 24, 1]" 7,
      THEN conjunct2, THEN conjunct1]
  by simp

text \<open>C7: whatever sequence of insertions and deletions the table has seen, a lookup returns the
  hardware address bound last or nothing: it never returns an outdated address.\<close>

theorem arp_table_refines_bindings:
  assumes "list_all arp_update_ok cs" "length ip = 4"
    and "arp_lookup (fold (arp_update beyond) cs arp_table_zero) ip = Some mac"
  shows "arp_bindings cs ip = Some mac"
proof -
  have "arp_update beyond = arp.apply_op beyond" "arp_update_ok = arp.op_ok"
    by (auto simp: fun_eq_iff arp_update_def arp.apply_op_def arp_update_ok_def arp.op_ok_def)
  then have *: "fold (\<lambda>c m. case c of Bind k v \<Rightarrow> m(k \<mapsto> v) | Unbind k \<Rightarrow> m(k := None)) cs (arp_lookup arp_table_zero) ip = Some mac"
    using arp.no_outdated [OF arp_wf_zero, of cs ip beyond mac] assms by simp
  have "fold (\<lambda>c m. case c of Bind k v \<Rightarrow> m(k \<mapsto> v) | Unbind k \<Rightarrow> m(k := None)) cs f ip =
      fold (\<lambda>c m. case c of Bind k v \<Rightarrow> m(k \<mapsto> v) | Unbind k \<Rightarrow> m(k := None)) cs g ip"
    if "f ip = g ip" for f g :: "u8 list \<rightharpoonup> u8 list"
    using that
  proof (induction cs arbitrary: f g)
    case (Cons c cs)
    have "(case c of Bind k v \<Rightarrow> f(k \<mapsto> v) | Unbind k \<Rightarrow> f(k := None)) ip =
        (case c of Bind k v \<Rightarrow> g(k \<mapsto> v) | Unbind k \<Rightarrow> g(k := None)) ip"
      using Cons.prems by (cases c) simp_all
    then show ?case unfolding fold_simps by (rule Cons.IH)
  qed simp
  from this [of "arp_lookup arp_table_zero" Map.empty] show ?thesis
    using * assms(2) by (simp add: arp_bindings_def arp_lookup_zero)
qed

theorem arp_table_refines_bindings_witness:
  "arp_bindings [Bind [10, 0, 0, 1] [0, 1, 2, 3, 4, 5], Bind [10, 0, 0, 1] [6, 7, 8, 9, 10, 11]] [10, 0, 0, 1] =
    Some [6, 7, 8, 9, 10, 11]"
proof (rule arp_table_refines_bindings)
  show "arp_lookup (fold (arp_update 0) [Bind [10, 0, 0, 1] [0, 1, 2, 3, 4, 5], Bind [10, 0, 0, 1] [6, 7, 8, 9, 10, 11]]
      arp_table_zero) [10, 0, 0, 1] = Some [6, 7, 8, 9, 10, 11]"
    by (simp add: arp_update_def arp_lookup_new_entry arp_wf_new_entry arp_wf_zero)
qed (simp_all add: arp_update_ok_def)

text \<open>C18: an ARP exchange between two nodes works.  A request that node A builds for the address of
  node B is, when its 42 bytes arrive at B, answered by B; when the 42 bytes of the answer arrive
  at A, A enters B's hardware address for B's IP address into its table.\<close>

theorem arp_exchange:
  assumes "aligned4 tx" "length (my_mac sA) = 6" "length (my_ip sA) = 4" "arp_wf (arp_table sA)"
    and "length (my_mac sB) = 6" "length (my_ip sB) = 4" "rxB = txB \<or> 42 \<le> unat (txB - rxB)"
    and req: "same_frame 42 (buff sB) rxB (snd (arp_build_request (my_mac sA) (my_ip sA) tx (my_ip sB) b)) tx"
    and rep: "same_frame 42 (buff sA) rxA (snd (arp_build_reply (my_mac sB) (my_ip sB) rxB txB (buff sB))) txB"
  shows "arp_process_received EB beyondB rxB txB sB =
      map_option (Pair 1) (eth_mac_send EB txB 42
        (sB\<lparr>buff := snd (arp_build_reply (my_mac sB) (my_ip sB) rxB txB (buff sB))\<rparr>)) \<and>
    (\<exists>tab. arp_process_received EA beyondA rxA txA sA = Some (2, sA\<lparr>arp_table := tab\<rparr>) \<and>
       arp_lookup tab (my_ip sB) = Some (my_mac sB))"
proof -
  note request = arp_request_fields [OF assms(1,2,3,6) refl, of b]
  note reply = arp_reply_fields [OF assms(7,5,6) refl, of "buff sB"]
  have "arp_get_target_ip (buff sB) rxB = my_ip sB" "mem_iord_byte (buff sB) (rxB + 21) = 1"
    "arp_get_sender_mac (buff sB) rxB = my_mac sA" "arp_get_sender_ip (buff sB) rxB = my_ip sA"
    unfolding same_frame_arp [OF req] request by simp_all
  then show ?thesis
    unfolding arp_process_received_eq [OF assms(6,5)] arp_process_received_eq [OF assms(3,2)]
      same_frame_arp [OF rep] reply
    using assms
    by (auto simp: arp_lookup_new_entry
        intro!: exI [of _ "arp_table_new_entry beyondA (arp_table sA) (my_ip sB) (my_mac sB)"])
qed

theorem arp_exchange_witness:
  "let macA = [2, 0, 0, 0, 0, 1]; ipA = [10, 0, 0, 1]; macB = [2, 0, 0, 0, 0, 2]; ipB = [10, 0, 0, 2];
       request = snd (arp_build_request macA ipA 0x100 ipB (\<lambda>_. 0));
       reply = snd (arp_build_reply macB ipB 0x100 0x100 request);
       A = arp_boot macA ipA reply
   in \<exists>tab. arp_process_received regfile_env 0 0x100 0x800 A = Some (2, A\<lparr>arp_table := tab\<rparr>) \<and>
        arp_lookup tab ipB = Some macB"
proof -
  let ?request = "snd (arp_build_request [2, 0, 0, 0, 0, 1] [10, 0, 0, 1] 0x100 [10, 0, 0, 2] (\<lambda>_. 0))"
  let ?reply = "snd (arp_build_reply [2, 0, 0, 0, 0, 2] [10, 0, 0, 2] 0x100 0x100 ?request)"
  have frame: "same_frame n b p b p" for n b p by (simp add: same_frame_def list_all_iff)
  show ?thesis
    using arp_exchange [of "0x100" "arp_boot [2, 0, 0, 0, 0, 1] [10, 0, 0, 1] ?reply"
        "arp_boot [2, 0, 0, 0, 0, 2] [10, 0, 0, 2] ?request" "0x100" "0x100" "\<lambda>_. 0" "0x100" regfile_env 0 regfile_env 0 "0x800"]
    by (simp add: arp_boot_def frame arp_wf_zero aligned4_def Let_def)
qed

section \<open>The resolver\<close>

text \<open>One round of the loop with its condition.\<close>

definition arp_resolve_rnd ::
  "env \<Rightarrow> u8 \<Rightarrow> u32 \<Rightarrow> u32 \<Rightarrow> u8 list \<Rightarrow> u64 \<Rightarrow> u64 \<Rightarrow> 'a arp_state_scheme \<Rightarrow>
     ((u8 \<times> 'a arp_state_scheme) + 'a arp_state_scheme) option" where
  "arp_resolve_rnd E beyond rx_addr tx_addr target_ip timeout start_time s =
     (case arp_resolve_round E beyond rx_addr tx_addr target_ip s of
        None \<Rightarrow> None
      | Some (ans, s) \<Rightarrow> Some
          (if ans = 0 then
             (case get_cpu_usecs E s of (t, s) \<Rightarrow> if t - start_time < timeout then Inr s else Inl (0, s))
           else Inl (ans, s)))"

lemma arp_resolve_loop_least:
  assumes "arp_resolve_loop E beyond rx tx ip timeout t0 s = Some r"
  shows "ends (arp_resolve_rnd E beyond rx tx ip timeout t0) s r"
proof (rule arp_resolve_loop.raw_induct
    [where P = "\<lambda>E beyond rx tx ip timeout t0 s r. ends (arp_resolve_rnd E beyond rx tx ip timeout t0) s r", OF _ assms])
  fix f :: "env \<Rightarrow> u8 \<Rightarrow> u32 \<Rightarrow> u32 \<Rightarrow> u8 list \<Rightarrow> u64 \<Rightarrow> u64 \<Rightarrow> 'a arp_state_scheme \<Rightarrow>
     (u8 \<times> 'a arp_state_scheme) option" and E beyond rx tx ip timeout t0 s r
  assume IH: "\<And>E beyond rx tx ip timeout t0 s r. f E beyond rx tx ip timeout t0 s = Some r \<Longrightarrow>
      ends (arp_resolve_rnd E beyond rx tx ip timeout t0) s r"
    and eq: "(case arp_resolve_round E beyond rx tx ip s of
        None \<Rightarrow> None
      | Some (ans, s) \<Rightarrow>
          if ans = 0 then
            (case get_cpu_usecs E s of (t, s) \<Rightarrow>
               if t - t0 < timeout then f E beyond rx tx ip timeout t0 s else Some (0, s))
          else Some (ans, s)) = Some r"
  from eq show "ends (arp_resolve_rnd E beyond rx tx ip timeout t0) s r"
    by (auto split: option.splits prod.splits if_splits intro: ends_now ends_later [OF _ IH]
        simp: arp_resolve_rnd_def)
qed

interpretation arp_resolver: round_loop "arp_resolve_loop E beyond rx tx ip timeout t0"
    "arp_resolve_rnd E beyond rx tx ip timeout t0" for E beyond rx tx ip timeout t0
proof
  show "arp_resolve_loop E beyond rx tx ip timeout t0 s =
      (case arp_resolve_rnd E beyond rx tx ip timeout t0 s of
         None \<Rightarrow> None | Some (Inl r) \<Rightarrow> Some r | Some (Inr s') \<Rightarrow> arp_resolve_loop E beyond rx tx ip timeout t0 s')"
    for s :: "'a arp_state_scheme"
    by (simp add: arp_resolve_loop.simps [of E beyond rx tx ip timeout t0 s] arp_resolve_rnd_def split: option.splits prod.splits)
qed (rule arp_resolve_loop_least)

lemma arp_resolve_ip_eq:
  "arp_resolve_ip E beyond rx tx ip timeout s =
     arp_resolve_loop E beyond rx tx ip timeout (usecs_val E (trace s)) (snd (get_cpu_usecs E s))"
  by (simp add: arp_resolve_ip_def get_cpu_usecs_def Let_def)

text \<open>The resolver returns if and only if finitely many rounds of request, reception and clock
  reading end with an answer or with the deadline passed (a round in which the controller never
  completes a transmission does not return).\<close>

theorem arp_resolve_ip_returns_iff:
  "arp_resolve_ip E beyond rx tx ip timeout s = Some r \<longleftrightarrow>
     ends (arp_resolve_rnd E beyond rx tx ip timeout (usecs_val E (trace s))) (snd (get_cpu_usecs E s)) r"
  unfolding arp_resolve_ip_eq by (rule arp_resolver.returns_iff_ends)

text \<open>C19: when the resolver returns 1, the table has a hardware address for the target; it returns
  0 only when its last reading of the clock is past the deadline.\<close>

theorem arp_resolve_ip_result:
  assumes "arp_resolve_ip E beyond rx tx ip timeout s = Some (ans, s')"
  shows "ans = 1 \<and> arp_lookup (arp_table s') ip \<noteq> None \<or>
    ans = 0 \<and> (\<exists>t h. trace s' = CpuUsecs t # h \<and> timeout \<le> t - usecs_val E (trace s))"
proof -
  let ?Q = "\<lambda>(ans, s'). ans = 1 \<and> arp_lookup (arp_table s') ip \<noteq> None \<or>
    ans = 0 \<and> (\<exists>t h. trace s' = CpuUsecs t # h \<and> timeout \<le> t - usecs_val E (trace s))"
  have round: "ans = 0 \<or> ans = 1 \<and> arp_lookup (arp_table s2) ip \<noteq> None"
    if "arp_resolve_round E beyond rx tx ip s1 = Some (ans, s2)" for s1 s2 ans
    using that
    by (auto simp: arp_resolve_round_def arp_lookup_def split: prod.splits option.splits if_splits)
  have "?Q r" if "arp_resolve_rnd E beyond rx tx ip timeout (usecs_val E (trace s)) s1 = Some (Inl r)" for s1 r
    using that round [of s1]
    by (auto simp: arp_resolve_rnd_def get_cpu_usecs_def Let_def io_step_def split: option.splits prod.splits if_splits)
  then have "?Q (ans, s')"
    using arp_resolver.result_inv [OF assms [unfolded arp_resolve_ip_eq], of "\<lambda>_. True" ?Q] by blast
  then show ?thesis by simp
qed

text \<open>A quiet network: transmissions complete at once, nothing is received, and a reading of the clock
  after a poll is past every deadline.\<close>

definition quiet_env :: env where
  "quiet_env = regfile_env\<lparr>eth_val := \<lambda>tr r. if r = 4 then 1 else 0,
     usecs_val := \<lambda>tr. case tr of EthRd _ _ # _ \<Rightarrow> 100000 | CpuUsecs _ # _ \<Rightarrow> 100000 | _ \<Rightarrow> 0\<rparr>"

lemma quiet_send: "\<exists>m'. eth_mac_send quiet_env tx n m = Some m'"
  unfolding eth_mac_send_eq
  by (subst tx_wait.round) (simp add: int_source_def quiet_env_def regfile_env_def)

lemma quiet_receive: "\<exists>m' h. eth_mac_receive quiet_env rx 100000 m = Some (0, m') \<and> trace m' = CpuUsecs 100000 # h"
proof -
  have "rx_late quiet_env (rx_start_time quiet_env rx m) 100000 (rx_start quiet_env rx m)"
    "\<not> rx_frame quiet_env (rx_start quiet_env rx m)"
    "trace (rx_round quiet_env (rx_start quiet_env rx m)) = CpuUsecs 100000 # trace (int_poll quiet_env (rx_start quiet_env rx m))"
    by (simp_all add: rx_late_def rx_frame_def rx_round_def int_source_def rx_start_time_def rx_start_def rx_armed_def
        quiet_env_def regfile_env_def get_cpu_usecs_def Let_def)
  then show ?thesis
    by (simp add: eth_mac_receive_timed) (subst rx_timed.round, auto)
qed

theorem arp_resolve_ip_result_witness:
  "\<exists>s' t h. arp_resolve_ip quiet_env 0 0x100 0x800 [10, 0, 0, 2] 1 (arp_boot my_mac_init my_ip_init (\<lambda>_. 0)) = Some (0, s') \<and>
     trace s' = CpuUsecs t # h \<and> 1 \<le> t"
proof -
  let ?s = "arp_boot my_mac_init my_ip_init (\<lambda>_. 0)" and ?ip = "[10, 0, 0, 2] :: u8 list"
  obtain s1 where s1: "eth_mac_send quiet_env 0x800 42 ((snd (get_cpu_usecs quiet_env ?s))
      \<lparr>buff := snd (arp_build_request my_mac_init my_ip_init 0x800 ?ip (buff (snd (get_cpu_usecs quiet_env ?s))))\<rparr>) = Some s1"
    using quiet_send by blast
  obtain s2 h where s2: "eth_mac_receive quiet_env 0x100 100000 s1 = Some (0, s2)" "trace s2 = CpuUsecs 100000 # h"
    using quiet_receive by blast
  have clock: "usecs_val quiet_env (trace s2) = 100000" "usecs_val quiet_env (trace ?s) = 0"
    by (simp_all add: s2 quiet_env_def arp_boot_def)
  have addrs: "my_mac (snd (get_cpu_usecs quiet_env ?s)) = my_mac_init" "my_ip (snd (get_cpu_usecs quiet_env ?s)) = my_ip_init"
    by (simp_all add: get_cpu_usecs_def Let_def io_step_def arp_boot_def)
  have "fst (arp_build_request mac ip tx tip b) = 42" for mac ip tx tip b
    by (simp add: arp_build_request_def Let_def)
  then have "arp_resolve_round quiet_env 0 0x100 0x800 ?ip (snd (get_cpu_usecs quiet_env ?s)) = Some (0, s2)"
    using s1 s2 by (simp add: arp_resolve_round_def split_beta addrs)
  then have "arp_resolve_ip quiet_env 0 0x100 0x800 ?ip 1 ?s = Some (0, snd (get_cpu_usecs quiet_env s2))"
    by (simp add: arp_resolve_ip_eq arp_resolver.unfold arp_resolve_rnd_def get_cpu_usecs_def [of _ s2] clock Let_def)
  from this arp_resolve_ip_result [OF this] show ?thesis
    by (auto simp: clock)
qed

section \<open>What the resolver keeps\<close>

lemma arp_io_stable [simp]:
  "arp_table (io_step E e s) = arp_table s" "arp_state.more (io_step E e s) = arp_state.more s"
  "my_ip (io_step E e s) = my_ip s" "my_mac (io_step E e s) = my_mac s"
  by (simp_all add: io_step_def)

text \<open>The node's addresses and everything beyond the ARP layer.\<close>

definition arp_rest :: "'a arp_state_scheme \<Rightarrow> u8 list \<times> u8 list \<times> 'a" where
  "arp_rest s = (my_mac s, my_ip s, arp_state.more s)"

lemma arp_rest_stable [simp]:
  "arp_rest (io_step E e s) = arp_rest s" "arp_rest (s\<lparr>buff := b\<rparr>) = arp_rest s" "arp_rest (s\<lparr>arp_table := t\<rparr>) = arp_rest s"
  by (simp_all add: arp_rest_def)

lemma arp_clock_stable [simp]:
  "arp_table (snd (get_cpu_usecs E s)) = arp_table s" "arp_rest (snd (get_cpu_usecs E s)) = arp_rest s"
  by (simp_all add: get_cpu_usecs_def Let_def)

lemma arp_process_received_keeps:
  assumes "arp_process_received E beyond rx tx s = Some (p, s')" "arp_wf (arp_table s)"
  shows "arp_wf (arp_table s') \<and> arp_rest s' = arp_rest s \<and> (p \<noteq> 2 \<longrightarrow> arp_table s' = arp_table s)"
proof -
  have send: "arp_table s2 = arp_table s1 \<and> arp_rest s2 = arp_rest s1" if "eth_mac_send E tx n s1 = Some s2" for s1 s2 n
    using send_stable [OF that, of arp_table] send_stable [OF that, of arp_rest] by simp
  show ?thesis
    using assms
    by (auto simp: arp_process_received_def Let_def arp_wf_new_entry split: if_splits option.splits prod.splits dest!: send)
qed

lemma arp_resolve_round_keeps:
  assumes "arp_resolve_round E beyond rx tx ip s = Some (ans, s')" "arp_wf (arp_table s)"
    and "arp_lookup (arp_table s) ip = None"
  shows "arp_wf (arp_table s') \<and> arp_rest s' = arp_rest s \<and> (ans = 0 \<longleftrightarrow> arp_lookup (arp_table s') ip = None)"
proof -
  have send: "arp_table s2 = arp_table s1 \<and> arp_rest s2 = arp_rest s1" if "eth_mac_send E tx n s1 = Some s2" for s1 s2 n
    using send_stable [OF that, of arp_table] send_stable [OF that, of arp_rest] by simp
  have recv: "arp_table s2 = arp_table s1 \<and> arp_rest s2 = arp_rest s1" if "eth_mac_receive E rx t s1 = Some (r, s2)" for s1 s2 r t
    using receive_stable [OF that, of arp_table] receive_stable [OF that, of arp_rest] by simp
  have search: "fst (arp_table_search t ip m) = 1 \<longleftrightarrow> arp_lookup t ip \<noteq> None" if "arp_wf t" for t m
    using that by (auto simp: arp_lookup_find arp_table_search_def arp_table_search_from_find arp_wf_def arp_shape_def
        split: option.splits)
  obtain s1 where s1: "eth_mac_send E tx (fst (arp_build_request (my_mac s) (my_ip s) tx ip (buff s)))
      (s\<lparr>buff := snd (arp_build_request (my_mac s) (my_ip s) tx ip (buff s))\<rparr>) = Some s1"
    using assms(1) by (auto simp: arp_resolve_round_def split: prod.splits option.splits)
  then obtain got s2 where s2: "eth_mac_receive E rx 100000 s1 = Some (got, s2)"
    using assms(1) by (auto simp: arp_resolve_round_def split: prod.splits option.splits)
  have t2: "arp_table s2 = arp_table s" "arp_rest s2 = arp_rest s" using send [OF s1] recv [OF s2] by simp_all
  show ?thesis
  proof (cases "got = 1 \<and> mac_packet_type (buff s2) rx = ARP")
    case True
    then obtain p s3 where s3: "arp_process_received E beyond rx tx s2 = Some (p, s3)"
      using assms(1) s1 s2 by (auto simp: arp_resolve_round_def split: prod.splits option.splits)
    then have k: "arp_wf (arp_table s3) \<and> arp_rest s3 = arp_rest s \<and> (p \<noteq> 2 \<longrightarrow> arp_table s3 = arp_table s)"
      using arp_process_received_keeps [OF s3] t2 assms(2) by simp
    moreover have "s' = s3" "ans = (if p = 2 \<and> fst (arp_table_search (arp_table s3) ip (replicate 6 0)) = 1 then 1 else 0)"
      using assms(1) s1 s2 s3 True by (auto simp: arp_resolve_round_def split: prod.splits)
    ultimately show ?thesis using search [of "arp_table s3"] assms(3) by auto
  next
    case False
    then have "s' = s2" "ans = 0" using assms(1) s1 s2 by (auto simp: arp_resolve_round_def split: prod.splits)
    then show ?thesis using t2 assms by simp
  qed
qed

lemma arp_resolve_ip_keeps:
  assumes "arp_resolve_ip E beyond rx tx ip timeout s = Some (ans, s')" "arp_wf (arp_table s)"
    and "arp_lookup (arp_table s) ip = None"
  shows "arp_wf (arp_table s') \<and> arp_rest s' = arp_rest s \<and> (ans = 0 \<longleftrightarrow> arp_lookup (arp_table s') ip = None)"
proof -
  let ?I = "\<lambda>s1. arp_wf (arp_table s1) \<and> arp_rest s1 = arp_rest s \<and> arp_lookup (arp_table s1) ip = None"
  let ?Q = "\<lambda>(ans, s'). arp_wf (arp_table s') \<and> arp_rest s' = arp_rest s \<and> (ans = 0 \<longleftrightarrow> arp_lookup (arp_table s') ip = None)"
  have step: "?I s1 \<Longrightarrow> arp_resolve_rnd E beyond rx tx ip timeout t0 s1 = Some (Inr s2) \<Longrightarrow> ?I s2"
    and stop: "?I s1 \<Longrightarrow> arp_resolve_rnd E beyond rx tx ip timeout t0 s1 = Some (Inl r) \<Longrightarrow> ?Q r" for s1 s2 t0 r
    by (auto simp: arp_resolve_rnd_def split_beta split: option.splits if_splits dest!: arp_resolve_round_keeps)
  have "?Q (ans, s')"
  proof (rule arp_resolver.result_inv [where I = ?I, OF assms(1) [unfolded arp_resolve_ip_eq]])
    show "?I (snd (get_cpu_usecs E s))" using assms(2,3) by simp
  qed (erule (1) step, erule (1) stop)
  then show ?thesis by simp
qed

end
