(* ===== verification/Frame.thy ===== *)
theory Frame
  imports Ipv4
begin

text \<open>
  Facts shared by the functions that build a frame from 32-bit stores: what the bytes of a frame are
  after a store of a word, and the bytes of the words the code composes from addresses, ports and
  lengths.  The transport checksum of UDP and TCP (padding and pseudo header) is treated here too,
  since the code is the same up to the protocol number.
\<close>

section \<open>Words at offsets of an aligned frame\<close>

lemma iowr_offset:
  assumes "aligned4 p" "take_bit 2 k = 0"
  shows "mem_iord_byte (mem_iowr b (p + k) w) (p + j) =
    (if j = k then take_bit 8 (drop_bit 24 w)
     else if j = k + 1 then take_bit 8 (drop_bit 16 w)
     else if j = k + 2 then take_bit 8 (drop_bit 8 w)
     else if j = k + 3 then take_bit 8 w
     else mem_iord_byte b (p + j))"
  using mem_iord_byte_iowr [OF aligned4_add [OF assms], of b w "p + j"] by (simp add: add.assoc)

text \<open>The first word, and the first byte, of a frame have no offset in the code.\<close>

lemma iowr_offset_0:
  assumes "aligned4 p"
  shows "mem_iord_byte (mem_iowr b p w) (p + j) =
    (if j = 0 then take_bit 8 (drop_bit 24 w)
     else if j = 1 then take_bit 8 (drop_bit 16 w)
     else if j = 2 then take_bit 8 (drop_bit 8 w)
     else if j = 3 then take_bit 8 w
     else mem_iord_byte b (p + j))"
  using iowr_offset [OF assms, of 0 b w j] by simp

lemma iowr_byte_offset:
  "mem_iord_byte (mem_iowr_byte b (p + k) v) (p + j) = (if k = j then take_bit 8 v else mem_iord_byte b (p + j))"
  by (simp add: mem_iord_iowr_byte)

section \<open>Bytes of composed words\<close>

lemma bit_ucast_small:
  "bit (ucast (a :: u8) :: u32) n \<longleftrightarrow> n < 8 \<and> bit a n"
  "bit (ucast (h :: u16) :: u32) n \<longleftrightarrow> n < 16 \<and> bit h n"
  by (auto simp: bit_unsigned_iff dest: bit_imp_le_length)

lemma bit_high_byte: "bit (h :: u16) (8 + n) \<Longrightarrow> n < 8"
  using bit_imp_le_length [of h "8 + n"] by simp

lemmas byte_bits = bit_ucast_small bit_take_bit_iff bit_drop_bit_eq bit_push_bit_iff bit_or_iff

lemma four_bytes:
  "take_bit 8 (drop_bit 24 (push_bit 24 (ucast (a :: u8)) OR push_bit 16 (ucast (b :: u8)) OR push_bit 8 (ucast (c :: u8)) OR (ucast (d :: u8) :: u32))) = ucast a"
  "take_bit 8 (drop_bit 16 (push_bit 24 (ucast a) OR push_bit 16 (ucast b) OR push_bit 8 (ucast c) OR (ucast d :: u32))) = ucast b"
  "take_bit 8 (drop_bit 8 (push_bit 24 (ucast a) OR push_bit 16 (ucast b) OR push_bit 8 (ucast c) OR (ucast d :: u32))) = ucast c"
  "take_bit 8 (push_bit 24 (ucast a) OR push_bit 16 (ucast b) OR push_bit 8 (ucast c) OR (ucast d :: u32)) = ucast d"
  by (auto intro!: bit_eqI simp: byte_bits dest: bit_high_byte)

lemma two_bytes:
  "take_bit 8 (drop_bit 24 (push_bit 8 (ucast (a :: u8)) OR (ucast (b :: u8) :: u32))) = 0"
  "take_bit 8 (drop_bit 16 (push_bit 8 (ucast a) OR (ucast b :: u32))) = 0"
  "take_bit 8 (drop_bit 8 (push_bit 8 (ucast a) OR (ucast b :: u32))) = ucast a"
  "take_bit 8 (push_bit 8 (ucast a) OR (ucast b :: u32)) = ucast b"
  by (auto intro!: bit_eqI simp: byte_bits dest: bit_high_byte)

lemma two_bytes_half:
  "take_bit 8 (drop_bit 24 (push_bit 24 (ucast (a :: u8)) OR push_bit 16 (ucast (b :: u8)) OR (ucast (h :: u16) :: u32))) = ucast a"
  "take_bit 8 (drop_bit 16 (push_bit 24 (ucast a) OR push_bit 16 (ucast b) OR (ucast h :: u32))) = ucast b"
  "take_bit 8 (drop_bit 8 (push_bit 24 (ucast a) OR push_bit 16 (ucast b) OR (ucast h :: u32))) = ucast (drop_bit 8 h)"
  "take_bit 8 (push_bit 24 (ucast a) OR push_bit 16 (ucast b) OR (ucast h :: u32)) = take_bit 8 (ucast h)"
  by (auto intro!: bit_eqI simp: byte_bits dest: bit_high_byte)

lemma two_halves:
  "take_bit 8 (drop_bit 24 (push_bit 16 (ucast (g :: u16)) OR (ucast (h :: u16) :: u32))) = ucast (drop_bit 8 g)"
  "take_bit 8 (drop_bit 16 (push_bit 16 (ucast g) OR (ucast h :: u32))) = take_bit 8 (ucast g)"
  "take_bit 8 (drop_bit 8 (push_bit 16 (ucast g) OR (ucast h :: u32))) = ucast (drop_bit 8 h)"
  "take_bit 8 (push_bit 16 (ucast g) OR (ucast h :: u32)) = take_bit 8 (ucast h)"
  by (auto intro!: bit_eqI simp: byte_bits dest: bit_high_byte)

lemmas word_bytes = four_bytes two_bytes two_bytes_half two_halves

text \<open>The two bytes of a half word put together again.\<close>

lemma half_of_bytes:
  "(ucast (push_bit 8 (ucast (drop_bit 8 (h :: u16))) + take_bit 8 (ucast h) :: u32) :: u16) = h"
  "(ucast (push_bit 8 (ucast (drop_bit 8 h)) OR take_bit 8 (ucast h) :: u32) :: u16) = h"
proof -
  have "push_bit 8 (ucast (drop_bit 8 h)) + take_bit 8 (ucast h) =
      (push_bit 8 (ucast (drop_bit 8 h)) OR take_bit 8 (ucast h) :: u32)"
    by (rule disjunctive_add) (auto simp: bit_simps)
  moreover show "(ucast (push_bit 8 (ucast (drop_bit 8 h)) OR take_bit 8 (ucast h) :: u32) :: u16) = h"
    by (auto intro!: bit_eqI simp: bit_simps)
  ultimately show "(ucast (push_bit 8 (ucast (drop_bit 8 h)) + take_bit 8 (ucast h) :: u32) :: u16) = h"
    by simp
qed

section \<open>Transport checksum\<close>

text \<open>
  The first part of \<open>udp_compute_checksum\<close>, \<open>udp_verify_checksum\<close> and \<open>tcp_compute_checksum\<close>: a
  segment of odd length is extended by a zero byte.
\<close>

definition l4_pad :: "buffer \<Rightarrow> u32 \<Rightarrow> u16 \<Rightarrow> u16 \<times> buffer" where
  "l4_pad b pkt_addr len =
     (if len AND 0x1 = 0 then (len, b)
      else (len + 1, mem_iowr_byte b (pkt_addr + ucast len + 34) 0x00))"

text \<open>The number the checksum is taken of: segment, addresses, protocol and length.\<close>

definition l4_total :: "buffer \<Rightarrow> u32 \<Rightarrow> nat \<Rightarrow> u16 \<Rightarrow> nat" where
  "l4_total b p proto len =
     half_sum b (p + 34) ((unat len + 1) div 2) + half_sum b (p + 26) 4 + proto + unat len"

lemma even_len_iff: "(len :: u16) AND 1 = 0 \<longleftrightarrow> even (unat len)"
proof -
  have "len AND 1 = 0 \<longleftrightarrow> even len" by (simp add: and_one_eq mod_2_eq_odd)
  also have "\<dots> \<longleftrightarrow> even (unat len)"
    by transfer (simp add: even_nat_iff)
  finally show ?thesis .
qed

lemma unat_corrected:
  assumes "unat len < 65535"
  shows "unat (fst (l4_pad b p len)) = 2 * ((unat len + 1) div 2)"
proof (cases "even (unat len)")
  case True
  then show ?thesis by (auto simp: l4_pad_def even_len_iff elim!: evenE)
next
  case False
  then have "unat (len + 1) = unat len + 1" using assms by (simp add: unat_word_ariths)
  with False show ?thesis by (auto simp: l4_pad_def even_len_iff elim!: oddE)
qed

lemma l4_total_less: "proto < 65536 \<Longrightarrow> l4_total b p proto len < 4294967296"
  using half_sum_le [of b "p + 34" "(unat len + 1) div 2"] half_sum_le [of b "p + 26" 4] unat_less_16 [of len]
  by (simp add: l4_total_def)

text \<open>Storing a checksum into one of the half words of the segment.\<close>

lemma half_sum_field:
  assumes "k < n" "n \<le> 32768"
  shows "half_sum (store16 b (a + of_nat (2 * k)) c) a n + half_at b (a + of_nat (2 * k)) = half_sum b a n + unat c"
proof -
  let ?x = "a + of_nat (2 * k)"
  have n: "n = k + (1 + (n - Suc k))" using assms by simp
  have split: "half_sum b' a n = half_sum b' a k + (half_at b' ?x + half_sum b' (?x + 2) (n - Suc k))" for b'
    by (subst n, unfold half_sum_add half_sum_1) simp
  have "2 * k < 2 ^ 32" "2 * k + 1 < 2 ^ 32" using assms by simp_all
  then have u: "unat (of_nat (2 * k) :: u32) = 2 * k" "unat (of_nat (2 * k + 1) :: u32) = 2 * k + 1"
    by (simp_all only: unat_of_nat_u32)
  have first: "half_sum (store16 b ?x c) a k = half_sum b a k"
    using u by (intro half_sum_store16) (simp_all add: ac_simps)
  have e: "?x - (?x + 2) = - 2" "?x + 1 - (?x + 2) = - 1" by simp_all
  have m2: "unat (- 2 :: u32) = 4294967294" by (simp add: unat_word_ariths)
  have last: "half_sum (store16 b ?x c) (?x + 2) (n - Suc k) = half_sum b (?x + 2) (n - Suc k)"
    using assms by (intro half_sum_store16) (simp_all only: e m2 unat_minus_1)
  show ?thesis unfolding split [of b] split [of "store16 b ?x c"] first last half_at_store16 by simp
qed

section \<open>Reading half words of an aligned word\<close>

lemma mem_iord_halves:
  assumes "aligned4 a"
  shows "(ucast (mem_iord b a AND 0xFFFF) :: u16) = ucast (push_bit 8 (mem_iord_byte b (a + 2)) OR mem_iord_byte b (a + 3))"
    "(ucast (drop_bit 16 (mem_iord b a)) :: u16) = ucast (push_bit 8 (mem_iord_byte b a) OR mem_iord_byte b (a + 1))"
  unfolding mem_iord_bytes [OF assms] and_FFFF_take_bit
  by (auto intro!: bit_eqI simp: bit_unsigned_iff bit_take_bit_iff bit_or_iff bit_push_bit_iff bit_drop_bit_eq bit_mem_iord_byte)

text \<open>An area that starts after an address does not contain it.\<close>

lemma within_before:
  assumes "unat j < unat k" "n + unat k \<le> 2 ^ 32"
  shows "\<not> within (p + j) (p + k) n"
proof
  assume "within (p + j) (p + k) n"
  then have "unat (j - k) < n" by (simp add: within_def)
  then have "unat ((j - k) + k) = unat (j - k) + unat k" using assms(2) by (simp only: unat_word_ariths) simp
  with assms(1) show False by simp
qed

lemma iowr_base:
  assumes "aligned4 p" "take_bit 2 k = 0"
  shows "mem_iord_byte (mem_iowr b (p + k) w) p =
    (if k = 0 then take_bit 8 (drop_bit 24 w)
     else if k + 1 = 0 then take_bit 8 (drop_bit 16 w)
     else if k + 2 = 0 then take_bit 8 (drop_bit 8 w)
     else if k + 3 = 0 then take_bit 8 w
     else mem_iord_byte b p)"
  using iowr_offset [OF assms, of b w 0] by (simp add: eq_commute [of 0])

section \<open>The sums of the code\<close>

lemma segment_loop:
  assumes "unat len < 65535"
  shows "fold (\<lambda>i c. c + push_bit 8 (mem_iord_byte b (p + 34 + of_nat i)) + (mem_iord_byte b (p + 35 + of_nat i) AND 0xFF))
      (evens (unat (fst (l4_pad b' q len)))) c = c + of_nat (half_sum b (p + 34) ((unat len + 1) div 2))"
  using csum_loop [of b "p + 34" "(unat len + 1) div 2" c] unfolding unat_corrected [OF assms] by simp

lemma l4_pad_byte:
  "mem_iord_byte (snd (l4_pad b p len)) a =
     (if odd (unat len) \<and> a = p + ucast len + 34 then 0 else mem_iord_byte b a)"
  by (auto simp: l4_pad_def even_len_iff mem_iord_iowr_byte)

lemma l4_checksum_value:
  assumes "c = of_nat (l4_total b p proto len)" "proto < 65536"
  shows "unat (ucast (csum_not (csum_fold3 c)) :: u16) = 65535 - ones_rep (l4_total b p proto len)"
    and "csum_not (csum_fold3 c) = 0 \<longleftrightarrow> 0 < l4_total b p proto len \<and> 65535 dvd l4_total b p proto len"
proof -
  have lt: "l4_total b p proto len < 2 ^ 32" using l4_total_less [OF assms(2)] by simp
  have "unat (csum_not (csum_fold3 c)) = 65535 - ones_rep (l4_total b p proto len)"
    by (simp add: assms(1) unat_checksum unat_of_nat_u32 [OF lt])
  then show "unat (ucast (csum_not (csum_fold3 c)) :: u16) = 65535 - ones_rep (l4_total b p proto len)"
    by (simp add: unsigned_ucast_eq take_bit_nat_eq_self)
  show "csum_not (csum_fold3 c) = 0 \<longleftrightarrow> 0 < l4_total b p proto len \<and> 65535 dvd l4_total b p proto len"
    by (simp add: assms(1) checksum_zero_iff unat_of_nat_u32 [OF lt])
qed

text \<open>
  The segment verifies after its checksum has been stored in half word \<open>k\<close>, which was 0 when the
  checksum was computed.
\<close>

lemma l4_total_store:
  assumes "k < (unat len + 1) div 2" "half_at b (p + 34 + of_nat (2 * k)) = 0" "unat len < 65535"
    and "unat c = 65535 - ones_rep (l4_total b p proto len)"
  shows "0 < l4_total (store16 b (p + 34 + of_nat (2 * k)) c) p proto len \<and>
    65535 dvd l4_total (store16 b (p + 34 + of_nat (2 * k)) c) p proto len"
proof -
  let ?x = "p + 34 + of_nat (2 * k)"
  have k: "8 + 2 * k < 2 ^ 32" "8 + 2 * k + 1 < 2 ^ 32" using assms(1,3) by simp_all
  have e: "?x - (p + 26) = of_nat (8 + 2 * k)" "?x + 1 - (p + 26) = of_nat (8 + 2 * k + 1)" by simp_all
  have "half_sum (store16 b ?x c) (p + 26) 4 = half_sum b (p + 26) 4"
    by (intro half_sum_store16) (simp_all only: e unat_of_nat_u32 [OF k(1)] unat_of_nat_u32 [OF k(2)])
  moreover have "half_sum (store16 b ?x c) (p + 34) ((unat len + 1) div 2) = half_sum b (p + 34) ((unat len + 1) div 2) + unat c"
    using half_sum_field [OF assms(1), of b "p + 34" c] assms(2,3) by simp
  ultimately have "l4_total (store16 b ?x c) p proto len = l4_total b p proto len + unat c"
    by (simp add: l4_total_def)
  then show ?thesis using checksum_closes [of "l4_total b p proto len"] assms(4) by simp
qed

section \<open>A segment with its two checksums\<close>

lemma store16_byte:
  "mem_iord_byte (store16 b x c) a =
     (if a = x + 1 then ucast (c AND 0xFF) else if a = x then ucast (drop_bit 8 c) else mem_iord_byte b a)"
  by (auto simp: store16_def mem_iord_iowr_byte)

text \<open>
  What the checksum stage of the send functions asks of a frame with a segment of \<open>len\<close> bytes whose
  checksum is half word \<open>k\<close>: both checksum fields are 0 and the segment contains the field.
\<close>

definition l4_ready :: "u32 \<Rightarrow> u16 \<Rightarrow> nat \<Rightarrow> buffer \<Rightarrow> bool" where
  "l4_ready tx len k f \<longleftrightarrow> unat len < 65535 \<and> 2 * k + 1 < unat len \<and>
     mem_iord_byte f (tx + 25) = 0 \<and> half_at f (tx + 34 + of_nat (2 * k)) = 0"

text \<open>The buffer after the IPv4 checksum has been stored and the segment padded, and at the end.\<close>

definition l4_padded :: "u32 \<Rightarrow> u16 \<Rightarrow> buffer \<Rightarrow> buffer" where
  "l4_padded tx len f = snd (l4_pad (ipv4_store_checksum f tx) tx len)"

definition l4_final :: "u32 \<Rightarrow> u16 \<Rightarrow> nat \<Rightarrow> u16 \<Rightarrow> buffer \<Rightarrow> buffer" where
  "l4_final tx len k c f = store16 (l4_padded tx len f) (tx + 34 + of_nat (2 * k)) c"

lemma l4_pad_address: "(a :: u32) = tx + ucast (len :: u16) + 34 \<longleftrightarrow> unat (a - tx) = unat len + 34"
proof -
  have "a = tx + ucast len + 34 \<longleftrightarrow> a - tx = ucast len + 34" by (auto simp: algebra_simps)
  moreover have "unat (ucast len + 34 :: u32) = unat len + 34"
    using unat_less_16 [of len] by (simp add: unat_word_ariths unsigned_ucast_eq take_bit_nat_eq_self)
  ultimately show ?thesis by (simp only: word_unat_eq_iff [of "a - tx"])
qed

lemma l4_padded_byte:
  "mem_iord_byte (l4_padded tx len f) (tx + j) =
    (if odd (unat len) \<and> unat j = unat len + 34 then 0
     else if j = 25 then ucast (ipv4_compute_checksum f tx AND 0xFF)
     else if j = 24 then ucast (drop_bit 8 (ipv4_compute_checksum f tx))
     else mem_iord_byte f (tx + j))"
  by (simp add: l4_padded_def l4_pad_byte l4_pad_address ipv4_store_checksum_def store16_byte)

text \<open>Offsets of the segment as numbers.\<close>

lemma field_offset:
  assumes "l4_ready tx len k f"
  shows "unat (34 + of_nat (2 * k) :: u32) = 34 + 2 * k" "unat (34 + of_nat (2 * k) + 1 :: u32) = 35 + 2 * k"
    "2 * k + 1 < unat len"
proof -
  have k: "2 * k + 1 < 2 ^ 32" "2 * k < 2 ^ 32" "2 * k + 1 < unat len" using assms unat_less_16 [of len] by (auto simp: l4_ready_def)
  then show "unat (34 + of_nat (2 * k) :: u32) = 34 + 2 * k" "unat (34 + of_nat (2 * k) + 1 :: u32) = 35 + 2 * k"
    using unat_less_16 [of len] by (simp_all only: unat_word_ariths unat_of_nat_u32) simp_all
  show "2 * k + 1 < unat len" by (rule k(3))
qed

lemma l4_final_byte:
  assumes "l4_ready tx len k f" "unat j < 34 + unat len" "j \<noteq> 24" "j \<noteq> 25" "j \<noteq> 34 + of_nat (2 * k)" "j \<noteq> 34 + of_nat (2 * k) + 1"
  shows "mem_iord_byte (l4_final tx len k c f) (tx + j) = mem_iord_byte f (tx + j)"
  using assms by (simp add: l4_final_def store16_byte l4_padded_byte add.assoc)

lemma l4_field_zero:
  assumes "l4_ready tx len k f"
  shows "half_at (l4_padded tx len f) (tx + 34 + of_nat (2 * k)) = 0"
proof -
  let ?j = "34 + of_nat (2 * k) :: u32"
  have ne: "?j \<noteq> 24" "?j \<noteq> 25" "?j + 1 \<noteq> 24" "?j + 1 \<noteq> 25"
    using field_offset [OF assms] by (auto simp: word_unat_eq_iff)
  have "mem_iord_byte (l4_padded tx len f) (tx + ?j) = 0" "mem_iord_byte (l4_padded tx len f) (tx + (?j + 1)) = 0"
    using assms field_offset [OF assms] ne unfolding l4_padded_byte
    by (simp_all add: l4_ready_def half_at_def byte_at_def unat_eq_0 add.assoc)
  then show ?thesis by (simp add: half_at_def byte_at_def add.assoc)
qed

text \<open>The segment verifies, before and after the receiver pads it again.\<close>

lemma l4_final_verifies:
  assumes "l4_ready tx len k f" "unat c = 65535 - ones_rep (l4_total (l4_padded tx len f) tx proto len)"
  shows "0 < l4_total (l4_final tx len k c f) tx proto len \<and> 65535 dvd l4_total (l4_final tx len k c f) tx proto len"
    and "l4_total (snd (l4_pad (l4_final tx len k c f) tx len)) tx proto len = l4_total (l4_final tx len k c f) tx proto len"
proof -
  let ?g = "l4_final tx len k c f"
  have "unat len < 65535" "k < (unat len + 1) div 2" using assms(1) by (auto simp: l4_ready_def)
  then show "0 < l4_total ?g tx proto len \<and> 65535 dvd l4_total ?g tx proto len"
    unfolding l4_final_def using l4_field_zero [OF assms(1)] assms(2) by (intro l4_total_store)
  have "mem_iord_byte (snd (l4_pad ?g tx len)) a = mem_iord_byte ?g a" for a
  proof (cases "odd (unat len) \<and> unat (a - tx) = unat len + 34")
    case True
    then have "a - tx \<noteq> 34 + of_nat (2 * k)" "a - tx \<noteq> 34 + of_nat (2 * k) + 1"
      using field_offset [OF assms(1)] by (auto simp: word_unat_eq_iff)
    then have "a \<noteq> tx + 34 + of_nat (2 * k)" "a \<noteq> tx + 34 + of_nat (2 * k) + 1" by (auto simp: add.assoc)
    then have "mem_iord_byte ?g a = 0"
      using True l4_padded_byte [of tx len f "a - tx"] by (simp add: l4_final_def store16_byte)
    with True show ?thesis by (simp add: l4_pad_byte l4_pad_address)
  next
    case False
    then show ?thesis by (auto simp: l4_pad_byte l4_pad_address)
  qed
  then show "l4_total (snd (l4_pad ?g tx len)) tx proto len = l4_total ?g tx proto len"
    by (simp add: l4_total_def half_sum_def half_at_def byte_at_def)
qed

lemma l4_final_ip_verifies:
  assumes "l4_ready tx len k f"
  shows "ipv4_verify_checksum (l4_final tx len k c f) tx = 1"
proof -
  have "half_sum (l4_final tx len k c f) (tx + 14) 10 = half_sum (ipv4_store_checksum f tx) (tx + 14) 10"
  proof (rule half_sum_cong)
    fix i :: nat assume "i < 2 * 10"
    then have u: "unat (14 + of_nat i :: u32) = 14 + i" by (simp add: unat_word_ariths unat_of_nat_u32)
    have ne: "14 + of_nat i \<noteq> 34 + of_nat (2 * k) + (1 :: u32)" "14 + of_nat i \<noteq> 34 + (of_nat (2 * k) :: u32)"
      using u \<open>i < 2 * 10\<close> field_offset [OF assms] by (auto simp: word_unat_eq_iff)
    show "mem_iord_byte (l4_final tx len k c f) (tx + 14 + of_nat i) = mem_iord_byte (ipv4_store_checksum f tx) (tx + 14 + of_nat i)"
      using u ne \<open>i < 2 * 10\<close> l4_padded_byte [of tx len f "14 + of_nat i"]
      by (simp add: l4_final_def store16_byte ipv4_store_checksum_def add.assoc)
  qed
  then show ?thesis
    using ipv4_store_verifies [of f tx] assms by (simp add: ipv4_verify_checksum_eq l4_ready_def byte_at_def)
qed

section \<open>The transmit area\<close>

text \<open>
  A controller that writes received frames elsewhere: its direct memory access leaves the \<open>n\<close> bytes
  from \<open>a\<close> on as they are.  The OpenCores controller only reads the area of a transmit descriptor.
\<close>

definition keeps_area :: "env \<Rightarrow> u32 \<Rightarrow> nat \<Rightarrow> bool" where
  "keeps_area E a n \<longleftrightarrow> (\<forall>tr b j. unat j < n \<longrightarrow> mem_iord_byte (dma E tr b) (a + j) = mem_iord_byte b (a + j))"

definition area :: "u32 \<Rightarrow> nat \<Rightarrow> 'a machine_scheme \<Rightarrow> u32 list" where
  "area a n m = map (\<lambda>k. mem_iord_byte (buff m) (a + of_nat k)) [0..<n]"

lemma area_eq_iff: "area a n m = area a n m' \<longleftrightarrow> same_frame n (buff m) a (buff m') a"
  by (auto simp: area_def same_frame_def list_all_iff)

lemma area_io_step:
  assumes "keeps_area E a n" "n \<le> 2 ^ 32"
  shows "area a n (io_step E e m) = area a n m"
proof -
  have "unat (of_nat k :: u32) < n" if "k < n" for k using that assms(2) by (simp add: unat_of_nat_u32)
  then show ?thesis using assms(1) by (auto simp: area_def io_step_def keeps_area_def)
qed

lemma area_send:
  assumes "keeps_area E a n" "n \<le> 2 ^ 32" "eth_mac_send E tx len m = Some m'"
  shows "same_frame n (buff m') a (buff m) a"
  using send_stable [OF assms(3), of "area a n", OF area_io_step [OF assms(1,2)]] by (simp add: area_eq_iff)

lemma area_send_nb:
  assumes "keeps_area E a n" "n \<le> 2 ^ 32"
  shows "same_frame n (buff (snd (eth_mac_send_nb E tx len m))) a (buff m) a"
  by (simp add: area_eq_iff [symmetric] area_io_step [OF assms] eth_mac_send_nb_def eth_iord_def eth_iowr_def Let_def split_beta)

lemma same_frame_refl [simp]: "same_frame n b p b p"
  by (simp add: same_frame_def list_all_iff)

lemma same_frame_trans:
  "same_frame n b p b' p' \<Longrightarrow> same_frame n b' p' b'' p'' \<Longrightarrow> same_frame n b p b'' p''"
  by (simp add: same_frame_def list_all_iff)

text \<open>A device that never writes to the packet buffer keeps every area.\<close>

lemma keeps_area_plain: "dma E = (\<lambda>_ b. b) \<Longrightarrow> keeps_area E a n"
  by (simp add: keeps_area_def)

text \<open>A buffer moved by whole words: the frame at \<open>p\<close> is the one that was at \<open>p + d\<close>.\<close>

definition moved :: "u32 \<Rightarrow> buffer \<Rightarrow> buffer" where
  "moved d b = (\<lambda>w. b (w + d))"

lemma same_frame_moved:
  assumes "aligned4 d"
  shows "same_frame n (moved d b) p b (p + d)"
proof -
  have "take_bit 2 (a + d) = take_bit 2 a" for a
    using assms take_bit_2_add [of a d] by (simp add: aligned4_def)
  then have "mem_iord_byte (moved d b) a = mem_iord_byte b (a + d)" for a
    by (simp add: mem_iord_byte_lane moved_def word_ptr_lane algebra_simps)
  then show ?thesis by (simp add: same_frame_def list_all_iff ac_simps)
qed

end
