(* ===== verification/Udp.thy ===== *)
theory Udp
  imports Arp Frame
begin

text \<open>
  The UDP layer \<^verbatim>\<open>c/ethlib/udp.c\<close>: header fields, checksum, and the three functions that send a
  datagram.  \<open>unsigned short\<close> lengths wrap at 16 bits, as in the code.
\<close>

record udp_state = arp_state +
  ipv4_id :: u16

record udphead_t =
  source_port :: u16
  destination_port :: u16
  data_length :: u16
  udp_checksum :: u16

record udp_t =
  ip_head :: iphead_t
  udp_head :: udphead_t
  data :: "u8 list"

definition ipv4_id_init :: u16 where
  "ipv4_id_init = 0x1111"

section \<open>Header fields\<close>

definition udp_get_source_port :: "buffer \<Rightarrow> u32 \<Rightarrow> u16" where
  "udp_get_source_port b pkt_addr = ucast (mem_iord b (pkt_addr + 32) AND 0x0000FFFF)"

definition udp_get_destination_port :: "buffer \<Rightarrow> u32 \<Rightarrow> u16" where
  "udp_get_destination_port b pkt_addr = ucast (drop_bit 16 (mem_iord b (pkt_addr + 36)))"

definition udp_get_packet_length :: "buffer \<Rightarrow> u32 \<Rightarrow> u16" where
  "udp_get_packet_length b pkt_addr = ucast (mem_iord b (pkt_addr + 36) AND 0x0000FFFF)"

definition udp_get_checksum :: "buffer \<Rightarrow> u32 \<Rightarrow> u16" where
  "udp_get_checksum b pkt_addr = ucast (drop_bit 16 (mem_iord b (pkt_addr + 40)))"

definition udp_get_data_length :: "buffer \<Rightarrow> u32 \<Rightarrow> u16" where
  "udp_get_data_length b pkt_addr = udp_get_packet_length b pkt_addr - 8"

text \<open>\<open>udp_get_data\<close> fills the caller's array and returns 1; it leaves an array that is too short.\<close>

definition udp_get_data :: "buffer \<Rightarrow> u32 \<Rightarrow> u8 list \<Rightarrow> u32 \<Rightarrow> fault + (u8 \<times> u8 list)" where
  "udp_get_data b pkt_addr dat len =
     (if unat len \<le> length dat
      then Inr (1, fold (\<lambda>i d. d[i := ucast (mem_iord_byte b (pkt_addr + 42 + of_nat i))]) [0..<unat len] dat)
      else Inl Out_of_bounds)"

definition udp_build_packet ::
  "u16 \<Rightarrow> udp_t \<Rightarrow> u8 list \<Rightarrow> u8 list \<Rightarrow> u16 \<Rightarrow> u16 \<Rightarrow> u8 list \<Rightarrow> u16 \<Rightarrow> udp_t" where
  "udp_build_packet ident packet src_ip dst_ip src_port dst_port dat len =
     \<lparr>ip_head = \<lparr>ver_headlen = 0x45, dscp_ecn = 0x00, ip_length = 20 + 8 + len,
        identification = ident, flags_fragmentoff = 0x4000, ttl = 0x40, protocol = 0x11,
        head_checksum = 0x0,
        source_ip = fold (\<lambda>i ip. ip[i := src_ip ! i]) [0..<4] (source_ip (ip_head packet)),
        destination_ip = fold (\<lambda>i ip. ip[i := dst_ip ! i]) [0..<4] (destination_ip (ip_head packet))\<rparr>,
      udp_head = \<lparr>source_port = src_port, destination_port = dst_port, data_length = len, udp_checksum = 0x0\<rparr>,
      data = fold (\<lambda>i d. d[i := dat ! i]) [0..<unat len] (data packet)\<rparr>"

section \<open>Checksum\<close>

text \<open>The loop over the segment and the loop over the addresses, the same in both functions.\<close>

definition udp_segment_sum :: "buffer \<Rightarrow> u32 \<Rightarrow> u16 \<Rightarrow> u32" where
  "udp_segment_sum b pkt_addr corrected_length =
     fold (\<lambda>i checksum. checksum + push_bit 8 (mem_iord_byte b (pkt_addr + 34 + of_nat i))
             + (mem_iord_byte b (pkt_addr + 35 + of_nat i) AND 0xFF)) (evens (unat corrected_length)) 0"

definition udp_pseudo_sum :: "buffer \<Rightarrow> u32 \<Rightarrow> u32 \<Rightarrow> u32" where
  "udp_pseudo_sum b pkt_addr checksum =
     fold (\<lambda>i checksum.
        let checksum = checksum + push_bit 8 (mem_iord_byte b (pkt_addr + 26 + of_nat i))
                         + (mem_iord_byte b (pkt_addr + 27 + of_nat i) AND 0xFF)
        in checksum + push_bit 8 (mem_iord_byte b (pkt_addr + 30 + of_nat i))
             + (mem_iord_byte b (pkt_addr + 31 + of_nat i) AND 0xFF)) (evens 4) checksum"

definition udp_compute_checksum :: "buffer \<Rightarrow> u32 \<Rightarrow> u16 \<times> buffer" where
  "udp_compute_checksum b pkt_addr =
     (let udp_length = ucast (mem_iord b (pkt_addr + 36) AND 0xFFFF) :: u16;
          (corrected_length, b) = l4_pad b pkt_addr udp_length;
          checksum = udp_segment_sum b pkt_addr corrected_length;
          checksum = checksum - push_bit 8 (mem_iord_byte b (pkt_addr + 40))
                       + (mem_iord_byte b (pkt_addr + 41) AND 0xFF);
          checksum = udp_pseudo_sum b pkt_addr checksum;
          checksum = checksum + 0x0011 + ucast udp_length;
          checksum = csum_fold3 checksum;
          checksum = csum_not checksum
      in (ucast checksum, b))"

definition udp_verify_checksum :: "buffer \<Rightarrow> u32 \<Rightarrow> u32 \<times> buffer" where
  "udp_verify_checksum b pkt_addr =
     (let udp_length = ucast (mem_iord b (pkt_addr + 36) AND 0xFFFF) :: u16;
          (corrected_length, b) = l4_pad b pkt_addr udp_length;
          checksum = udp_segment_sum b pkt_addr corrected_length;
          checksum = udp_pseudo_sum b pkt_addr checksum;
          checksum = checksum + 0x0011 + ucast udp_length;
          checksum = csum_fold3 checksum;
          checksum = csum_not checksum
      in (if checksum = 0 then 1 else 0, b))"

section \<open>Sending\<close>

text \<open>The header words and the data, the same in the three send functions up to their arguments.\<close>

definition udp_write_frame ::
  "u32 \<Rightarrow> u8 list \<Rightarrow> u8 list \<Rightarrow> u16 \<Rightarrow> u8 list \<Rightarrow> u8 list \<Rightarrow> u16 \<Rightarrow> u16 \<Rightarrow> u8 list \<Rightarrow> u16 \<Rightarrow> buffer \<Rightarrow> buffer" where
  "udp_write_frame tx_addr dmac smac ident sip dip sport dport dat len b =
     (let udp_length = len + 8;
          ip_length = udp_length + 20;
          b = mem_iowr b tx_addr (push_bit 24 (ucast (dmac ! 0)) OR push_bit 16 (ucast (dmac ! 1))
                OR push_bit 8 (ucast (dmac ! 2)) OR ucast (dmac ! 3));
          b = mem_iowr b (tx_addr + 4) (push_bit 24 (ucast (dmac ! 4)) OR push_bit 16 (ucast (dmac ! 5))
                OR push_bit 8 (ucast (smac ! 0)) OR ucast (smac ! 1));
          b = mem_iowr b (tx_addr + 8) (push_bit 24 (ucast (smac ! 2)) OR push_bit 16 (ucast (smac ! 3))
                OR push_bit 8 (ucast (smac ! 4)) OR ucast (smac ! 5));
          b = mem_iowr b (tx_addr + 12) 0x08004500;
          b = mem_iowr b (tx_addr + 16) (push_bit 16 (ucast ip_length) OR ucast ident);
          b = mem_iowr b (tx_addr + 20) 0x40004011;
          b = mem_iowr b (tx_addr + 24) (push_bit 8 (ucast (sip ! 0)) OR ucast (sip ! 1));
          b = mem_iowr b (tx_addr + 28) (push_bit 24 (ucast (sip ! 2)) OR push_bit 16 (ucast (sip ! 3))
                OR push_bit 8 (ucast (dip ! 0)) OR ucast (dip ! 1));
          b = mem_iowr b (tx_addr + 32) (push_bit 24 (ucast (dip ! 2)) OR push_bit 16 (ucast (dip ! 3))
                OR ucast sport);
          b = mem_iowr b (tx_addr + 36) (push_bit 16 (ucast dport) OR ucast udp_length);
          b = mem_iowr b (tx_addr + 40) 0x0000
      in fold (\<lambda>i b. mem_iowr_byte b (tx_addr + 42 + of_nat i) (ucast (dat ! i))) [0..<unat len] b)"

text \<open>The two checksums, computed and stored one after the other.\<close>

definition udp_store_checksums :: "u32 \<Rightarrow> buffer \<Rightarrow> buffer" where
  "udp_store_checksums tx_addr b =
     (let checksum = ipv4_compute_checksum b tx_addr;
          b = mem_iowr_byte b (tx_addr + 24) (ucast (drop_bit 8 checksum));
          b = mem_iowr_byte b (tx_addr + 25) (ucast (checksum AND 0xFF));
          (checksum, b) = udp_compute_checksum b tx_addr;
          b = mem_iowr_byte b (tx_addr + 40) (ucast (drop_bit 8 checksum))
      in mem_iowr_byte b (tx_addr + 41) (ucast (checksum AND 0xFF)))"

text \<open>The hardware address a datagram goes to: from the table, from a request, or broadcast.\<close>

definition udp_resolve_mac ::
  "env \<Rightarrow> u8 \<Rightarrow> u32 \<Rightarrow> u32 \<Rightarrow> u8 list \<Rightarrow> u64 \<Rightarrow> 'a arp_state_scheme \<Rightarrow> (u8 list \<times> 'a arp_state_scheme) option" where
  "udp_resolve_mac E beyond tx_addr rx_addr dip timeout s =
     (let (found, destination_mac) =
            arp_table_search (arp_table s) dip [0xFF, 0xFF, 0xFF, 0xFF, 0xFF, 0xFF]
      in if found = 0 then
           (case arp_resolve_ip E beyond rx_addr tx_addr dip timeout s of
              None \<Rightarrow> None
            | Some (r, s) \<Rightarrow>
                Some (if r \<noteq> 0 then snd (arp_table_search (arp_table s) dip destination_mac)
                      else destination_mac, s))
         else Some (destination_mac, s))"

definition udp_send_mac ::
  "env \<Rightarrow> u32 \<Rightarrow> u8 list \<Rightarrow> u8 list \<Rightarrow> u16 \<Rightarrow> u16 \<Rightarrow> u8 list \<Rightarrow> u16 \<Rightarrow> 'a udp_state_scheme \<Rightarrow>
     (u32 \<times> 'a udp_state_scheme) option" where
  "udp_send_mac E tx_addr dmac dip sport dport dat len s =
     (let udp_length = len + 8;
          ip_length = udp_length + 20;
          frame_length = ip_length + 14;
          b = udp_write_frame tx_addr dmac (my_mac s) (ipv4_id s) (my_ip s) dip sport dport dat len (buff s);
          b = udp_store_checksums tx_addr b
      in case eth_mac_send E tx_addr (ucast frame_length) (s\<lparr>buff := b\<rparr>) of
           None \<Rightarrow> None
         | Some s \<Rightarrow> Some (1, s\<lparr>ipv4_id := ucast (ucast (ipv4_id s) + (0x10000 :: u32))\<rparr>))"

definition udp_send ::
  "env \<Rightarrow> u8 \<Rightarrow> u32 \<Rightarrow> u32 \<Rightarrow> u8 list \<Rightarrow> u16 \<Rightarrow> u16 \<Rightarrow> u8 list \<Rightarrow> u16 \<Rightarrow> u64 \<Rightarrow> 'a udp_state_scheme \<Rightarrow>
     (u32 \<times> 'a udp_state_scheme) option" where
  "udp_send E beyond tx_addr rx_addr dip sport dport dat len timeout s =
     (case udp_resolve_mac E beyond tx_addr rx_addr dip timeout s of
        None \<Rightarrow> None
      | Some (dmac, s) \<Rightarrow>
          let udp_length = len + 8;
              ip_length = udp_length + 20;
              frame_length = ip_length + 14;
              b = udp_write_frame tx_addr dmac (my_mac s) (ipv4_id s) (my_ip s) dip sport dport dat len (buff s);
              b = udp_store_checksums tx_addr b
          in case eth_mac_send E tx_addr (ucast frame_length) (s\<lparr>buff := b\<rparr>) of
               None \<Rightarrow> None
             | Some s \<Rightarrow> Some (1, s\<lparr>ipv4_id := ucast (ucast (ipv4_id s) + (0x10000 :: u32))\<rparr>))"

definition udp_send_packet ::
  "env \<Rightarrow> u8 \<Rightarrow> u32 \<Rightarrow> u32 \<Rightarrow> udp_t \<Rightarrow> u64 \<Rightarrow> 'a udp_state_scheme \<Rightarrow> (u32 \<times> 'a udp_state_scheme) option" where
  "udp_send_packet E beyond tx_addr rx_addr packet timeout s =
     (let dip = destination_ip (ip_head packet)
      in case udp_resolve_mac E beyond tx_addr rx_addr dip timeout s of
        None \<Rightarrow> None
      | Some (dmac, s) \<Rightarrow>
          let udp_length = data_length (udp_head packet) + 8;
              ip_length = udp_length + 20;
              frame_length = ip_length + 14;
              b = udp_write_frame tx_addr dmac (my_mac s) (ipv4_id s) (source_ip (ip_head packet)) dip
                    (source_port (udp_head packet)) (destination_port (udp_head packet)) (data packet)
                    (data_length (udp_head packet)) (buff s);
              b = udp_store_checksums tx_addr b
          in case eth_mac_send E tx_addr (ucast frame_length) (s\<lparr>buff := b\<rparr>) of
               None \<Rightarrow> None
             | Some s \<Rightarrow> Some (1, s\<lparr>ipv4_id := ucast (ucast (ipv4_id s) + (0x10000 :: u32))\<rparr>))"

section \<open>The checksum functions\<close>

lemma udp_pseudo_sum_eq: "udp_pseudo_sum b p c = c + of_nat (half_sum b (p + 26) 4)"
proof -
  have "evens 4 = [0, 2]" by (simp add: evens_def upt_rec)
  moreover have "half_sum b (p + 26) 4 = half_at b (p + 26) + half_at b (p + 28) + half_at b (p + 30) + half_at b (p + 32)"
    by (simp add: half_sum_def lessThan_nat_numeral lessThan_Suc)
  ultimately show ?thesis
    by (simp add: udp_pseudo_sum_def Let_def half_word [symmetric] and_FF_take_bit)
qed

lemma udp_sums:
  assumes "unat len < 65535"
  shows "udp_segment_sum b p (fst (l4_pad b' q len)) = of_nat (half_sum b (p + 34) ((unat len + 1) div 2))"
  using segment_loop [OF assms, of b p b' q 0] by (simp add: udp_segment_sum_def)

lemma snd_udp_checksums:
  "snd (udp_compute_checksum b p) = snd (l4_pad b p (udp_get_packet_length b p))"
  "snd (udp_verify_checksum b p) = snd (l4_pad b p (udp_get_packet_length b p))"
  by (simp_all add: udp_compute_checksum_def udp_verify_checksum_def udp_get_packet_length_def Let_def split_beta)

lemma udp_compute_checksum_eq:
  assumes "unat (udp_get_packet_length b p) < 65535"
    and "half_at (snd (l4_pad b p (udp_get_packet_length b p))) (p + 40) = 0"
  shows "unat (fst (udp_compute_checksum b p)) =
    65535 - ones_rep (l4_total (snd (l4_pad b p (udp_get_packet_length b p))) p 17 (udp_get_packet_length b p))"
proof -
  let ?b = "snd (l4_pad b p (udp_get_packet_length b p))" and ?L = "udp_get_packet_length b p"
  have z: "mem_iord_byte ?b (p + 40) = 0" "mem_iord_byte ?b (p + 41) = 0"
    using assms(2) by (simp_all add: half_at_def byte_at_def unat_eq_0)
  have L: "ucast (mem_iord b (p + 36) AND 0xFFFF) = ?L" by (simp add: udp_get_packet_length_def)
  have "fst (udp_compute_checksum b p) =
      ucast (csum_not (csum_fold3 (of_nat (l4_total ?b p 17 ?L))))"
    unfolding udp_compute_checksum_def Let_def L split_beta fst_conv z udp_sums [OF assms(1)] udp_pseudo_sum_eq
    by (simp add: l4_total_def)
  then show ?thesis by (simp add: l4_checksum_value(1) [OF refl])
qed

lemma udp_verify_checksum_eq:
  assumes "unat (udp_get_packet_length b p) < 65535"
  shows "fst (udp_verify_checksum b p) =
    (let T = l4_total (snd (l4_pad b p (udp_get_packet_length b p))) p 17 (udp_get_packet_length b p)
     in if 0 < T \<and> 65535 dvd T then 1 else 0)"
proof -
  let ?b = "snd (l4_pad b p (udp_get_packet_length b p))" and ?L = "udp_get_packet_length b p"
  have L: "ucast (mem_iord b (p + 36) AND 0xFFFF) = ?L" by (simp add: udp_get_packet_length_def)
  have "fst (udp_verify_checksum b p) =
      (if csum_not (csum_fold3 (of_nat (l4_total ?b p 17 ?L))) = 0 then 1 else 0)"
    unfolding udp_verify_checksum_def Let_def L split_beta fst_conv udp_sums [OF assms(1)] udp_pseudo_sum_eq
    by (simp add: l4_total_def)
  then show ?thesis by (simp add: l4_checksum_value(2) [OF refl] Let_def)
qed

section \<open>The frame\<close>

lemma udp_data_byte:
  assumes "k < unat len"
  shows "mem_iord_byte (udp_write_frame tx dmac smac ident sip dip sport dport dat len b) (tx + 42 + of_nat k) =
    ucast (dat ! k)"
proof -
  have k: "k < 2 ^ 32" "unat len \<le> 2 ^ 32" using assms unat_less_16 [of len] by simp_all
  then show ?thesis using assms
    by (simp add: udp_write_frame_def Let_def eth0.rd_fill [OF k(2)] within_def unat_of_nat_u32 [OF k(1)])
qed

text \<open>The 42 header bytes of the frame before the checksums are stored.\<close>

lemma udp_header_bytes:
  assumes "aligned4 tx" and f: "f = udp_write_frame tx dmac smac ident sip dip sport dport dat len b"
  shows
    "mem_iord_byte f tx = ucast (dmac ! 0)" "mem_iord_byte f (tx + 1) = ucast (dmac ! 1)"
    "mem_iord_byte f (tx + 2) = ucast (dmac ! 2)" "mem_iord_byte f (tx + 3) = ucast (dmac ! 3)"
    "mem_iord_byte f (tx + 4) = ucast (dmac ! 4)" "mem_iord_byte f (tx + 5) = ucast (dmac ! 5)"
    "mem_iord_byte f (tx + 6) = ucast (smac ! 0)" "mem_iord_byte f (tx + 7) = ucast (smac ! 1)"
    "mem_iord_byte f (tx + 8) = ucast (smac ! 2)" "mem_iord_byte f (tx + 9) = ucast (smac ! 3)"
    "mem_iord_byte f (tx + 10) = ucast (smac ! 4)" "mem_iord_byte f (tx + 11) = ucast (smac ! 5)"
    "mem_iord_byte f (tx + 12) = 8" "mem_iord_byte f (tx + 13) = 0"
    "mem_iord_byte f (tx + 14) = 0x45" "mem_iord_byte f (tx + 15) = 0"
    "mem_iord_byte f (tx + 16) = ucast (drop_bit 8 (28 + len))" "mem_iord_byte f (tx + 17) = take_bit 8 (ucast (28 + len))"
    "mem_iord_byte f (tx + 18) = ucast (drop_bit 8 ident)" "mem_iord_byte f (tx + 19) = take_bit 8 (ucast ident)"
    "mem_iord_byte f (tx + 20) = 0x40" "mem_iord_byte f (tx + 21) = 0"
    "mem_iord_byte f (tx + 22) = 0x40" "mem_iord_byte f (tx + 23) = 17"
    "mem_iord_byte f (tx + 24) = 0" "mem_iord_byte f (tx + 25) = 0"
    "mem_iord_byte f (tx + 26) = ucast (sip ! 0)" "mem_iord_byte f (tx + 27) = ucast (sip ! 1)"
    "mem_iord_byte f (tx + 28) = ucast (sip ! 2)" "mem_iord_byte f (tx + 29) = ucast (sip ! 3)"
    "mem_iord_byte f (tx + 30) = ucast (dip ! 0)" "mem_iord_byte f (tx + 31) = ucast (dip ! 1)"
    "mem_iord_byte f (tx + 32) = ucast (dip ! 2)" "mem_iord_byte f (tx + 33) = ucast (dip ! 3)"
    "mem_iord_byte f (tx + 34) = ucast (drop_bit 8 sport)" "mem_iord_byte f (tx + 35) = take_bit 8 (ucast sport)"
    "mem_iord_byte f (tx + 36) = ucast (drop_bit 8 dport)" "mem_iord_byte f (tx + 37) = take_bit 8 (ucast dport)"
    "mem_iord_byte f (tx + 38) = ucast (drop_bit 8 (len + 8))" "mem_iord_byte f (tx + 39) = take_bit 8 (ucast (len + 8))"
    "mem_iord_byte f (tx + 40) = 0" "mem_iord_byte f (tx + 41) = 0"
proof -
  have hdr: "\<not> within (tx + j) (tx + 42) (unat len)" if "unat j < 42" for j
    using that unat_less_16 [of len] by (intro within_before) simp_all
  have hdr0: "\<not> within tx (tx + 42) (unat len)" using hdr [of 0] by simp
  have le: "unat len \<le> 2 ^ 32" using unat_less_16 [of len] by simp
  note rd = f udp_write_frame_def Let_def eth0.rd_fill [OF le] hdr hdr0 iowr_offset [OF assms(1)] iowr_offset_0 [OF assms(1)]
    iowr_base [OF assms(1)] iowr_offset_0 [OF assms(1), of _ _ 0, simplified] word_bytes
  show "mem_iord_byte f tx = ucast (dmac ! 0)"
    "mem_iord_byte f (tx + 1) = ucast (dmac ! 1)"
    "mem_iord_byte f (tx + 2) = ucast (dmac ! 2)"
    "mem_iord_byte f (tx + 3) = ucast (dmac ! 3)"
    "mem_iord_byte f (tx + 4) = ucast (dmac ! 4)"
    "mem_iord_byte f (tx + 5) = ucast (dmac ! 5)"
    by (simp_all add: rd del: take_bit_or drop_bit_or)
  show "mem_iord_byte f (tx + 6) = ucast (smac ! 0)"
    "mem_iord_byte f (tx + 7) = ucast (smac ! 1)"
    "mem_iord_byte f (tx + 8) = ucast (smac ! 2)"
    "mem_iord_byte f (tx + 9) = ucast (smac ! 3)"
    "mem_iord_byte f (tx + 10) = ucast (smac ! 4)"
    "mem_iord_byte f (tx + 11) = ucast (smac ! 5)"
    by (simp_all add: rd del: take_bit_or drop_bit_or)
  show "mem_iord_byte f (tx + 12) = 8"
    "mem_iord_byte f (tx + 13) = 0"
    "mem_iord_byte f (tx + 14) = 0x45"
    "mem_iord_byte f (tx + 15) = 0"
    "mem_iord_byte f (tx + 16) = ucast (drop_bit 8 (28 + len))"
    "mem_iord_byte f (tx + 17) = take_bit 8 (ucast (28 + len))"
    by (simp_all add: rd del: take_bit_or drop_bit_or)
  show "mem_iord_byte f (tx + 18) = ucast (drop_bit 8 ident)"
    "mem_iord_byte f (tx + 19) = take_bit 8 (ucast ident)"
    "mem_iord_byte f (tx + 20) = 0x40"
    "mem_iord_byte f (tx + 21) = 0"
    "mem_iord_byte f (tx + 22) = 0x40"
    "mem_iord_byte f (tx + 23) = 17"
    by (simp_all add: rd del: take_bit_or drop_bit_or)
  show "mem_iord_byte f (tx + 24) = 0"
    "mem_iord_byte f (tx + 25) = 0"
    "mem_iord_byte f (tx + 26) = ucast (sip ! 0)"
    "mem_iord_byte f (tx + 27) = ucast (sip ! 1)"
    "mem_iord_byte f (tx + 28) = ucast (sip ! 2)"
    "mem_iord_byte f (tx + 29) = ucast (sip ! 3)"
    by (simp_all add: rd del: take_bit_or drop_bit_or)
  show "mem_iord_byte f (tx + 30) = ucast (dip ! 0)"
    "mem_iord_byte f (tx + 31) = ucast (dip ! 1)"
    "mem_iord_byte f (tx + 32) = ucast (dip ! 2)"
    "mem_iord_byte f (tx + 33) = ucast (dip ! 3)"
    "mem_iord_byte f (tx + 34) = ucast (drop_bit 8 sport)"
    "mem_iord_byte f (tx + 35) = take_bit 8 (ucast sport)"
    by (simp_all add: rd del: take_bit_or drop_bit_or)
  show "mem_iord_byte f (tx + 36) = ucast (drop_bit 8 dport)"
    "mem_iord_byte f (tx + 37) = take_bit 8 (ucast dport)"
    "mem_iord_byte f (tx + 38) = ucast (drop_bit 8 (len + 8))"
    "mem_iord_byte f (tx + 39) = take_bit 8 (ucast (len + 8))"
    "mem_iord_byte f (tx + 40) = 0"
    "mem_iord_byte f (tx + 41) = 0"
    by (simp_all add: rd del: take_bit_or drop_bit_or)
qed

section \<open>The frame with its checksums\<close>

lemma udp_get_packet_length_eq:
  "aligned4 p \<Longrightarrow> udp_get_packet_length b p =
     ucast (push_bit 8 (mem_iord_byte b (p + 38)) OR mem_iord_byte b (p + 39))"
proof -
  assume "aligned4 p"
  then have "aligned4 (p + 36)" by (auto intro: aligned4_add)
  then show ?thesis by (simp add: udp_get_packet_length_def mem_iord_halves)
qed

lemma udp_store_checksums_eq:
  "udp_store_checksums tx f =
     store16 (snd (udp_compute_checksum (ipv4_store_checksum f tx) tx)) (tx + 40)
       (fst (udp_compute_checksum (ipv4_store_checksum f tx) tx))"
  by (simp add: udp_store_checksums_def ipv4_store_checksum_def store16_def Let_def split_beta)

lemma udp_packet_length_stored:
  assumes "aligned4 tx"
  shows "udp_get_packet_length (ipv4_store_checksum f tx) tx = udp_get_packet_length f tx"
  by (simp add: udp_get_packet_length_eq [OF assms] ipv4_store_checksum_def store16_byte)

lemma udp_store_checksums_final:
  assumes "aligned4 tx" "udp_get_packet_length f tx = len"
  shows "udp_store_checksums tx f = l4_final tx len 3 (fst (udp_compute_checksum (ipv4_store_checksum f tx) tx)) f"
  unfolding udp_store_checksums_eq snd_udp_checksums udp_packet_length_stored [OF assms(1)] assms(2)
  by (simp add: l4_final_def l4_padded_def)

lemma udp_checksum_verifies:
  assumes "aligned4 tx" "udp_get_packet_length f tx = len" "l4_ready tx len 3 f"
  shows "fst (udp_verify_checksum (udp_store_checksums tx f) tx) = 1"
proof -
  let ?b = "ipv4_store_checksum f tx"
  let ?c = "fst (udp_compute_checksum ?b tx)"
  let ?g = "l4_final tx len 3 ?c f"
  have lt: "unat len < 65535" "8 \<le> unat len" using assms(3) by (simp_all add: l4_ready_def)
  have c: "unat ?c = 65535 - ones_rep (l4_total (l4_padded tx len f) tx 17 len)"
    using udp_compute_checksum_eq [of ?b tx] lt l4_field_zero [OF assms(3)]
    unfolding udp_packet_length_stored [OF assms(1)] assms(2) l4_padded_def [symmetric] by simp
  have "udp_get_packet_length ?g tx = len"
    using assms(2) l4_final_byte [OF assms(3), of 38 ?c] l4_final_byte [OF assms(3), of 39 ?c] lt
    by (simp add: udp_get_packet_length_eq [OF assms(1)])
  then show ?thesis
    using udp_verify_checksum_eq [of ?g tx] l4_final_verifies [OF assms(3) c] lt(1)
    unfolding udp_store_checksums_final [OF assms(1,2)] by (simp add: Let_def)
qed

section \<open>Properties\<close>

lemma unat_udp_length: "unat len \<le> 65507 \<Longrightarrow> unat (len + 8 :: u16) = unat len + 8"
  by (simp add: unat_word_ariths)

lemma udp_write_frame_ready:
  assumes "aligned4 tx" "unat len \<le> 65507"
    and f: "f = udp_write_frame tx dmac smac ident sip dip sport dport dat len b"
  shows "udp_get_packet_length f tx = len + 8" "l4_ready tx (len + 8) 3 f"
  using assms(2) udp_header_bytes [OF assms(1) f]
  by (simp_all add: l4_ready_def udp_get_packet_length_eq [OF assms(1)] half_of_bytes half_at_def byte_at_def
      unat_word_ariths)

lemma udp_ports_eq:
  assumes "aligned4 p"
  shows "udp_get_source_port b p = ucast (push_bit 8 (mem_iord_byte b (p + 34)) OR mem_iord_byte b (p + 35))"
    "udp_get_destination_port b p = ucast (push_bit 8 (mem_iord_byte b (p + 36)) OR mem_iord_byte b (p + 37))"
proof -
  have "aligned4 (p + 32)" "aligned4 (p + 36)" using assms by (auto intro: aligned4_add)
  then show "udp_get_source_port b p = ucast (push_bit 8 (mem_iord_byte b (p + 34)) OR mem_iord_byte b (p + 35))"
    "udp_get_destination_port b p = ucast (push_bit 8 (mem_iord_byte b (p + 36)) OR mem_iord_byte b (p + 37))"
    by (simp_all add: udp_get_source_port_def udp_get_destination_port_def mem_iord_halves)
qed

lemma udp_get_data_eq:
  assumes "length d = unat n" "length dat = unat n"
    and "\<And>k. k < unat n \<Longrightarrow> mem_iord_byte b (p + 42 + of_nat k) = ucast (dat ! k)"
  shows "udp_get_data b p d n = Inr (1, dat)"
proof -
  have "fold (\<lambda>i d. d[i := ucast (mem_iord_byte b (p + 42 + of_nat i))]) [0..<unat n] d =
      fold (\<lambda>i d. d[i := dat ! i]) [0..<unat n] d"
    using assms(3) by (intro fold_cong) auto
  also have "\<dots> = dat" using copy_array_eq [OF assms(2,1)] by (simp add: copy_array_def)
  finally show ?thesis by (simp add: udp_get_data_def assms(1))
qed

text \<open>The two checksums of a datagram built by the send functions are right: the receiver's IPv4
  and UDP verification accept the frame, for any addresses, ports and data that fit into one IPv4
  packet, of even or odd length.\<close>

theorem udp_frame_checksums_valid:
  assumes "aligned4 tx" "unat len \<le> 65507"
  shows "let g = udp_store_checksums tx (udp_write_frame tx dmac smac ident sip dip sport dport dat len b)
    in ipv4_verify_checksum g tx = 1 \<and> fst (udp_verify_checksum g tx) = 1"
  using udp_write_frame_ready [OF assms refl, of dmac smac ident sip dip sport dport dat b] assms(1)
  by (simp add: Let_def udp_checksum_verifies) (simp add: udp_store_checksums_final l4_final_ip_verifies)

theorem udp_frame_checksums_valid_witness:
  "fst (udp_verify_checksum (udp_store_checksums 0x800 (udp_write_frame 0x800 my_mac_init my_mac_init 0x1111
     my_ip_init [192, 168, 24, 1] 5353 80 [104, 105, 33] 3 (\<lambda>_. 0))) 0x800) = 1"
  using udp_frame_checksums_valid [of "0x800" 3 my_mac_init my_mac_init "0x1111" my_ip_init "[192, 168, 24, 1]" 5353 80
      "[104, 105, 33]" "\<lambda>_. 0"]
  by (simp add: aligned4_def Let_def)

text \<open>The checksum stage changes only the checksum fields and the byte after the segment.\<close>

lemma udp_sent_byte:
  assumes "aligned4 tx" "unat len \<le> 65507" "f = udp_write_frame tx dmac smac ident sip dip sport dport dat len b"
    and "unat j < 42 + unat len" "j \<notin> {24, 25, 40, 41}"
  shows "mem_iord_byte (udp_store_checksums tx f) (tx + j) = mem_iord_byte f (tx + j)"
  using assms(4,5) udp_write_frame_ready [OF assms(1,2,3)] unat_udp_length [OF assms(2)]
    l4_final_byte [OF udp_write_frame_ready(2) [OF assms(1,2,3)], of j]
  by (simp add: udp_store_checksums_final [OF assms(1)])

lemma udp_sent_data:
  assumes "aligned4 tx" "unat len \<le> 65507" "k < unat len"
  shows "mem_iord_byte (udp_store_checksums tx (udp_write_frame tx dmac smac ident sip dip sport dport dat len b))
    (tx + 42 + of_nat k) = ucast (dat ! k)"
proof -
  have u: "unat (42 + of_nat k :: u32) = 42 + k"
    using assms(3) unat_less_16 [of len] by (simp add: unat_word_ariths unat_of_nat_u32)
  then have "unat (42 + of_nat k :: u32) < 42 + unat len" "42 + of_nat k \<notin> {24, 25, 40, 41 :: u32}"
    using assms(3) by (auto simp: word_unat_eq_iff)
  then show ?thesis
    using udp_sent_byte [OF assms(1,2) refl, of "42 + of_nat k"] udp_data_byte [OF assms(3)] by (simp add: add.assoc)
qed

lemma udp_sent_length:
  assumes "aligned4 tx" "unat len \<le> 65507"
  shows "udp_get_packet_length (udp_store_checksums tx (udp_write_frame tx dmac smac ident sip dip sport dport dat len b)) tx
    = len + 8"
  using udp_sent_byte [OF assms refl, of 38] udp_sent_byte [OF assms refl, of 39]
    udp_write_frame_ready(1) [OF assms refl, of dmac smac ident sip dip sport dport dat b]
  by (simp add: udp_get_packet_length_eq [OF assms(1)])

text \<open>A frame built by the send functions, read with the accessors of the stack.\<close>

lemma udp_frame_fields:
  assumes "aligned4 tx" "unat len \<le> 65507" "length dat = unat len" "length d = unat len"
    and "length dmac = 6" "length smac = 6" "length sip = 4" "length dip = 4"
  shows "let g = udp_store_checksums tx (udp_write_frame tx dmac smac ident sip dip sport dport dat len b)
    in mac_addr_dest g tx = dmac \<and> mac_addr_sender g tx = smac \<and> mac_packet_type g tx = UDP \<and>
       ipv4_get_source_ip g tx = sip \<and> ipv4_get_destination_ip g tx = dip \<and> ipv4_get_length g tx = len + 28 \<and>
       udp_get_source_port g tx = sport \<and> udp_get_destination_port g tx = dport \<and>
       udp_get_data_length g tx = len \<and> udp_get_data g tx d (ucast len) = Inr (1, dat)"
proof -
  let ?f = "udp_write_frame tx dmac smac ident sip dip sport dport dat len b"
  have g: "mem_iord_byte (udp_store_checksums tx ?f) (tx + j) = mem_iord_byte ?f (tx + j)"
    if "unat j < 42" "j \<noteq> 24" "j \<noteq> 25" "j \<noteq> 40" "j \<noteq> 41" for j
    using udp_sent_byte [OF assms(1,2) refl] that by simp
  note g0 = g [of 0, simplified]
  note hdr = g g0 udp_header_bytes [OF assms(1) refl]
  have len: "unat (ucast len :: u32) = unat len" using unat_less_16 [of len] by (simp add: unsigned_ucast_eq take_bit_nat_eq_self)
  note data = udp_sent_data [OF assms(1,2)]
  show ?thesis
    unfolding Let_def
  proof (intro conjI)
    show "mac_addr_dest (udp_store_checksums tx ?f) tx = dmac" "mac_addr_sender (udp_store_checksums tx ?f) tx = smac"
      using list_eq_6 [OF assms(5)] list_eq_6 [OF assms(6)] by (simp_all add: mac_addr_dest_def mac_addr_sender_def hdr)
    show "mac_packet_type (udp_store_checksums tx ?f) tx = UDP" by (simp add: mac_packet_type_def hdr)
    show "ipv4_get_source_ip (udp_store_checksums tx ?f) tx = sip" "ipv4_get_destination_ip (udp_store_checksums tx ?f) tx = dip"
      using list_eq_4 [OF assms(7)] list_eq_4 [OF assms(8)]
      by (simp_all add: ipv4_get_source_ip_eq ipv4_get_destination_ip_eq hdr)
    show "ipv4_get_length (udp_store_checksums tx ?f) tx = len + 28"
      by (simp add: ipv4_get_length_eq hdr half_of_bytes)
    show "udp_get_source_port (udp_store_checksums tx ?f) tx = sport" "udp_get_destination_port (udp_store_checksums tx ?f) tx = dport"
      by (simp_all add: udp_ports_eq [OF assms(1)] hdr half_of_bytes)
    show "udp_get_data_length (udp_store_checksums tx ?f) tx = len"
      by (simp add: udp_get_data_length_def udp_get_packet_length_eq [OF assms(1)] hdr half_of_bytes)
    show "udp_get_data (udp_store_checksums tx ?f) tx d (ucast len) = Inr (1, dat)"
      using assms(3,4) data by (intro udp_get_data_eq) (simp_all add: len)
  qed
qed

text \<open>C12: what is sent is what is received: read with the accessors of the stack, the frame is a UDP
  frame with the given addresses, ports, length and data.\<close>

theorem udp_frame_roundtrip:
  assumes "aligned4 tx" "unat len \<le> 65507" "length dat = unat len" "length d = unat len"
    and "length dmac = 6" "length smac = 6" "length sip = 4" "length dip = 4"
  shows "let g = udp_store_checksums tx (udp_write_frame tx dmac smac ident sip dip sport dport dat len b)
    in mac_addr_dest g tx = dmac \<and> mac_addr_sender g tx = smac \<and> mac_packet_type g tx = UDP \<and>
       ipv4_get_source_ip g tx = sip \<and> ipv4_get_destination_ip g tx = dip \<and> ipv4_get_length g tx = len + 28 \<and>
       udp_get_source_port g tx = sport \<and> udp_get_destination_port g tx = dport \<and>
       udp_get_data_length g tx = len \<and> udp_get_data g tx d (ucast len) = Inr (1, dat)"
  by (rule udp_frame_fields [OF assms])

theorem udp_frame_roundtrip_witness:
  "udp_get_data (udp_store_checksums 0x800 (udp_write_frame 0x800 my_mac_init my_mac_init 0x1111
     my_ip_init [192, 168, 24, 1] 5353 80 [104, 105, 33] 3 (\<lambda>_. 0))) 0x800 [0, 0, 0] 3 = Inr (1, [104, 105, 33])"
  using udp_frame_roundtrip [of "0x800" 3 "[104, 105, 33]" "[0, 0, 0]" my_mac_init my_mac_init my_ip_init
      "[192, 168, 24, 1]" "0x1111" 5353 80 "\<lambda>_. 0"]
  by (simp add: aligned4_def Let_def my_mac_init_def my_ip_init_def)

text \<open>The hardware address a datagram for \<open>dip\<close> goes to, given the table: broadcast if unknown.\<close>

definition udp_target :: "arp_table_entry list \<Rightarrow> u8 list \<Rightarrow> u8 list" where
  "udp_target tab dip = (case arp_lookup tab dip of Some mac \<Rightarrow> mac
     | None \<Rightarrow> [0xFF, 0xFF, 0xFF, 0xFF, 0xFF, 0xFF])"

lemma arp_table_search_target:
  assumes "arp_wf tab" "length mac = 6"
  shows "arp_table_search tab ip mac = (case arp_lookup tab ip of Some m \<Rightarrow> (1, m) | None \<Rightarrow> (0, mac))"
proof -
  have shape: "arp_shape tab" using assms by (simp add: arp_wf_def)
  have "length (mac_addr e) = 6" if "find (\<lambda>e. entry_matches e ip) tab = Some e" for e
    using shape that by (auto simp: arp_shape_def list_all_iff find_Some_iff)
  then show ?thesis using shape assms(2)
    by (auto simp: arp_table_search_def arp_table_search_from_find arp_lookup_find [OF shape] arp_shape_def copy_array_eq
        split: option.splits)
qed

lemma udp_resolve_mac_target:
  assumes "udp_resolve_mac E beyond tx rx dip timeout s = Some (dmac, s')" "arp_wf (arp_table s)"
  shows "dmac = udp_target (arp_table s') dip \<and> arp_wf (arp_table s') \<and> arp_rest s' = arp_rest s"
proof (cases "arp_lookup (arp_table s) dip")
  case None
  then obtain r where r: "arp_resolve_ip E beyond rx tx dip timeout s = Some (r, s')"
    and dmac: "dmac = (if r \<noteq> 0 then snd (arp_table_search (arp_table s') dip [0xFF, 0xFF, 0xFF, 0xFF, 0xFF, 0xFF])
      else [0xFF, 0xFF, 0xFF, 0xFF, 0xFF, 0xFF])"
    using assms by (auto simp: udp_resolve_mac_def Let_def arp_table_search_target split: option.splits)
  from arp_resolve_ip_keeps [OF r assms(2) None] show ?thesis
    by (auto simp: dmac udp_target_def arp_table_search_target)
next
  case (Some m)
  then show ?thesis using assms
    by (simp add: udp_resolve_mac_def Let_def arp_table_search_target udp_target_def)
qed

lemma udp_id_step: "(ucast (ucast (i :: u16) + (0x10000 :: u32)) :: u16) = i"
proof -
  have "unat (ucast (ucast i + (0x10000 :: u32)) :: u16) = unat i"
    using unat_less_16 [of i]
    by (simp add: unsigned_ucast_eq unat_word_ariths take_bit_eq_mod)
  then show ?thesis by (simp only: word_unat_eq_iff)
qed

text \<open>The accessors see the same datagram wherever the same bytes are.\<close>

lemma udp_same_frame:
  assumes "aligned4 p" "aligned4 p'" "same_frame (42 + n) b p b' p'"
  shows "mac_addr_dest b p = mac_addr_dest b' p'" "mac_addr_sender b p = mac_addr_sender b' p'"
    "mac_packet_type b p = mac_packet_type b' p'"
    "ipv4_get_source_ip b p = ipv4_get_source_ip b' p'" "ipv4_get_destination_ip b p = ipv4_get_destination_ip b' p'"
    "ipv4_get_length b p = ipv4_get_length b' p'" "ipv4_verify_checksum b p = ipv4_verify_checksum b' p'"
    "udp_get_source_port b p = udp_get_source_port b' p'" "udp_get_destination_port b p = udp_get_destination_port b' p'"
    "udp_get_data_length b p = udp_get_data_length b' p'"
    "unat k \<le> n \<Longrightarrow> udp_get_data b p d k = udp_get_data b' p' d k"
proof -
  note byte = same_frame_byte [OF assms(3)]
  have first: "mem_iord_byte b p = mem_iord_byte b' p'" using byte [of 0] by simp
  show "mac_addr_dest b p = mac_addr_dest b' p'" "mac_addr_sender b p = mac_addr_sender b' p'"
    "mac_packet_type b p = mac_packet_type b' p'"
    "ipv4_get_source_ip b p = ipv4_get_source_ip b' p'" "ipv4_get_destination_ip b p = ipv4_get_destination_ip b' p'"
    "ipv4_get_length b p = ipv4_get_length b' p'"
    by (simp_all add: mac_addr_dest_def mac_addr_sender_def mac_packet_type_def ipv4_get_source_ip_eq
        ipv4_get_destination_ip_eq ipv4_get_length_eq Let_def byte first)
  show "udp_get_source_port b p = udp_get_source_port b' p'" "udp_get_destination_port b p = udp_get_destination_port b' p'"
    "udp_get_data_length b p = udp_get_data_length b' p'"
    by (simp_all add: udp_ports_eq assms(1,2) udp_get_data_length_def udp_get_packet_length_eq byte)
  have off: "mem_iord_byte b (p + c + of_nat i) = mem_iord_byte b' (p' + c + of_nat i)"
    if "unat c + i < 42 + n" "unat c + i < 2 ^ 32" for c i
    using byte [of "c + of_nat i"] that by (simp add: unat_word_ariths unat_of_nat add.assoc take_bit_nat_eq_self)
  have "half_sum b (p + 14) 10 = half_sum b' (p' + 14) 10" by (rule half_sum_cong) (rule off, simp_all)
  then show "ipv4_verify_checksum b p = ipv4_verify_checksum b' p'" by (simp add: ipv4_verify_checksum_eq)
  show "udp_get_data b p d k = udp_get_data b' p' d k" if "unat k \<le> n"
  proof -
    have "mem_iord_byte b (p + 42 + of_nat i) = mem_iord_byte b' (p' + 42 + of_nat i)" if i: "i < unat k" for i
    proof -
      have "(42 + of_nat i :: u32) = of_nat (42 + i)" by simp
      then show ?thesis using assms(3) i \<open>unat k \<le> n\<close> unfolding same_frame_def list_all_iff
        by (metis (no_types, lifting) add.assoc add_less_cancel_left atLeast_upt lessThan_iff less_le_trans)
    qed
    then show ?thesis unfolding udp_get_data_def by (auto intro!: fold_cong)
  qed
qed

lemma length_udp_target:
  assumes "arp_wf tab"
  shows "length (udp_target tab dip) = 6"
proof -
  have shape: "arp_shape tab" using assms by (simp add: arp_wf_def)
  then show ?thesis
    by (auto simp: udp_target_def arp_lookup_find [OF shape] arp_shape_def list_all_iff find_Some_iff split: option.splits)
qed

text \<open>The two steps of \<open>udp_send\<close>.\<close>

lemma udp_send_steps:
  fixes s s' :: "'a udp_state_scheme"
  assumes "udp_send E beyond tx rx dip sport dport dat len timeout s = Some (r, s')" "arp_wf (arp_table s)"
  shows "\<exists>s1. udp_resolve_mac E beyond tx rx dip timeout s = Some (udp_target (arp_table s') dip, s1) \<and>
    eth_mac_send E tx (ucast (len + 42))
      (s1\<lparr>buff := udp_store_checksums tx (udp_write_frame tx (udp_target (arp_table s') dip) (my_mac s) (ipv4_id s)
             (my_ip s) dip sport dport dat len (buff s1))\<rparr>) = Some s'"
    "r = 1" "ipv4_id s' = ipv4_id s" "arp_wf (arp_table s')"
proof -
  obtain dmac s1 where res: "udp_resolve_mac E beyond tx rx dip timeout s = Some (dmac, s1)"
    using assms(1) by (auto simp: udp_send_def split: option.splits)
  note t = udp_resolve_mac_target [OF res assms(2)]
  have id: "my_mac s1 = my_mac s" "my_ip s1 = my_ip s" "ipv4_id s1 = ipv4_id s"
    using t by (simp_all add: arp_rest_def) (cases s; cases s1; simp)
  let ?s = "s1\<lparr>buff := udp_store_checksums tx (udp_write_frame tx dmac (my_mac s) (ipv4_id s)
    (my_ip s) dip sport dport dat len (buff s1))\<rparr>"
  obtain s2 where s2: "eth_mac_send E tx (ucast (len + 42)) ?s = Some s2"
    and r: "r = 1" and s': "s' = s2\<lparr>ipv4_id := ucast (ucast (ipv4_id s2) + (0x10000 :: u32))\<rparr>"
    using assms(1) unfolding udp_send_def res by (simp add: Let_def id add.assoc split: option.splits)
  have keep: "arp_table s2 = arp_table s1" "ipv4_id s2 = ipv4_id s1"
    using send_stable [OF s2, of arp_table] send_stable [OF s2, of ipv4_id] by (simp_all add: io_step_def)
  have eq: "s' = s2" using s' by (simp add: udp_id_step)
  then have "dmac = udp_target (arp_table s') dip" using t keep by simp
  then show "\<exists>s1. udp_resolve_mac E beyond tx rx dip timeout s = Some (udp_target (arp_table s') dip, s1) \<and>
    eth_mac_send E tx (ucast (len + 42))
      (s1\<lparr>buff := udp_store_checksums tx (udp_write_frame tx (udp_target (arp_table s') dip) (my_mac s) (ipv4_id s)
             (my_ip s) dip sport dport dat len (buff s1))\<rparr>) = Some s'"
    using res s2 eq by blast
  show "r = 1" "ipv4_id s' = ipv4_id s" "arp_wf (arp_table s')" using r eq keep id t by simp_all
qed

text \<open>C20: when \<open>udp_send\<close> returns, it has returned 1 and its final state is that of one blocking
  transmission of one datagram, made in the state the address resolution left.  If the controller
  writes received frames elsewhere, the datagram is still in the transmit area when the call has
  returned: it is a UDP frame to the hardware address the ARP table then holds for the destination,
  or to the broadcast address if there is none, from the own addresses to the destination, with the
  given ports and data and a valid header checksum.  The IPv4 identification is still the same
  afterwards.\<close>

theorem udp_send_outcome:
  fixes s s' :: "'a udp_state_scheme"
  assumes "udp_send E beyond tx rx dip sport dport dat len timeout s = Some (r, s')" "arp_wf (arp_table s)"
    and "aligned4 tx" "unat len \<le> 65493" "length dat = unat len"
    and "length (my_mac s) = 6" "length (my_ip s) = 4" "length dip = 4" "keeps_area E tx (42 + unat len)"
  shows "r = 1 \<and> ipv4_id s' = ipv4_id s \<and>
    (\<exists>s1. udp_resolve_mac E beyond tx rx dip timeout s = Some (udp_target (arp_table s') dip, s1) \<and>
       eth_mac_send E tx (ucast (len + 42))
         (s1\<lparr>buff := udp_store_checksums tx (udp_write_frame tx (udp_target (arp_table s') dip) (my_mac s) (ipv4_id s)
                (my_ip s) dip sport dport dat len (buff s1))\<rparr>) = Some s') \<and>
    mac_addr_dest (buff s') tx = udp_target (arp_table s') dip \<and> mac_addr_sender (buff s') tx = my_mac s \<and>
    mac_packet_type (buff s') tx = UDP \<and> ipv4_verify_checksum (buff s') tx = 1 \<and>
    ipv4_get_source_ip (buff s') tx = my_ip s \<and> ipv4_get_destination_ip (buff s') tx = dip \<and>
    udp_get_source_port (buff s') tx = sport \<and> udp_get_destination_port (buff s') tx = dport \<and>
    udp_get_data_length (buff s') tx = len \<and>
    udp_get_data (buff s') tx (replicate (unat len) 0) (ucast len) = Inr (1, dat)"
proof -
  note steps = udp_send_steps [OF assms(1,2)]
  let ?dmac = "udp_target (arp_table s') dip"
  obtain s1 where s1: "udp_resolve_mac E beyond tx rx dip timeout s = Some (?dmac, s1)"
    and sent: "eth_mac_send E tx (ucast (len + 42)) (s1\<lparr>buff := udp_store_checksums tx (udp_write_frame tx ?dmac (my_mac s)
      (ipv4_id s) (my_ip s) dip sport dport dat len (buff s1))\<rparr>) = Some s'"
    using steps(1) by blast
  let ?g = "udp_store_checksums tx (udp_write_frame tx ?dmac (my_mac s) (ipv4_id s) (my_ip s) dip sport dport dat len (buff s1))"
  have "42 + unat len \<le> 2 ^ 32" and len: "unat len \<le> 65507" using assms(4) by simp_all
  then have same: "same_frame (42 + unat len) (buff s') tx ?g tx" using area_send [OF assms(9) _ sent] by simp
  have "unat (ucast len :: u32) = unat len" using unat_less_16 [of len] by (simp add: unsigned_ucast_eq take_bit_nat_eq_self)
  then have data: "udp_get_data (buff s') tx d (ucast len) = udp_get_data ?g tx d (ucast len)" for d
    by (intro udp_same_frame(11) [OF assms(3,3) same]) simp
  have sum: "ipv4_verify_checksum ?g tx = 1"
    using udp_write_frame_ready [OF assms(3) len refl, of ?dmac "my_mac s" "ipv4_id s" "my_ip s" dip sport dport dat "buff s1"] assms(3)
    by (simp add: udp_store_checksums_final l4_final_ip_verifies)
  show ?thesis
    using udp_frame_fields [OF assms(3) len assms(5) _ length_udp_target [OF steps(4)] assms(6-8),
        of "replicate (unat len) 0" dip "ipv4_id s" sport dport "buff s1"] steps(2,3) s1 sent
    by (simp add: Let_def udp_same_frame(1-10) [OF assms(3,3) same] data sum)
qed

text \<open>A node that knows the hardware address of 10.0.0.2.\<close>

definition udp_boot :: udp_state where
  "udp_boot = \<lparr>trace = [], buff = \<lambda>_. 0, buff1 = \<lambda>_. 0, my_mac = my_mac_init, my_ip = my_ip_init,
     arp_table = arp_table_new_entry 0 arp_table_zero [10, 0, 0, 2] [2, 0, 0, 0, 0, 2], ipv4_id = ipv4_id_init\<rparr>"

theorem udp_send_outcome_witness:
  "\<exists>s'. udp_send quiet_env 0 0x800 0x100 [10, 0, 0, 2] 5353 80 [104, 105] 2 1000 udp_boot = Some (1, s') \<and>
     ipv4_id s' = 0x1111 \<and> udp_get_destination_port (buff s') 0x800 = 80 \<and>
     udp_get_data (buff s') 0x800 [0, 0] 2 = Inr (1, [104, 105])"
proof -
  have wf: "arp_wf (arp_table udp_boot)"
    by (simp add: udp_boot_def arp_wf_new_entry arp_wf_zero)
  have "arp_lookup (arp_table udp_boot) [10, 0, 0, 2] = Some [2, 0, 0, 0, 0, 2]"
    by (simp add: udp_boot_def arp_lookup_new_entry arp_wf_zero)
  then have res: "udp_resolve_mac quiet_env 0 0x800 0x100 [10, 0, 0, 2] 1000 udp_boot = Some ([2, 0, 0, 0, 0, 2], udp_boot)"
    by (simp add: udp_resolve_mac_def Let_def arp_table_search_target [OF wf])
  obtain s2 where "eth_mac_send quiet_env 0x800 (ucast (2 + 8 + 20 + 14 :: u16)) (udp_boot
      \<lparr>buff := udp_store_checksums 0x800 (udp_write_frame 0x800 [2, 0, 0, 0, 0, 2] (my_mac udp_boot) (ipv4_id udp_boot)
        (my_ip udp_boot) [10, 0, 0, 2] 5353 80 [104, 105] 2 (buff udp_boot))\<rparr>) = Some s2"
    using quiet_send by blast
  then have "\<exists>r s'. udp_send quiet_env 0 0x800 0x100 [10, 0, 0, 2] 5353 80 [104, 105] 2 1000 udp_boot = Some (r, s')"
    unfolding udp_send_def res by (simp add: Let_def)
  then obtain r s' where r: "udp_send quiet_env 0 0x800 0x100 [10, 0, 0, 2] 5353 80 [104, 105] 2 1000 udp_boot = Some (r, s')"
    by blast
  have pre: "aligned4 0x800" "unat (2 :: u16) \<le> 65493" "length [104, 105 :: u8] = unat (2 :: u16)" "length (my_mac udp_boot) = 6"
    "length (my_ip udp_boot) = 4" "length [10, 0, 0, 2 :: u8] = 4" "ipv4_id udp_boot = 0x1111"
    by (simp_all add: udp_boot_def my_mac_init_def my_ip_init_def ipv4_id_init_def aligned4_def)
  have keeps: "keeps_area quiet_env 0x800 (42 + unat (2 :: u16))"
    by (rule keeps_area_plain) (simp add: quiet_env_def regfile_env_def)
  have "r = 1 \<and> ipv4_id s' = 0x1111 \<and> udp_get_destination_port (buff s') 0x800 = 80 \<and>
      udp_get_data (buff s') 0x800 (replicate (unat (2 :: u16)) 0) (ucast (2 :: u16)) = Inr (1, [104, 105])"
    using udp_send_outcome [OF r wf pre(1-6) keeps] pre(7) by metis
  moreover have "unat (2 :: u16) = Suc (Suc 0)" by simp
  then have "replicate (unat (2 :: u16)) (0 :: u8) = [0, 0]" by (simp only: replicate.simps)
  moreover have "(ucast (2 :: u16) :: u32) = 2" by simp
  ultimately show ?thesis using r by metis
qed

end
