(* ===== verification/Tcp.thy ===== *)
theory Tcp
  imports Frame
begin

text \<open>
  The TCP layer \<^verbatim>\<open>c/ethlib/tcp.c\<close>: segments and the connection state machine.  A connection is the
  C structure; its two buffers are the arrays the pointers lead to.  The debug output of
  \<open>tcp_handle\<close> is left out.
\<close>

section \<open>Data\<close>

datatype tcpstate =
  CLOSED | LISTEN | SYN_SENT | SYN_RCVD | ESTABLISHED | FIN_WAIT_1 | FIN_WAIT_2 | TIME_WAIT | CLOSE_WAIT | CLOSING | LAST_ACK

abbreviation (input) FIN :: "'a :: len word" where "FIN \<equiv> 0x1"
abbreviation (input) SYN :: "'a :: len word" where "SYN \<equiv> 0x2"
abbreviation (input) RST :: "'a :: len word" where "RST \<equiv> 0x4"
abbreviation (input) PSH :: "'a :: len word" where "PSH \<equiv> 0x8"
abbreviation (input) ACK :: "'a :: len word" where "ACK \<equiv> 0x10"

record tcp_connection =
  eth_tx_addr :: u32
  eth_rx_addr :: u32
  dstMAC :: "u8 list"
  srcMAC :: "u8 list"
  srcIP :: "u8 list"
  dstIP :: "u8 list"
  srcport :: u16
  dstport :: u16
  seqNum :: u32
  ackNum :: u32
  status :: tcpstate
  conn_ipv4_id :: u16
  send_buffer :: "u8 list"
  send_buffer_size :: u16
  recv_buffer :: "u8 list"
  recv_buffer_size :: u16

section \<open>Segment fields\<close>

definition tcp_get_source_port :: "buffer \<Rightarrow> u32 \<Rightarrow> u16" where
  "tcp_get_source_port b pkt_addr =
     ucast (push_bit 8 (mem_iord_byte b (pkt_addr + 34)) + mem_iord_byte b (pkt_addr + 35))"

definition tcp_get_destination_port :: "buffer \<Rightarrow> u32 \<Rightarrow> u16" where
  "tcp_get_destination_port b pkt_addr =
     ucast (push_bit 8 (mem_iord_byte b (pkt_addr + 36)) + mem_iord_byte b (pkt_addr + 37))"

definition tcp_get_seqnum :: "buffer \<Rightarrow> u32 \<Rightarrow> u32" where
  "tcp_get_seqnum b pkt_addr =
     push_bit 24 (mem_iord_byte b (pkt_addr + 38)) + push_bit 16 (mem_iord_byte b (pkt_addr + 39))
       + push_bit 8 (mem_iord_byte b (pkt_addr + 40)) + mem_iord_byte b (pkt_addr + 41)"

definition tcp_get_acknum :: "buffer \<Rightarrow> u32 \<Rightarrow> u32" where
  "tcp_get_acknum b pkt_addr =
     push_bit 24 (mem_iord_byte b (pkt_addr + 42)) + push_bit 16 (mem_iord_byte b (pkt_addr + 43))
       + push_bit 8 (mem_iord_byte b (pkt_addr + 44)) + mem_iord_byte b (pkt_addr + 45)"

definition tcp_get_header_length :: "buffer \<Rightarrow> u32 \<Rightarrow> u8" where
  "tcp_get_header_length b pkt_addr = ucast (drop_bit 2 (mem_iord_byte b (pkt_addr + 46)))"

definition tcp_get_flags :: "buffer \<Rightarrow> u32 \<Rightarrow> u8" where
  "tcp_get_flags b pkt_addr = ucast (mem_iord_byte b (pkt_addr + 47) AND 0xFF)"

definition tcp_get_checksum :: "buffer \<Rightarrow> u32 \<Rightarrow> u16" where
  "tcp_get_checksum b pkt_addr = ucast (drop_bit 16 (mem_iord b (pkt_addr + 50)))"

definition tcp_get_data_length :: "buffer \<Rightarrow> u32 \<Rightarrow> u16" where
  "tcp_get_data_length b pkt_addr =
     ucast ((ucast (ipv4_get_length b pkt_addr) :: u32) - 20 - ucast (tcp_get_header_length b pkt_addr))"

text \<open>The loop of \<open>tcp_get_data\<close> from index \<open>i\<close> on; it may leave the array it fills.\<close>

function tcp_get_data_from :: "nat \<Rightarrow> buffer \<Rightarrow> u32 \<Rightarrow> u8 list \<Rightarrow> fault + (u32 \<times> u8 list)" where
  "tcp_get_data_from i b pkt_addr dat =
     (if i < unat (tcp_get_data_length b pkt_addr) then
        if i < length dat then
          tcp_get_data_from (i + 1) b pkt_addr
            (dat[i := ucast (mem_iord_byte b (pkt_addr + 34 + ucast (tcp_get_header_length b pkt_addr) + of_nat i))])
        else Inl Out_of_bounds
      else Inr (of_nat i, dat))"
  by pat_completeness auto

termination tcp_get_data_from
  by (relation "measure (\<lambda>(i, b, p, dat). length dat - i)") auto

declare tcp_get_data_from.simps [simp del]

definition tcp_get_data :: "buffer \<Rightarrow> u32 \<Rightarrow> u8 list \<Rightarrow> u32 \<Rightarrow> fault + (u32 \<times> u8 list)" where
  "tcp_get_data b pkt_addr dat data_length = tcp_get_data_from 0 b pkt_addr dat"

section \<open>Checksum and sending\<close>

text \<open>The first part of \<open>tcp_compute_checksum\<close> pads the segment as the UDP functions do.\<close>

definition tcp_compute_checksum :: "buffer \<Rightarrow> u32 \<Rightarrow> u16 \<Rightarrow> u16 \<times> buffer" where
  "tcp_compute_checksum b pkt_addr tcp_length =
     (let (corrected_length, b) = l4_pad b pkt_addr tcp_length;
          checksum = fold (\<lambda>i checksum.
              let hex = ucast (push_bit 8 (mem_iord_byte b (pkt_addr + 26 + of_nat i))
                          + mem_iord_byte b (pkt_addr + 26 + of_nat i + 1)) :: u16
              in checksum + ucast hex) (evens 4) 0 :: u32;
          checksum = fold (\<lambda>i checksum.
              let hex = ucast (push_bit 8 (mem_iord_byte b (pkt_addr + 30 + of_nat i))
                          + mem_iord_byte b (pkt_addr + 30 + of_nat i + 1)) :: u16
              in checksum + ucast hex) (evens 4) checksum;
          checksum = checksum + 0x0006;
          checksum = checksum + ucast tcp_length;
          checksum = fold (\<lambda>i checksum. checksum + (push_bit 8 (mem_iord_byte b (pkt_addr + 34 + of_nat i))
              + mem_iord_byte b (pkt_addr + 34 + of_nat i + 1))) (evens (unat corrected_length)) checksum;
          checksum = csum_fold3 checksum;
          checksum = csum_not checksum
      in (ucast checksum, b))"

definition tcp_verify_checksum :: "buffer \<Rightarrow> u32 \<Rightarrow> u32" where
  "tcp_verify_checksum b pkt_addr = 1"

definition tcp_write_frame :: "tcp_connection \<Rightarrow> u16 \<Rightarrow> u8 list \<Rightarrow> u16 \<Rightarrow> buffer \<Rightarrow> buffer" where
  "tcp_write_frame conn flags dat len b =
     (let tcp_length = len + 20;
          ip_length = tcp_length + 20;
          tx = eth_tx_addr conn;
          b = mem_iowr b tx (push_bit 24 (ucast (dstMAC conn ! 0)) OR push_bit 16 (ucast (dstMAC conn ! 1))
                OR push_bit 8 (ucast (dstMAC conn ! 2)) OR ucast (dstMAC conn ! 3));
          b = mem_iowr b (tx + 4) (push_bit 24 (ucast (dstMAC conn ! 4)) OR push_bit 16 (ucast (dstMAC conn ! 5))
                OR push_bit 8 (ucast (srcMAC conn ! 0)) OR ucast (srcMAC conn ! 1));
          b = mem_iowr b (tx + 8) (push_bit 24 (ucast (srcMAC conn ! 2)) OR push_bit 16 (ucast (srcMAC conn ! 3))
                OR push_bit 8 (ucast (srcMAC conn ! 4)) OR ucast (srcMAC conn ! 5));
          b = mem_iowr b (tx + 12) 0x08004500;
          b = mem_iowr b (tx + 16) (push_bit 16 (ucast ip_length) OR ucast (conn_ipv4_id conn));
          b = mem_iowr b (tx + 20) 0x40004006;
          b = mem_iowr b (tx + 24) (push_bit 8 (ucast (srcIP conn ! 0)) OR ucast (srcIP conn ! 1));
          b = mem_iowr b (tx + 28) (push_bit 24 (ucast (srcIP conn ! 2)) OR push_bit 16 (ucast (srcIP conn ! 3))
                OR push_bit 8 (ucast (dstIP conn ! 0)) OR ucast (dstIP conn ! 1));
          b = mem_iowr b (tx + 32) (push_bit 24 (ucast (dstIP conn ! 2)) OR push_bit 16 (ucast (dstIP conn ! 3))
                OR ucast (srcport conn));
          b = mem_iowr b (tx + 36) (push_bit 16 (ucast (dstport conn)) OR push_bit 8 (drop_bit 24 (seqNum conn))
                OR (drop_bit 16 (seqNum conn) AND 0xFF));
          b = mem_iowr b (tx + 40) (push_bit 24 (drop_bit 8 (seqNum conn) AND 0xFF) OR push_bit 16 (seqNum conn AND 0xFF)
                OR push_bit 8 (drop_bit 24 (ackNum conn)) OR (drop_bit 16 (ackNum conn) AND 0xFF));
          b = mem_iowr b (tx + 44) (push_bit 24 (drop_bit 8 (ackNum conn) AND 0xFF) OR push_bit 16 (ackNum conn AND 0xFF)
                OR push_bit 8 (push_bit 2 (ucast tcp_length - ucast len)) OR (ucast (ucast flags :: u8) AND 0xFF));
          b = mem_iowr b (tx + 48) (push_bit 24 0x72 OR push_bit 16 0x10 OR 0x0000);
          b = mem_iowr b (tx + 52) 0x0000
      in fold (\<lambda>i b. mem_iowr_byte b (tx + 54 + of_nat i) (ucast (dat ! i))) [0..<unat len] b)"

definition tcp_store_checksums :: "u32 \<Rightarrow> u16 \<Rightarrow> buffer \<Rightarrow> buffer" where
  "tcp_store_checksums tx tcp_length b =
     (let checksum = ipv4_compute_checksum b tx;
          b = mem_iowr_byte b (tx + 24) (ucast (drop_bit 8 checksum));
          b = mem_iowr_byte b (tx + 25) (ucast (checksum AND 0xFF));
          (checksum, b) = tcp_compute_checksum b tx tcp_length;
          b = mem_iowr_byte b (tx + 50) (ucast (drop_bit 8 checksum))
      in mem_iowr_byte b (tx + 51) (ucast (checksum AND 0xFF)))"

definition tcp_send ::
  "env \<Rightarrow> tcp_connection \<Rightarrow> u16 \<Rightarrow> u8 list \<Rightarrow> u16 \<Rightarrow> 'a machine_scheme \<Rightarrow> u32 \<times> 'a machine_scheme" where
  "tcp_send E conn flags dat len s =
     (let tcp_length = len + 20;
          ip_length = tcp_length + 20;
          frame_length = ip_length + 14;
          b = tcp_write_frame conn flags dat len (buff s);
          b = tcp_store_checksums (eth_tx_addr conn) tcp_length b
      in eth_mac_send_nb E (eth_tx_addr conn) (ucast frame_length) (s\<lparr>buff := b\<rparr>))"

section \<open>Connections\<close>

definition tcp_init_connection ::
  "tcp_connection \<Rightarrow> u32 \<Rightarrow> u32 \<Rightarrow> u8 list \<Rightarrow> u8 list \<Rightarrow> u8 list \<Rightarrow> u8 list \<Rightarrow> u16 \<Rightarrow> u16 \<Rightarrow> u16 \<Rightarrow> u16 \<Rightarrow> tcp_connection" where
  "tcp_init_connection conn tx rx smac dmac sip dip sport dport send_size recv_size =
     \<lparr>eth_tx_addr = tx, eth_rx_addr = rx,
      dstMAC = fold (\<lambda>i m. m[i := dmac ! i]) [0..<6] (dstMAC conn),
      srcMAC = fold (\<lambda>i m. m[i := smac ! i]) [0..<6] (srcMAC conn),
      srcIP = fold (\<lambda>i m. m[i := sip ! i]) [0..<4] (srcIP conn),
      dstIP = fold (\<lambda>i m. m[i := dip ! i]) [0..<4] (dstIP conn),
      srcport = sport, dstport = dport, seqNum = 0x12345678, ackNum = 0x0, status = CLOSED,
      conn_ipv4_id = 0x1111,
      send_buffer = fold (\<lambda>i m. m[i := 48]) [0..<unat send_size] (send_buffer conn), send_buffer_size = send_size,
      recv_buffer = fold (\<lambda>i m. m[i := 48]) [0..<unat recv_size] (recv_buffer conn), recv_buffer_size = recv_size\<rparr>"

text \<open>The character \<open>'0'\<close> that the calls of \<open>tcp_send\<close> give as data.\<close>

abbreviation (input) zero_char :: "u8 list" where "zero_char \<equiv> [48]"

text \<open>The reaction to a received segment; the result is \<open>resolved\<close>.\<close>

definition tcp_handle ::
  "env \<Rightarrow> tcp_connection \<Rightarrow> 'a machine_scheme \<Rightarrow> u8 \<times> tcp_connection \<times> 'a machine_scheme" where
  "tcp_handle E conn s =
     (let rx = eth_rx_addr conn;
          flags = tcp_get_flags (buff s) rx;
          rx_dst_port = tcp_get_destination_port (buff s) rx
      in if rx_dst_port = srcport conn then
           (case status conn of
              CLOSED \<Rightarrow>
                let (_, s) = tcp_send E conn (RST OR ACK) zero_char 0 s in (1, conn, s)
            | LISTEN \<Rightarrow>
                if flags AND SYN = SYN then
                  let (_, s) = tcp_send E conn (SYN OR ACK) zero_char 0 s in (0, conn\<lparr>status := SYN_RCVD\<rparr>, s)
                else (0, conn, s)
            | SYN_SENT \<Rightarrow>
                if flags = SYN OR ACK then
                  let conn = conn\<lparr>seqNum := tcp_get_acknum (buff s) rx\<rparr>;
                      conn = conn\<lparr>ackNum := tcp_get_seqnum (buff s) rx + 1\<rparr>;
                      (_, s) = tcp_send E conn ACK zero_char 0 s
                  in (1, conn\<lparr>status := ESTABLISHED\<rparr>, s)
                else if flags = SYN then
                  let (_, s) = tcp_send E conn (SYN OR ACK) zero_char 0 s in (0, conn\<lparr>status := SYN_RCVD\<rparr>, s)
                else if flags = RST OR ACK then (0, conn\<lparr>status := CLOSED\<rparr>, s)
                else
                  let (_, s) = tcp_send E conn RST zero_char 0 s in (0, conn\<lparr>status := CLOSED\<rparr>, s)
            | SYN_RCVD \<Rightarrow>
                if flags AND ACK = ACK then (1, conn\<lparr>status := ESTABLISHED\<rparr>, s) else (0, conn, s)
            | ESTABLISHED \<Rightarrow>
                let (resolved, conn) = (if flags = FIN then (0, conn\<lparr>status := CLOSE_WAIT\<rparr>) else (1, conn));
                    (_, s) = tcp_send E conn ACK zero_char 0 s
                in (resolved, conn, s)
            | FIN_WAIT_1 \<Rightarrow>
                if flags = FIN OR ACK then
                  let (_, s) = tcp_send E conn ACK zero_char 0 s in (0, conn\<lparr>status := TIME_WAIT\<rparr>, s)
                else if flags = FIN then
                  let (_, s) = tcp_send E conn ACK zero_char 0 s in (0, conn\<lparr>status := CLOSING\<rparr>, s)
                else if flags = ACK then
                  let (_, s) = tcp_send E conn ACK zero_char 0 s in (0, conn\<lparr>status := FIN_WAIT_2\<rparr>, s)
                else (0, conn, s)
            | FIN_WAIT_2 \<Rightarrow>
                if flags AND FIN = FIN then
                  let (_, s) = tcp_send E conn ACK zero_char 0 s in (0, conn\<lparr>status := CLOSING\<rparr>, s)
                else (0, conn, s)
            | CLOSE_WAIT \<Rightarrow> (0, conn\<lparr>status := LAST_ACK\<rparr>, s)
            | CLOSING \<Rightarrow> if flags = ACK then (0, conn\<lparr>status := TIME_WAIT\<rparr>, s) else (0, conn, s)
            | TIME_WAIT \<Rightarrow> (1, conn\<lparr>status := CLOSED\<rparr>, s)
            | LAST_ACK \<Rightarrow> if flags = ACK then (1, conn\<lparr>status := CLOSED\<rparr>, s) else (0, conn, s))
         else (1, conn, s))"

text \<open>The end of \<open>tcp_connect\<close>, \<open>tcp_listen\<close> and \<open>tcp_close\<close>: wait for a segment and handle it.\<close>

definition tcp_await ::
  "env \<Rightarrow> tcp_connection \<Rightarrow> 'a machine_scheme \<Rightarrow> (u8 \<times> tcp_connection \<times> 'a machine_scheme) option" where
  "tcp_await E conn s =
     (case eth_mac_receive E (eth_rx_addr conn) 1 s of
        None \<Rightarrow> None
      | Some (r, s) \<Rightarrow> Some
          (if r \<noteq> 0 \<and> mac_packet_type (buff s) (eth_rx_addr conn) = TCP then tcp_handle E conn s
           else (0, conn, s)))"

definition tcp_connect ::
  "env \<Rightarrow> tcp_connection \<Rightarrow> 'a machine_scheme \<Rightarrow> (u8 \<times> tcp_connection \<times> 'a machine_scheme) option" where
  "tcp_connect E conn s =
     (let (r, s) = tcp_send E conn SYN zero_char 1 s
      in if r \<noteq> 0 then tcp_await E (conn\<lparr>status := SYN_SENT\<rparr>) s else Some (0, conn, s))"

definition tcp_listen ::
  "env \<Rightarrow> tcp_connection \<Rightarrow> 'a machine_scheme \<Rightarrow> (u8 \<times> tcp_connection \<times> 'a machine_scheme) option" where
  "tcp_listen E conn s =
     (let (r, s) = tcp_send E conn SYN zero_char 1 s
      in if r \<noteq> 0 then tcp_await E (conn\<lparr>status := LISTEN\<rparr>) s else Some (0, conn, s))"

definition tcp_close ::
  "env \<Rightarrow> tcp_connection \<Rightarrow> 'a machine_scheme \<Rightarrow> (u8 \<times> tcp_connection \<times> 'a machine_scheme) option" where
  "tcp_close E conn s =
     (if status conn \<in> {SYN_RCVD, ESTABLISHED} then
        let (_, s) = tcp_send E conn FIN zero_char 0 s in tcp_await E (conn\<lparr>status := FIN_WAIT_1\<rparr>) s
      else if status conn = CLOSE_WAIT then
        let (_, s) = tcp_send E conn FIN zero_char 0 s in tcp_await E (conn\<lparr>status := LAST_ACK\<rparr>) s
      else if status conn \<in> {FIN_WAIT_1, FIN_WAIT_2, CLOSING, LAST_ACK} then tcp_await E conn s
      else Some (1, conn\<lparr>status := CLOSED\<rparr>, s))"

definition tcp_push ::
  "env \<Rightarrow> tcp_connection \<Rightarrow> 'a machine_scheme \<Rightarrow> (u8 \<times> 'a machine_scheme) option" where
  "tcp_push E conn s =
     (let (_, s) = tcp_send E conn (PSH OR ACK) (send_buffer conn) (send_buffer_size conn) s
      in case eth_mac_receive E (eth_rx_addr conn) 1 s of
           None \<Rightarrow> None
         | Some (r, s) \<Rightarrow> Some
             (if r \<noteq> 0 \<and> mac_packet_type (buff s) (eth_rx_addr conn) = TCP then
                if tcp_get_destination_port (buff s) (eth_rx_addr conn) = srcport conn \<and>
                   tcp_get_flags (buff s) (eth_rx_addr conn) AND ACK = ACK then (1, s)
                else let (_, s) = tcp_send E conn (PSH OR ACK) (send_buffer conn) (send_buffer_size conn) s in (0, s)
              else (0, s)))"

definition tcp_recv ::
  "env \<Rightarrow> tcp_connection \<Rightarrow> 'a machine_scheme \<Rightarrow> (fault + (u8 \<times> tcp_connection \<times> 'a machine_scheme)) option" where
  "tcp_recv E conn s =
     (case eth_mac_receive E (eth_rx_addr conn) 1 s of
        None \<Rightarrow> None
      | Some (r, s) \<Rightarrow> Some
          (if r \<noteq> 0 \<and> mac_packet_type (buff s) (eth_rx_addr conn) = TCP \<and>
              tcp_get_destination_port (buff s) (eth_rx_addr conn) = srcport conn \<and>
              tcp_get_flags (buff s) (eth_rx_addr conn) AND PSH = PSH then
             (case tcp_get_data (buff s) (eth_rx_addr conn) (recv_buffer conn) (ucast (recv_buffer_size conn)) of
                Inl e \<Rightarrow> Inl e
              | Inr (n, dat) \<Rightarrow>
                  let conn = conn\<lparr>recv_buffer := dat, recv_buffer_size := ucast n\<rparr>;
                      (_, s) = tcp_send E conn ACK zero_char 0 s
                  in Inr (1, conn, s))
           else Inr (0, conn, s)))"

section \<open>Bytes of the sequence and flag words\<close>

lemma bit_u32_high:
  "bit (s :: u32) (24 + n) \<Longrightarrow> n < 8" "\<not> bit s (32 + n)" "\<not> bit s (40 + n)"
  using bit_imp_le_length [of s "24 + n"] bit_imp_le_length [of s "32 + n"] bit_imp_le_length [of s "40 + n"] by auto

lemma port_seq_word:
  "take_bit 8 (drop_bit 24 (push_bit 16 (ucast (h :: u16)) OR push_bit 8 (drop_bit 24 s) OR take_bit 8 (drop_bit 16 (s :: u32)))) = ucast (drop_bit 8 h)"
  "take_bit 8 (drop_bit 16 (push_bit 16 (ucast h) OR push_bit 8 (drop_bit 24 s) OR take_bit 8 (drop_bit 16 s))) = take_bit 8 (ucast h)"
  "take_bit 8 (drop_bit 8 (push_bit 16 (ucast h) OR push_bit 8 (drop_bit 24 s) OR take_bit 8 (drop_bit 16 s))) = take_bit 8 (drop_bit 24 s)"
  "take_bit 8 (push_bit 16 (ucast h) OR push_bit 8 (drop_bit 24 s) OR take_bit 8 (drop_bit 16 s)) = take_bit 8 (drop_bit 16 s)"
  by (auto intro!: bit_eqI simp: byte_bits bit_u32_high(2,3) dest: bit_high_byte bit_u32_high(1))

lemma seq_ack_word:
  "take_bit 8 (drop_bit 24 (push_bit 24 (take_bit 8 (drop_bit 8 s)) OR push_bit 16 (take_bit 8 s) OR push_bit 8 (drop_bit 24 a) OR take_bit 8 (drop_bit 16 (a :: u32)))) = take_bit 8 (drop_bit 8 s)"
  "take_bit 8 (drop_bit 16 (push_bit 24 (take_bit 8 (drop_bit 8 s)) OR push_bit 16 (take_bit 8 s) OR push_bit 8 (drop_bit 24 a) OR take_bit 8 (drop_bit 16 a))) = take_bit 8 s"
  "take_bit 8 (drop_bit 8 (push_bit 24 (take_bit 8 (drop_bit 8 s)) OR push_bit 16 (take_bit 8 s) OR push_bit 8 (drop_bit 24 a) OR take_bit 8 (drop_bit 16 a))) = take_bit 8 (drop_bit 24 a)"
  "take_bit 8 (push_bit 24 (take_bit 8 (drop_bit 8 s)) OR push_bit 16 (take_bit 8 s) OR push_bit 8 (drop_bit 24 a) OR take_bit 8 (drop_bit 16 a)) = take_bit 8 (drop_bit 16 a)"
  by (auto intro!: bit_eqI simp: byte_bits bit_u32_high(2,3) dest: bit_u32_high(1))

lemma ack_flags_word:
  "take_bit 8 (drop_bit 24 (push_bit 24 (take_bit 8 (drop_bit 8 a)) OR push_bit 16 (take_bit 8 (a :: u32)) OR push_bit 8 (ucast h) OR (ucast (g :: u8) :: u32))) = take_bit 8 (drop_bit 8 a)"
  "take_bit 8 (drop_bit 16 (push_bit 24 (take_bit 8 (drop_bit 8 a)) OR push_bit 16 (take_bit 8 a) OR push_bit 8 (ucast h) OR (ucast g :: u32))) = take_bit 8 a"
  "take_bit 8 (drop_bit 8 (push_bit 24 (take_bit 8 (drop_bit 8 a)) OR push_bit 16 (take_bit 8 a) OR push_bit 8 (ucast (h :: u8)) OR (ucast g :: u32))) = ucast h"
  "take_bit 8 (push_bit 24 (take_bit 8 (drop_bit 8 a)) OR push_bit 16 (take_bit 8 a) OR push_bit 8 (ucast h) OR (ucast g :: u32)) = ucast g"
  by (auto intro!: bit_eqI simp: byte_bits)

section \<open>The frame\<close>

text \<open>The header bytes of the frame before the checksums are stored.\<close>

lemma tcp_header_bytes:
  assumes "aligned4 tx" "unat len \<le> 65495" and f: "f = tcp_write_frame conn flags dat len b" and tx: "tx = eth_tx_addr conn"
  shows
    "mem_iord_byte f tx = ucast (dstMAC conn ! 0)" "mem_iord_byte f (tx + 1) = ucast (dstMAC conn ! 1)"
    "mem_iord_byte f (tx + 2) = ucast (dstMAC conn ! 2)" "mem_iord_byte f (tx + 3) = ucast (dstMAC conn ! 3)"
    "mem_iord_byte f (tx + 4) = ucast (dstMAC conn ! 4)" "mem_iord_byte f (tx + 5) = ucast (dstMAC conn ! 5)"
    "mem_iord_byte f (tx + 6) = ucast (srcMAC conn ! 0)" "mem_iord_byte f (tx + 7) = ucast (srcMAC conn ! 1)"
    "mem_iord_byte f (tx + 8) = ucast (srcMAC conn ! 2)" "mem_iord_byte f (tx + 9) = ucast (srcMAC conn ! 3)"
    "mem_iord_byte f (tx + 10) = ucast (srcMAC conn ! 4)" "mem_iord_byte f (tx + 11) = ucast (srcMAC conn ! 5)"
    "mem_iord_byte f (tx + 12) = 8" "mem_iord_byte f (tx + 13) = 0"
    "mem_iord_byte f (tx + 14) = 0x45" "mem_iord_byte f (tx + 15) = 0"
    "mem_iord_byte f (tx + 16) = ucast (drop_bit 8 (40 + len))" "mem_iord_byte f (tx + 17) = take_bit 8 (ucast (40 + len))"
    "mem_iord_byte f (tx + 18) = ucast (drop_bit 8 (conn_ipv4_id conn))" "mem_iord_byte f (tx + 19) = take_bit 8 (ucast (conn_ipv4_id conn))"
    "mem_iord_byte f (tx + 20) = 0x40" "mem_iord_byte f (tx + 21) = 0"
    "mem_iord_byte f (tx + 22) = 0x40" "mem_iord_byte f (tx + 23) = 6"
    "mem_iord_byte f (tx + 24) = 0" "mem_iord_byte f (tx + 25) = 0"
    "mem_iord_byte f (tx + 26) = ucast (srcIP conn ! 0)" "mem_iord_byte f (tx + 27) = ucast (srcIP conn ! 1)"
    "mem_iord_byte f (tx + 28) = ucast (srcIP conn ! 2)" "mem_iord_byte f (tx + 29) = ucast (srcIP conn ! 3)"
    "mem_iord_byte f (tx + 30) = ucast (dstIP conn ! 0)" "mem_iord_byte f (tx + 31) = ucast (dstIP conn ! 1)"
    "mem_iord_byte f (tx + 32) = ucast (dstIP conn ! 2)" "mem_iord_byte f (tx + 33) = ucast (dstIP conn ! 3)"
    "mem_iord_byte f (tx + 34) = ucast (drop_bit 8 (srcport conn))" "mem_iord_byte f (tx + 35) = take_bit 8 (ucast (srcport conn))"
    "mem_iord_byte f (tx + 36) = ucast (drop_bit 8 (dstport conn))" "mem_iord_byte f (tx + 37) = take_bit 8 (ucast (dstport conn))"
    "mem_iord_byte f (tx + 38) = take_bit 8 (drop_bit 24 (seqNum conn))" "mem_iord_byte f (tx + 39) = take_bit 8 (drop_bit 16 (seqNum conn))"
    "mem_iord_byte f (tx + 40) = take_bit 8 (drop_bit 8 (seqNum conn))" "mem_iord_byte f (tx + 41) = take_bit 8 (seqNum conn)"
    "mem_iord_byte f (tx + 42) = take_bit 8 (drop_bit 24 (ackNum conn))" "mem_iord_byte f (tx + 43) = take_bit 8 (drop_bit 16 (ackNum conn))"
    "mem_iord_byte f (tx + 44) = take_bit 8 (drop_bit 8 (ackNum conn))" "mem_iord_byte f (tx + 45) = take_bit 8 (ackNum conn)"
    "mem_iord_byte f (tx + 46) = 0x50" "mem_iord_byte f (tx + 47) = ucast (ucast flags :: u8)"
    "mem_iord_byte f (tx + 48) = 0x72" "mem_iord_byte f (tx + 49) = 0x10"
    "mem_iord_byte f (tx + 50) = 0" "mem_iord_byte f (tx + 51) = 0"
proof -
  have hdr: "\<not> within (tx + j) (tx + 54) (unat len)" if "unat j < 54" for j
    using that unat_less_16 [of len] by (intro within_before) simp_all
  have hdr0: "\<not> within tx (tx + 54) (unat len)" using hdr [of 0] by simp
  have le: "unat len \<le> 2 ^ 32" using unat_less_16 [of len] by simp
  have "unat (ucast (20 + len) - ucast len :: u32) = 20"
    using assms(2) by (simp add: unat_sub_if_size unsigned_ucast_eq unat_word_ariths take_bit_nat_eq_self word_size)
  then have "unat (ucast (20 + len) - ucast len :: u32) = unat (20 :: u32)" by simp
  then have "ucast (20 + len) - ucast len = (20 :: u32)" by (simp only: word_unat_eq_iff)
  moreover obtain h8 :: u8 where h8: "h8 = 0x50" by blast
  ultimately have hl: "push_bit 2 (ucast (20 + len) - ucast len :: u32) = ucast h8" by simp
  have fl: "take_bit 8 (ucast (ucast flags :: u8) :: u32) = ucast (ucast flags :: u8)" by simp
  note rd = f tcp_write_frame_def Let_def tx [symmetric] eth0.rd_fill [OF le] hdr hdr0 iowr_offset [OF assms(1)] iowr_offset_0 [OF assms(1)]
    iowr_base [OF assms(1)] iowr_offset_0 [OF assms(1), of _ _ 0, simplified] word_bytes hl fl and_FF_take_bit
    port_seq_word seq_ack_word ack_flags_word
  show "mem_iord_byte f tx = ucast (dstMAC conn ! 0)"
    "mem_iord_byte f (tx + 1) = ucast (dstMAC conn ! 1)"
    "mem_iord_byte f (tx + 2) = ucast (dstMAC conn ! 2)"
    "mem_iord_byte f (tx + 3) = ucast (dstMAC conn ! 3)"
    "mem_iord_byte f (tx + 4) = ucast (dstMAC conn ! 4)"
    "mem_iord_byte f (tx + 5) = ucast (dstMAC conn ! 5)"
    by (simp_all add: rd add.commute [of len] del: take_bit_or drop_bit_or push_bit_push_bit)
  show "mem_iord_byte f (tx + 6) = ucast (srcMAC conn ! 0)"
    "mem_iord_byte f (tx + 7) = ucast (srcMAC conn ! 1)"
    "mem_iord_byte f (tx + 8) = ucast (srcMAC conn ! 2)"
    "mem_iord_byte f (tx + 9) = ucast (srcMAC conn ! 3)"
    "mem_iord_byte f (tx + 10) = ucast (srcMAC conn ! 4)"
    "mem_iord_byte f (tx + 11) = ucast (srcMAC conn ! 5)"
    by (simp_all add: rd add.commute [of len] del: take_bit_or drop_bit_or push_bit_push_bit)
  show "mem_iord_byte f (tx + 12) = 8"
    "mem_iord_byte f (tx + 13) = 0"
    "mem_iord_byte f (tx + 14) = 0x45"
    "mem_iord_byte f (tx + 15) = 0"
    "mem_iord_byte f (tx + 16) = ucast (drop_bit 8 (40 + len))"
    "mem_iord_byte f (tx + 17) = take_bit 8 (ucast (40 + len))"
    by (simp_all add: rd add.commute [of len] del: take_bit_or drop_bit_or push_bit_push_bit)
  show "mem_iord_byte f (tx + 18) = ucast (drop_bit 8 (conn_ipv4_id conn))"
    "mem_iord_byte f (tx + 19) = take_bit 8 (ucast (conn_ipv4_id conn))"
    "mem_iord_byte f (tx + 20) = 0x40"
    "mem_iord_byte f (tx + 21) = 0"
    "mem_iord_byte f (tx + 22) = 0x40"
    "mem_iord_byte f (tx + 23) = 6"
    by (simp_all add: rd add.commute [of len] del: take_bit_or drop_bit_or push_bit_push_bit)
  show "mem_iord_byte f (tx + 24) = 0"
    "mem_iord_byte f (tx + 25) = 0"
    "mem_iord_byte f (tx + 26) = ucast (srcIP conn ! 0)"
    "mem_iord_byte f (tx + 27) = ucast (srcIP conn ! 1)"
    "mem_iord_byte f (tx + 28) = ucast (srcIP conn ! 2)"
    "mem_iord_byte f (tx + 29) = ucast (srcIP conn ! 3)"
    by (simp_all add: rd add.commute [of len] del: take_bit_or drop_bit_or push_bit_push_bit)
  show "mem_iord_byte f (tx + 30) = ucast (dstIP conn ! 0)"
    "mem_iord_byte f (tx + 31) = ucast (dstIP conn ! 1)"
    "mem_iord_byte f (tx + 32) = ucast (dstIP conn ! 2)"
    "mem_iord_byte f (tx + 33) = ucast (dstIP conn ! 3)"
    "mem_iord_byte f (tx + 34) = ucast (drop_bit 8 (srcport conn))"
    "mem_iord_byte f (tx + 35) = take_bit 8 (ucast (srcport conn))"
    by (simp_all add: rd add.commute [of len] del: take_bit_or drop_bit_or push_bit_push_bit)
  show "mem_iord_byte f (tx + 36) = ucast (drop_bit 8 (dstport conn))"
    "mem_iord_byte f (tx + 37) = take_bit 8 (ucast (dstport conn))"
    "mem_iord_byte f (tx + 38) = take_bit 8 (drop_bit 24 (seqNum conn))"
    "mem_iord_byte f (tx + 39) = take_bit 8 (drop_bit 16 (seqNum conn))"
    "mem_iord_byte f (tx + 40) = take_bit 8 (drop_bit 8 (seqNum conn))"
    "mem_iord_byte f (tx + 41) = take_bit 8 (seqNum conn)"
    by (simp_all add: rd add.commute [of len] del: take_bit_or drop_bit_or push_bit_push_bit)
  show "mem_iord_byte f (tx + 42) = take_bit 8 (drop_bit 24 (ackNum conn))"
    "mem_iord_byte f (tx + 43) = take_bit 8 (drop_bit 16 (ackNum conn))"
    "mem_iord_byte f (tx + 44) = take_bit 8 (drop_bit 8 (ackNum conn))"
    "mem_iord_byte f (tx + 45) = take_bit 8 (ackNum conn)"
    "mem_iord_byte f (tx + 47) = ucast (ucast flags :: u8)"
    by (simp_all add: rd add.commute [of len] del: take_bit_or drop_bit_or push_bit_push_bit)
  show "mem_iord_byte f (tx + 48) = 0x72"
    "mem_iord_byte f (tx + 49) = 0x10"
    "mem_iord_byte f (tx + 50) = 0"
    "mem_iord_byte f (tx + 51) = 0"
    by (simp_all add: rd add.commute [of len] del: take_bit_or drop_bit_or push_bit_push_bit)
  have "mem_iord_byte f (tx + 46) = ucast h8"
    by (simp add: rd add.commute [of len] del: take_bit_or drop_bit_or push_bit_push_bit)
  then show "mem_iord_byte f (tx + 46) = 0x50" by (simp add: h8)
qed

section \<open>The checksum\<close>

lemma ucast_half: "(ucast (ucast (of_nat (half_at b a) :: u32) :: u16) :: u32) = of_nat (half_at b a)"
proof -
  have "unat (ucast (ucast (of_nat (half_at b a) :: u32) :: u16) :: u32) = unat (of_nat (half_at b a) :: u32)"
    using half_at_less [of b a] by (simp add: unsigned_ucast_eq unsigned_take_bit_eq unat_of_nat take_bit_nat_eq_self)
  then show ?thesis by (simp only: word_unat_eq_iff)
qed

lemma tcp_segment_loop:
  "fold (\<lambda>i c. c + of_nat (half_at b (p + of_nat i))) (evens (2 * n)) c = (c :: u32) + of_nat (half_sum b p n)"
  unfolding evens_double
  by (induction n) (simp_all add: half_sum_def [of _ _ 0] half_sum_Suc add.assoc del: of_nat_mult)

lemma tcp_compute_checksum_eq:
  assumes "unat len < 65535"
  shows "unat (fst (tcp_compute_checksum b p len)) = 65535 - ones_rep (l4_total (snd (l4_pad b p len)) p 6 len)"
    and "snd (tcp_compute_checksum b p len) = snd (l4_pad b p len)"
proof -
  let ?b = "snd (l4_pad b p len)"
  have ev: "evens 4 = [0, 2]" by (simp add: evens_def upt_rec)
  have addrs: "half_sum ?b (p + 26) 4 = half_at ?b (p + 26) + half_at ?b (p + 28) + half_at ?b (p + 30) + half_at ?b (p + 32)"
    by (simp add: half_sum_def lessThan_nat_numeral lessThan_Suc)
  have "fst (tcp_compute_checksum b p len) = ucast (csum_not (csum_fold3 (of_nat (l4_total ?b p 6 len))))"
    unfolding tcp_compute_checksum_def Let_def split_beta fst_conv unat_corrected [OF assms] half_word ucast_half tcp_segment_loop ev
    by (simp add: l4_total_def addrs ac_simps)
  then show "unat (fst (tcp_compute_checksum b p len)) = 65535 - ones_rep (l4_total ?b p 6 len)"
    by (simp add: l4_checksum_value(1) [OF refl])
  show "snd (tcp_compute_checksum b p len) = ?b" by (simp add: tcp_compute_checksum_def Let_def split_beta)
qed

lemma tcp_store_checksums_final:
  assumes "unat len < 65535"
  shows "tcp_store_checksums tx len f = l4_final tx len 8 (fst (tcp_compute_checksum (ipv4_store_checksum f tx) tx len)) f"
  using tcp_compute_checksum_eq(2) [OF assms, of "ipv4_store_checksum f tx" tx]
  by (simp add: tcp_store_checksums_def ipv4_store_checksum_def store16_def l4_final_def l4_padded_def Let_def split_beta)

lemma unat_tcp_length: "unat len \<le> 65495 \<Longrightarrow> unat (len + 20 :: u16) = unat len + 20"
  by (simp add: unat_word_ariths)

lemma tcp_write_frame_ready:
  assumes "aligned4 tx" "unat len \<le> 65495" "f = tcp_write_frame conn flags dat len b" "tx = eth_tx_addr conn"
  shows "l4_ready tx (len + 20) 8 f"
  using assms(2) tcp_header_bytes [OF assms]
  by (simp add: l4_ready_def half_at_def byte_at_def unat_word_ariths)

text \<open>The frame \<open>tcp_send\<close> hands to the controller.\<close>

definition tcp_frame :: "tcp_connection \<Rightarrow> u16 \<Rightarrow> u8 list \<Rightarrow> u16 \<Rightarrow> buffer \<Rightarrow> buffer" where
  "tcp_frame conn flags dat len b =
     tcp_store_checksums (eth_tx_addr conn) (len + 20) (tcp_write_frame conn flags dat len b)"

lemma tcp_frame_byte:
  assumes "aligned4 (eth_tx_addr conn)" "unat len \<le> 65495" "unat j < 54 + unat len" "j \<noteq> 24" "j \<noteq> 25" "j \<noteq> 50" "j \<noteq> 51"
  shows "mem_iord_byte (tcp_frame conn flags dat len b) (eth_tx_addr conn + j) =
    mem_iord_byte (tcp_write_frame conn flags dat len b) (eth_tx_addr conn + j)"
proof -
  have "unat (len + 20) < 65535" using assms(2) by (simp add: unat_tcp_length)
  then show ?thesis
    using assms(3-) l4_final_byte [OF tcp_write_frame_ready [OF assms(1,2) refl refl, of flags dat b], of j]
    by (simp add: tcp_frame_def tcp_store_checksums_final unat_tcp_length [OF assms(2)])
qed

text \<open>The four bytes of a number, added up as in the accessors of the sequence numbers.\<close>

lemma word_of_bytes_add:
  "push_bit 24 (take_bit 8 (drop_bit 24 (w :: u32))) + push_bit 16 (take_bit 8 (drop_bit 16 w))
     + push_bit 8 (take_bit 8 (drop_bit 8 w)) + take_bit 8 w = w"
proof -
  let ?a = "push_bit 24 (take_bit 8 (drop_bit 24 w))" and ?b = "push_bit 16 (take_bit 8 (drop_bit 16 w))"
    and ?c = "push_bit 8 (take_bit 8 (drop_bit 8 w))" and ?d = "take_bit 8 w"
  have "?a + ?b = (?a OR ?b)" by (rule disjunctive_add) (auto simp: byte_bits)
  moreover have "(?a OR ?b) + ?c = (?a OR ?b OR ?c)" unfolding or.assoc [symmetric] by (rule disjunctive_add) (auto simp: byte_bits)
  moreover have "(?a OR ?b OR ?c) + ?d = (?a OR ?b OR ?c OR ?d)"
    unfolding or.assoc [symmetric] by (rule disjunctive_add) (auto simp: byte_bits)
  ultimately show ?thesis using word_of_bytes [of w] by simp
qed

lemma tcp_get_data_from_eq:
  assumes "unat (tcp_get_data_length b p) \<le> length dat" "i \<le> unat (tcp_get_data_length b p)"
  shows "tcp_get_data_from i b p dat = Inr (ucast (tcp_get_data_length b p),
    take i dat @ map (\<lambda>k. ucast (mem_iord_byte b (p + 34 + ucast (tcp_get_header_length b p) + of_nat k)))
      [i..<unat (tcp_get_data_length b p)] @ drop (unat (tcp_get_data_length b p)) dat)"
  using assms
proof (induction i b p dat rule: tcp_get_data_from.induct)
  case (1 i b p dat)
  show ?case
  proof (cases "i < unat (tcp_get_data_length b p)")
    case True
    then show ?thesis using 1
      by (simp add: tcp_get_data_from.simps [of i] upt_conv_Cons take_Suc_conv_app_nth)
  next
    case False
    then have "i = unat (tcp_get_data_length b p)" using "1.prems" by simp
    then show ?thesis using "1.prems" by (simp add: tcp_get_data_from.simps [of "unat (tcp_get_data_length b p)"])
  qed
qed

lemma tcp_get_data_from_overflow:
  assumes "length dat < unat (tcp_get_data_length b p)" "i \<le> length dat"
  shows "tcp_get_data_from i b p dat = Inl Out_of_bounds"
  using assms
  by (induction i b p dat rule: tcp_get_data_from.induct) (subst tcp_get_data_from.simps, auto)

section \<open>Properties of segments\<close>

lemmas tcp_frame_fields = tcp_get_source_port_def tcp_get_destination_port_def tcp_get_seqnum_def tcp_get_acknum_def
  tcp_get_header_length_def tcp_get_flags_def tcp_get_data_length_def

lemma tcp_frame_headers:
  assumes "aligned4 (eth_tx_addr conn)" "unat len \<le> 65495"
    and g: "g = tcp_frame conn flags dat len b" and tx: "tx = eth_tx_addr conn"
  shows "mac_packet_type g tx = TCP" "ipv4_get_length g tx = len + 40"
    "tcp_get_source_port g tx = srcport conn" "tcp_get_destination_port g tx = dstport conn"
    "tcp_get_seqnum g tx = seqNum conn" "tcp_get_acknum g tx = ackNum conn"
    "tcp_get_flags g tx = ucast flags" "tcp_get_header_length g tx = 20" "tcp_get_data_length g tx = len"
proof -
  have byte: "mem_iord_byte g (tx + j) = mem_iord_byte (tcp_write_frame conn flags dat len b) (tx + j)"
    if "unat j < 54" "j \<noteq> 24" "j \<noteq> 25" "j \<noteq> 50" "j \<noteq> 51" for j
    using tcp_frame_byte [OF assms(1,2), of j] that unfolding g tx by simp
  note hdr = byte tcp_header_bytes [OF assms(1,2) refl refl, of flags dat b, folded tx]
  show "mac_packet_type g tx = TCP" by (simp add: mac_packet_type_def hdr)
  show len: "ipv4_get_length g tx = len + 40" by (simp add: ipv4_get_length_eq hdr half_of_bytes)
  show "tcp_get_source_port g tx = srcport conn" "tcp_get_destination_port g tx = dstport conn"
    "tcp_get_seqnum g tx = seqNum conn" "tcp_get_acknum g tx = ackNum conn" "tcp_get_flags g tx = ucast flags"
    by (simp_all add: tcp_frame_fields hdr half_of_bytes word_of_bytes_add and_FF_take_bit)
  show hl: "tcp_get_header_length g tx = 20" by (simp add: tcp_frame_fields hdr)
  have "unat (ucast (40 + len) - 20 - 20 :: u32) = unat len"
    using assms(2) by (simp add: unat_sub_if_size unsigned_ucast_eq unat_word_ariths take_bit_nat_eq_self word_size)
  then have "unat (ucast (ucast (40 + len) - 20 - 20 :: u32) :: u16) = unat len"
    using unat_less_16 [of len] by (simp only: unsigned_ucast_eq) (simp add: take_bit_nat_eq_self)
  then have "(ucast (ucast (40 + len) - 20 - 20 :: u32) :: u16) = len" by (simp only: word_unat_eq_iff)
  then show "tcp_get_data_length g tx = len"
    by (simp add: tcp_get_data_length_def hl len add.commute [of len])
qed

lemma tcp_frame_data:
  assumes "aligned4 (eth_tx_addr conn)" "unat len \<le> 65495" "k < unat len"
  shows "mem_iord_byte (tcp_frame conn flags dat len b) (eth_tx_addr conn + 54 + of_nat k) = ucast (dat ! k)"
proof -
  have k: "k < 2 ^ 32" "unat len \<le> 2 ^ 32" using assms unat_less_16 [of len] by simp_all
  have "unat (54 + of_nat k :: u32) = 54 + k" using assms(2,3) by (simp add: unat_word_ariths unat_of_nat_u32)
  then have "unat (54 + of_nat k :: u32) < 54 + unat len" "54 + of_nat k \<notin> {24, 25, 50, 51 :: u32}"
    using assms(3) by (auto simp: word_unat_eq_iff)
  then have "mem_iord_byte (tcp_frame conn flags dat len b) (eth_tx_addr conn + (54 + of_nat k)) =
      mem_iord_byte (tcp_write_frame conn flags dat len b) (eth_tx_addr conn + (54 + of_nat k))"
    by (intro tcp_frame_byte [OF assms(1,2)]) auto
  then show ?thesis
    using assms(3) by (simp add: add.assoc)
      (simp add: tcp_write_frame_def Let_def eth0.rd_fill [OF k(2)] within_def unat_of_nat_u32 [OF k(1)] flip: add.assoc)
qed

text \<open>A segment built by \<open>tcp_send\<close> is read back by the accessors as it was meant: ports,
  sequence and acknowledgement number, flags, lengths and data.\<close>

theorem tcp_frame_roundtrip:
  assumes "aligned4 (eth_tx_addr conn)" "unat len \<le> 65495" "length dat = unat len" "length d = unat len"
  shows "let g = tcp_frame conn flags dat len b; tx = eth_tx_addr conn
    in mac_packet_type g tx = TCP \<and> tcp_get_source_port g tx = srcport conn \<and>
       tcp_get_destination_port g tx = dstport conn \<and> tcp_get_seqnum g tx = seqNum conn \<and>
       tcp_get_acknum g tx = ackNum conn \<and> tcp_get_flags g tx = ucast flags \<and>
       tcp_get_data_length g tx = len \<and> tcp_get_data g tx d n = Inr (ucast len, dat)"
proof -
  note hdr = tcp_frame_headers [OF assms(1,2) refl refl, of flags dat b]
  have "map (\<lambda>k. ucast (mem_iord_byte (tcp_frame conn flags dat len b) (eth_tx_addr conn + 54 + of_nat k))) [0..<unat len] = dat"
    using assms(3) tcp_frame_data [OF assms(1,2)] by (intro nth_equalityI) simp_all
  then show ?thesis
    using tcp_get_data_from_eq [of "tcp_frame conn flags dat len b" "eth_tx_addr conn" d 0] assms(4)
    by (simp add: Let_def hdr tcp_get_data_def)
qed

text \<open>Both checksums of a segment built by \<open>tcp_send\<close> are right: the IPv4 header verifies, and
  the one's complement sum over pseudo header and segment is the negative zero.\<close>

theorem tcp_frame_checksums_valid:
  assumes "aligned4 (eth_tx_addr conn)" "unat len \<le> 65495"
  shows "ipv4_verify_checksum (tcp_frame conn flags dat len b) (eth_tx_addr conn) = 1 \<and>
    0 < l4_total (tcp_frame conn flags dat len b) (eth_tx_addr conn) 6 (len + 20) \<and>
    65535 dvd l4_total (tcp_frame conn flags dat len b) (eth_tx_addr conn) 6 (len + 20)"
proof -
  note ready = tcp_write_frame_ready [OF assms refl refl, of flags dat b]
  have lt: "unat (len + 20) < 65535" using assms(2) by (simp add: unat_tcp_length)
  have "unat (fst (tcp_compute_checksum (ipv4_store_checksum (tcp_write_frame conn flags dat len b) (eth_tx_addr conn))
      (eth_tx_addr conn) (len + 20))) =
      65535 - ones_rep (l4_total (l4_padded (eth_tx_addr conn) (len + 20) (tcp_write_frame conn flags dat len b)) (eth_tx_addr conn) 6 (len + 20))"
    using tcp_compute_checksum_eq(1) [OF lt] by (simp add: l4_padded_def)
  from l4_final_verifies(1) [OF ready this] show ?thesis
    unfolding tcp_frame_def tcp_store_checksums_final [OF lt] by (simp add: l4_final_ip_verifies [OF ready])
qed

text \<open>C21: \<open>tcp_get_data\<close> does not look at the size of the array it is given: it leaves the array
  exactly when the segment carries more data than the array holds, whatever size was passed.\<close>

theorem tcp_get_data_overflow_iff:
  "tcp_get_data b p dat bufsize = Inl Out_of_bounds \<longleftrightarrow> length dat < unat (tcp_get_data_length b p)"
proof (cases "length dat < unat (tcp_get_data_length b p)")
  case True
  then show ?thesis by (simp add: tcp_get_data_def tcp_get_data_from_overflow)
next
  case False
  then show ?thesis by (simp add: tcp_get_data_def tcp_get_data_from_eq)
qed

text \<open>A connection between 192.168.24.50 and 10.0.0.2.\<close>

definition demo_conn :: tcp_connection where
  "demo_conn = \<lparr>eth_tx_addr = 0x800, eth_rx_addr = 0x100, dstMAC = [2, 0, 0, 0, 0, 2], srcMAC = my_mac_init,
     srcIP = my_ip_init, dstIP = [10, 0, 0, 2], srcport = 4000, dstport = 80, seqNum = 0x12345678, ackNum = 0,
     status = CLOSED, conn_ipv4_id = 0x1111, send_buffer = [48, 48], send_buffer_size = 2, recv_buffer = [48, 48],
     recv_buffer_size = 2\<rparr>"

theorem tcp_frame_roundtrip_witness:
  "tcp_get_data (tcp_frame demo_conn 0x18 [104, 105] 2 (\<lambda>_. 0)) 0x800 [0, 0] 2 = Inr (2, [104, 105])"
  using tcp_frame_roundtrip [of demo_conn 2 "[104, 105]" "[0, 0]" "0x18" "\<lambda>_. 0" 2]
  by (simp add: demo_conn_def aligned4_def Let_def)

theorem tcp_frame_checksums_valid_witness:
  "65535 dvd l4_total (tcp_frame demo_conn 0x18 [104] 1 (\<lambda>_. 0)) 0x800 6 21"
  using tcp_frame_checksums_valid [of demo_conn 1 "0x18" "[104]" "\<lambda>_. 0"]
  by (simp add: demo_conn_def aligned4_def)

section \<open>The state machine\<close>

text \<open>
  The abstract machine: the next state, the flags of the answer and the result, as functions of the state
  and of the flags of a received segment.
\<close>

fun tcp_next :: "tcpstate \<Rightarrow> u8 \<Rightarrow> tcpstate" where
  "tcp_next CLOSED f = CLOSED"
| "tcp_next LISTEN f = (if f AND SYN = SYN then SYN_RCVD else LISTEN)"
| "tcp_next SYN_SENT f = (if f = SYN OR ACK then ESTABLISHED else if f = SYN then SYN_RCVD else CLOSED)"
| "tcp_next SYN_RCVD f = (if f AND ACK = ACK then ESTABLISHED else SYN_RCVD)"
| "tcp_next ESTABLISHED f = (if f = FIN then CLOSE_WAIT else ESTABLISHED)"
| "tcp_next FIN_WAIT_1 f = (if f = FIN OR ACK then TIME_WAIT else if f = FIN then CLOSING else if f = ACK then FIN_WAIT_2 else FIN_WAIT_1)"
| "tcp_next FIN_WAIT_2 f = (if f AND FIN = FIN then CLOSING else FIN_WAIT_2)"
| "tcp_next CLOSE_WAIT f = LAST_ACK"
| "tcp_next CLOSING f = (if f = ACK then TIME_WAIT else CLOSING)"
| "tcp_next TIME_WAIT f = CLOSED"
| "tcp_next LAST_ACK f = (if f = ACK then CLOSED else LAST_ACK)"

fun tcp_answer :: "tcpstate \<Rightarrow> u8 \<Rightarrow> u16 option" where
  "tcp_answer CLOSED f = Some (RST OR ACK)"
| "tcp_answer LISTEN f = (if f AND SYN = SYN then Some (SYN OR ACK) else None)"
| "tcp_answer SYN_SENT f = (if f = SYN OR ACK then Some ACK else if f = SYN then Some (SYN OR ACK)
     else if f = RST OR ACK then None else Some RST)"
| "tcp_answer ESTABLISHED f = Some ACK"
| "tcp_answer FIN_WAIT_1 f = (if f = FIN OR ACK \<or> f = FIN \<or> f = ACK then Some ACK else None)"
| "tcp_answer FIN_WAIT_2 f = (if f AND FIN = FIN then Some ACK else None)"
| "tcp_answer _ f = None"

fun tcp_resolved :: "tcpstate \<Rightarrow> u8 \<Rightarrow> u8" where
  "tcp_resolved CLOSED f = 1"
| "tcp_resolved SYN_SENT f = (if f = SYN OR ACK then 1 else 0)"
| "tcp_resolved SYN_RCVD f = (if f AND ACK = ACK then 1 else 0)"
| "tcp_resolved ESTABLISHED f = (if f = FIN then 0 else 1)"
| "tcp_resolved TIME_WAIT f = 1"
| "tcp_resolved LAST_ACK f = (if f = ACK then 1 else 0)"
| "tcp_resolved _ f = 0"

text \<open>The sequence numbers the answer carries: only the second segment of a handshake sets them.\<close>

definition tcp_sync :: "tcp_connection \<Rightarrow> buffer \<Rightarrow> tcp_connection" where
  "tcp_sync conn b =
     (if status conn = SYN_SENT \<and> tcp_get_flags b (eth_rx_addr conn) = SYN OR ACK
      then conn\<lparr>seqNum := tcp_get_acknum b (eth_rx_addr conn), ackNum := tcp_get_seqnum b (eth_rx_addr conn) + 1\<rparr>
      else conn)"

lemma tcp_frame_status [simp]: "tcp_frame (conn\<lparr>status := st\<rparr>) flags dat len b = tcp_frame conn flags dat len b"
  by (simp add: tcp_frame_def tcp_write_frame_def Let_def)

lemma tcp_send_eq:
  "tcp_send E conn flags dat len s =
     eth_mac_send_nb E (eth_tx_addr conn) (ucast (len + 20 + 20 + 14)) (s\<lparr>buff := tcp_frame conn flags dat len (buff s)\<rparr>)"
  by (simp add: tcp_send_def tcp_frame_def Let_def)

lemma tcp_send_status [simp]: "tcp_send E (conn\<lparr>status := st\<rparr>) flags dat len s = tcp_send E conn flags dat len s"
  by (simp add: tcp_send_eq)

lemma fst_tcp_send [simp]: "fst (tcp_send E conn flags dat len s) = 1"
  by (simp add: tcp_send_eq send_nb_effect)

lemma tcp_handle_answer:
  "tcp_get_destination_port (buff s) (eth_rx_addr conn) = srcport conn \<Longrightarrow>
   tcp_handle E conn s =
     (let f = tcp_get_flags (buff s) (eth_rx_addr conn)
      in (tcp_resolved (status conn) f, (tcp_sync conn (buff s))\<lparr>status := tcp_next (status conn) f\<rparr>,
          case tcp_answer (status conn) f of None \<Rightarrow> s
          | Some g \<Rightarrow> snd (tcp_send E (tcp_sync conn (buff s)) g zero_char 0 s)))"
  by (cases "status conn") (simp_all add: tcp_handle_def tcp_sync_def Let_def split_beta)

lemma tcp_handle_eq:
  "tcp_get_destination_port (buff s) (eth_rx_addr conn) = srcport conn \<Longrightarrow>
   snd (tcp_handle E conn s) =
     (let f = tcp_get_flags (buff s) (eth_rx_addr conn)
      in ((tcp_sync conn (buff s))\<lparr>status := tcp_next (status conn) f\<rparr>,
          case tcp_answer (status conn) f of None \<Rightarrow> s
          | Some g \<Rightarrow> snd (tcp_send E (tcp_sync conn (buff s)) g zero_char 0 s)))"
  by (simp add: tcp_handle_answer Let_def)

lemma tcp_handle_other:
  "tcp_get_destination_port (buff s) (eth_rx_addr conn) \<noteq> srcport conn \<Longrightarrow> tcp_handle E conn s = (1, conn, s)"
  by (simp add: tcp_handle_def Let_def)

lemma tcp_sync_keeps [simp]:
  "eth_tx_addr (tcp_sync conn b) = eth_tx_addr conn" "srcport (tcp_sync conn b) = srcport conn"
  "dstport (tcp_sync conn b) = dstport conn"
  by (simp_all add: tcp_sync_def)

lemma tcp_frame_ip_verifies:
  assumes "aligned4 (eth_tx_addr conn)" "unat len \<le> 65495"
  shows "ipv4_verify_checksum (tcp_frame conn flags dat len b) (eth_tx_addr conn) = 1"
proof -
  have "unat (len + 20) < 65535" using assms(2) by (simp add: unat_tcp_length)
  then show ?thesis
    by (simp add: tcp_frame_def tcp_store_checksums_final l4_final_ip_verifies [OF tcp_write_frame_ready [OF assms refl refl]])
qed

text \<open>C6: \<open>tcp_handle\<close> implements the abstract machine, result and machine state included.  For a segment
  for the port of the connection it returns \<open>tcp_resolved\<close>, the new state is \<open>tcp_next\<close>, sequence numbers
  change only in the second step of a handshake, and the machine is as it was if there is no answer;
  an answer is one call of the non-blocking transmission with the 54 bytes of one frame.  Read back
  from the transmit buffer, this frame is a TCP segment without data, with the flags of \<open>tcp_answer\<close>,
  the ports and the (new) sequence numbers of the connection and a valid header checksum.  A segment
  for another port changes nothing.\<close>

theorem tcp_handle_refines:
  fixes s :: "'a machine_scheme"
  assumes "aligned4 (eth_tx_addr conn)"
  shows "let f = tcp_get_flags (buff s) (eth_rx_addr conn); c = tcp_sync conn (buff s); tx = eth_tx_addr conn;
     frame = (\<lambda>g. tcp_frame c g [48] 0 (buff s))
   in tcp_handle E conn s =
        (if tcp_get_destination_port (buff s) (eth_rx_addr conn) = srcport conn
         then (tcp_resolved (status conn) f, c\<lparr>status := tcp_next (status conn) f\<rparr>,
               case tcp_answer (status conn) f of None \<Rightarrow> s
               | Some g \<Rightarrow> snd (eth_mac_send_nb E tx 54 (s\<lparr>buff := frame g\<rparr>)))
         else (1, conn, s)) \<and>
      (\<forall>g. tcp_answer (status conn) f = Some g \<longrightarrow>
         mac_packet_type (frame g) tx = TCP \<and> tcp_get_flags (frame g) tx = ucast g \<and>
         tcp_get_source_port (frame g) tx = srcport conn \<and> tcp_get_destination_port (frame g) tx = dstport conn \<and>
         tcp_get_seqnum (frame g) tx = seqNum c \<and> tcp_get_acknum (frame g) tx = ackNum c \<and>
         tcp_get_data_length (frame g) tx = 0 \<and> ipv4_verify_checksum (frame g) tx = 1)"
proof -
  let ?c = "tcp_sync conn (buff s)"
  have al: "aligned4 (eth_tx_addr ?c)" using assms by simp
  note hdr = tcp_frame_headers [OF al _ refl refl, of 0 _ "[48]" "buff s", simplified]
    and sum = tcp_frame_ip_verifies [OF al, of 0 _ "[48]" "buff s", simplified]
  show ?thesis
    using tcp_handle_answer [of s conn E] tcp_handle_other [of s conn E]
    by (auto simp: Let_def tcp_send_eq hdr sum split: option.splits)
qed

section \<open>Histories of a connection\<close>

text \<open>The flags of the segment that \<open>tcp_await\<close> handles, if it handles one.\<close>

definition tcp_seen :: "env \<Rightarrow> tcp_connection \<Rightarrow> 'a machine_scheme \<Rightarrow> u8 list" where
  "tcp_seen E conn s =
     (case eth_mac_receive E (eth_rx_addr conn) 1 s of
        None \<Rightarrow> []
      | Some (r, s) \<Rightarrow>
          if r \<noteq> 0 \<and> mac_packet_type (buff s) (eth_rx_addr conn) = TCP \<and>
             tcp_get_destination_port (buff s) (eth_rx_addr conn) = srcport conn
          then [tcp_get_flags (buff s) (eth_rx_addr conn)] else [])"

text \<open>
  A connection that started as \<open>c0\<close> and has gone through calls of the interface, in any order, with
  anything else happening on the machine in between; the history holds the flags of the segments
  handled, the last one first.
\<close>

inductive tcp_history :: "env \<Rightarrow> tcp_connection \<Rightarrow> u8 list \<Rightarrow> tcp_connection \<Rightarrow> 'a machine_scheme \<Rightarrow> bool"
  for E :: env and c0 :: tcp_connection where
  start: "tcp_history E c0 [] c0 s"
| elsewhere: "tcp_history E c0 h c s \<Longrightarrow> tcp_history E c0 h c s'"
| connect: "tcp_history E c0 h c s \<Longrightarrow> tcp_connect E c s = Some (r, c', s') \<Longrightarrow>
    tcp_history E c0 (tcp_seen E (c\<lparr>status := SYN_SENT\<rparr>) (snd (tcp_send E c SYN zero_char 1 s)) @ h) c' s'"
| listen: "tcp_history E c0 h c s \<Longrightarrow> tcp_listen E c s = Some (r, c', s') \<Longrightarrow>
    tcp_history E c0 (tcp_seen E (c\<lparr>status := LISTEN\<rparr>) (snd (tcp_send E c SYN zero_char 1 s)) @ h) c' s'"
| close: "tcp_history E c0 h c s \<Longrightarrow> tcp_close E c s = Some (r, c', s') \<Longrightarrow>
    tcp_history E c0 ((if status c \<in> {SYN_RCVD, ESTABLISHED, CLOSE_WAIT} then tcp_seen E c (snd (tcp_send E c FIN zero_char 0 s))
      else if status c \<in> {FIN_WAIT_1, FIN_WAIT_2, CLOSING, LAST_ACK} then tcp_seen E c s else []) @ h) c' s'"
| handle: "tcp_history E c0 h c s \<Longrightarrow> tcp_handle E c s = (r, c', s') \<Longrightarrow>
    tcp_history E c0 ((if tcp_get_destination_port (buff s) (eth_rx_addr c) = srcport c
      then [tcp_get_flags (buff s) (eth_rx_addr c)] else []) @ h) c' s'"
| recv: "tcp_history E c0 h c s \<Longrightarrow> tcp_recv E c s = Some (Inr (r, c', s')) \<Longrightarrow> tcp_history E c0 h c' s'"

inductive_cases tcp_history_elim: "tcp_history E c0 h c s"

lemma tcp_seen_status [simp]: "tcp_seen E (c\<lparr>status := st\<rparr>) s = tcp_seen E c s"
  by (simp add: tcp_seen_def split: option.splits)

text \<open>The parts of a connection no call changes.\<close>

definition tcp_identity :: "tcp_connection \<Rightarrow> u32 \<times> u32 \<times> u8 list \<times> u8 list \<times> u8 list \<times> u8 list \<times> u16 \<times> u16" where
  "tcp_identity c = (eth_tx_addr c, eth_rx_addr c, dstMAC c, srcMAC c, srcIP c, dstIP c, srcport c, dstport c)"

lemma tcp_identity_simps [simp]:
  "tcp_identity (c\<lparr>status := st\<rparr>) = tcp_identity c" "tcp_identity (tcp_sync c b) = tcp_identity c"
  "tcp_identity (c\<lparr>recv_buffer := d, recv_buffer_size := n\<rparr>) = tcp_identity c"
  by (simp_all add: tcp_identity_def tcp_sync_def)

lemma tcp_handle_step:
  assumes "tcp_handle E c s = (r, c', s')"
  shows "tcp_identity c' = tcp_identity c \<and>
    status c' = (if tcp_get_destination_port (buff s) (eth_rx_addr c) = srcport c
                 then tcp_next (status c) (tcp_get_flags (buff s) (eth_rx_addr c)) else status c)"
  using assms tcp_handle_eq [of s c E] tcp_handle_other [of s c E]
  by (cases "tcp_get_destination_port (buff s) (eth_rx_addr c) = srcport c") (auto simp: Let_def)

lemma tcp_await_step:
  assumes "tcp_await E c s = Some (r, c', s')"
  shows "tcp_identity c' = tcp_identity c \<and>
    (tcp_seen E c s = [] \<and> status c' = status c \<or> (\<exists>f. tcp_seen E c s = [f] \<and> status c' = tcp_next (status c) f))"
  using assms
  by (auto simp: tcp_await_def tcp_seen_def split: option.splits if_splits dest!: tcp_handle_step)

text \<open>Establishment needs an acknowledgement: the invariant behind it.\<close>

definition acked :: "u8 list \<Rightarrow> bool" where
  "acked h \<longleftrightarrow> list_ex (\<lambda>f. f AND ACK = ACK) h"

lemma acked_append [simp]: "acked (h @ h') \<longleftrightarrow> acked h \<or> acked h'"
  by (auto simp: acked_def)

lemma tcp_next_needs_ack:
  assumes "tcp_next st f \<in> {ESTABLISHED, CLOSE_WAIT}"
  shows "st \<in> {ESTABLISHED, CLOSE_WAIT} \<or> acked [f]"
  using assms by (cases st) (auto simp: acked_def split: if_splits)

lemma tcp_await_needs_ack:
  assumes "tcp_await E c s = Some (r, c', s')" "status c' \<in> {ESTABLISHED, CLOSE_WAIT}"
    and "status c \<in> {ESTABLISHED, CLOSE_WAIT} \<longrightarrow> acked h"
  shows "acked (tcp_seen E c s @ h)"
  using tcp_await_step [OF assms(1)] assms(2,3) tcp_next_needs_ack [of "status c"] by auto

lemma tcp_history_inv:
  "tcp_history E c0 h c s \<Longrightarrow> status c0 = CLOSED \<Longrightarrow>
   tcp_identity c = tcp_identity c0 \<and> (status c \<in> {ESTABLISHED, CLOSE_WAIT} \<longrightarrow> acked h)"
proof (induction rule: tcp_history.induct)
  case (connect h c s r c' s')
  let ?c = "c\<lparr>status := SYN_SENT\<rparr>" and ?s = "snd (tcp_send E c SYN zero_char 1 s)"
  have a: "tcp_await E ?c ?s = Some (r, c', s')"
    using connect.hyps(2) by (simp add: tcp_connect_def split_beta)
  show ?case
    using connect.IH connect.prems tcp_await_step [OF a] tcp_await_needs_ack [OF a, of h] by auto
next
  case (listen h c s r c' s')
  let ?c = "c\<lparr>status := LISTEN\<rparr>" and ?s = "snd (tcp_send E c SYN zero_char 1 s)"
  have a: "tcp_await E ?c ?s = Some (r, c', s')"
    using listen.hyps(2) by (simp add: tcp_listen_def split_beta)
  show ?case
    using listen.IH listen.prems tcp_await_step [OF a] tcp_await_needs_ack [OF a, of h] by auto
next
  case (close h c s r c' s')
  let ?s = "snd (tcp_send E c FIN zero_char 0 s)"
  consider
      (by_us) "status c \<in> {SYN_RCVD, ESTABLISHED}" "tcp_await E (c\<lparr>status := FIN_WAIT_1\<rparr>) ?s = Some (r, c', s')"
    | (by_peer) "status c = CLOSE_WAIT" "tcp_await E (c\<lparr>status := LAST_ACK\<rparr>) ?s = Some (r, c', s')"
    | (pending) "status c \<in> {FIN_WAIT_1, FIN_WAIT_2, CLOSING, LAST_ACK}" "tcp_await E c s = Some (r, c', s')"
    | (gone) "status c \<in> {TIME_WAIT, CLOSED, LISTEN, SYN_SENT}" "c' = c\<lparr>status := CLOSED\<rparr>"
    using close.hyps(2) by (cases "status c") (auto simp: tcp_close_def split_beta)
  then show ?case
  proof cases
    case by_us
    then show ?thesis
      using close.IH close.prems tcp_await_step [OF by_us(2)] tcp_await_needs_ack [OF by_us(2), of h] by auto
  next
    case by_peer
    then show ?thesis
      using close.IH close.prems tcp_await_step [OF by_peer(2)] tcp_await_needs_ack [OF by_peer(2), of h] by auto
  next
    case pending
    then show ?thesis
      using close.IH close.prems tcp_await_step [OF pending(2)] tcp_await_needs_ack [OF pending(2), of h] by auto
  next
    case gone
    then show ?thesis using close.IH close.prems by auto
  qed
next
  case (handle h c s r c' s')
  then show ?case
    using tcp_handle_step [OF handle.hyps(2)] tcp_next_needs_ack [of "status c" "tcp_get_flags (buff s) (eth_rx_addr c)"]
    by (auto split: if_splits)
next
  case (recv h c s r c' s')
  then show ?case
    by (auto simp: tcp_recv_def Let_def split_beta split: option.splits if_splits sum.splits)
qed auto

text \<open>C22: no connection is established without the peer: in whatever order the interface is called, a
  connection that is \<open>ESTABLISHED\<close> (or has been half-closed by the peer, \<open>CLOSE_WAIT\<close>) has handled
  a segment with the \<open>ACK\<close> flag.  Addresses and ports of a connection never change.\<close>

theorem tcp_established_acknowledged:
  assumes "tcp_history E c0 h c s" "status c0 = CLOSED"
  shows "tcp_identity c = tcp_identity c0 \<and>
    (status c \<in> {ESTABLISHED, CLOSE_WAIT} \<longrightarrow> (\<exists>f \<in> set h. f AND 0x10 = 0x10))"
  using tcp_history_inv [OF assms] by (auto simp: acked_def list_ex_iff)

text \<open>A controller that has always received a segment with \<open>SYN\<close> and \<open>ACK\<close> for port 4000.\<close>

definition synack_buffer :: buffer where
  "synack_buffer = (\<lambda>_. 0)(0x10C := 0x08004500, 0x114 := 0x00000006, 0x124 := 0x0FA00000, 0x12C := 0x00000012)"

definition synack_env :: env where
  "synack_env = regfile_env\<lparr>eth_val := \<lambda>_ _. 4, dma := \<lambda>_ _. synack_buffer\<rparr>"

lemma synack_fields:
  "mac_packet_type synack_buffer 0x100 = TCP" "tcp_get_destination_port synack_buffer 0x100 = 4000"
  "tcp_get_flags synack_buffer 0x100 = 0x12"
  by (simp_all add: synack_buffer_def mac_packet_type_def tcp_get_destination_port_def tcp_get_flags_def mem_iord_byte_lane)

theorem tcp_handle_refines_witness:
  "let s = start_machine\<lparr>buff := synack_buffer\<rparr>; conn = demo_conn\<lparr>status := SYN_SENT\<rparr>;
       frame = tcp_frame (tcp_sync conn synack_buffer) ACK [48] 0 synack_buffer
   in tcp_handle regfile_env conn s = (1, (tcp_sync conn synack_buffer)\<lparr>status := ESTABLISHED\<rparr>,
        snd (eth_mac_send_nb regfile_env 0x800 54 (s\<lparr>buff := frame\<rparr>))) \<and>
      tcp_get_flags frame 0x800 = 0x10 \<and> tcp_get_destination_port frame 0x800 = 80"
proof -
  let ?s = "start_machine\<lparr>buff := synack_buffer\<rparr>" and ?conn = "demo_conn\<lparr>status := SYN_SENT\<rparr>"
  have conn: "eth_tx_addr demo_conn = 0x800" "eth_rx_addr demo_conn = 0x100" "srcport demo_conn = 4000" "dstport demo_conn = 80"
    by (simp_all add: demo_conn_def)
  have "aligned4 (eth_tx_addr ?conn)" by (simp add: conn aligned4_def)
  from tcp_handle_refines [OF this, of ?s regfile_env] show ?thesis
    by (simp add: Let_def conn synack_fields)
qed

lemma synack_receive: "\<exists>m'. eth_mac_receive synack_env 0x100 1 m = Some (1, m') \<and> buff m' = synack_buffer"
proof -
  have "rx_frame synack_env (rx_start synack_env 0x100 m)"
    by (simp add: rx_frame_def int_source_def synack_env_def regfile_env_def)
  moreover have "buff (rx_release synack_env m) = synack_buffer" for m :: "'a machine_scheme"
    by (simp add: rx_release_def Let_def split_beta eth_iowr_def io_step_def synack_env_def)
  ultimately show ?thesis
    by (simp add: eth_mac_receive_timed) (subst rx_timed.round, auto)
qed

theorem tcp_established_acknowledged_witness:
  "\<exists>h c s. tcp_history synack_env demo_conn h c (s :: machine) \<and> status c = ESTABLISHED \<and> (\<exists>f \<in> set h. f AND 0x10 = 0x10)"
proof -
  let ?s = "snd (tcp_send synack_env demo_conn SYN zero_char 1 start_machine)"
  have conn: "eth_rx_addr demo_conn = 0x100" "srcport demo_conn = 4000" "status demo_conn = CLOSED" by (simp_all add: demo_conn_def)
  obtain m' :: machine where m': "eth_mac_receive synack_env 0x100 1 ?s = Some (1, m')" "buff m' = synack_buffer"
    using synack_receive by blast
  obtain r c s where h: "tcp_handle synack_env (demo_conn\<lparr>status := SYN_SENT\<rparr>) m' = (r, c, s)" by (metis prod_cases3)
  have st: "status c = ESTABLISHED"
    using tcp_handle_step [OF h] by (simp add: m' conn synack_fields)
  have "tcp_connect synack_env demo_conn start_machine = Some (r, c, s)"
    by (simp add: tcp_connect_def split_beta tcp_await_def conn m' synack_fields h)
  from tcp_history.connect [OF tcp_history.start this]
  obtain h where hist: "tcp_history synack_env demo_conn h c s" by blast
  with tcp_established_acknowledged [OF hist conn(3)] st show ?thesis by blast
qed

text \<open>A non-blocking transmission of \<open>n\<close> bytes from \<open>tx\<close>, as the controller sees it.\<close>

definition nb_sent :: "env \<Rightarrow> u32 \<Rightarrow> u32 \<Rightarrow> 'a machine_scheme \<Rightarrow> 'a machine_scheme \<Rightarrow> bool" where
  "nb_sent E tx n s s' \<longleftrightarrow>
     trace s' = [EthWr 0x400 0xF000, EthWr 4 1, EthWr 0x400 (push_bit 16 n OR 0xF000), EthWr 0x404 tx,
                 EthRd 0x400 (eth_val E (trace s) 0x400)] @ trace s"

text \<open>What a call of \<open>tcp_send\<close> leaves: the accesses, and the frame in the transmit area.\<close>

lemma tcp_send_leaves:
  assumes "keeps_area E (eth_tx_addr c) (54 + unat len)" "unat len \<le> 65495"
    and "tcp_send E c flags dat len s = (r, s')"
  shows "r = 1" "nb_sent E (eth_tx_addr c) (ucast (len + 54)) s s'"
    "same_frame (54 + unat len) (buff s') (eth_tx_addr c) (tcp_frame c flags dat len (buff s)) (eth_tx_addr c)"
proof -
  have s': "(r, s') = eth_mac_send_nb E (eth_tx_addr c) (ucast (len + 54)) (s\<lparr>buff := tcp_frame c flags dat len (buff s)\<rparr>)"
    using assms(3) by (simp add: tcp_send_eq add.assoc)
  show "r = 1" "nb_sent E (eth_tx_addr c) (ucast (len + 54)) s s'"
    using send_nb_effect [of E "eth_tx_addr c" "ucast (len + 54)" "s\<lparr>buff := tcp_frame c flags dat len (buff s)\<rparr>"]
    unfolding s' [symmetric] nb_sent_def by simp_all
  have "54 + unat len \<le> 2 ^ 32" using assms(2) by simp
  from area_send_nb [OF assms(1) this, of "eth_tx_addr c" "ucast (len + 54)" "s\<lparr>buff := tcp_frame c flags dat len (buff s)\<rparr>"]
  show "same_frame (54 + unat len) (buff s') (eth_tx_addr c) (tcp_frame c flags dat len (buff s)) (eth_tx_addr c)"
    unfolding s' [symmetric] by simp
qed

text \<open>The fields of a segment are those of the connection that sent it, wherever the same bytes are read.\<close>

lemma tcp_received_fields:
  assumes "aligned4 (eth_tx_addr c)" "unat len \<le> 65495"
    and "same_frame (54 + unat len) b p (tcp_frame c flags dat len b0) (eth_tx_addr c)"
  shows "tcp_get_destination_port b p = dstport c" "tcp_get_flags b p = ucast flags"
    "tcp_get_seqnum b p = seqNum c" "tcp_get_acknum b p = ackNum c"
  using tcp_frame_headers [OF assms(1,2) refl refl, of flags dat b0]
  by (simp_all add: tcp_frame_fields same_frame_byte [OF assms(3)])

text \<open>A handled segment that is answered: the answer is in the transmit area and has been handed over.\<close>

lemma tcp_handle_leaves:
  assumes "keeps_area E (eth_tx_addr c) 54" "tcp_handle E c s = (r, c', s')"
    and "tcp_get_destination_port (buff s) (eth_rx_addr c) = srcport c"
    and "tcp_answer (status c) (tcp_get_flags (buff s) (eth_rx_addr c)) = Some g"
  shows "nb_sent E (eth_tx_addr c) 54 s s'"
    "same_frame 54 (buff s') (eth_tx_addr c) (tcp_frame (tcp_sync c (buff s)) g zero_char 0 (buff s)) (eth_tx_addr c)"
proof -
  have "tcp_send E (tcp_sync c (buff s)) g zero_char 0 s = (1, s')"
    using assms(2-4) tcp_handle_eq [of s c E] by (simp add: Let_def prod_eq_iff)
  from tcp_send_leaves(2,3) [OF _ _ this] assms(1) show "nb_sent E (eth_tx_addr c) 54 s s'"
    "same_frame 54 (buff s') (eth_tx_addr c) (tcp_frame (tcp_sync c (buff s)) g zero_char 0 (buff s)) (eth_tx_addr c)"
    by simp_all
qed

text \<open>C23: the handshake between two connections of this stack, as one run.  The client \<open>a\<close> sends its
  \<open>SYN\<close> as \<open>tcp_connect\<close> does; what the listening server \<open>b\<close> handles is what the client left in its transmit area,
  what the client handles is what the server's handler left there, and so on; the controllers write
  received frames elsewhere.  Then each of the three segments has been handed to the controller with
  its length, they carry \<open>SYN\<close>, \<open>SYN\<close> and \<open>ACK\<close>, and \<open>ACK\<close>, and both ends are \<open>ESTABLISHED\<close> with the
  results 0, 1 and 1; the last segment is not answered.  The client goes on with the acknowledgement
  number of the server, which the server has not derived from the client's sequence number.\<close>

theorem tcp_handshake:
  assumes al: "aligned4 (eth_tx_addr a)" "aligned4 (eth_tx_addr b)" and listening: "status b = LISTEN"
    and ports: "dstport a = srcport b" "dstport b = srcport a"
    and controllers: "keeps_area EA (eth_tx_addr a) 55" "keeps_area EB (eth_tx_addr b) 54"
    and client: "tcp_send EA a SYN [48] 1 sA = (r, sA1)"
    and syn: "same_frame 55 (buff sB) (eth_rx_addr b) (buff sA1) (eth_tx_addr a)"
    and server: "tcp_handle EB b sB = (rB, b1, sB1)"
    and synack: "same_frame 54 (buff sA2) (eth_rx_addr a) (buff sB1) (eth_tx_addr b)"
    and client2: "tcp_handle EA (a\<lparr>status := SYN_SENT\<rparr>) sA2 = (rA, a1, sA3)"
    and ack: "same_frame 54 (buff sB2) (eth_rx_addr b) (buff sA3) (eth_tx_addr a)"
    and server2: "tcp_handle EB b1 sB2 = (rB2, b2, sB3)"
  shows "nb_sent EA (eth_tx_addr a) 55 sA sA1 \<and> tcp_get_flags (buff sA1) (eth_tx_addr a) = SYN \<and>
    rB = 0 \<and> b1 = b\<lparr>status := SYN_RCVD\<rparr> \<and>
    nb_sent EB (eth_tx_addr b) 54 sB sB1 \<and> tcp_get_flags (buff sB1) (eth_tx_addr b) = SYN OR ACK \<and>
    rA = 1 \<and> a1 = a\<lparr>seqNum := ackNum b, ackNum := seqNum b + 1, status := ESTABLISHED\<rparr> \<and>
    nb_sent EA (eth_tx_addr a) 54 sA2 sA3 \<and> tcp_get_flags (buff sA3) (eth_tx_addr a) = ACK \<and>
    rB2 = 1 \<and> b2 = b\<lparr>status := ESTABLISHED\<rparr> \<and> sB3 = sB2"
proof -
  let ?a = "a\<lparr>status := SYN_SENT\<rparr>"
  have kept: "keeps_area EA (eth_tx_addr a) 54" using controllers(1) by (simp add: keeps_area_def)
  note s1 = tcp_send_leaves [OF _ _ client, simplified, OF controllers(1)]
  note f1 = tcp_received_fields [OF al(1), of 1, simplified, OF s1(3)]
    tcp_received_fields [OF al(1), of 1, simplified, OF same_frame_trans [OF syn s1(3)]]
  have b1: "rB = 0" "b1 = b\<lparr>status := SYN_RCVD\<rparr>"
    using server tcp_handle_answer [of sB b EB] f1 ports listening by (simp_all add: Let_def tcp_sync_def)
  note s2 = tcp_handle_leaves [OF controllers(2) server, of "SYN OR ACK"]
  have same2: "tcp_sync b (buff sB) = b" using listening by (simp add: tcp_sync_def)
  have sent2: "nb_sent EB (eth_tx_addr b) 54 sB sB1"
    "same_frame 54 (buff sB1) (eth_tx_addr b) (tcp_frame b (SYN OR ACK) zero_char 0 (buff sB)) (eth_tx_addr b)"
    using s2 f1 ports listening same2 by simp_all
  note f2 = tcp_received_fields [OF al(2), of 0, simplified, OF sent2(2)]
    tcp_received_fields [OF al(2), of 0, simplified, OF same_frame_trans [OF synack sent2(2)]]
  have sync: "tcp_sync ?a (buff sA2) = ?a\<lparr>seqNum := ackNum b, ackNum := seqNum b + 1\<rparr>"
    using f2 by (simp add: tcp_sync_def)
  have a1: "rA = 1" "a1 = a\<lparr>seqNum := ackNum b, ackNum := seqNum b + 1, status := ESTABLISHED\<rparr>"
    using client2 tcp_handle_answer [of sA2 ?a EA] f2 ports sync by (simp_all add: Let_def)
  have sent3: "nb_sent EA (eth_tx_addr a) 54 sA2 sA3"
    "same_frame 54 (buff sA3) (eth_tx_addr a) (tcp_frame (tcp_sync ?a (buff sA2)) ACK zero_char 0 (buff sA2)) (eth_tx_addr a)"
    using tcp_handle_leaves [OF _ client2, of ACK] kept f2 ports by simp_all
  have al3: "aligned4 (eth_tx_addr (tcp_sync ?a (buff sA2)))" using al(1) by simp
  note f3 = tcp_received_fields [OF al3, of 0, simplified, OF sent3(2)]
    tcp_received_fields [OF al3, of 0, simplified, OF same_frame_trans [OF ack sent3(2)]]
  have "rB2 = 1 \<and> b2 = b\<lparr>status := ESTABLISHED\<rparr> \<and> sB3 = sB2"
    using server2 tcp_handle_answer [of sB2 b1 EB] f3 ports b1(2) by (simp add: Let_def tcp_sync_def)
  with s1(2) f1 b1 sent2(1) f2 a1 sent3(1) f3 show ?thesis by simp
qed

text \<open>Both ends with their receive area at 0x100 and their transmit area at 0x800: what one has sent, moved by
  0x700 bytes, is what the other receives.\<close>

theorem tcp_handshake_witness:
  "let b = demo_conn\<lparr>srcport := 80, dstport := 4000, status := LISTEN\<rparr>;
       sA1 = snd (tcp_send regfile_env demo_conn SYN [48] 1 start_machine);
       (rB, b1, sB1) = tcp_handle regfile_env b (start_machine\<lparr>buff := moved 0x700 (buff sA1)\<rparr>);
       (rA, a1, sA3) = tcp_handle regfile_env (demo_conn\<lparr>status := SYN_SENT\<rparr>) (start_machine\<lparr>buff := moved 0x700 (buff sB1)\<rparr>);
       (rB2, b2, sB3) = tcp_handle regfile_env b1 (start_machine\<lparr>buff := moved 0x700 (buff sA3)\<rparr>)
   in status a1 = ESTABLISHED \<and> status b2 = ESTABLISHED \<and> ackNum a1 = 0x12345679"
proof -
  let ?b = "demo_conn\<lparr>srcport := 80, dstport := 4000, status := LISTEN\<rparr>"
  have conn: "eth_tx_addr demo_conn = 0x800" "eth_rx_addr demo_conn = 0x100" "srcport demo_conn = 4000" "dstport demo_conn = 80"
    "seqNum demo_conn = 0x12345678"
    by (simp_all add: demo_conn_def)
  have wire: "same_frame n (moved 0x700 f) 0x100 f 0x800" for n f
    using same_frame_moved [of "0x700" n f "0x100"] by (simp add: aligned4_def)
  have keeps: "keeps_area regfile_env x n" for x n by (rule keeps_area_plain) (simp add: regfile_env_def)
  obtain r sA1 where sA1: "tcp_send regfile_env demo_conn SYN [48] 1 start_machine = (r, sA1)" by fastforce
  let ?sB = "start_machine\<lparr>buff := moved 0x700 (buff sA1)\<rparr>"
  obtain rB b1 sB1 where sB1: "tcp_handle regfile_env ?b ?sB = (rB, b1, sB1)" by (metis prod_cases3)
  let ?sA2 = "start_machine\<lparr>buff := moved 0x700 (buff sB1)\<rparr>"
  obtain rA a1 sA3 where sA3: "tcp_handle regfile_env (demo_conn\<lparr>status := SYN_SENT\<rparr>) ?sA2 = (rA, a1, sA3)" by (metis prod_cases3)
  let ?sB2 = "start_machine\<lparr>buff := moved 0x700 (buff sA3)\<rparr>"
  obtain rB2 b2 sB3 where sB3: "tcp_handle regfile_env b1 ?sB2 = (rB2, b2, sB3)" by (metis prod_cases3)
  have "a1 = demo_conn\<lparr>seqNum := ackNum ?b, ackNum := seqNum ?b + 1, status := ESTABLISHED\<rparr> \<and> b2 = ?b\<lparr>status := ESTABLISHED\<rparr>"
    using tcp_handshake [OF _ _ _ _ _ keeps keeps sA1 _ sB1 _ sA3 _ sB3] by (simp add: conn wire aligned4_def)
  then show ?thesis by (simp add: sA1 sB1 sA3 sB3 conn)
qed

text \<open>C24: the end of a connection does not complete.  A node that closes first and sees the peer's
  acknowledgement and then its \<open>FIN\<close> is left in \<open>CLOSING\<close>; it leaves this state only for a segment
  whose flags are exactly \<open>ACK\<close>, while the peer, which is \<open>CLOSED\<close> by then, answers everything with
  \<open>RST\<close> and \<open>ACK\<close>.\<close>

theorem tcp_closing_not_left:
  assumes "status a = CLOSING" "status b = CLOSED" "aligned4 (eth_tx_addr b)"
    and "tcp_get_destination_port (buff sB) (eth_rx_addr b) = srcport b"
    and "same_frame 54 (buff sA) (eth_rx_addr a) (tcp_frame b (RST OR ACK) zero_char 0 (buff sB)) (eth_tx_addr b)"
  shows "tcp_handle EB b sB = (1, b, snd (tcp_send EB b (RST OR ACK) zero_char 0 sB)) \<and>
    fst (snd (tcp_handle EA a sA)) = a \<and> tcp_next (tcp_next FIN_WAIT_1 ACK) FIN = CLOSING"
proof -
  have "tcp_get_flags (buff sA) (eth_rx_addr a) = 0x14"
    using tcp_frame_headers(7) [OF assms(3) _ refl refl, of 0 "RST OR ACK" zero_char "buff sB"]
    by (simp add: tcp_get_flags_def same_frame_byte [OF assms(5)])
  then show ?thesis using assms(1,2,4) by (simp add: tcp_handle_def Let_def split_beta)
qed

theorem tcp_closing_not_left_witness:
  "let b = demo_conn\<lparr>eth_rx_addr := 0x800, dstport := 4000\<rparr>; a = demo_conn\<lparr>eth_rx_addr := 0x800, status := CLOSING\<rparr>;
       sB = start_machine\<lparr>buff := tcp_frame b FIN zero_char 0 (\<lambda>_. 0)\<rparr>;
       sA = start_machine\<lparr>buff := tcp_frame b (RST OR ACK) zero_char 0 (buff sB)\<rparr>
   in status (fst (snd (tcp_handle regfile_env a sA))) = CLOSING"
proof -
  let ?b = "demo_conn\<lparr>eth_rx_addr := 0x800, dstport := 4000\<rparr>" and ?a = "demo_conn\<lparr>eth_rx_addr := 0x800, status := CLOSING\<rparr>"
  let ?sB = "start_machine\<lparr>buff := tcp_frame ?b FIN zero_char 0 (\<lambda>_. 0)\<rparr>"
  let ?sA = "start_machine\<lparr>buff := tcp_frame ?b (RST OR ACK) zero_char 0 (buff ?sB)\<rparr>"
  have "same_frame n f p f p" for n f p by (simp add: same_frame_def list_all_iff)
  moreover have "tcp_get_destination_port (buff ?sB) 0x800 = 4000"
    using tcp_frame_headers(4) [of ?b 0 _ FIN zero_char "\<lambda>_. 0", OF _ _ refl refl]
    by (simp add: demo_conn_def aligned4_def)
  ultimately have "fst (snd (tcp_handle regfile_env ?a ?sA)) = ?a"
    using tcp_closing_not_left [of ?a ?b ?sB ?sA regfile_env regfile_env] by (simp add: demo_conn_def aligned4_def)
  then show ?thesis by (simp add: Let_def)
qed

end
