(* ===== verification/Ptp1588.thy ===== *)
theory Ptp1588
  imports Udp "HOL-Library.Signed_Division"
begin

text \<open>
  The clock synchronisation protocol \<^verbatim>\<open>c/ethlib/ptp1588.c\<close> (IEEE 1588): a master sends SYNC and FOLLOW
  messages, a slave answers with DLYREQ, the master with DLYRPLY, and the slave computes delay and
  offset from the four time stamps and corrects the real-time clock.

  A message is sent and received through its bytes in memory.  Patmos is big-endian and aligns to at
  most 4 bytes, so the header of 34 bytes is followed by two bytes of padding, the body starts at
  offset 36, and the message has 56 bytes with two bytes of padding at the end; the paddings are
  fields of the model.  The clock and time-stamp registers are devices of the environment; the branch
  compiled with \<open>USE_HW_TIMESTAMP\<close>, which the header defines, is modelled.
\<close>

section \<open>Data\<close>

record PTPv2MsgHeader =
  transportSpec_msgType :: u8
  reserved_versionPTP :: u8
  messageLength :: u16
  domainNumber :: u8
  reserved1 :: u8
  flagField :: u16
  correctionField :: u64
  reserved2 :: u32
  portIdentity :: "u8 list"
  portId :: u16
  sequenceId :: u16
  controlField :: u8
  logMessageInterval :: u8
  head_padding :: u16

record PTPMsgBody =
  seconds :: u32
  nanoseconds :: u32
  requestingSourcePort :: "u8 list"
  requestingSourceId :: u16
  body_padding :: u16

record PTPv2Msg =
  head :: PTPv2MsgHeader
  body :: PTPMsgBody

record PTPv2TimeRecord =
  syncInterval :: u8
  offsetSeconds :: u32
  offsetNanoseconds :: u32
  t1Seconds :: u32
  t1Nanoseconds :: u32
  t2Seconds :: u32
  t2Nanoseconds :: u32
  delaySeconds :: u32
  delayNanoseconds :: u32
  t3Seconds :: u32
  t3Nanoseconds :: u32
  t4Seconds :: u32
  t4Nanoseconds :: u32

record PTPPortInfo =
  eth_base :: u32
  port_ip :: "u8 list"
  port_mac :: "u8 list"
  clockId :: "u8 list"
  port_id :: u16
  portRole :: u32
  port_syncInterval :: u8

record ptp_state = udp_state +
  txPTPMsg :: PTPv2Msg
  rxPTPMsg :: PTPv2Msg
  ptpTimeRecord :: PTPv2TimeRecord
  thisPtpPortInfo :: PTPPortInfo
  lastMasterInfo :: PTPPortInfo
  lastSlaveInfo :: PTPPortInfo

abbreviation (input) PTP_SYNC_MSGTYPE :: "'a :: len word" where "PTP_SYNC_MSGTYPE \<equiv> 0"
abbreviation (input) PTP_FOLLOW_MSGTYPE :: "'a :: len word" where "PTP_FOLLOW_MSGTYPE \<equiv> 8"
abbreviation (input) PTP_DLYREQ_MSGTYPE :: "'a :: len word" where "PTP_DLYREQ_MSGTYPE \<equiv> 1"
abbreviation (input) PTP_DLYRPLY_MSGTYPE :: "'a :: len word" where "PTP_DLYRPLY_MSGTYPE \<equiv> 9"
abbreviation (input) PTP_MASTER :: u32 where "PTP_MASTER \<equiv> 0"
abbreviation (input) PTP_SLAVE :: u32 where "PTP_SLAVE \<equiv> 1"
abbreviation (input) PTP_EVENT_PORT :: u16 where "PTP_EVENT_PORT \<equiv> 319"
abbreviation (input) PTP_GENERAL_PORT :: u16 where "PTP_GENERAL_PORT \<equiv> 320"
abbreviation (input) FLAG_PTP_TWO_STEP_MASK :: u16 where "FLAG_PTP_TWO_STEP_MASK \<equiv> 0x0200"
abbreviation (input) FLAG_PTP_UNICAST_MASK :: u16 where "FLAG_PTP_UNICAST_MASK \<equiv> 0x400"
abbreviation (input) PTP_BROADCAST_MAC :: "u8 list" where "PTP_BROADCAST_MAC \<equiv> [0xFF, 0xFF, 0xFF, 0xFF, 0xFF, 0xFF]"
abbreviation (input) PTP_RATE_CONTROL :: nat where "PTP_RATE_CONTROL \<equiv> 1"
abbreviation (input) PTP_CORRECTION_EN :: nat where "PTP_CORRECTION_EN \<equiv> 1"
abbreviation (input) PTP_NS_OFFSET_THRESHOLD :: int where "PTP_NS_OFFSET_THRESHOLD \<equiv> 500000 * 1000"
abbreviation (input) WCET_COMPENSATION :: u32 where "WCET_COMPENSATION \<equiv> 3 * 1000"

text \<open>The registers, at their offsets from \<open>eth_base\<close>.\<close>

abbreviation (input) PTP_RXCHAN_TIMESTAMP_NS :: "u32 \<Rightarrow> u32" where "PTP_RXCHAN_TIMESTAMP_NS base \<equiv> base + 0xE000"
abbreviation (input) PTP_RXCHAN_TIMESTAMP_SEC :: "u32 \<Rightarrow> u32" where "PTP_RXCHAN_TIMESTAMP_SEC base \<equiv> base + 0xE004"
abbreviation (input) PTP_RXCHAN_STATUS :: "u32 \<Rightarrow> u32" where "PTP_RXCHAN_STATUS base \<equiv> base + 0xE008"
abbreviation (input) PTP_TXCHAN_TIMESTAMP_NS :: "u32 \<Rightarrow> u32" where "PTP_TXCHAN_TIMESTAMP_NS base \<equiv> base + 0xE400"
abbreviation (input) PTP_TXCHAN_TIMESTAMP_SEC :: "u32 \<Rightarrow> u32" where "PTP_TXCHAN_TIMESTAMP_SEC base \<equiv> base + 0xE404"
abbreviation (input) PTP_TXCHAN_STATUS :: "u32 \<Rightarrow> u32" where "PTP_TXCHAN_STATUS base \<equiv> base + 0xE408"
abbreviation RTC_TIME_NS :: "u32 \<Rightarrow> u32" where "RTC_TIME_NS base \<equiv> base + 0xE800"
abbreviation RTC_TIME_SEC :: "u32 \<Rightarrow> u32" where "RTC_TIME_SEC base \<equiv> base + 0xE804"
abbreviation RTC_ADJUST_OFFSET :: "u32 \<Rightarrow> u32" where "RTC_ADJUST_OFFSET base \<equiv> base + 0xE820"

section \<open>Messages in memory\<close>

text \<open>Big-endian integers of 2, 4 and 8 bytes.\<close>

definition be16 :: "u16 \<Rightarrow> u8 list" where
  "be16 h = [ucast (drop_bit 8 h), ucast h]"

definition be32 :: "u32 \<Rightarrow> u8 list" where
  "be32 w = [ucast (drop_bit 24 w), ucast (drop_bit 16 w), ucast (drop_bit 8 w), ucast w]"

definition be64 :: "u64 \<Rightarrow> u8 list" where
  "be64 d = be32 (ucast (drop_bit 32 d)) @ be32 (ucast d)"

definition of_be16 :: "u8 list \<Rightarrow> nat \<Rightarrow> u16" where
  "of_be16 bs i = push_bit 8 (ucast (bs ! i)) OR ucast (bs ! (i + 1))"

definition of_be32 :: "u8 list \<Rightarrow> nat \<Rightarrow> u32" where
  "of_be32 bs i = push_bit 16 (ucast (of_be16 bs i)) OR ucast (of_be16 bs (i + 2))"

definition of_be64 :: "u8 list \<Rightarrow> nat \<Rightarrow> u64" where
  "of_be64 bs i = push_bit 32 (ucast (of_be32 bs i)) OR ucast (of_be32 bs (i + 4))"

definition msg_bytes :: "PTPv2Msg \<Rightarrow> u8 list" where
  "msg_bytes m =
     [transportSpec_msgType (head m), reserved_versionPTP (head m)] @ be16 (messageLength (head m)) @
     [domainNumber (head m), reserved1 (head m)] @ be16 (flagField (head m)) @
     be64 (correctionField (head m)) @ be32 (reserved2 (head m)) @ portIdentity (head m) @
     be16 (portId (head m)) @ be16 (sequenceId (head m)) @
     [controlField (head m), logMessageInterval (head m)] @ be16 (head_padding (head m)) @
     be32 (seconds (body m)) @ be32 (nanoseconds (body m)) @ requestingSourcePort (body m) @
     be16 (requestingSourceId (body m)) @ be16 (body_padding (body m))"

definition msg_of_bytes :: "u8 list \<Rightarrow> PTPv2Msg" where
  "msg_of_bytes bs =
     \<lparr>head = \<lparr>transportSpec_msgType = bs ! 0, reserved_versionPTP = bs ! 1, messageLength = of_be16 bs 2,
        domainNumber = bs ! 4, reserved1 = bs ! 5, flagField = of_be16 bs 6, correctionField = of_be64 bs 8,
        reserved2 = of_be32 bs 16, portIdentity = take 8 (drop 20 bs), portId = of_be16 bs 28,
        sequenceId = of_be16 bs 30, controlField = bs ! 32, logMessageInterval = bs ! 33,
        head_padding = of_be16 bs 34\<rparr>,
      body = \<lparr>seconds = of_be32 bs 36, nanoseconds = of_be32 bs 40, requestingSourcePort = take 8 (drop 44 bs),
        requestingSourceId = of_be16 bs 52, body_padding = of_be16 bs 54\<rparr>\<rparr>"

section \<open>Ports\<close>

definition ptpv2_intialize_local_port ::
  "u32 \<Rightarrow> u32 \<Rightarrow> u8 list \<Rightarrow> u8 list \<Rightarrow> u16 \<Rightarrow> u32 \<Rightarrow> PTPPortInfo" where
  "ptpv2_intialize_local_port base role mac ip ident syncPeriod =
     \<lparr>eth_base = base,
      port_ip = [ip ! 0, ip ! 1, ip ! 2, ip ! 3],
      port_mac = [mac ! 0, mac ! 1, mac ! 2, mac ! 3, mac ! 4, mac ! 5],
      clockId = [mac ! 0, mac ! 1, mac ! 2, 0xff, 0xfe, mac ! 3, mac ! 4, mac ! 5],
      port_id = ident, portRole = role, port_syncInterval = ucast syncPeriod\<rparr>"

section \<open>Delay, offset and correction\<close>

text \<open>Calculates the offset and the delay from the master clock; C divides towards zero.\<close>

definition ptp_calc_offset :: "u32 \<Rightarrow> u32 \<Rightarrow> u32 \<Rightarrow> u32" where
  "ptp_calc_offset t1 t2 delay = t2 - t1 - delay"

definition ptp_calc_delay :: "u32 \<Rightarrow> u32 \<Rightarrow> u32 \<Rightarrow> u32 \<Rightarrow> u32" where
  "ptp_calc_delay t1 t2 t3 t4 = word_of_int (sint (t2 - t1 + t4 - t3) sdiv 2)"

definition c_abs :: "u32 \<Rightarrow> u32" where
  "c_abs x = (if sint x < 0 then - x else x)"

definition rtc_shift_ns :: "env \<Rightarrow> PTPPortInfo \<Rightarrow> 'a ptp_state_scheme \<Rightarrow> 'a ptp_state_scheme" where
  "rtc_shift_ns E p s =
     (let (now, s) = io_rd E (RTC_TIME_NS (eth_base p)) s
      in io_wr E (RTC_TIME_NS (eth_base p))
           (- offsetNanoseconds (ptpTimeRecord s) + WCET_COMPENSATION + now) s)"

definition ptp_correct_offset :: "env \<Rightarrow> PTPPortInfo \<Rightarrow> 'a ptp_state_scheme \<Rightarrow> 'a ptp_state_scheme" where
  "ptp_correct_offset E p s =
     (if offsetSeconds (ptpTimeRecord s) \<noteq> 0 then
        let (now, s) = io_rd E (RTC_TIME_SEC (eth_base p)) s;
            s = io_wr E (RTC_TIME_SEC (eth_base p)) (- offsetSeconds (ptpTimeRecord s) + now) s
        in rtc_shift_ns E p s
      else if PTP_RATE_CONTROL = 0 \<or> sint (c_abs (offsetNanoseconds (ptpTimeRecord s))) > PTP_NS_OFFSET_THRESHOLD then
        rtc_shift_ns E p s
      else io_wr E (RTC_ADJUST_OFFSET (eth_base p)) (offsetNanoseconds (ptpTimeRecord s)) s)"

definition ptp_filter_clockport :: "u8 list \<Rightarrow> u16 \<Rightarrow> u8 list \<Rightarrow> u16 \<Rightarrow> u8" where
  "ptp_filter_clockport sourceId sourcePortId matchId matchPortId =
     (let ans = fold (\<lambda>i ans. ans AND (if sourceId ! i = matchId ! i then 1 else 0)) [1..<8]
                  (if sourceId ! 0 = matchId ! 0 then 1 else 0)
      in ans AND (if sourcePortId = matchPortId then 1 else 0))"

section \<open>Sending a message\<close>

text \<open>The fields of the header that every message sets.\<close>

definition fill_head :: "PTPPortInfo \<Rightarrow> u32 \<Rightarrow> u32 \<Rightarrow> PTPv2MsgHeader \<Rightarrow> PTPv2MsgHeader" where
  "fill_head p seqId msgType h =
     h\<lparr>sequenceId := ucast seqId, transportSpec_msgType := ucast msgType, reserved_versionPTP := 0x02,
       flagField := (flagField h OR FLAG_PTP_TWO_STEP_MASK) OR FLAG_PTP_UNICAST_MASK, correctionField := 0,
       portIdentity := map (\<lambda>i. clockId p ! i) [0..<8], portId := port_id p,
       logMessageInterval := port_syncInterval p\<rparr>"

definition set_tx :: "u16 \<Rightarrow> u8 \<Rightarrow> u32 \<Rightarrow> u32 \<Rightarrow> PTPv2Msg \<Rightarrow> PTPv2Msg" where
  "set_tx len ctrl sec ns m =
     m\<lparr>head := (head m)\<lparr>messageLength := len, controlField := ctrl\<rparr>,
       body := (body m)\<lparr>seconds := sec, nanoseconds := ns\<rparr>\<rparr>"

text \<open>\<open>udp_send_mac\<close> with the first bytes of \<open>txPTPMsg\<close> as data; its result is not used.\<close>

definition send_tx ::
  "env \<Rightarrow> u32 \<Rightarrow> u8 list \<Rightarrow> u8 list \<Rightarrow> u16 \<Rightarrow> u16 \<Rightarrow> 'a ptp_state_scheme \<Rightarrow> 'a ptp_state_scheme option" where
  "send_tx E tx_addr dmac dip port len s =
     map_option snd (udp_send_mac E tx_addr dmac dip port port (msg_bytes (txPTPMsg s)) len s)"

definition ptpv2_issue_msg ::
  "env \<Rightarrow> PTPPortInfo \<Rightarrow> u32 \<Rightarrow> u8 list \<Rightarrow> u8 list \<Rightarrow> u32 \<Rightarrow> u32 \<Rightarrow> 'a ptp_state_scheme \<Rightarrow>
     (u32 \<times> 'a ptp_state_scheme) option" where
  "ptpv2_issue_msg E p tx_addr dmac dip seqId msgType s =
     (let s = s\<lparr>txPTPMsg := (txPTPMsg s)\<lparr>head := fill_head p seqId msgType (head (txPTPMsg s))\<rparr>\<rparr>
      in case
        (if msgType = PTP_SYNC_MSGTYPE \<or> msgType = PTP_DLYREQ_MSGTYPE then
           let (sec, s) = io_rd E (RTC_TIME_SEC (eth_base p)) s;
               (ns, s) = io_rd E (RTC_TIME_NS (eth_base p)) s;
               ctrl = (if msgType = PTP_SYNC_MSGTYPE then 0x0 else 0x1)
           in send_tx E tx_addr dmac dip PTP_EVENT_PORT 44
                (s\<lparr>txPTPMsg := set_tx 44 ctrl (sec AND 0xFFFFFFFF) ns (txPTPMsg s)\<rparr>)
         else if msgType = PTP_FOLLOW_MSGTYPE then
           send_tx E tx_addr dmac dip PTP_GENERAL_PORT 44
             (s\<lparr>txPTPMsg := set_tx 44 0x2 (t1Seconds (ptpTimeRecord s)) (t1Nanoseconds (ptpTimeRecord s)) (txPTPMsg s)\<rparr>)
         else if msgType = PTP_DLYRPLY_MSGTYPE then
           let m = txPTPMsg s;
               m = m\<lparr>body := (body m)\<lparr>requestingSourcePort := portIdentity (head (rxPTPMsg s)),
                                     requestingSourceId := portId (head (rxPTPMsg s))\<rparr>\<rparr>
           in send_tx E tx_addr dmac dip PTP_GENERAL_PORT 54
                (s\<lparr>txPTPMsg := set_tx 54 0x3 (t4Seconds (ptpTimeRecord s)) (t4Nanoseconds (ptpTimeRecord s)) m\<rparr>)
         else Some s) of
        None \<Rightarrow> None
      | Some s \<Rightarrow>
          if msgType = PTP_SYNC_MSGTYPE then
            let (ns, s) = io_rd E (PTP_TXCHAN_TIMESTAMP_NS (eth_base p)) s;
                (sec, s) = io_rd E (PTP_TXCHAN_TIMESTAMP_SEC (eth_base p)) s;
                s = s\<lparr>ptpTimeRecord := (ptpTimeRecord s)\<lparr>t1Nanoseconds := ns, t1Seconds := sec\<rparr>\<rparr>
            in Some (msgType, io_wr E (PTP_TXCHAN_STATUS (eth_base p)) 0x1 s)
          else if msgType = PTP_DLYREQ_MSGTYPE then
            let (ns, s) = io_rd E (PTP_TXCHAN_TIMESTAMP_NS (eth_base p)) s;
                (sec, s) = io_rd E (PTP_TXCHAN_TIMESTAMP_SEC (eth_base p)) s;
                s = s\<lparr>ptpTimeRecord := (ptpTimeRecord s)\<lparr>t3Nanoseconds := ns, t3Seconds := sec\<rparr>\<rparr>
            in Some (msgType, io_wr E (PTP_TXCHAN_STATUS (eth_base p)) 0x1 s)
          else Some (msgType, s))"

section \<open>Receiving a message\<close>

definition note_peer :: "u8 list \<Rightarrow> u8 list \<Rightarrow> PTPPortInfo \<Rightarrow> PTPPortInfo" where
  "note_peer ip mac p =
     p\<lparr>port_ip := [ip ! 0, ip ! 1, ip ! 2, ip ! 3],
       port_mac := [mac ! 0, mac ! 1, mac ! 2, mac ! 3, mac ! 4, mac ! 5]\<rparr>"

text \<open>The four branches of the switch on the message type.\<close>

definition handle_sync :: "u32 \<Rightarrow> u32 \<Rightarrow> u8 list \<Rightarrow> u8 list \<Rightarrow> 'a ptp_state_scheme \<Rightarrow> 'a ptp_state_scheme" where
  "handle_sync ts_ns ts_sec ip mac s =
     (let s = s\<lparr>ptpTimeRecord := (ptpTimeRecord s)\<lparr>t2Nanoseconds := ts_ns, t2Seconds := ts_sec,
                  syncInterval := logMessageInterval (head (rxPTPMsg s))\<rparr>\<rparr>
      in if flagField (head (rxPTPMsg s)) AND FLAG_PTP_TWO_STEP_MASK \<noteq> FLAG_PTP_TWO_STEP_MASK then
           s\<lparr>lastMasterInfo := note_peer ip mac (lastMasterInfo s),
             ptpTimeRecord := (ptpTimeRecord s)\<lparr>t1Nanoseconds := nanoseconds (body (rxPTPMsg s)),
                                                t1Seconds := seconds (body (rxPTPMsg s))\<rparr>\<rparr>
         else s)"

definition handle_follow :: "u8 list \<Rightarrow> u8 list \<Rightarrow> 'a ptp_state_scheme \<Rightarrow> 'a ptp_state_scheme" where
  "handle_follow ip mac s =
     s\<lparr>ptpTimeRecord := (ptpTimeRecord s)\<lparr>t1Nanoseconds := nanoseconds (body (rxPTPMsg s)),
                                          t1Seconds := seconds (body (rxPTPMsg s))\<rparr>,
       lastMasterInfo := note_peer ip mac (lastMasterInfo s)\<rparr>"

definition handle_dlyreq :: "u32 \<Rightarrow> u32 \<Rightarrow> u8 list \<Rightarrow> u8 list \<Rightarrow> 'a ptp_state_scheme \<Rightarrow> 'a ptp_state_scheme" where
  "handle_dlyreq ts_ns ts_sec ip mac s =
     s\<lparr>ptpTimeRecord := (ptpTimeRecord s)\<lparr>t4Nanoseconds := ts_ns, t4Seconds := ts_sec\<rparr>,
       lastSlaveInfo := note_peer ip mac (lastSlaveInfo s)\<rparr>"

definition update_times :: "u32 \<Rightarrow> u32 \<Rightarrow> PTPv2TimeRecord \<Rightarrow> PTPv2TimeRecord" where
  "update_times ns sec r =
     (let r = r\<lparr>t4Nanoseconds := ns, t4Seconds := sec\<rparr>;
          r = r\<lparr>delayNanoseconds := ptp_calc_delay (t1Nanoseconds r) (t2Nanoseconds r) (t3Nanoseconds r) (t4Nanoseconds r)\<rparr>;
          r = r\<lparr>offsetNanoseconds := ptp_calc_offset (t1Nanoseconds r) (t2Nanoseconds r) (delayNanoseconds r)\<rparr>;
          r = r\<lparr>delaySeconds := ptp_calc_delay (t1Seconds r) (t2Seconds r) (t3Seconds r) (t4Seconds r)\<rparr>
      in r\<lparr>offsetSeconds := ptp_calc_offset (t1Seconds r) (t2Seconds r) (delaySeconds r)\<rparr>)"

definition handle_dlyrply :: "env \<Rightarrow> PTPPortInfo \<Rightarrow> 'a ptp_state_scheme \<Rightarrow> 'a ptp_state_scheme" where
  "handle_dlyrply E p s =
     (let s = s\<lparr>ptpTimeRecord := update_times (nanoseconds (body (rxPTPMsg s))) (seconds (body (rxPTPMsg s))) (ptpTimeRecord s)\<rparr>
      in if PTP_CORRECTION_EN = 1 then ptp_correct_offset E p s else s)"

text \<open>A message with more data than \<open>rxPTPMsg\<close> has bytes is stored beyond it.\<close>

definition ptpv2_handle_msg ::
  "env \<Rightarrow> PTPPortInfo \<Rightarrow> u32 \<Rightarrow> u8 list \<Rightarrow> 'a ptp_state_scheme \<Rightarrow> fault + (u32 \<times> 'a ptp_state_scheme)" where
  "ptpv2_handle_msg E p rx_addr source_mac s =
     (let (ts_ns, s) = io_rd E (PTP_RXCHAN_TIMESTAMP_NS (eth_base p)) s;
          (ts_sec, s) = io_rd E (PTP_RXCHAN_TIMESTAMP_SEC (eth_base p)) s;
          s = io_wr E (PTP_RXCHAN_STATUS (eth_base (thisPtpPortInfo s))) 0x1 s;
          source_ip = ipv4_get_source_ip (buff s) rx_addr
      in case udp_get_data (buff s) rx_addr (msg_bytes (rxPTPMsg s)) (ucast (udp_get_data_length (buff s) rx_addr)) of
           Inl e \<Rightarrow> Inl e
         | Inr (_, bs) \<Rightarrow>
             let s = s\<lparr>rxPTPMsg := msg_of_bytes bs\<rparr>;
                 msgType = transportSpec_msgType (head (rxPTPMsg s))
             in Inr (if msgType = PTP_SYNC_MSGTYPE then (PTP_SYNC_MSGTYPE, handle_sync ts_ns ts_sec source_ip source_mac s)
                     else if msgType = PTP_FOLLOW_MSGTYPE then (PTP_FOLLOW_MSGTYPE, handle_follow source_ip source_mac s)
                     else if msgType = PTP_DLYREQ_MSGTYPE then
                       (PTP_DLYREQ_MSGTYPE, handle_dlyreq ts_ns ts_sec source_ip source_mac s)
                     else if msgType = PTP_DLYRPLY_MSGTYPE then (PTP_DLYRPLY_MSGTYPE, handle_dlyrply E p s)
                     else (- 5, s)))"

text \<open>The result goes through a \<open>short\<close>.\<close>

definition ptpv2_process_received ::
  "env \<Rightarrow> PTPPortInfo \<Rightarrow> u32 \<Rightarrow> u32 \<Rightarrow> 'a ptp_state_scheme \<Rightarrow> (fault + (u32 \<times> 'a ptp_state_scheme)) option" where
  "ptpv2_process_received E p tx_addr rx_addr s =
     (if portRole p = PTP_MASTER \<or> portRole p = PTP_SLAVE then
        case ptpv2_handle_msg E (thisPtpPortInfo s) rx_addr PTP_BROADCAST_MAC s of
          Inl e \<Rightarrow> Some (Inl e)
        | Inr (r, s) \<Rightarrow>
            let msgType = ucast r :: u16;
                reply = (\<lambda>ip mt. case ptpv2_issue_msg E (thisPtpPortInfo s) tx_addr PTP_BROADCAST_MAC ip
                            (ucast (sequenceId (head (rxPTPMsg s)))) mt s of
                          None \<Rightarrow> None | Some (_, s) \<Rightarrow> Some (Inr (scast msgType, s)))
            in if portRole p = PTP_MASTER then
                 (if msgType = PTP_DLYREQ_MSGTYPE then reply (port_ip (lastSlaveInfo s)) PTP_DLYRPLY_MSGTYPE
                  else Some (Inr (scast msgType, s)))
               else if msgType = PTP_SYNC_MSGTYPE then
                 (if flagField (head (rxPTPMsg s)) AND FLAG_PTP_TWO_STEP_MASK \<noteq> FLAG_PTP_TWO_STEP_MASK
                  then reply (port_ip (lastMasterInfo s)) PTP_DLYREQ_MSGTYPE
                  else Some (Inr (scast msgType, s)))
               else if msgType = PTP_FOLLOW_MSGTYPE then reply (port_ip (lastMasterInfo s)) PTP_DLYREQ_MSGTYPE
               else Some (Inr (scast msgType, s))
      else Some (Inr (- 1, s)))"

section \<open>Clock readings\<close>

definition get_ptp_nanos :: "env \<Rightarrow> u32 \<Rightarrow> 'a machine_scheme \<Rightarrow> u64 \<times> 'a machine_scheme" where
  "get_ptp_nanos E base s =
     (let (sec, s) = io_rd E (RTC_TIME_SEC base) s; (ns, s) = io_rd E (RTC_TIME_NS base) s
      in (1000000000 * ucast sec + ucast ns, s))"

definition get_ptp_secs :: "env \<Rightarrow> u32 \<Rightarrow> 'a machine_scheme \<Rightarrow> u32 \<times> 'a machine_scheme" where
  "get_ptp_secs E base s = io_rd E (RTC_TIME_SEC base) s"

definition get_rx_timestamp_nanos :: "env \<Rightarrow> u32 \<Rightarrow> 'a machine_scheme \<Rightarrow> u64 \<times> 'a machine_scheme" where
  "get_rx_timestamp_nanos E base s =
     (let (sec, s) = io_rd E (PTP_RXCHAN_TIMESTAMP_SEC base) s; (ns, s) = io_rd E (PTP_RXCHAN_TIMESTAMP_NS base) s
      in (1000000000 * ucast sec + ucast ns, s))"

definition get_tx_timestamp_nanos :: "env \<Rightarrow> u32 \<Rightarrow> 'a machine_scheme \<Rightarrow> u64 \<times> 'a machine_scheme" where
  "get_tx_timestamp_nanos E base s =
     (let (sec, s) = io_rd E (PTP_TXCHAN_TIMESTAMP_SEC base) s; (ns, s) = io_rd E (PTP_TXCHAN_TIMESTAMP_NS base) s
      in (1000000000 * ucast sec + ucast ns, s))"

text \<open>\<open>(unsigned long long) NS_TO_USEC\<close> converts 0.001 before the multiplication: the factor is 0.\<close>

definition NS_TO_USEC_ull :: u64 where
  "NS_TO_USEC_ull = 0"

definition get_rx_timestamp_usecs :: "env \<Rightarrow> u32 \<Rightarrow> 'a machine_scheme \<Rightarrow> u64 \<times> 'a machine_scheme" where
  "get_rx_timestamp_usecs E base s =
     (let (sec, s) = io_rd E (PTP_RXCHAN_TIMESTAMP_SEC base) s; (ns, s) = io_rd E (PTP_RXCHAN_TIMESTAMP_NS base) s
      in (1000000 * ucast sec + NS_TO_USEC_ull * ucast ns, s))"

definition get_tx_timestamp_usecs :: "env \<Rightarrow> u32 \<Rightarrow> 'a machine_scheme \<Rightarrow> u64 \<times> 'a machine_scheme" where
  "get_tx_timestamp_usecs E base s =
     (let (sec, s) = io_rd E (PTP_TXCHAN_TIMESTAMP_SEC base) s; (ns, s) = io_rd E (PTP_TXCHAN_TIMESTAMP_NS base) s
      in (1000000 * ucast sec + NS_TO_USEC_ull * ucast ns, s))"

section \<open>Messages and their bytes\<close>

lemma be16_join: "push_bit 8 (ucast (ucast (drop_bit 8 h) :: u8)) OR ucast (ucast h :: u8) = (h :: u16)"
  by (auto intro!: bit_eqI simp: bit_simps)

lemma be32_join: "push_bit 16 (ucast (ucast (drop_bit 16 w) :: u16)) OR ucast (ucast w :: u16) = (w :: u32)"
  by (auto intro!: bit_eqI simp: bit_simps)

lemma be64_join: "push_bit 32 (ucast (ucast (drop_bit 32 d) :: u32)) OR ucast (ucast d :: u32) = (d :: u64)"
  by (auto intro!: bit_eqI simp: bit_simps)

lemma be32_halves: "be32 w = be16 (ucast (drop_bit 16 w)) @ be16 (ucast w)"
  by (auto simp: be32_def be16_def intro!: bit_eqI simp: bit_simps)

text \<open>Reading an integer where it was stored.\<close>

lemma of_be16_at: "length pre = i \<Longrightarrow> of_be16 (pre @ be16 h @ post) i = h"
  by (simp add: of_be16_def be16_def nth_append be16_join)

lemma of_be32_at:
  assumes "length pre = i"
  shows "of_be32 (pre @ be32 w @ post) i = w"
proof -
  let ?h = "ucast (drop_bit 16 w) :: u16" and ?l = "ucast w :: u16"
  have "of_be16 (pre @ be32 w @ post) i = ?h" "of_be16 (pre @ be32 w @ post) (i + 2) = ?l"
    using of_be16_at [OF assms, of ?h "be16 ?l @ post"] of_be16_at [of "pre @ be16 ?h" "i + 2" ?l post] assms
    by (simp_all add: be32_halves) (simp add: be16_def)
  then show ?thesis by (simp only: of_be32_def be32_join)
qed

lemma of_be64_at:
  assumes "length pre = i"
  shows "of_be64 (pre @ be64 d @ post) i = d"
proof -
  let ?h = "ucast (drop_bit 32 d) :: u32" and ?l = "ucast d :: u32"
  have "of_be32 (pre @ be64 d @ post) i = ?h" "of_be32 (pre @ be64 d @ post) (i + 4) = ?l"
    using of_be32_at [OF assms, of ?h "be32 ?l @ post"] of_be32_at [of "pre @ be32 ?h" "i + 4" ?l post] assms
    by (simp_all add: be64_def) (simp add: be32_def)
  then show ?thesis by (simp only: of_be64_def be64_join)
qed

definition msg_wf :: "PTPv2Msg \<Rightarrow> bool" where
  "msg_wf m \<longleftrightarrow> length (portIdentity (head m)) = 8 \<and> length (requestingSourcePort (body m)) = 8"

lemma length_be [simp]: "length (be16 h) = 2" "length (be32 w) = 4" "length (be64 d) = 8"
  by (simp_all add: be16_def be32_def be64_def)

lemma length_msg_bytes [simp]: "msg_wf m \<Longrightarrow> length (msg_bytes m) = 56"
  by (simp add: msg_bytes_def msg_wf_def)

lemma msg_wf_of_bytes [simp]: "length bs = 56 \<Longrightarrow> msg_wf (msg_of_bytes bs)"
  by (simp add: msg_wf_def msg_of_bytes_def)

text \<open>The fields after the port identity do not move when the lists have their 8 elements.\<close>

lemma list8:
  assumes "length (xs :: 'a list) = 8"
  obtains a b c d e f g h where "xs = [a, b, c, d, e, f, g, h]"
  using assms by (auto simp: length_Suc_conv numeral_eq_Suc)

lemma msg_roundtrip:
  assumes "msg_wf m"
  shows "msg_of_bytes (msg_bytes m) = m"
proof -
  obtain a b c d e f g h where p: "portIdentity (head m) = [a, b, c, d, e, f, g, h]"
    using assms list8 unfolding msg_wf_def by metis
  obtain a' b' c' d' e' f' g' h' where r: "requestingSourcePort (body m) = [a', b', c', d', e', f', g', h']"
    using assms list8 unfolding msg_wf_def by metis
  note at = of_be16_def of_be32_def of_be64_def be64_def be32_halves be16_def be16_join be32_join be64_join
  have "head (msg_of_bytes (msg_bytes m)) = head m"
    by (simp add: msg_of_bytes_def msg_bytes_def p r at)
  moreover have "body (msg_of_bytes (msg_bytes m)) = body m"
    by (simp add: msg_of_bytes_def msg_bytes_def p r at)
  ultimately show ?thesis by simp
qed

text \<open>What a shorter message determines.\<close>

lemma msg_of_bytes_cong:
  assumes "length bs = 56" "length bs' = 56" "\<And>i. i < 44 \<Longrightarrow> bs ! i = bs' ! i"
  shows "head (msg_of_bytes bs) = head (msg_of_bytes bs')"
    "seconds (body (msg_of_bytes bs)) = seconds (body (msg_of_bytes bs'))"
    "nanoseconds (body (msg_of_bytes bs)) = nanoseconds (body (msg_of_bytes bs'))"
proof -
  have "take 8 (drop 20 bs) = take 8 (drop 20 bs')"
    using assms by (intro nth_equalityI) simp_all
  then show "head (msg_of_bytes bs) = head (msg_of_bytes bs')"
    using assms(3) by (simp add: msg_of_bytes_def of_be16_def of_be32_def of_be64_def)
  show "seconds (body (msg_of_bytes bs)) = seconds (body (msg_of_bytes bs'))"
    "nanoseconds (body (msg_of_bytes bs)) = nanoseconds (body (msg_of_bytes bs'))"
    using assms(3) by (simp_all add: msg_of_bytes_def of_be16_def of_be32_def)
qed

section \<open>Delay and offset\<close>

lemma sint_word_of_int_u32:
  "- (2 ^ 31) \<le> k \<Longrightarrow> k < 2 ^ 31 \<Longrightarrow> sint (word_of_int k :: u32) = k"
  by (simp add: signed_of_int signed_take_bit_int_eq_self)

lemma word_of_uint_diff: "(b - a :: u32) = word_of_int (uint b - uint a)"
  by simp

lemma sdiv_2_le: "2 * \<bar>k sdiv 2\<bar> \<le> \<bar>k :: int\<bar>"
  by (auto simp: signed_divide_int_def sgn_if)

text \<open>Delay and offset of one pair of fields, as integers.\<close>

lemma ptp_calc_exact:
  fixes t1 t2 t3 t4 :: u32
  defines "A \<equiv> uint t2 - uint t1" and "B \<equiv> uint t4 - uint t3"
  assumes "\<bar>A\<bar> < 1000000000" "\<bar>B\<bar> < 1000000000"
  shows "sint (ptp_calc_delay t1 t2 t3 t4) = (A + B) sdiv 2"
    "sint (ptp_calc_offset t1 t2 (ptp_calc_delay t1 t2 t3 t4)) = A - (A + B) sdiv 2"
proof -
  have sum: "t2 - t1 + t4 - t3 = word_of_int (A + B)" by (simp add: A_def B_def)
  have s: "sint (t2 - t1 + t4 - t3) = A + B" unfolding sum
    by (rule sint_word_of_int_u32) (use assms(3,4) in auto)
  have b: "- (2 ^ 31) \<le> A - (A + B) sdiv 2" "A - (A + B) sdiv 2 < 2 ^ 31"
    "- (2 ^ 31) \<le> (A + B) sdiv 2" "(A + B) sdiv 2 < 2 ^ 31"
    using sdiv_2_le [of "A + B"] assms(3,4) by auto
  show "sint (ptp_calc_delay t1 t2 t3 t4) = (A + B) sdiv 2"
    unfolding ptp_calc_delay_def s by (rule sint_word_of_int_u32 [OF b(3,4)])
  have "ptp_calc_offset t1 t2 (ptp_calc_delay t1 t2 t3 t4) = word_of_int (A - (A + B) sdiv 2)"
    by (simp add: ptp_calc_offset_def ptp_calc_delay_def s A_def)
  then show "sint (ptp_calc_offset t1 t2 (ptp_calc_delay t1 t2 t3 t4)) = A - (A + B) sdiv 2"
    using sint_word_of_int_u32 [OF b(1,2)] by simp
qed

lemma twice_sdiv: "2 * (k sdiv 2) = k - k smod (2 :: int)"
  using minus_mod_eq_mult_div [of "\<bar>k\<bar>" 2]
  by (auto simp: signed_divide_int_def signed_modulo_int_def sgn_if)

lemma even_smod: "even k \<Longrightarrow> k smod (2 :: int) = 0"
  by (auto simp: signed_modulo_int_def signed_divide_int_def sgn_if elim!: evenE)

text \<open>A time stamp in nanoseconds, and the four stamps of a record.\<close>

definition stamp :: "u32 \<Rightarrow> u32 \<Rightarrow> int" where
  "stamp sec ns = 1000000000 * uint sec + uint ns"

definition T1 :: "PTPv2TimeRecord \<Rightarrow> int" where "T1 r = stamp (t1Seconds r) (t1Nanoseconds r)"
definition T2 :: "PTPv2TimeRecord \<Rightarrow> int" where "T2 r = stamp (t2Seconds r) (t2Nanoseconds r)"
definition T3 :: "PTPv2TimeRecord \<Rightarrow> int" where "T3 r = stamp (t3Seconds r) (t3Nanoseconds r)"

text \<open>What \<open>update_times\<close> needs: proper nanoseconds, and seconds that are not too far apart.\<close>

definition stamps_ok :: "u32 \<Rightarrow> u32 \<Rightarrow> PTPv2TimeRecord \<Rightarrow> bool" where
  "stamps_ok ns sec r \<longleftrightarrow>
     uint (t1Nanoseconds r) < 1000000000 \<and> uint (t2Nanoseconds r) < 1000000000 \<and>
     uint (t3Nanoseconds r) < 1000000000 \<and> uint ns < 1000000000 \<and>
     \<bar>uint (t2Seconds r) - uint (t1Seconds r)\<bar> < 1000000000 \<and> \<bar>uint sec - uint (t3Seconds r)\<bar> < 1000000000"

text \<open>C25: on a symmetric path with delay \<open>d\<close> and clock offset \<open>o\<close> (in nanoseconds, from four time
  stamps that are consistent with them), the delay and the offset that a delay reply leads to, read
  as seconds and nanoseconds together, are exact when the two differences of the seconds have an
  even sum, and otherwise wrong by half a second: seconds and nanoseconds are halved separately.\<close>

theorem ptp_symmetric_path:
  assumes "stamps_ok ns sec r" and "T2 r = T1 r + d + off" and "stamp sec ns = T3 r + d - off"
  shows "let r' = update_times ns sec r;
       half = (uint (t2Seconds r) - uint (t1Seconds r) + (uint sec - uint (t3Seconds r))) smod 2
     in 1000000000 * sint (offsetSeconds r') + sint (offsetNanoseconds r') = off + 500000000 * half \<and>
        1000000000 * sint (delaySeconds r') + sint (delayNanoseconds r') = d - 500000000 * half"
proof -
  define A B a b where "A = uint (t2Seconds r) - uint (t1Seconds r)" and "B = uint sec - uint (t3Seconds r)"
    and "a = uint (t2Nanoseconds r) - uint (t1Nanoseconds r)" and "b = uint ns - uint (t3Nanoseconds r)"
  have nonneg: "0 \<le> uint (t1Nanoseconds r)" "0 \<le> uint (t2Nanoseconds r)" "0 \<le> uint (t3Nanoseconds r)" "0 \<le> uint ns"
    by simp_all
  have bound: "\<bar>A\<bar> < 1000000000" "\<bar>B\<bar> < 1000000000" "\<bar>a\<bar> < 1000000000" "\<bar>b\<bar> < 1000000000"
    using assms(1) nonneg unfolding stamps_ok_def A_def B_def a_def b_def by linarith+
  have path: "1000000000 * A + a = d + off" "1000000000 * B + b = d - off"
    using assms(2,3) by (simp_all add: A_def B_def a_def b_def T1_def T2_def T3_def stamp_def algebra_simps)
  then have "a + b = 2 * (d - 500000000 * (A + B))" by (simp add: algebra_simps)
  then have "even (a + b)" by simp
  note halves = twice_sdiv [of "A + B"] twice_sdiv [of "a + b", unfolded even_smod [OF this]]
  note sec = ptp_calc_exact [OF bound(1,2) [unfolded A_def B_def], folded A_def B_def]
  note ns = ptp_calc_exact [OF bound(3,4) [unfolded a_def b_def], folded a_def b_def]
  have "2 * (1000000000 * (A - (A + B) sdiv 2) + (a - (a + b) sdiv 2)) = 2 * (off + 500000000 * ((A + B) smod 2))"
    "2 * (1000000000 * ((A + B) sdiv 2) + (a + b) sdiv 2) = 2 * (d - 500000000 * ((A + B) smod 2))"
    using halves path by (simp_all add: algebra_simps)
  then show ?thesis
    by (simp add: update_times_def Let_def sec ns A_def [symmetric] B_def [symmetric])
qed

theorem ptp_symmetric_path_witness:
  "let r = \<lparr>syncInterval = 0, offsetSeconds = 0, offsetNanoseconds = 0, t1Seconds = 0, t1Nanoseconds = 999999950,
       t2Seconds = 1, t2Nanoseconds = 50, delaySeconds = 0, delayNanoseconds = 0, t3Seconds = 1, t3Nanoseconds = 200,
       t4Seconds = 0, t4Nanoseconds = 0\<rparr>
   in T2 r = T1 r + 100 + 0 \<and> stamp 1 300 = T3 r + 100 - 0 \<and>
      1000000000 * sint (offsetSeconds (update_times 300 1 r)) + sint (offsetNanoseconds (update_times 300 1 r)) = 500000000"
  using ptp_symmetric_path [of 300 1 "\<lparr>syncInterval = 0, offsetSeconds = 0, offsetNanoseconds = 0, t1Seconds = 0,
      t1Nanoseconds = 999999950, t2Seconds = 1, t2Nanoseconds = 50, delaySeconds = 0, delayNanoseconds = 0, t3Seconds = 1,
      t3Nanoseconds = 200, t4Seconds = 0, t4Nanoseconds = 0\<rparr>" 100 0]
  by (simp add: stamps_ok_def T1_def T2_def T3_def stamp_def Let_def signed_modulo_int_def)

section \<open>Reception\<close>

text \<open>The bytes that \<open>udp_get_data\<close> stores, and those it leaves.\<close>

lemma udp_get_data_prefix:
  assumes "unat n \<le> length d"
  shows "udp_get_data b p d n =
    Inr (1, map (\<lambda>i. ucast (mem_iord_byte b (p + 42 + of_nat i))) [0..<unat n] @ drop (unat n) d)"
proof -
  have "fold (\<lambda>i d. d[i := ucast (mem_iord_byte b (p + 42 + of_nat i))]) [0..<m] d =
      map (\<lambda>i. ucast (mem_iord_byte b (p + 42 + of_nat i))) [0..<m] @ drop m d" if "m \<le> length d" for m
    using that by (induction m) (simp_all add: list_update_append Cons_nth_drop_Suc [symmetric])
  then show ?thesis using assms by (simp add: udp_get_data_def)
qed

text \<open>The state after the time stamp of the received frame has been read and its flag cleared.\<close>

definition ptp_rx_ts :: "env \<Rightarrow> PTPPortInfo \<Rightarrow> 'a ptp_state_scheme \<Rightarrow> u32 \<times> u32 \<times> 'a ptp_state_scheme" where
  "ptp_rx_ts E p s =
     (let (ns, s) = io_rd E (PTP_RXCHAN_TIMESTAMP_NS (eth_base p)) s;
          (sec, s) = io_rd E (PTP_RXCHAN_TIMESTAMP_SEC (eth_base p)) s
      in (ns, sec, io_wr E (PTP_RXCHAN_STATUS (eth_base (thisPtpPortInfo s))) 0x1 s))"

abbreviation ptp_rx_state :: "env \<Rightarrow> PTPPortInfo \<Rightarrow> 'a ptp_state_scheme \<Rightarrow> 'a ptp_state_scheme" where
  "ptp_rx_state E p s \<equiv> snd (snd (ptp_rx_ts E p s))"

lemma ptp_rx_keeps [simp]:
  "txPTPMsg (ptp_rx_state E p s) = txPTPMsg s" "rxPTPMsg (ptp_rx_state E p s) = rxPTPMsg s"
  "ptpTimeRecord (ptp_rx_state E p s) = ptpTimeRecord s" "thisPtpPortInfo (ptp_rx_state E p s) = thisPtpPortInfo s"
  by (simp_all add: ptp_rx_ts_def io_rd_def io_wr_def io_step_def Let_def)

lemma handle_msg_unfold:
  "ptpv2_handle_msg E p rx_addr mac s =
     (let (ts_ns, ts_sec, s') = ptp_rx_ts E p s
      in case udp_get_data (buff s') rx_addr (msg_bytes (rxPTPMsg s)) (ucast (udp_get_data_length (buff s') rx_addr)) of
           Inl e \<Rightarrow> Inl e
         | Inr (_, bs) \<Rightarrow>
             let ip = ipv4_get_source_ip (buff s') rx_addr;
                 s' = s'\<lparr>rxPTPMsg := msg_of_bytes bs\<rparr>;
                 mt = transportSpec_msgType (head (msg_of_bytes bs))
             in Inr (if mt = PTP_SYNC_MSGTYPE then (PTP_SYNC_MSGTYPE, handle_sync ts_ns ts_sec ip mac s')
                     else if mt = PTP_FOLLOW_MSGTYPE then (PTP_FOLLOW_MSGTYPE, handle_follow ip mac s')
                     else if mt = PTP_DLYREQ_MSGTYPE then (PTP_DLYREQ_MSGTYPE, handle_dlyreq ts_ns ts_sec ip mac s')
                     else if mt = PTP_DLYRPLY_MSGTYPE then (PTP_DLYRPLY_MSGTYPE, handle_dlyrply E p s')
                     else (- 5, s')))"
  by (simp add: ptpv2_handle_msg_def ptp_rx_ts_def Let_def io_rd_def io_wr_def io_step_def split: sum.splits)

lemma correct_offset_keeps [simp]:
  "rxPTPMsg (ptp_correct_offset E p s) = rxPTPMsg s" "ptpTimeRecord (ptp_correct_offset E p s) = ptpTimeRecord s"
  "txPTPMsg (ptp_correct_offset E p s) = txPTPMsg s"
  by (simp_all add: ptp_correct_offset_def rtc_shift_ns_def io_rd_def io_wr_def io_step_def Let_def)

lemmas ptp_branches = handle_sync_def handle_follow_def handle_dlyreq_def handle_dlyrply_def

lemma unat_ucast_16_32 [simp]: "unat (ucast (n :: u16) :: u32) = unat n"
  using unat_less_16 [of n] by (simp add: unsigned_ucast_eq take_bit_nat_eq_self)

text \<open>C26: \<open>ptpv2_handle_msg\<close> trusts the length in the UDP header: it stores beyond \<open>rxPTPMsg\<close> exactly
  when the datagram claims more than the 56 bytes of the structure; otherwise it returns one of the
  four message types or -5, and the structure holds the message with unchanged bytes after it.\<close>

theorem ptp_handle_msg_bounds:
  assumes "msg_wf (rxPTPMsg s)"
  shows "let b = buff (ptp_rx_state E p s); n = unat (udp_get_data_length b rx) in
     case ptpv2_handle_msg E p rx mac s of
       Inl e \<Rightarrow> 56 < n
     | Inr (r, s') \<Rightarrow> n \<le> 56 \<and> r \<in> {0, 1, 8, 9, - 5} \<and> msg_wf (rxPTPMsg s') \<and>
         rxPTPMsg s' = msg_of_bytes (map (\<lambda>i. ucast (mem_iord_byte b (rx + 42 + of_nat i))) [0..<n]
                         @ drop n (msg_bytes (rxPTPMsg s)))"
proof (cases "unat (udp_get_data_length (buff (ptp_rx_state E p s)) rx) \<le> 56")
  case True
  let ?b = "buff (ptp_rx_state E p s)" and ?n = "udp_get_data_length (buff (ptp_rx_state E p s)) rx"
  let ?bs = "map (\<lambda>i. ucast (mem_iord_byte ?b (rx + 42 + of_nat i))) [0..<unat ?n] @ drop (unat ?n) (msg_bytes (rxPTPMsg s))"
  have g: "udp_get_data ?b rx (msg_bytes (rxPTPMsg s)) (ucast ?n) = Inr (1, ?bs)"
    using udp_get_data_prefix [of "ucast ?n" "msg_bytes (rxPTPMsg s)" ?b rx] True assms by simp
  have "msg_wf (msg_of_bytes ?bs)" using True assms by (intro msg_wf_of_bytes) simp
  with True show ?thesis
    unfolding handle_msg_unfold g Let_def case_prod_beta
    by (simp add: g ptp_branches Let_def)
next
  case False
  then show ?thesis using assms by (simp add: handle_msg_unfold udp_get_data_def Let_def case_prod_beta)
qed

text \<open>A node that has recorded \<open>t1\<close>.\<close>

definition ptp_boot :: "buffer \<Rightarrow> ptp_state" where
  "ptp_boot b = udp_state.extend (udp_boot\<lparr>buff := b\<rparr>)
     \<lparr>txPTPMsg = msg_of_bytes (replicate 56 0), rxPTPMsg = msg_of_bytes (replicate 56 0),
      ptpTimeRecord = \<lparr>syncInterval = 0, offsetSeconds = 0, offsetNanoseconds = 0, t1Seconds = 7, t1Nanoseconds = 8,
        t2Seconds = 0, t2Nanoseconds = 0, delaySeconds = 0, delayNanoseconds = 0, t3Seconds = 0, t3Nanoseconds = 0,
        t4Seconds = 0, t4Nanoseconds = 0\<rparr>,
      thisPtpPortInfo = ptpv2_intialize_local_port 0 0 my_mac_init my_ip_init 1 0,
      lastMasterInfo = ptpv2_intialize_local_port 0 0 my_mac_init my_ip_init 1 0,
      lastSlaveInfo = ptpv2_intialize_local_port 0 0 my_mac_init my_ip_init 1 0\<rparr>"

lemma ptp_boot_wf: "msg_wf (txPTPMsg (ptp_boot b))" "msg_wf (rxPTPMsg (ptp_boot b))"
  by (simp_all add: ptp_boot_def udp_state.defs)

theorem ptp_handle_msg_bounds_witness:
  "\<exists>r s'. ptpv2_handle_msg quiet_env (thisPtpPortInfo (ptp_boot (\<lambda>_. 8))) 0x100 PTP_BROADCAST_MAC (ptp_boot (\<lambda>_. 8)) = Inr (r, s') \<and>
     r \<in> {0, 1, 8, 9, - 5}"
proof -
  let ?s = "ptp_boot (\<lambda>_. 8)"
  have "buff (ptp_rx_state quiet_env (thisPtpPortInfo ?s) ?s) = (\<lambda>_. 8)"
    by (simp add: ptp_rx_ts_def io_rd_def io_wr_def io_step_def Let_def ptp_boot_def udp_state.defs quiet_env_def regfile_env_def)
  then have "unat (udp_get_data_length (buff (ptp_rx_state quiet_env (thisPtpPortInfo ?s) ?s)) 0x100) = 0"
    by (simp add: udp_get_data_length_def udp_get_packet_length_def mem_iord_def)
  then show ?thesis
    using ptp_handle_msg_bounds [OF ptp_boot_wf(2), of quiet_env "thisPtpPortInfo ?s" "\<lambda>_. 8" "0x100" PTP_BROADCAST_MAC]
    by (auto simp: Let_def split: sum.splits)
qed

section \<open>A message from one node to another\<close>

text \<open>What \<open>ptpv2_issue_msg\<close> hands to the controller.\<close>

lemma send_tx_frame:
  assumes "send_tx E tx dmac dip port len s = Some s'"
  shows "eth_mac_send E tx (ucast (len + 42)) (s\<lparr>buff := udp_store_checksums tx
      (udp_write_frame tx dmac (my_mac s) (ipv4_id s) (my_ip s) dip port port (msg_bytes (txPTPMsg s)) len (buff s))\<rparr>) = Some s'"
proof -
  obtain s1 where s1: "eth_mac_send E tx (ucast (len + 42)) (s\<lparr>buff := udp_store_checksums tx
      (udp_write_frame tx dmac (my_mac s) (ipv4_id s) (my_ip s) dip port port (msg_bytes (txPTPMsg s)) len (buff s))\<rparr>) = Some s1"
    and s': "s' = s1\<lparr>ipv4_id := ucast (ucast (ipv4_id s1) + (0x10000 :: u32))\<rparr>"
    using assms by (auto simp: send_tx_def udp_send_mac_def Let_def add.assoc split: option.splits)
  then show ?thesis by (simp add: udp_id_step)
qed

lemma ptp_io_keeps [simp]:
  "txPTPMsg (snd (io_rd E a s)) = txPTPMsg s" "rxPTPMsg (snd (io_rd E a s)) = rxPTPMsg s"
  "ptpTimeRecord (snd (io_rd E a s)) = ptpTimeRecord s" "my_mac (snd (io_rd E a s)) = my_mac s"
  "my_ip (snd (io_rd E a s)) = my_ip s" "ipv4_id (snd (io_rd E a s)) = ipv4_id s"
  by (simp_all add: io_rd_def io_step_def Let_def)

lemma io_trace [simp]:
  "trace (snd (io_rd E a s)) = IoRd a (fst (io_rd E a s)) # trace s" "trace (io_wr E a v s) = IoWr a v # trace s"
  by (simp_all add: io_rd_def io_wr_def Let_def)

text \<open>From \<open>s\<close> to \<open>s'\<close> there are only accesses to other devices than the Ethernet controller.\<close>

definition only_io :: "io_trace \<Rightarrow> bool" where
  "only_io tr \<longleftrightarrow> (\<forall>e \<in> set tr. \<exists>a v. e = IoRd a v \<or> e = IoWr a v)"

definition io_between :: "'a machine_scheme \<Rightarrow> 'b machine_scheme \<Rightarrow> bool" where
  "io_between s s' \<longleftrightarrow> (\<exists>tr. only_io tr \<and> trace s' = tr @ trace s)"

lemma area_ptp_io:
  assumes "keeps_area E x n" "n \<le> 2 ^ 32"
  shows "area x n (snd (io_rd E a s)) = area x n s" "area x n (io_wr E a v s) = area x n s"
  by (simp_all add: io_rd_def io_wr_def Let_def area_io_step [OF assms])

text \<open>The message a node is about to send, and the port and length it is sent with.\<close>

definition ptp_port :: "u32 \<Rightarrow> u16" where
  "ptp_port mt = (if mt = PTP_SYNC_MSGTYPE \<or> mt = PTP_DLYREQ_MSGTYPE then PTP_EVENT_PORT else PTP_GENERAL_PORT)"

definition ptp_len :: "u32 \<Rightarrow> u16" where
  "ptp_len mt = (if mt = PTP_DLYRPLY_MSGTYPE then 54 else 44)"

definition ptp_outgoing :: "u32 \<Rightarrow> u32 \<Rightarrow> PTPv2TimeRecord \<Rightarrow> PTPv2Msg \<Rightarrow> bool" where
  "ptp_outgoing mt seqId r m \<longleftrightarrow> msg_wf m \<and> transportSpec_msgType (head m) = ucast mt \<and>
     sequenceId (head m) = ucast seqId \<and> messageLength (head m) = ptp_len mt \<and>
     (mt = PTP_FOLLOW_MSGTYPE \<longrightarrow> seconds (body m) = t1Seconds r \<and> nanoseconds (body m) = t1Nanoseconds r) \<and>
     (mt = PTP_DLYRPLY_MSGTYPE \<longrightarrow> seconds (body m) = t4Seconds r \<and> nanoseconds (body m) = t4Nanoseconds r)"

text \<open>A buffer with the frame of message \<open>m\<close> at \<open>tx\<close>.\<close>

definition ptp_frame :: "u32 \<Rightarrow> u32 \<Rightarrow> u8 list \<Rightarrow> u8 list \<Rightarrow> 'a ptp_state_scheme \<Rightarrow> PTPv2Msg \<Rightarrow> buffer \<Rightarrow> buffer" where
  "ptp_frame mt tx dmac dip s m b = udp_store_checksums tx
     (udp_write_frame tx dmac (my_mac s) (ipv4_id s) (my_ip s) dip (ptp_port mt) (ptp_port mt) (msg_bytes m) (ptp_len mt) b)"

text \<open>The state in which \<open>ptpv2_issue_msg\<close> calls \<open>udp_send_mac\<close>.\<close>

definition ptp_prepared :: "env \<Rightarrow> PTPPortInfo \<Rightarrow> u32 \<Rightarrow> u32 \<Rightarrow> 'a ptp_state_scheme \<Rightarrow> 'a ptp_state_scheme" where
  "ptp_prepared E p seqId mt s =
     (let s = s\<lparr>txPTPMsg := (txPTPMsg s)\<lparr>head := fill_head p seqId mt (head (txPTPMsg s))\<rparr>\<rparr>;
          r = ptpTimeRecord s; m = txPTPMsg s;
          (sec, s1) = io_rd E (RTC_TIME_SEC (eth_base p)) s; (ns, s2) = io_rd E (RTC_TIME_NS (eth_base p)) s1
      in if mt = PTP_FOLLOW_MSGTYPE then s\<lparr>txPTPMsg := set_tx 44 0x2 (t1Seconds r) (t1Nanoseconds r) m\<rparr>
         else if mt = PTP_DLYRPLY_MSGTYPE then
           s\<lparr>txPTPMsg := set_tx 54 0x3 (t4Seconds r) (t4Nanoseconds r)
             (m\<lparr>body := (body m)\<lparr>requestingSourcePort := portIdentity (head (rxPTPMsg s)),
                                 requestingSourceId := portId (head (rxPTPMsg s))\<rparr>\<rparr>)\<rparr>
         else s2\<lparr>txPTPMsg := set_tx 44 (if mt = PTP_SYNC_MSGTYPE then 0x0 else 0x1) (sec AND 0xFFFFFFFF) ns m\<rparr>)"

lemma ptp_prepared_outgoing:
  assumes "mt \<in> {0, 1, 8, 9}" "msg_wf (txPTPMsg s)" "msg_wf (rxPTPMsg s)"
  shows "ptp_outgoing mt seqId (ptpTimeRecord s) (txPTPMsg (ptp_prepared E p seqId mt s))"
    "my_mac (ptp_prepared E p seqId mt s) = my_mac s" "my_ip (ptp_prepared E p seqId mt s) = my_ip s"
    "ipv4_id (ptp_prepared E p seqId mt s) = ipv4_id s"
    "io_between s (ptp_prepared E p seqId mt s)"
  using assms by (auto simp: ptp_prepared_def Let_def case_prod_beta ptp_outgoing_def ptp_len_def set_tx_def fill_head_def msg_wf_def
      io_between_def only_io_def)

lemma area_fields [simp]: "area x n (s\<lparr>ptpTimeRecord := r\<rparr>) = area x n s"
  by (simp add: area_def)

lemma issue_msg_sends:
  assumes "ptpv2_issue_msg E p tx dmac dip seqId mt s = Some (r, s')" "mt \<in> {0, 1, 8, 9}"
    and "keeps_area E x n" "n \<le> 2 ^ 32"
  shows "r = mt \<and> (\<exists>s1. send_tx E tx dmac dip (ptp_port mt) (ptp_len mt) (ptp_prepared E p seqId mt s) = Some s1 \<and>
    io_between s1 s' \<and> area x n s' = area x n s1)"
  using assms(1,2)
  by (auto simp: io_between_def only_io_def ptpv2_issue_msg_def ptp_prepared_def Let_def case_prod_beta ptp_port_def ptp_len_def
      area_ptp_io [OF assms(3,4)] split: option.splits)

lemma issue_msg_frame:
  fixes s :: "'a ptp_state_scheme"
  assumes "ptpv2_issue_msg E p tx dmac dip seqId mt s = Some (r, s')" "mt \<in> {0, 1, 8, 9}"
    and "msg_wf (txPTPMsg s)" "msg_wf (rxPTPMsg s)" "keeps_area E tx n" "n \<le> 2 ^ 32"
  shows "r = mt \<and> (\<exists>m (s1 :: 'a ptp_state_scheme) s2. ptp_outgoing mt seqId (ptpTimeRecord s) m \<and> io_between s s1 \<and>
    eth_mac_send E tx (ucast (ptp_len mt + 42)) (s1\<lparr>buff := ptp_frame mt tx dmac dip s m (buff s1)\<rparr>) = Some s2 \<and>
    io_between s2 s' \<and> same_frame n (buff s') tx (ptp_frame mt tx dmac dip s m (buff s1)) tx)"
proof -
  let ?s = "ptp_prepared E p seqId mt s"
  note prep = ptp_prepared_outgoing [OF assms(2-4)]
  obtain s2 where "r = mt" and s2: "send_tx E tx dmac dip (ptp_port mt) (ptp_len mt) ?s = Some s2"
    and after: "io_between s2 s'" "area tx n s' = area tx n s2"
    using issue_msg_sends [OF assms(1,2,5,6)] by blast
  have sent: "eth_mac_send E tx (ucast (ptp_len mt + 42)) (?s\<lparr>buff := ptp_frame mt tx dmac dip s (txPTPMsg ?s) (buff ?s)\<rparr>) = Some s2"
    using send_tx_frame [OF s2] prep(2-4) unfolding ptp_frame_def by simp
  have "same_frame n (buff s') tx (ptp_frame mt tx dmac dip s (txPTPMsg ?s) (buff ?s)) tx"
    using same_frame_trans [OF _ area_send [OF assms(5,6) sent]] after(2) by (simp add: area_eq_iff)
  with \<open>r = mt\<close> sent after(1) prep(1,5) show ?thesis by blast
qed

text \<open>Receiving such a frame.\<close>

lemma get_data_ptp_frame:
  assumes "aligned4 tx" "aligned4 rx" "same_frame (42 + unat (ptp_len mt)) b' rx (ptp_frame mt tx dmac dip s m b) tx"
    and "msg_wf m" "length old = 56"
  shows "\<exists>bs. udp_get_data b' rx old (ucast (udp_get_data_length b' rx)) = Inr (1, bs) \<and>
    head (msg_of_bytes bs) = head m \<and> seconds (body (msg_of_bytes bs)) = seconds (body m) \<and>
    nanoseconds (body (msg_of_bytes bs)) = nanoseconds (body m)"
proof -
  have len: "unat (ptp_len mt) \<le> 65507" "44 \<le> unat (ptp_len mt)" "unat (ptp_len mt) \<le> 56" by (simp_all add: ptp_len_def)
  have "udp_get_packet_length b' rx = udp_get_packet_length (ptp_frame mt tx dmac dip s m b) tx"
    using same_frame_byte [OF assms(3), of 38] same_frame_byte [OF assms(3), of 39] len(2)
    by (simp add: udp_get_packet_length_eq assms(1,2))
  then have n: "udp_get_data_length b' rx = ptp_len mt"
    by (simp add: udp_get_data_length_def ptp_frame_def udp_sent_length [OF assms(1) len(1)])
  let ?bs = "map (\<lambda>i. ucast (mem_iord_byte b' (rx + 42 + of_nat i))) [0..<unat (ptp_len mt)] @ drop (unat (ptp_len mt)) old"
  have get: "udp_get_data b' rx old (ucast (ptp_len mt)) = Inr (1, ?bs)"
    using udp_get_data_prefix [of "ucast (ptp_len mt)" old b' rx] len assms(5) by simp
  have "?bs ! i = msg_bytes m ! i" if "i < 44" for i
  proof -
    have "unat (42 + of_nat i :: u32) < 42 + unat (ptp_len mt)" using that len(2) by (simp add: unat_word_ariths unat_of_nat_u32)
    then have "mem_iord_byte b' (rx + 42 + of_nat i) = mem_iord_byte (ptp_frame mt tx dmac dip s m b) (tx + 42 + of_nat i)"
      using same_frame_byte [OF assms(3), of "42 + of_nat i"] by (simp add: add.assoc)
    also have "\<dots> = ucast (msg_bytes m ! i)"
      unfolding ptp_frame_def by (rule udp_sent_data [OF assms(1) len(1)]) (use that len in simp)
    finally show ?thesis using that len by (simp add: nth_append)
  qed
  then have "head (msg_of_bytes ?bs) = head (msg_of_bytes (msg_bytes m))"
    "seconds (body (msg_of_bytes ?bs)) = seconds (body (msg_of_bytes (msg_bytes m)))"
    "nanoseconds (body (msg_of_bytes ?bs)) = nanoseconds (body (msg_of_bytes (msg_bytes m)))"
    using msg_of_bytes_cong [of ?bs "msg_bytes m"] assms(4,5) len by simp_all
  with get n show ?thesis by (simp add: msg_roundtrip [OF assms(4)])
qed

lemma handle_ptp_frame:
  assumes "aligned4 tx" "aligned4 rx" "mt \<in> {0, 1, 8, 9}" "ptp_outgoing mt seqId r m" "msg_wf (rxPTPMsg n)"
    and "same_frame (42 + unat (ptp_len mt)) (buff (ptp_rx_state E q n)) rx (ptp_frame mt tx dmac dip s m b) tx"
  shows "\<exists>n'. ptpv2_handle_msg E q rx mac n = Inr (mt, n') \<and> head (rxPTPMsg n') = head m \<and>
     (mt = 8 \<longrightarrow> t1Seconds (ptpTimeRecord n') = t1Seconds r \<and> t1Nanoseconds (ptpTimeRecord n') = t1Nanoseconds r) \<and>
     (mt = 9 \<longrightarrow> t4Seconds (ptpTimeRecord n') = t4Seconds r \<and> t4Nanoseconds (ptpTimeRecord n') = t4Nanoseconds r)"
proof -
  let ?b = "buff (ptp_rx_state E q n)"
  have wf: "msg_wf m" and type: "transportSpec_msgType (head m) = ucast mt" using assms(4) by (simp_all add: ptp_outgoing_def)
  obtain bs where bs: "udp_get_data ?b rx (msg_bytes (rxPTPMsg n)) (ucast (udp_get_data_length ?b rx)) = Inr (1, bs)"
    and m: "head (msg_of_bytes bs) = head m" "seconds (body (msg_of_bytes bs)) = seconds (body m)"
      "nanoseconds (body (msg_of_bytes bs)) = nanoseconds (body m)"
    using get_data_ptp_frame [OF assms(1,2,6) wf, of "msg_bytes (rxPTPMsg n)"] assms(5) by auto
  show ?thesis
    using assms(3,4) type unfolding handle_msg_unfold case_prod_beta Let_def bs
    by (auto simp: m ptp_branches Let_def update_times_def ptp_outgoing_def)
qed

text \<open>C27: a message of one of the four types from one node to another.  When \<open>ptpv2_issue_msg\<close> returns it
  has made exactly one blocking transmission, of the UDP frame at \<open>tx\<close> with its length, and otherwise
  only accesses to other devices.  If the controller writes received frames elsewhere, the frame is
  still in the transmit area afterwards, and a node that handles the same bytes returns the type that
  was sent, sees the same sequence number, and its record takes over the time \<open>t1\<close> of a FOLLOW and the
  time \<open>t4\<close> of a delay reply.\<close>

theorem ptp_message_exchange:
  fixes s :: "'a ptp_state_scheme" and n :: "'b ptp_state_scheme"
  assumes "aligned4 tx" "aligned4 rx" "mt \<in> {0, 1, 8, 9}" "msg_wf (txPTPMsg s)" "msg_wf (rxPTPMsg s)"
    and "keeps_area E tx (42 + unat (ptp_len mt))"
    and "ptpv2_issue_msg E p tx dmac dip seqId mt s = Some (r, s')"
    and "msg_wf (rxPTPMsg n)" "same_frame (42 + unat (ptp_len mt)) (buff (ptp_rx_state E' q n)) rx (buff s') tx"
  shows "r = mt \<and>
    (\<exists>before after v vs. only_io before \<and> only_io after \<and> v AND 1 \<noteq> 0 \<and> (\<forall>w \<in> set vs. w AND 1 = 0) \<and>
       trace s' = after @ EthRd 4 v # map (EthRd 4) vs @
         [EthWr 0x400 (push_bit 16 (ucast (ptp_len mt + 42)) OR 0xF000), EthWr 0x404 tx, EthWr 4 1,
          EthRd 0x400 (eth_val E (before @ trace s) 0x400)] @ before @ trace s) \<and>
    (\<exists>n'. ptpv2_handle_msg E' q rx mac n = Inr (mt, n') \<and> sequenceId (head (rxPTPMsg n')) = ucast seqId \<and>
      (mt = 8 \<longrightarrow> t1Seconds (ptpTimeRecord n') = t1Seconds (ptpTimeRecord s) \<and>
                  t1Nanoseconds (ptpTimeRecord n') = t1Nanoseconds (ptpTimeRecord s)) \<and>
      (mt = 9 \<longrightarrow> t4Seconds (ptpTimeRecord n') = t4Seconds (ptpTimeRecord s) \<and>
                  t4Nanoseconds (ptpTimeRecord n') = t4Nanoseconds (ptpTimeRecord s)))"
proof -
  have small: "42 + unat (ptp_len mt) \<le> 2 ^ 32" by (simp add: ptp_len_def)
  obtain m s1 s2 where "r = mt" and out: "ptp_outgoing mt seqId (ptpTimeRecord s) m" and io: "io_between s s1" "io_between s2 s'"
    and sent: "eth_mac_send E tx (ucast (ptp_len mt + 42)) ((s1 :: 'a ptp_state_scheme)\<lparr>buff := ptp_frame mt tx dmac dip s m (buff s1)\<rparr>) = Some s2"
    and left: "same_frame (42 + unat (ptp_len mt)) (buff s') tx (ptp_frame mt tx dmac dip s m (buff s1)) tx"
    using issue_msg_frame [OF assms(7,3,4,5,6) small] by blast
  obtain bef aft where io': "only_io bef" "trace s1 = bef @ trace s" "only_io aft" "trace s' = aft @ trace s2"
    using io by (auto simp: io_between_def)
  obtain v vs where acc: "v AND 1 \<noteq> 0" "\<forall>w \<in> set vs. w AND 1 = 0" "trace s2 = EthRd 4 v # map (EthRd 4) vs @
      [EthWr 0x400 (push_bit 16 (ucast (ptp_len mt + 42)) OR 0xF000), EthWr 0x404 tx, EthWr 4 1,
       EthRd 0x400 (eth_val E (bef @ trace s) 0x400)] @ bef @ trace s"
    using eth_mac_send_trace [OF sent] io'(2) by auto
  have "\<exists>before after v vs. only_io before \<and> only_io after \<and> v AND 1 \<noteq> 0 \<and> (\<forall>w \<in> set vs. w AND 1 = 0) \<and>
       trace s' = after @ EthRd 4 v # map (EthRd 4) vs @
         [EthWr 0x400 (push_bit 16 (ucast (ptp_len mt + 42)) OR 0xF000), EthWr 0x404 tx, EthWr 4 1,
          EthRd 0x400 (eth_val E (before @ trace s) 0x400)] @ before @ trace s"
    using io' acc by (intro exI [of _ bef] exI [of _ aft] exI [of _ v] exI [of _ vs]) simp
  moreover have "sequenceId (head m) = ucast seqId" using out by (simp add: ptp_outgoing_def)
  ultimately show ?thesis
    using \<open>r = mt\<close> handle_ptp_frame [OF assms(1-3) out assms(8) same_frame_trans [OF assms(9) left], of mac] by metis
qed

lemma quiet_send_tx: "\<exists>s'. send_tx quiet_env tx dmac dip port len s = Some s'"
proof -
  obtain s1 where "eth_mac_send quiet_env tx (ucast (len + 8 + 20 + 14)) (s\<lparr>buff := udp_store_checksums tx
      (udp_write_frame tx dmac (my_mac s) (ipv4_id s) (my_ip s) dip port port (msg_bytes (txPTPMsg s)) len (buff s))\<rparr>) = Some s1"
    using quiet_send by blast
  then show ?thesis by (simp add: send_tx_def udp_send_mac_def Let_def)
qed

lemma quiet_issue_follow: "\<exists>s'. ptpv2_issue_msg quiet_env p tx dmac dip seqId 8 s = Some (8, s')"
proof -
  let ?s = "s\<lparr>txPTPMsg := (txPTPMsg s)\<lparr>head := fill_head p seqId 8 (head (txPTPMsg s))\<rparr>\<rparr>"
  obtain s1 where "send_tx quiet_env tx dmac dip PTP_GENERAL_PORT 44 (?s\<lparr>txPTPMsg := set_tx 44 0x2 (t1Seconds (ptpTimeRecord ?s))
      (t1Nanoseconds (ptpTimeRecord ?s)) (txPTPMsg ?s)\<rparr>) = Some s1"
    using quiet_send_tx by blast
  then show ?thesis by (simp add: ptpv2_issue_msg_def Let_def)
qed

text \<open>A FOLLOW with time 7 s and 8 ns, received at 0x100 by a node with the same controller.\<close>

theorem ptp_message_exchange_witness:
  "\<exists>s'. ptpv2_issue_msg quiet_env (thisPtpPortInfo (ptp_boot (\<lambda>_. 0))) 0x800 PTP_BROADCAST_MAC [10, 0, 0, 2] 5 8
       (ptp_boot (\<lambda>_. 0)) = Some (8, s') \<and>
     (\<exists>n'. ptpv2_handle_msg quiet_env (thisPtpPortInfo (ptp_boot (\<lambda>_. 0))) 0x100 [1, 2, 3, 4, 5, 6]
          (ptp_boot (moved 0x700 (buff s'))) = Inr (8, n') \<and>
        t1Seconds (ptpTimeRecord n') = 7 \<and> t1Nanoseconds (ptpTimeRecord n') = 8)"
proof -
  let ?s = "ptp_boot (\<lambda>_. 0)"
  obtain s' where s': "ptpv2_issue_msg quiet_env (thisPtpPortInfo ?s) 0x800 PTP_BROADCAST_MAC [10, 0, 0, 2] 5 8 ?s = Some (8, s')"
    using quiet_issue_follow by blast
  let ?n = "ptp_boot (moved 0x700 (buff s'))"
  have t1: "t1Seconds (ptpTimeRecord ?s) = 7" "t1Nanoseconds (ptpTimeRecord ?s) = 8"
    by (simp_all add: ptp_boot_def udp_state.defs)
  have al: "aligned4 0x800" "aligned4 0x100" "(8 :: u32) \<in> {0, 1, 8, 9}" by (simp_all add: aligned4_def)
  have plain: "dma quiet_env = (\<lambda>_ b. b)" by (simp add: quiet_env_def regfile_env_def)
  have "buff (ptp_rx_state quiet_env (thisPtpPortInfo ?s) ?n) = moved 0x700 (buff s')"
    by (simp add: ptp_rx_ts_def io_rd_def io_wr_def io_step_def Let_def ptp_boot_def udp_state.defs plain)
  then have wire: "same_frame k (buff (ptp_rx_state quiet_env (thisPtpPortInfo ?s) ?n)) 0x100 (buff s') 0x800" for k
    using same_frame_moved [of "0x700" k "buff s'" "0x100"] by (simp add: aligned4_def)
  show ?thesis
    using ptp_message_exchange [OF al ptp_boot_wf keeps_area_plain [OF plain] s' ptp_boot_wf(2) wire, of "[1, 2, 3, 4, 5, 6]"] s' t1
    by metis
qed

end
