(* ===== verification/Fifo.thy ===== *)
theory Fifo
  imports Eth_Prelude
begin

text \<open>
  The contract of a bounded first-in first-out queue, as the C code has it: entering an item answers 1
  or, when the queue is full, 0; an item is taken only after a test that there is one.  A client that
  runs any sequence of the two operations cannot tell the queue from a list.
\<close>

datatype 'a fifo_op = Put 'a | Take

datatype 'a fifo_out = Entered u8 | Got 'a | Nothing

text \<open>The specification: a list with at most \<open>n\<close> elements.\<close>

fun list_fifo :: "nat \<Rightarrow> 'a fifo_op list \<Rightarrow> 'a list \<Rightarrow> 'a fifo_out list \<times> 'a list" where
  "list_fifo n [] xs = ([], xs)"
| "list_fifo n (Put x # ops) xs =
     (if length xs < n then map_prod (Cons (Entered 1)) id (list_fifo n ops (xs @ [x]))
      else map_prod (Cons (Entered 0)) id (list_fifo n ops xs))"
| "list_fifo n (Take # ops) xs =
     (case xs of [] \<Rightarrow> map_prod (Cons Nothing) id (list_fifo n ops [])
      | x # xs \<Rightarrow> map_prod (Cons (Got x)) id (list_fifo n ops xs))"

text \<open>A client of a queue given by its operations: it takes an item only if one is pending.\<close>

fun run_fifo ::
  "('a \<Rightarrow> 'q \<Rightarrow> fault + (u8 \<times> 'q)) \<Rightarrow> ('q \<Rightarrow> fault + bool) \<Rightarrow> ('q \<Rightarrow> fault + ('a \<times> 'q)) \<Rightarrow> 'a fifo_op list \<Rightarrow> 'q \<Rightarrow>
     fault + ('a fifo_out list \<times> 'q)" where
  "run_fifo put pending get [] q = Inr ([], q)"
| "run_fifo put pending get (Put x # ops) q =
     (case put x q of
        Inl e \<Rightarrow> Inl e
      | Inr (r, q) \<Rightarrow> (case run_fifo put pending get ops q of Inl e \<Rightarrow> Inl e | Inr (os, q) \<Rightarrow> Inr (Entered r # os, q)))"
| "run_fifo put pending get (Take # ops) q =
     (case pending q of
        Inl e \<Rightarrow> Inl e
      | Inr p \<Rightarrow>
          if p then
            (case get q of
               Inl e \<Rightarrow> Inl e
             | Inr (x, q) \<Rightarrow>
                 (case run_fifo put pending get ops q of Inl e \<Rightarrow> Inl e | Inr (os, q) \<Rightarrow> Inr (Got x # os, q)))
          else (case run_fifo put pending get ops q of Inl e \<Rightarrow> Inl e | Inr (os, q) \<Rightarrow> Inr (Nothing # os, q)))"

locale bounded_fifo =
  fixes put :: "'a \<Rightarrow> 'q \<Rightarrow> fault + (u8 \<times> 'q)"
    and pending :: "'q \<Rightarrow> fault + bool"
    and get :: "'q \<Rightarrow> fault + ('a \<times> 'q)"
    and ok :: "nat \<Rightarrow> 'q \<Rightarrow> bool"
    and items :: "'q \<Rightarrow> 'a list"
    and good :: "'a \<Rightarrow> bool"
  assumes put_room: "ok n q \<Longrightarrow> good x \<Longrightarrow> length (items q) < n \<Longrightarrow>
      \<exists>q'. put x q = Inr (1, q') \<and> ok n q' \<and> items q' = items q @ [x]"
    and put_full: "ok n q \<Longrightarrow> good x \<Longrightarrow> \<not> length (items q) < n \<Longrightarrow> put x q = Inr (0, q)"
    and pending_iff: "ok n q \<Longrightarrow> pending q = Inr (items q \<noteq> [])"
    and get_item: "ok n q \<Longrightarrow> items q = x # xs \<Longrightarrow> \<exists>q'. get q = Inr (x, q') \<and> ok n q' \<and> items q' = xs"
begin

lemma refines_list:
  assumes "ok n q" "\<forall>x. Put x \<in> set ops \<longrightarrow> good x"
  shows "\<exists>q'. run_fifo put pending get ops q = Inr (fst (list_fifo n ops (items q)), q') \<and> ok n q' \<and>
    items q' = snd (list_fifo n ops (items q))"
  using assms
proof (induction ops arbitrary: q)
  case (Cons op ops)
  have good: "\<forall>x. Put x \<in> set ops \<longrightarrow> good x" using Cons.prems(2) by simp
  show ?case
  proof (cases op)
    case (Put x)
    show ?thesis
    proof (cases "length (items q) < n")
      case True
      then obtain q1 where "put x q = Inr (1, q1)" "ok n q1" "items q1 = items q @ [x]"
        using put_room [OF Cons.prems(1)] Cons.prems(2) Put by auto
      with Cons.IH [of q1] good True Put show ?thesis by auto
    next
      case False
      then have "put x q = Inr (0, q)" using put_full [OF Cons.prems(1)] Cons.prems(2) Put by simp
      with Cons.IH [OF Cons.prems(1) good] False Put show ?thesis by auto
    qed
  next
    case Take
    show ?thesis
    proof (cases "items q")
      case Nil
      then show ?thesis
        using Cons.IH [OF Cons.prems(1) good] pending_iff [OF Cons.prems(1)] Take by auto
    next
      case (Cons x xs)
      then obtain q1 where "get q = Inr (x, q1)" "ok n q1" "items q1 = xs"
        using get_item [OF Cons.prems(1)] by auto
      with Cons.IH [of q1] good Take pending_iff [OF Cons.prems(1)] Cons show ?thesis by auto
    qed
  qed
qed simp

end

section \<open>Positions in a ring\<close>

lemma ring_index:
  "r < N \<Longrightarrow> k \<le> N \<Longrightarrow> (r + k) mod N = (if r + k < N then r + k else r + k - N :: nat)"
  by (simp add: mod_if)

lemma ring_index_eq: "r < N \<Longrightarrow> k < N \<Longrightarrow> n < N \<Longrightarrow> (r + k) mod N = (r + n) mod N \<longleftrightarrow> k = (n :: nat)"
  by (auto simp: ring_index split: if_splits)

end
