(* ===== verification/Tte.thy ===== *)
theory Tte
  imports Eth_Mac_Driver Fifo
begin

text \<open>
  The time-triggered Ethernet layer \<^verbatim>\<open>c/ethlib/tte.c\<close>: synchronisation to the integration frames of a
  switch, a cyclic schedule of virtual links, a queue of frames per link, and the timer interrupt
  that sends them.  The global variables are the fields of \<open>tte_state\<close>; \<open>malloc\<close> yields arrays with
  arbitrary contents (arguments \<open>fresh\<close>); an access outside an array is a \<open>fault\<close>.  The timer, the
  interrupt controller and \<open>arm_clock_timer\<close> belong to the run-time system and appear in the trace.
\<close>

section \<open>State\<close>

record VL =
  max_queue :: u8
  startTime :: u32
  period :: u32
  queue :: "u32 list"
  sizeQueue :: "u32 list"
  addplace :: u8
  rmplace :: u8

record tte_state = machine +
  TTE_MAX_TRANS_DELAY :: u32
  TTE_COMP_DELAY :: u32
  TTE_PRECISION :: u32
  integration_period :: u32
  integration_cycle :: u32
  cluster_period :: u32
  tte_current_time :: u64
  timer_time :: u64
  clock_err :: u64
  clock_err_integral :: u64
  CT_marker :: "u8 list"
  max_sched :: u8
  tte_mac :: "u8 list"
  send_times :: "u64 list"
  send_time_i :: u32
  VLarray :: "VL list"
  VLsize :: u8
  sched :: "u32 list"
  VLsched :: "u32 list"
  startTick :: u32
  schedplace :: u8
  tte_receive_log_max_time :: u32
  handle_integration_frame_log_max_time :: u32
  tte_clear_free_rx_buffer_max_time :: u32

abbreviation CYCLES_PER_UNIT :: u32 where "CYCLES_PER_UNIT \<equiv> 8000"

definition arm_clock_timer :: "env \<Rightarrow> u64 \<Rightarrow> 'a machine_scheme \<Rightarrow> 'a machine_scheme" where
  "arm_clock_timer E t m = io_step E (ArmTimer t) m"

definition read_loclk :: "env \<Rightarrow> 'a machine_scheme \<Rightarrow> u32 \<times> 'a machine_scheme" where
  "read_loclk E m = io_rd E (timer_loclk E) m"

section \<open>Receiving\<close>

definition is_pcf :: "buffer \<Rightarrow> u32 \<Rightarrow> u8" where
  "is_pcf b addr =
     (let type_1 = mem_iord_byte b (addr + 12); type_2 = mem_iord_byte b (addr + 13)
      in if type_1 = 0x89 \<and> type_2 = 0x1D then 1 else 0)"

text \<open>
  Both loops of \<open>tte_wait_for_message\<close> start with \<open>continue\<close>, which goes to the condition of the
  loop: the assignment to \<open>receive_point\<close> and the test of the timeout are never reached.
\<close>

definition tte_wait_for_message :: "env \<Rightarrow> u64 \<Rightarrow> u64 \<Rightarrow> 'a machine_scheme \<Rightarrow> (u8 \<times> u64 \<times> 'a machine_scheme) option" where
  "tte_wait_for_message E receive_point timeout m =
     (if timeout = 0 then
        (case rx_poll E m of None \<Rightarrow> None | Some m \<Rightarrow> Some (1, receive_point, m))
      else
        let (start_time, m) = get_cpu_cycles E m
        in case rx_poll E m of None \<Rightarrow> None | Some m \<Rightarrow> Some (1, receive_point, m))"

definition tte_clear_free_rx_buffer :: "env \<Rightarrow> u32 \<Rightarrow> 'a tte_state_scheme \<Rightarrow> 'a tte_state_scheme" where
  "tte_clear_free_rx_buffer E addr s =
     (let (initMeasurement, s) = read_loclk E s;
          s = eth_iowr E 0x04 0x00000004 s;
          (cur_data, s) = eth_iord E addr s;
          s = eth_iowr E addr (cur_data OR push_bit 15 1) s;
          (now, s) = read_loclk E s;
          diffTemp = now - initMeasurement
      in if diffTemp > tte_clear_free_rx_buffer_max_time s then s\<lparr>tte_clear_free_rx_buffer_max_time := diffTemp\<rparr> else s)"

definition transClk_to_clk :: "u64 \<Rightarrow> u64" where
  "transClk_to_clk transClk = drop_bit 26 (drop_bit 16 (transClk * 10) * 536871)"

fun is_tte_from :: "u8 list \<Rightarrow> buffer \<Rightarrow> u32 \<Rightarrow> nat list \<Rightarrow> u8" where
  "is_tte_from ct b addr [] = 1"
| "is_tte_from ct b addr (i # is) =
     (if mem_iord_byte b (addr + of_nat i) \<noteq> ucast (ct ! i) then 0 else is_tte_from ct b addr is)"

definition is_tte :: "u8 list \<Rightarrow> buffer \<Rightarrow> u32 \<Rightarrow> u8" where
  "is_tte ct b addr = is_tte_from ct b addr [0..<4]"

text \<open>The two multi-byte fields of an integration frame, read byte by byte.\<close>

definition pcf_trans_clock :: "buffer \<Rightarrow> u32 \<Rightarrow> u64" where
  "pcf_trans_clock b addr =
     fold (\<lambda>i c. push_bit 8 c OR ucast (mem_iord_byte b (addr + of_nat i))) [35..<42] (ucast (mem_iord_byte b (addr + 34)))"

definition pcf_integration_cycle :: "buffer \<Rightarrow> u32 \<Rightarrow> u32" where
  "pcf_integration_cycle b addr =
     fold (\<lambda>i c. push_bit 8 c OR mem_iord_byte b (addr + of_nat i)) [15..<18] (mem_iord_byte b (addr + 14))"

text \<open>Integration cycle 0 starts the schedule again.\<close>

definition restart_schedule :: "env \<Rightarrow> 'a tte_state_scheme \<Rightarrow> 'a tte_state_scheme" where
  "restart_schedule E s =
     (if integration_cycle s = 0 then
        let s = s\<lparr>schedplace := 0, timer_time := tte_current_time s + ucast (CYCLES_PER_UNIT * startTick s)\<rparr>
        in arm_clock_timer E (timer_time s) s
      else s)"

definition handle_integration_frame ::
  "env \<Rightarrow> u32 \<Rightarrow> u64 \<Rightarrow> 'a tte_state_scheme \<Rightarrow> u32 \<times> 'a tte_state_scheme" where
  "handle_integration_frame E addr receive_pit s =
     (let trans_clock = transClk_to_clk (pcf_trans_clock (buff s) addr);
          s = s\<lparr>integration_cycle := pcf_integration_cycle (buff s) addr\<rparr>;
          permanence_pit = receive_pit + (ucast (TTE_MAX_TRANS_DELAY s) - trans_clock);
          s = (if tte_current_time s = 0
               then s\<lparr>tte_current_time := permanence_pit - ucast (2 * TTE_MAX_TRANS_DELAY s + TTE_COMP_DELAY s)\<rparr> else s);
          sched_rec_pit = tte_current_time s + ucast (2 * TTE_MAX_TRANS_DELAY s) + ucast (TTE_COMP_DELAY s);
          err = permanence_pit - sched_rec_pit
      in if permanence_pit > sched_rec_pit - ucast (TTE_PRECISION s) \<and>
            permanence_pit < sched_rec_pit + ucast (TTE_PRECISION s) then
           let s = s\<lparr>tte_current_time := tte_current_time s + err\<rparr>;
               s = restart_schedule E s
           in (1, s\<lparr>tte_current_time := tte_current_time s + ucast (integration_period s)\<rparr>)
         else (0, s\<lparr>tte_current_time := 0\<rparr>))"

text \<open>
  The variant with a log and a proportional-integral correction; the error goes to \<open>error[i]\<close>, and
  \<open>>>\<close> on a \<open>signed long long\<close> shifts the sign in.
\<close>

definition handle_integration_frame_log ::
  "env \<Rightarrow> u32 \<Rightarrow> u64 \<Rightarrow> u64 list \<Rightarrow> u32 \<Rightarrow> 'a tte_state_scheme \<Rightarrow> fault + (u32 \<times> u64 list \<times> 'a tte_state_scheme)" where
  "handle_integration_frame_log E addr receive_pit error i s =
     (let (initMeasurement, s) = read_loclk E s;
          trans_clock = transClk_to_clk (pcf_trans_clock (buff s) addr);
          s = s\<lparr>integration_cycle := pcf_integration_cycle (buff s) addr\<rparr>;
          permanence_pit = receive_pit + (ucast (TTE_MAX_TRANS_DELAY s) - trans_clock);
          s = (if tte_current_time s = 0
               then s\<lparr>tte_current_time := permanence_pit - ucast (2 * TTE_MAX_TRANS_DELAY s + TTE_COMP_DELAY s)\<rparr> else s);
          sched_rec_pit = tte_current_time s + ucast (2 * TTE_MAX_TRANS_DELAY s) + ucast (TTE_COMP_DELAY s);
          s = s\<lparr>clock_err := permanence_pit - sched_rec_pit\<rparr>
      in if unat i < length error then
           let error = error[unat i := clock_err s];
               (ans, s) =
                 (if permanence_pit > sched_rec_pit - ucast (TTE_PRECISION s) \<and>
                     permanence_pit < sched_rec_pit + ucast (TTE_PRECISION s) then
                    let s = s\<lparr>clock_err_integral := clock_err_integral s + clock_err s\<rparr>;
                        s = s\<lparr>tte_current_time := tte_current_time s + signed_drop_bit 10 (300 * clock_err s)
                               + signed_drop_bit 10 (700 * clock_err_integral s)\<rparr>;
                        s = restart_schedule E s
                    in (1, s\<lparr>tte_current_time := tte_current_time s + ucast (integration_period s)\<rparr>)
                  else (0, s));
               (now, s) = read_loclk E s;
               diffTemp = now - initMeasurement;
               s = (if diffTemp > handle_integration_frame_log_max_time s
                    then s\<lparr>handle_integration_frame_log_max_time := diffTemp\<rparr> else s)
           in Inr (ans, error, s)
         else Inl Out_of_bounds)"

text \<open>0 for a rejected integration frame, 1 for an accepted one, 2 for a time-triggered frame, 3 otherwise.\<close>

definition tte_receive :: "env \<Rightarrow> u32 \<Rightarrow> u64 \<Rightarrow> 'a tte_state_scheme \<Rightarrow> u8 \<times> 'a tte_state_scheme" where
  "tte_receive E addr rec_start s =
     (if is_pcf (buff s) addr \<noteq> 0 then
        (if mem_iord_byte (buff s) (addr + 28) = 0x2 then
           let (r, s) = handle_integration_frame E addr rec_start s in (if r \<noteq> 0 then 1 else 0, s)
         else (3, s))
      else if is_tte (CT_marker s) (buff s) addr \<noteq> 0 then (2, s)
      else (3, s))"

definition tte_receive_log ::
  "env \<Rightarrow> u32 \<Rightarrow> u64 \<Rightarrow> u64 list \<Rightarrow> u32 \<Rightarrow> 'a tte_state_scheme \<Rightarrow> fault + (u8 \<times> u64 list \<times> 'a tte_state_scheme)" where
  "tte_receive_log E addr rec_start error i s =
     (let (initMeasurement, s) = read_loclk E s
      in case
        (if is_pcf (buff s) addr \<noteq> 0 then
           (if mem_iord_byte (buff s) (addr + 28) = 0x2 then
              (case handle_integration_frame_log E addr rec_start error i s of
                 Inl e \<Rightarrow> Inl e
               | Inr (r, error, s) \<Rightarrow> Inr (if r \<noteq> 0 then 1 else 0, error, s))
            else Inr (3, error, s))
         else if is_tte (CT_marker s) (buff s) addr \<noteq> 0 then Inr (2, error, s)
         else Inr (3, error, s)) of
        Inl e \<Rightarrow> Inl e
      | Inr (ans, error, s) \<Rightarrow>
          let (now, s) = read_loclk E s;
              diffTemp = now - initMeasurement;
              s = (if diffTemp > tte_receive_log_max_time s then s\<lparr>tte_receive_log_max_time := diffTemp\<rparr> else s)
          in Inr (ans, error, s))"

section \<open>Virtual links and their schedule\<close>

text \<open>The cast in \<open>(unsigned char) cluster_period/period\<close> applies to \<open>cluster_period\<close> alone.\<close>

definition new_VL :: "u32 \<Rightarrow> u32 \<Rightarrow> u32 \<Rightarrow> VL" where
  "new_VL cluster start per =
     (let n = ucast ((ucast (ucast cluster :: u8) :: u32) div per) :: u8
      in \<lparr>max_queue = n, startTime = start, period = per, queue = replicate (unat n) 0,
          sizeQueue = replicate (unat n) 0, addplace = 0, rmplace = 0\<rparr>)"

definition tte_init_VL :: "u8 \<Rightarrow> u32 \<Rightarrow> u32 \<Rightarrow> 'a tte_state_scheme \<Rightarrow> fault + 'a tte_state_scheme" where
  "tte_init_VL i start per s =
     (if unat i < length (VLarray s) then
        if per = 0 then Inl Division_by_zero
        else Inr (s\<lparr>VLarray := (VLarray s)[unat i := new_VL (cluster_period s) start per]\<rparr>)
      else Inl Out_of_bounds)"

definition tte_initialize ::
  "env \<Rightarrow> (nat \<Rightarrow> VL) \<Rightarrow> u32 \<Rightarrow> u32 \<Rightarrow> u8 list \<Rightarrow> u8 \<Rightarrow> u32 \<Rightarrow> u32 \<Rightarrow> u32 \<Rightarrow> 'a tte_state_scheme \<Rightarrow> fault + 'a tte_state_scheme" where
  "tte_initialize E fresh int_period cl_period CT VLcount max_delay comp_delay precision s =
     (let s = s\<lparr>integration_period := int_period * CYCLES_PER_UNIT, cluster_period := cl_period,
                CT_marker := map (\<lambda>i. CT ! i) [0..<4], TTE_MAX_TRANS_DELAY := max_delay,
                TTE_COMP_DELAY := comp_delay, TTE_PRECISION := precision\<rparr>;
          (macAdd, s) = get_mac_address E s;
          s = s\<lparr>tte_mac := fst (fold (\<lambda>i (mac, macAdd). (mac[i := ucast (macAdd AND 0xFF)], drop_bit 8 macAdd))
                            (rev [0..<6]) (tte_mac s, macAdd))\<rparr>;
          s = eth_iowr E 0x00 0x0000A423 s;
          s = eth_iowr E 0x08 0x00000004 s;
          s = s\<lparr>VLarray := map fresh [0..<unat VLcount + 1], VLsize := VLcount + 1\<rparr>
      in tte_init_VL VLcount int_period int_period s)"

text \<open>The inner loop of the schedule: the earliest pending tick below \<open>min\<close>; \<open>VL\<close> is kept if there is none.\<close>

definition earliest :: "u32 list \<Rightarrow> u32 \<Rightarrow> 'v \<Rightarrow> (nat \<Rightarrow> 'v) \<Rightarrow> u32 \<times> 'v" where
  "earliest VLcurrent mn vl tag =
     fold (\<lambda>i (mn, vl). if VLcurrent ! i < mn then (VLcurrent ! i, tag i) else (mn, vl)) [0..<length VLcurrent] (mn, vl)"

function sched_loop ::
  "u32 \<Rightarrow> u32 list \<Rightarrow> u32 list \<Rightarrow> u32 \<Rightarrow> u32 \<Rightarrow> nat \<Rightarrow> u32 list \<Rightarrow> u32 list \<Rightarrow> fault + (u32 list \<times> u32 list)" where
  "sched_loop cluster periods VLcurrent current vl index sc vs =
     (let (mn, vl) = earliest VLcurrent (cluster * 2) vl of_nat
      in if index < length sc then
           let sc = sc[index := mn - current];
               vs = (if index + 1 < length sc then vs[index + 1 := vl] else vs);
               current = mn;
               VLcurrent = VLcurrent[unat vl := VLcurrent ! unat vl + periods ! unat vl]
           in if mn \<ge> cluster then Inr (sc, vs)
              else sched_loop cluster periods VLcurrent current vl (index + 1) sc vs
         else Inl Out_of_bounds)"
  by pat_completeness auto
termination
  by (relation "measure (\<lambda>(cluster, periods, VLcurrent, current, vl, index, sc, vs). length sc - index)") auto

text \<open>\<open>VL\<close> has no value if no link starts within the cluster period.\<close>

definition tte_generate_schedule :: "(nat \<Rightarrow> u32) \<Rightarrow> (nat \<Rightarrow> u32) \<Rightarrow> 'a tte_state_scheme \<Rightarrow> fault + 'a tte_state_scheme" where
  "tte_generate_schedule fresh fresh' s =
     (if unat (VLsize s) \<le> length (VLarray s) then
        let links = take (unat (VLsize s)) (VLarray s);
            VLcurrent = map startTime links;
            periods = map period links;
            (mn, vl) = earliest VLcurrent (cluster_period s) None Some;
            s = s\<lparr>max_sched := fold (\<lambda>v n. n + max_queue v) links 0\<rparr>
        in case vl of
             None \<Rightarrow> Inl Uninitialised
           | Some i \<Rightarrow>
               let s = s\<lparr>startTick := mn\<rparr>;
                   VLcurrent = VLcurrent[i := VLcurrent ! i + periods ! i];
                   sc = map fresh [0..<unat (max_sched s)];
                   vs = map fresh' [0..<unat (max_sched s)]
               in if max_sched s = 0 then Inl Out_of_bounds
                  else (case sched_loop (cluster_period s) periods VLcurrent mn (of_nat i) 0 sc (vs[0 := of_nat i]) of
                          Inl e \<Rightarrow> Inl e
                        | Inr (sc, vs) \<Rightarrow> Inr (s\<lparr>sched := sc, VLsched := vs\<rparr>))
      else Inl Out_of_bounds)"

definition tte_start_ticking ::
  "env \<Rightarrow> (nat \<Rightarrow> u32) \<Rightarrow> (nat \<Rightarrow> u32) \<Rightarrow> u8 \<Rightarrow> u8 \<Rightarrow> string \<Rightarrow> 'a tte_state_scheme \<Rightarrow> fault + 'a tte_state_scheme" where
  "tte_start_ticking E fresh fresh' log_sending enable_int int_handler s =
     (case tte_generate_schedule fresh fresh' s of
        Inl e \<Rightarrow> Inl e
      | Inr s \<Rightarrow>
          let timer_handler = (if log_sending \<noteq> 0 then ''tte_clock_tick_log'' else ''tte_clock_tick'');
              s = (if enable_int \<noteq> 0 then
                     let s = io_step E (ExcRegister 16 int_handler) s;
                         s = io_step E (ExcRegister 17 timer_handler) s;
                         s = io_step E (IntrUnmask 16) s
                     in io_step E (IntrUnmask 17) s
                   else io_step E (IntrUnmask 16) (io_step E (ExcRegister 16 timer_handler) s));
              s = io_step E IntrClearPending s;
              s = io_step E IntrEnable s
          in Inr (s\<lparr>tte_current_time := 0\<rparr>))"

section \<open>Frames\<close>

definition tte_prepare_header :: "u8 list \<Rightarrow> u8 list \<Rightarrow> u32 \<Rightarrow> u8 list \<Rightarrow> u8 list \<Rightarrow> buffer \<Rightarrow> buffer" where
  "tte_prepare_header ct mac tx_addr vl ethType b =
     (let b = fold (\<lambda>i b. mem_iowr_byte b (tx_addr + of_nat i) (ucast (ct ! i))) [0..<4] b;
          b = mem_iowr_byte b (tx_addr + 4) (ucast (vl ! 0));
          b = mem_iowr_byte b (tx_addr + 5) (ucast (vl ! 1));
          b = fold (\<lambda>i b. mem_iowr_byte b (tx_addr + of_nat i) (ucast (mac ! (i - 6)))) [6..<12] b;
          b = mem_iowr_byte b (tx_addr + 12) (ucast (ethType ! 0))
      in mem_iowr_byte b (tx_addr + 13) (ucast (ethType ! 1)))"

text \<open>\<open>data\<close> is read from index 14 on.\<close>

definition tte_prepare_data :: "u8 list \<Rightarrow> u8 list \<Rightarrow> u32 \<Rightarrow> u8 list \<Rightarrow> u8 list \<Rightarrow> u32 \<Rightarrow> buffer \<Rightarrow> fault + buffer" where
  "tte_prepare_data ct mac tx_addr vl data len b =
     (let ethType = [ucast (signed_drop_bit 8 (len - 14) AND 0xFF), ucast ((len - 14) AND 0xFF)];
          b = tte_prepare_header ct mac tx_addr vl ethType b;
          n = nat (sint len)
      in if n \<le> max 14 (length data) then Inr (fold (\<lambda>i b. mem_iowr_byte b (tx_addr + of_nat i) (ucast (data ! i))) [14..<n] b)
         else Inl Out_of_bounds)"

definition tte_prepare_pcf :: "u8 list \<Rightarrow> u8 list \<Rightarrow> u32 \<Rightarrow> u8 list \<Rightarrow> u8 \<Rightarrow> buffer \<Rightarrow> buffer" where
  "tte_prepare_pcf ct mac addr vl type b =
     (let b = tte_prepare_header ct mac addr vl [0x89, 0x1D] b;
          b = fold (\<lambda>i b. mem_iowr_byte b (addr + of_nat i) 0x00) [14..<18] b;
          b = fold (\<lambda>i b. mem_iowr_byte b (addr + of_nat i) 0x00) [18..<21] b;
          b = mem_iowr_byte b (addr + 21) 0x02;
          b = mem_iowr_byte b (addr + 26) 0x01;
          b = mem_iowr_byte b (addr + 27) 0x01;
          b = mem_iowr_byte b (addr + 28) (ucast type)
      in fold (\<lambda>i b. mem_iowr_byte b (addr + of_nat i) 0x00) [34..<42] b)"

text \<open>After \<open>free\<close> there is no array that may be accessed.\<close>

definition tte_stop_ticking :: "'a tte_state_scheme \<Rightarrow> 'a tte_state_scheme" where
  "tte_stop_ticking s = s\<lparr>VLarray := []\<rparr>"

section \<open>Queues\<close>

text \<open>Entering a frame at \<open>addplace\<close> if the slot is free; a free slot holds address 0.\<close>

definition vl_put :: "u32 \<Rightarrow> u32 \<Rightarrow> VL \<Rightarrow> fault + (u8 \<times> VL)" where
  "vl_put addr frame_size v =
     (let a = unat (addplace v)
      in if a < length (queue v) \<and> a < length (sizeQueue v) then
           if queue v ! a = 0 then
             let v = v\<lparr>queue := (queue v)[a := addr], sizeQueue := (sizeQueue v)[a := frame_size], addplace := addplace v + 1\<rparr>
             in Inr (1, if addplace v = max_queue v then v\<lparr>addplace := 0\<rparr> else v)
           else Inr (0, v)
         else Inl Out_of_bounds)"

text \<open>Taking the frame at \<open>rmplace\<close> out: its slot is freed, and after the transmission the place moves on.\<close>

definition vl_fetch :: "VL \<Rightarrow> fault + ((u32 \<times> u32) \<times> VL)" where
  "vl_fetch v =
     (let r = unat (rmplace v)
      in if r < length (queue v) \<and> r < length (sizeQueue v)
         then Inr ((queue v ! r, sizeQueue v ! r), v\<lparr>queue := (queue v)[r := 0]\<rparr>)
         else Inl Out_of_bounds)"

definition vl_advance :: "VL \<Rightarrow> VL" where
  "vl_advance v =
     (let v = v\<lparr>rmplace := rmplace v + 1\<rparr>
      in if rmplace v = max_queue v then v\<lparr>rmplace := 0\<rparr> else v)"

definition vl_take :: "VL \<Rightarrow> fault + ((u32 \<times> u32) \<times> VL)" where
  "vl_take v = (case vl_fetch v of Inl e \<Rightarrow> Inl e | Inr (x, v) \<Rightarrow> Inr (x, vl_advance v))"

definition tte_schedule_send :: "u32 \<Rightarrow> u32 \<Rightarrow> u8 \<Rightarrow> 'a tte_state_scheme \<Rightarrow> fault + (u8 \<times> 'a tte_state_scheme)" where
  "tte_schedule_send addr frame_size i s =
     (if unat i < length (VLarray s) then
        (case vl_put addr frame_size (VLarray s ! unat i) of
           Inl e \<Rightarrow> Inl e
         | Inr (r, v) \<Rightarrow> Inr (r, s\<lparr>VLarray := (VLarray s)[unat i := v]\<rparr>))
      else Inl Out_of_bounds)"

definition tte_send_data :: "env \<Rightarrow> u8 \<Rightarrow> 'a tte_state_scheme \<Rightarrow> (fault + 'a tte_state_scheme) option" where
  "tte_send_data E i s =
     (if unat i < length (VLarray s) then
        (case vl_fetch (VLarray s ! unat i) of
           Inl e \<Rightarrow> Some (Inl e)
         | Inr ((tx_addr, frame_size), v) \<Rightarrow>
             (case eth_mac_send E tx_addr frame_size (s\<lparr>VLarray := (VLarray s)[unat i := v]\<rparr>) of
                None \<Rightarrow> None
              | Some s \<Rightarrow> Some (Inr (s\<lparr>VLarray := (VLarray s)[unat i := vl_advance (VLarray s ! unat i)]\<rparr>))))
      else Some (Inl Out_of_bounds))"

section \<open>The timer interrupt\<close>

text \<open>The part the two handlers share: advance in the schedule and arm the timer.\<close>

definition tick_advance :: "env \<Rightarrow> 'a tte_state_scheme \<Rightarrow> fault + (u32 \<times> 'a tte_state_scheme)" where
  "tick_advance E s =
     (let p = unat (schedplace s)
      in if p < length (sched s) \<and> p < length (VLsched s) then
           let s = s\<lparr>timer_time := timer_time s + ucast (CYCLES_PER_UNIT * sched s ! p)\<rparr>;
               i = VLsched s ! p;
               s = s\<lparr>schedplace := schedplace s + 1\<rparr>
           in if schedplace s < max_sched s then
                if unat (schedplace s) < length (VLsched s) then
                  let s = (if VLsched s ! unat (schedplace s) = ucast (VLsize s) - 1
                           then s\<lparr>timer_time := tte_current_time s\<rparr> else s)
                  in Inr (i, arm_clock_timer E (timer_time s) s)
                else Inl Out_of_bounds
              else Inr (i, s)
         else Inl Out_of_bounds)"

text \<open>Whether the link has a frame to send.\<close>

definition vl_has_frame :: "VL \<Rightarrow> fault + bool" where
  "vl_has_frame v = (if unat (rmplace v) < length (queue v) then Inr (queue v ! unat (rmplace v) > 0) else Inl Out_of_bounds)"

definition vl_pending :: "u32 \<Rightarrow> 'a tte_state_scheme \<Rightarrow> fault + bool" where
  "vl_pending i s = (if unat i < length (VLarray s) then vl_has_frame (VLarray s ! unat i) else Inl Out_of_bounds)"

definition tte_clock_tick :: "env \<Rightarrow> 'a tte_state_scheme \<Rightarrow> (fault + 'a tte_state_scheme) option" where
  "tte_clock_tick E s =
     (case tick_advance E s of
        Inl e \<Rightarrow> Some (Inl e)
      | Inr (i, s) \<Rightarrow>
          (case vl_pending i s of
             Inl e \<Rightarrow> Some (Inl e)
           | Inr pending \<Rightarrow> if pending then tte_send_data E (ucast i) s else Some (Inr s)))"

definition tte_clock_tick_log :: "env \<Rightarrow> 'a tte_state_scheme \<Rightarrow> (fault + 'a tte_state_scheme) option" where
  "tte_clock_tick_log E s =
     (case tick_advance E s of
        Inl e \<Rightarrow> Some (Inl e)
      | Inr (i, s) \<Rightarrow>
          (case vl_pending i s of
             Inl e \<Rightarrow> Some (Inl e)
           | Inr pending \<Rightarrow>
               if pending then
                 let (t, s) = get_cpu_cycles E s
                 in if unat (send_time_i s) < length (send_times s) then
                      tte_send_data E (ucast i)
                        (s\<lparr>send_times := (send_times s)[unat (send_time_i s) := t], send_time_i := send_time_i s + 1\<rparr>)
                    else Some (Inl Out_of_bounds)
               else Some (Inr s)))"

section \<open>A queue is a FIFO\<close>

text \<open>Slot \<open>k\<close> of the ring, counted from \<open>rmplace\<close>; the frames are those up to the first free slot.\<close>

definition vl_slot :: "VL \<Rightarrow> nat \<Rightarrow> u32 \<times> u32" where
  "vl_slot v k = (let i = (unat (rmplace v) + k) mod unat (max_queue v) in (queue v ! i, sizeQueue v ! i))"

definition vl_items :: "VL \<Rightarrow> (u32 \<times> u32) list" where
  "vl_items v = takeWhile (\<lambda>(a, _). a \<noteq> 0) (map (vl_slot v) [0..<unat (max_queue v)])"

definition vl_ring :: "nat \<Rightarrow> VL \<Rightarrow> bool" where
  "vl_ring n v \<longleftrightarrow>
     length (queue v) = unat (max_queue v) \<and> length (sizeQueue v) = unat (max_queue v) \<and>
     unat (rmplace v) < unat (max_queue v) \<and> n \<le> unat (max_queue v) \<and>
     unat (addplace v) = (unat (rmplace v) + n) mod unat (max_queue v) \<and>
     (\<forall>k < unat (max_queue v). fst (vl_slot v k) \<noteq> 0 \<longleftrightarrow> k < n)"

definition vl_ok :: "nat \<Rightarrow> VL \<Rightarrow> bool" where
  "vl_ok N v \<longleftrightarrow> unat (max_queue v) = N \<and> vl_ring (length (vl_items v)) v"

lemma vl_items_ring:
  assumes "vl_ring n v"
  shows "vl_items v = map (vl_slot v) [0..<n]"
proof -
  let ?N = "unat (max_queue v)"
  have n: "n \<le> ?N" and iff: "\<And>k. k < ?N \<Longrightarrow> fst (vl_slot v k) \<noteq> 0 \<longleftrightarrow> k < n" using assms by (simp_all add: vl_ring_def)
  have split: "map (vl_slot v) [0..<?N] = map (vl_slot v) [0..<n] @ map (vl_slot v) [n..<?N]"
    using n upt_add_eq_append [of 0 n "?N - n"] by (simp flip: map_append)
  have "takeWhile (\<lambda>(a, _). a \<noteq> 0) (map (vl_slot v) [n..<?N]) = []"
    using iff [of n] n by (cases "n < ?N") (auto simp: upt_conv_Cons split: prod.splits)
  moreover have "\<forall>x \<in> set (map (vl_slot v) [0..<n]). (\<lambda>(a, _). a \<noteq> 0) x"
    using iff n by (auto simp: case_prod_beta)
  ultimately show ?thesis unfolding vl_items_def split
    by (metis (no_types, lifting) append_Nil2 takeWhile_append2)
qed

lemma vl_okI: "vl_ring n v \<Longrightarrow> vl_ok (unat (max_queue v)) v"
  using vl_items_ring [of n v] by (simp add: vl_ok_def)

lemma unat_less_8: "unat (c :: u8) < 256"
  using unsigned_less [of c] by simp

text \<open>Advancing a place by one.\<close>

lemma advance_place:
  assumes "unat (p :: u8) < unat n"
  shows "unat (if p + 1 = n then 0 else p + 1) = (unat p + 1) mod unat n"
proof -
  have "unat (p + 1) = unat p + 1" using assms unat_less_8 [of n] by (simp add: unat_word_ariths)
  moreover from this have "p + 1 = n \<longleftrightarrow> unat p + 1 = unat n" by (simp add: word_unat_eq_iff)
  ultimately show ?thesis using assms by auto
qed

lemma vl_put_ring:
  assumes "vl_ring n v" "n < unat (max_queue v)" "addr \<noteq> 0"
  shows "\<exists>v'. vl_put addr sz v = Inr (1, v') \<and> max_queue v' = max_queue v \<and> vl_ring (Suc n) v' \<and>
    map (vl_slot v') [0..<Suc n] = map (vl_slot v) [0..<n] @ [(addr, sz)]"
proof -
  let ?N = "unat (max_queue v)" and ?r = "unat (rmplace v)" and ?a = "unat (addplace v)"
  let ?p = "if addplace v + 1 = max_queue v then 0 else addplace v + 1"
  let ?v = "v\<lparr>queue := (queue v)[?a := addr], sizeQueue := (sizeQueue v)[?a := sz], addplace := ?p\<rparr>"
  have r: "?r < ?N" and len: "length (queue v) = ?N" "length (sizeQueue v) = ?N" and a: "?a = (?r + n) mod ?N"
    and iff: "\<And>k. k < ?N \<Longrightarrow> fst (vl_slot v k) \<noteq> 0 \<longleftrightarrow> k < n"
    using assms(1) by (simp_all add: vl_ring_def)
  have aN: "?a < ?N" using r a by simp
  have free: "queue v ! ?a = 0" using iff [OF assms(2)] by (simp add: vl_slot_def Let_def a)
  have slot: "vl_slot ?v k = (if k = n then (addr, sz) else vl_slot v k)" if "k < ?N" for k
    using ring_index_eq [OF r that assms(2)] aN len
    by (auto simp: vl_slot_def Let_def a nth_list_update)
  have "unat ?p = (?r + Suc n) mod ?N"
    unfolding advance_place [OF aN] a by (simp add: mod_add_left_eq mod_Suc_eq)
  then have "vl_ring (Suc n) ?v"
    using assms r len iff slot by (auto simp: vl_ring_def)
  moreover have "vl_put addr sz v = Inr (1, ?v)"
    using aN len free by (simp add: vl_put_def Let_def)
  moreover have "map (vl_slot ?v) [0..<Suc n] = map (vl_slot v) [0..<n] @ [(addr, sz)]"
    using slot assms(2) by simp
  moreover have "max_queue ?v = max_queue v" by simp
  ultimately show ?thesis by blast
qed

lemma vl_take_ring:
  assumes "vl_ring (Suc n) v"
  shows "\<exists>v'. vl_take v = Inr (vl_slot v 0, v') \<and> max_queue v' = max_queue v \<and> vl_ring n v' \<and>
    map (vl_slot v') [0..<n] = map (vl_slot v) [1..<Suc n]"
proof -
  let ?N = "unat (max_queue v)" and ?r = "unat (rmplace v)"
  let ?p = "if rmplace v + 1 = max_queue v then 0 else rmplace v + 1"
  let ?v = "v\<lparr>queue := (queue v)[?r := 0], rmplace := ?p\<rparr>"
  have r: "?r < ?N" and len: "length (queue v) = ?N" "length (sizeQueue v) = ?N" and n: "Suc n \<le> ?N"
    and a: "unat (addplace v) = (?r + Suc n) mod ?N"
    and iff: "\<And>k. k < ?N \<Longrightarrow> fst (vl_slot v k) \<noteq> 0 \<longleftrightarrow> k < Suc n"
    using assms by (simp_all add: vl_ring_def)
  have p: "unat ?p = (?r + 1) mod ?N" by (rule advance_place [OF r])
  then have pN: "unat ?p < ?N" using r by simp
  have idx: "(unat ?p + k) mod ?N = (?r + Suc k) mod ?N" for k
    unfolding p by (simp add: mod_add_left_eq mod_Suc_eq)
  have slot: "vl_slot ?v k = vl_slot v (Suc k)" if "Suc k < ?N" for k
    using ring_index_eq [OF r that, of 0] r len that unfolding vl_slot_def Let_def
    by (simp add: idx nth_list_update del: add_Suc_right)
  have last: "fst (vl_slot ?v k) = 0" if "Suc k = ?N" for k
    using that r len unfolding vl_slot_def Let_def by (simp add: idx del: add_Suc_right)
  have "fst (vl_slot ?v k) \<noteq> 0 \<longleftrightarrow> k < n" if "k < ?N" for k
    using slot [of k] last [of k] iff [of "Suc k"] that n by (cases "Suc k = ?N") auto
  then have "vl_ring n ?v"
    using n len pN a idx [of n] by (simp add: vl_ring_def)
  moreover have "vl_take v = Inr (vl_slot v 0, ?v)"
    using r len by (simp add: vl_take_def vl_fetch_def vl_advance_def vl_slot_def Let_def)
  moreover have "map (vl_slot ?v) [0..<n] = map (vl_slot v) [1..<Suc n]"
    using slot n by (intro nth_equalityI) (auto simp del: upt_Suc)
  moreover have "max_queue ?v = max_queue v" by simp
  ultimately show ?thesis by blast
qed

text \<open>The operations of a link on its queue, as a queue of pairs of address and length.\<close>

abbreviation vl_enter :: "u32 \<times> u32 \<Rightarrow> VL \<Rightarrow> fault + (u8 \<times> VL)" where
  "vl_enter x v \<equiv> vl_put (fst x) (snd x) v"

interpretation vlq: bounded_fifo vl_enter vl_has_frame vl_take vl_ok vl_items "\<lambda>x. fst x \<noteq> 0"
proof
  fix N and v :: VL and x :: "u32 \<times> u32"
  assume ok: "vl_ok N v"
  let ?n = "length (vl_items v)"
  have N: "unat (max_queue v) = N" and ring: "vl_ring ?n v" using ok by (simp_all add: vl_ok_def)
  have items: "vl_items v = map (vl_slot v) [0..<?n]" by (rule vl_items_ring [OF ring])
  have dims: "unat (rmplace v) < N" "length (queue v) = N" "length (sizeQueue v) = N" "?n \<le> N"
    "unat (addplace v) = (unat (rmplace v) + ?n) mod N"
    and iff: "\<And>k. k < N \<Longrightarrow> fst (vl_slot v k) \<noteq> 0 \<longleftrightarrow> k < ?n"
    using ring N by (simp_all add: vl_ring_def)
  have slot0: "fst (vl_slot v 0) = queue v ! unat (rmplace v)" using dims N by (simp add: vl_slot_def Let_def)
  show "\<exists>v'. vl_enter x v = Inr (1, v') \<and> vl_ok N v' \<and> vl_items v' = vl_items v @ [x]"
    if "fst x \<noteq> 0" "length (vl_items v) < N"
    using vl_put_ring [OF ring _ that(1), of "snd x"] that(2) N items by (metis vl_items_ring vl_okI prod.collapse)
  show "vl_enter x v = Inr (0, v)" if "fst x \<noteq> 0" "\<not> length (vl_items v) < N"
  proof -
    have full: "?n = N" using that dims by simp
    then have "unat (addplace v) = unat (rmplace v)" using dims by simp
    moreover have "queue v ! unat (rmplace v) \<noteq> 0" using iff [of 0] dims full slot0 by auto
    ultimately show ?thesis using dims by (simp add: vl_put_def Let_def)
  qed
  have "queue v ! unat (rmplace v) > 0 \<longleftrightarrow> vl_items v \<noteq> []"
    using iff [of 0] dims slot0 by (auto simp: word_gt_0)
  then show "vl_has_frame v = Inr (vl_items v \<noteq> [])"
    using dims by (simp add: vl_has_frame_def)
  show "\<exists>v'. vl_take v = Inr (y, v') \<and> vl_ok N v' \<and> vl_items v' = ys" if "vl_items v = y # ys" for y ys
  proof -
    have n: "?n = Suc (length ys)" using that by simp
    obtain v' where v': "vl_take v = Inr (vl_slot v 0, v')" "max_queue v' = max_queue v" "vl_ring (length ys) v'"
      "map (vl_slot v') [0..<length ys] = map (vl_slot v) [1..<Suc (length ys)]"
      using vl_take_ring ring n by auto
    have "y # ys = vl_slot v 0 # map (vl_slot v) [1..<Suc (length ys)]"
      using items that n by (simp add: upt_conv_Cons del: upt_Suc)
    with v' N show ?thesis by (metis list.inject vl_items_ring vl_okI)
  qed
qed

text \<open>\<open>tte_send_data\<close> is the removal from the queue around one transmission: the controller does not touch the queues.\<close>

lemma tte_send_data_takes:
  fixes s :: "'a tte_state_scheme"
  shows "tte_send_data E i s =
     (if unat i < length (VLarray s) then
        (case vl_take (VLarray s ! unat i) of
           Inl e \<Rightarrow> Some (Inl e)
         | Inr ((tx_addr, frame_size), v) \<Rightarrow>
             map_option (\<lambda>s'. Inr (s'\<lparr>VLarray := (VLarray s)[unat i := v]\<rparr>))
               (eth_mac_send E tx_addr frame_size
                 (s\<lparr>VLarray := (VLarray s)[unat i := snd (projr (vl_fetch (VLarray s ! unat i)))]\<rparr>)))
      else Some (Inl Out_of_bounds))"
proof -
  have keep: "VLarray s2 = VLarray s1" if "eth_mac_send E tx n s1 = Some s2" for tx n and s1 s2 :: "'a tte_state_scheme"
    using send_stable [OF that, of VLarray] by (simp add: io_step_def)
  show ?thesis
    by (auto simp: tte_send_data_def vl_take_def split: option.splits sum.splits dest!: keep)
qed

text \<open>C8: the queue of a virtual link is a FIFO of at most \<open>max_queue\<close> frames: any sequence of
  \<open>tte_schedule_send\<close> (with addresses other than 0, which marks a free slot) and of the guarded
  removal in the timer interrupt answers like a list.\<close>

theorem vl_queue_refines_fifo:
  assumes "vl_ok n v" "\<forall>x. Put x \<in> set ops \<longrightarrow> fst x \<noteq> 0"
  shows "\<exists>v'. run_fifo vl_enter vl_has_frame vl_take ops v = Inr (fst (list_fifo n ops (vl_items v)), v') \<and>
    vl_ok n v' \<and> vl_items v' = snd (list_fifo n ops (vl_items v))"
  using vlq.refines_list [OF assms] .

text \<open>A new link has an empty queue.\<close>

lemma new_VL_ok:
  assumes "max_queue (new_VL cluster start per) \<noteq> 0"
  shows "vl_ok (unat (max_queue (new_VL cluster start per))) (new_VL cluster start per)" "vl_items (new_VL cluster start per) = []"
proof -
  let ?v = "new_VL cluster start per"
  have "0 < unat (max_queue ?v)" using assms by (simp add: unat_gt_0)
  then have "vl_ring 0 ?v" by (auto simp: vl_ring_def vl_slot_def new_VL_def Let_def)
  then show "vl_ok (unat (max_queue ?v)) ?v" "vl_items ?v = []"
    using vl_okI vl_items_ring by (auto simp del: upt_Suc)
qed

theorem vl_queue_refines_fifo_witness:
  "\<exists>v'. run_fifo vl_enter vl_has_frame vl_take [Put (0x2600, 400), Put (0x2C00, 300), Put (0x3200, 800), Take, Put (0x3200, 800)]
      (new_VL 200 8 100) = Inr ([Entered 1, Entered 1, Entered 0, Got (0x2600, 400), Entered 1], v')"
proof -
  have two: "max_queue (new_VL 200 8 100) = 2" by (simp add: new_VL_def Let_def)
  have "vl_ok 2 (new_VL 200 8 100)" "vl_items (new_VL 200 8 100) = []"
    using new_VL_ok [of 200 8 100] by (simp_all add: two)
  then show ?thesis
    using vl_queue_refines_fifo [of 2 "new_VL 200 8 100" "[Put (0x2600, 400), Put (0x2C00, 300), Put (0x3200, 800), Take, Put (0x3200, 800)]"]
    by auto
qed

section \<open>The schedule\<close>

text \<open>
  The specification of the schedule: the ticks of all links within the cluster period, merged by
  time (the link with the lower number first), from the next tick and the period of every link.
\<close>

definition ticks :: "nat \<Rightarrow> nat \<Rightarrow> nat \<Rightarrow> nat" where
  "ticks C p t = (if t < C then Suc ((C - 1 - t) div p) else 0)"

lemma less_ticks_iff:
  assumes "0 < p"
  shows "k < ticks C p t \<longleftrightarrow> t + k * p < C"
proof (cases "t < C")
  case True
  have "k < ticks C p t \<longleftrightarrow> k \<le> (C - 1 - t) div p" using True by (auto simp: ticks_def)
  also have "\<dots> \<longleftrightarrow> k * p \<le> C - 1 - t" using assms by (simp add: less_eq_div_iff_mult_less_eq)
  also have "\<dots> \<longleftrightarrow> t + k * p < C" using True by auto
  finally show ?thesis .
qed (simp add: ticks_def)

lemma ticks_step: "0 < p \<Longrightarrow> t < C \<Longrightarrow> ticks C p t = Suc (ticks C p (t + p))"
proof -
  assume "0 < p" "t < C"
  then have "k < ticks C p t \<longleftrightarrow> k < Suc (ticks C p (t + p))" for k
    by (cases k) (auto simp: less_ticks_iff algebra_simps)
  then show ?thesis by (metis nat_neq_iff less_irrefl)
qed

definition argmin :: "nat list \<Rightarrow> nat" where
  "argmin cs = length (takeWhile (\<lambda>c. c \<noteq> Min (set cs)) cs)"

lemma argmin:
  assumes "cs \<noteq> []"
  shows "argmin cs < length cs" "cs ! argmin cs = Min (set cs)" "j < length cs \<Longrightarrow> cs ! argmin cs \<le> cs ! j"
    "j < argmin cs \<Longrightarrow> cs ! argmin cs < cs ! j"
proof -
  have "length (takeWhile P xs) < length xs" if "\<exists>x \<in> set xs. \<not> P x" for P and xs :: "nat list"
    using that by (induction xs) auto
  then show lt: "argmin cs < length cs" using assms unfolding argmin_def by simp
  show eq: "cs ! argmin cs = Min (set cs)"
    using nth_length_takeWhile [of "\<lambda>c. c \<noteq> Min (set cs)" cs] lt by (simp add: argmin_def)
  show "j < length cs \<Longrightarrow> cs ! argmin cs \<le> cs ! j" by (simp add: eq)
  show "j < argmin cs \<Longrightarrow> cs ! argmin cs < cs ! j"
  proof -
    assume j: "j < argmin cs"
    then have "takeWhile (\<lambda>c. c \<noteq> Min (set cs)) cs ! j \<in> set (takeWhile (\<lambda>c. c \<noteq> Min (set cs)) cs)"
      unfolding argmin_def by (rule nth_mem)
    from set_takeWhileD [OF this] have "cs ! j \<noteq> Min (set cs)"
      using j unfolding argmin_def by (simp add: takeWhile_nth)
    then show ?thesis using lt j by (simp add: eq order_less_le)
  qed
qed

lemma sum_list_update_less:
  fixes xs :: "nat list"
  assumes "i < length xs" "f y < f (xs ! i)"
  shows "sum_list (map f (xs[i := y])) < (sum_list (map f xs) :: nat)"
  using assms by (induction xs arbitrary: i) (auto split: nat.splits)

function upcoming :: "nat \<Rightarrow> nat list \<Rightarrow> nat list \<Rightarrow> (nat \<times> nat) list" where
  "upcoming C ps cs =
     (let i = argmin cs
      in if cs \<noteq> [] \<and> cs ! i < C \<and> 0 < ps ! i then (cs ! i, i) # upcoming C ps (cs[i := cs ! i + ps ! i]) else [])"
  by pat_completeness auto

termination
proof (relation "measure (\<lambda>(C, ps, cs). sum_list (map (\<lambda>c. C - c) cs))")
  fix C and ps cs :: "nat list" and i
  assume i: "i = argmin cs" and c: "cs \<noteq> [] \<and> cs ! i < C \<and> 0 < ps ! i"
  then have "i < length cs" using argmin(1) by simp
  moreover have "C - (cs ! i + ps ! i) < C - cs ! i" using c by linarith
  ultimately show "((C, ps, cs[i := cs ! i + ps ! i]), C, ps, cs)
    \<in> measure (\<lambda>(C, ps, cs). sum_list (map (\<lambda>c. C - c) cs))"
    using sum_list_update_less [of i cs "\<lambda>c. C - c" "cs ! i + ps ! i"] by simp
qed simp

declare upcoming.simps [simp del]

lemma upcoming_Nil: "\<forall>c \<in> set cs. C \<le> c \<Longrightarrow> upcoming C ps cs = []"
  using nth_mem [OF argmin(1) [of cs]] by (subst upcoming.simps) (fastforce simp: Let_def)

lemma upcoming_Cons:
  "cs \<noteq> [] \<Longrightarrow> cs ! argmin cs < C \<Longrightarrow> 0 < ps ! argmin cs \<Longrightarrow>
   upcoming C ps cs = (cs ! argmin cs, argmin cs) # upcoming C ps (cs[argmin cs := cs ! argmin cs + ps ! argmin cs])"
  by (subst upcoming.simps) (simp add: Let_def)

text \<open>The merged list is sorted by time and contains of every link exactly its ticks.\<close>

lemma upcoming_lower: "e \<in> set (upcoming C ps cs) \<Longrightarrow> \<forall>c \<in> set cs. b \<le> c \<Longrightarrow> b \<le> fst e"
proof (induction C ps cs rule: upcoming.induct)
  case (1 C ps cs)
  let ?i = "argmin cs"
  show ?case
  proof (cases "cs \<noteq> [] \<and> cs ! ?i < C \<and> 0 < ps ! ?i")
    case True
    have "\<forall>c \<in> set (cs[?i := cs ! ?i + ps ! ?i]). b \<le> c"
      using "1.prems"(2) True argmin(1) [of cs] by (auto dest!: set_update_subset_insert [THEN subsetD] intro: trans_le_add1)
    moreover have "b \<le> cs ! ?i" using "1.prems"(2) True argmin(1) [of cs] by auto
    ultimately show ?thesis using "1.IH" [OF refl True] "1.prems" True by (auto simp: upcoming_Cons)
  next
    case False
    then show ?thesis using "1.prems" by (subst (asm) upcoming.simps) (auto simp: Let_def)
  qed
qed

lemma upcoming_sorted: "sorted (map fst (upcoming C ps cs))"
proof (induction C ps cs rule: upcoming.induct)
  case (1 C ps cs)
  let ?i = "argmin cs"
  show ?case
  proof (cases "cs \<noteq> [] \<and> cs ! ?i < C \<and> 0 < ps ! ?i")
    case True
    have "\<forall>c \<in> set (cs[?i := cs ! ?i + ps ! ?i]). cs ! ?i \<le> c"
      using True argmin [of cs] by (auto simp: in_set_conv_nth nth_list_update)
    then show ?thesis using "1.IH" [OF refl True] True upcoming_lower by (fastforce simp: upcoming_Cons)
  next
    case False
    then show ?thesis by (subst upcoming.simps) (auto simp: Let_def)
  qed
qed

lemma upcoming_complete:
  assumes "length ps = length cs" "\<forall>p \<in> set ps. 0 < p" "i < length cs"
  shows "map fst (filter (\<lambda>e. snd e = i) (upcoming C ps cs)) = map (\<lambda>k. cs ! i + k * ps ! i) [0..<ticks C (ps ! i) (cs ! i)]"
  using assms
proof (induction C ps cs rule: upcoming.induct)
  case (1 C ps cs)
  let ?m = "argmin cs"
  have cs: "cs \<noteq> []" using "1.prems"(3) by auto
  have m: "?m < length cs" by (rule argmin(1) [OF cs])
  then have pos: "0 < ps ! ?m" "0 < ps ! i" using "1.prems" by auto
  show ?case
  proof (cases "cs ! ?m < C")
    case True
    let ?cs = "cs[?m := cs ! ?m + ps ! ?m]"
    have ih: "map fst (filter (\<lambda>e. snd e = i) (upcoming C ps ?cs)) = map (\<lambda>k. ?cs ! i + k * ps ! i) [0..<ticks C (ps ! i) (?cs ! i)]"
      using "1.IH" [OF refl] True cs pos "1.prems" by simp
    show ?thesis
    proof (cases "i = ?m")
      case True
      then have "ticks C (ps ! i) (cs ! i) = Suc (ticks C (ps ! i) (?cs ! i))"
        using ticks_step [OF pos(2)] \<open>cs ! ?m < C\<close> m by simp
      then show ?thesis
        using True ih m cs pos \<open>cs ! ?m < C\<close>
        by (simp add: upcoming_Cons upt_conv_Cons map_Suc_upt [symmetric] algebra_simps comp_def del: upt_Suc)
    qed (use ih cs pos \<open>cs ! ?m < C\<close> in \<open>simp add: upcoming_Cons\<close>)
  next
    case False
    then have "C \<le> cs ! i" using argmin(3) [OF cs "1.prems"(3)] by simp
    then show ?thesis using False by (subst upcoming.simps) (simp add: Let_def ticks_def)
  qed
qed

lemma upcoming_links: "length ps = length cs \<Longrightarrow> e \<in> set (upcoming C ps cs) \<Longrightarrow> snd e < length cs"
proof (induction C ps cs rule: upcoming.induct)
  case (1 C ps cs)
  show ?case
  proof (cases "cs \<noteq> [] \<and> cs ! argmin cs < C \<and> 0 < ps ! argmin cs")
    case True
    then show ?thesis using "1.IH" [OF refl True] "1.prems" argmin(1) [of cs] by (auto simp: upcoming_Cons)
  next
    case False
    then show ?thesis using "1.prems" by (subst (asm) upcoming.simps) (auto simp: Let_def)
  qed
qed

text \<open>The inner loop of the code finds the same link.\<close>

lemma argmin_eqI:
  assumes "i < length cs" "\<And>j. j < length cs \<Longrightarrow> cs ! i \<le> cs ! j" "\<And>j. j < i \<Longrightarrow> cs ! i < cs ! j"
  shows "argmin cs = i"
proof -
  have "cs \<noteq> []" using assms(1) by auto
  from argmin [OF this] assms show ?thesis by (metis leD linorder_neqE_nat)
qed

lemma earliest_prefix:
  fixes cs :: "u32 list"
  shows "k \<le> length cs \<Longrightarrow>
     (\<exists>i < k. fold (\<lambda>i (mn, vl). if cs ! i < mn then (cs ! i, tag i) else (mn, vl)) [0..<k] (mn, vl) = (cs ! i, tag i) \<and>
        cs ! i < mn \<and> (\<forall>j < k. cs ! i \<le> cs ! j) \<and> (\<forall>j < i. cs ! i < cs ! j)) \<or>
     fold (\<lambda>i (mn, vl). if cs ! i < mn then (cs ! i, tag i) else (mn, vl)) [0..<k] (mn, vl) = (mn, vl) \<and>
        (\<forall>j < k. mn \<le> cs ! j)"
proof (induction k)
  case (Suc k)
  let ?f = "fold (\<lambda>i (mn, vl). if cs ! i < mn then (cs ! i, tag i) else (mn, vl)) [0..<k] (mn, vl)"
  from Suc.IH Suc.prems consider
    (found) i where "i < k" "?f = (cs ! i, tag i)" "cs ! i < mn" "\<forall>j < k. cs ! i \<le> cs ! j" "\<forall>j < i. cs ! i < cs ! j"
    | (none) "?f = (mn, vl)" "\<forall>j < k. mn \<le> cs ! j" by auto
  then show ?case
  proof cases
    case found
    show ?thesis
    proof (cases "cs ! k < cs ! i")
      case True
      then have "\<forall>j < Suc k. cs ! k \<le> cs ! j" "\<forall>j < k. cs ! k < cs ! j"
        using found(4) by (auto simp: less_Suc_eq intro: less_imp_le less_le_trans)
      then show ?thesis using True found less_trans [OF True found(3)] by (intro disjI1 exI [of _ k]) simp
    next
      case False
      then show ?thesis using found by (intro disjI1 exI [of _ i]) (simp add: less_Suc_eq)
    qed
  next
    case none
    show ?thesis
    proof (cases "cs ! k < mn")
      case True
      then have "\<forall>j < Suc k. cs ! k \<le> cs ! j" "\<forall>j < k. cs ! k < cs ! j"
        using none(2) by (auto simp: less_Suc_eq intro: less_imp_le less_le_trans)
      then show ?thesis using True none by (intro disjI1 exI [of _ k]) simp
    next
      case False
      then show ?thesis using none by (intro disjI2) (simp add: less_Suc_eq)
    qed
  qed
qed simp

lemma earliest_eq:
  fixes cs :: "u32 list"
  assumes "cs \<noteq> []"
  shows "earliest cs mn vl tag =
    (if map unat cs ! argmin (map unat cs) < unat mn then (cs ! argmin (map unat cs), tag (argmin (map unat cs))) else (mn, vl))"
proof -
  consider (found) i where "i < length cs" "earliest cs mn vl tag = (cs ! i, tag i)" "cs ! i < mn"
      "\<forall>j < length cs. cs ! i \<le> cs ! j" "\<forall>j < i. cs ! i < cs ! j"
    | (none) "earliest cs mn vl tag = (mn, vl)" "\<forall>j < length cs. mn \<le> cs ! j"
    using earliest_prefix [of "length cs" cs tag mn vl] unfolding earliest_def by auto
  then show ?thesis
  proof cases
    case found
    then have "argmin (map unat cs) = i" by (intro argmin_eqI) (auto simp: word_le_nat_alt word_less_nat_alt)
    with found show ?thesis by (simp add: word_less_nat_alt)
  next
    case none
    then show ?thesis using argmin(1) [of "map unat cs"] assms by (simp add: word_le_nat_alt leD)
  qed
qed

text \<open>What keeps the arithmetic of the loop below \<open>2 ^ 32\<close>.\<close>

definition links_ok :: "u32 \<Rightarrow> u32 list \<Rightarrow> u32 list \<Rightarrow> bool" where
  "links_ok C ps cs \<longleftrightarrow> cs \<noteq> [] \<and> length cs < 256 \<and> length ps = length cs \<and> unat C < 2 ^ 30 \<and>
     (\<forall>p \<in> set ps. 0 < unat p \<and> unat p < 2 ^ 30) \<and> (\<forall>c \<in> set cs. unat c < 2 ^ 31)"

lemma links_ok_step:
  assumes "links_ok C ps cs" "m = argmin (map unat cs)" "unat (cs ! m) < unat C"
  shows "m < length cs" "unat (cs ! m + ps ! m) = unat (cs ! m) + unat (ps ! m)" "links_ok C ps (cs[m := cs ! m + ps ! m])"
    "map unat (cs[m := cs ! m + ps ! m]) = (map unat cs)[m := unat (cs ! m) + unat (ps ! m)]"
    "upcoming (unat C) (map unat ps) (map unat cs) =
       (unat (cs ! m), m) # upcoming (unat C) (map unat ps) (map unat (cs[m := cs ! m + ps ! m]))"
proof -
  have ne: "map unat cs \<noteq> []" using assms(1) by (auto simp: links_ok_def)
  show m: "m < length cs" using argmin(1) [OF ne] assms(2) by simp
  then have p: "0 < unat (ps ! m)" "unat (ps ! m) < 2 ^ 30" using assms(1) by (auto simp: links_ok_def)
  have "unat (cs ! m) < 2 ^ 30" using assms(1,3) by (simp add: links_ok_def)
  with p show sum: "unat (cs ! m + ps ! m) = unat (cs ! m) + unat (ps ! m)" by (simp add: unat_word_ariths)
  with p \<open>unat (cs ! m) < 2 ^ 30\<close> show "links_ok C ps (cs[m := cs ! m + ps ! m])"
    using assms(1) unfolding links_ok_def by (auto dest!: set_update_subset_insert [THEN subsetD])
  show upd: "map unat (cs[m := cs ! m + ps ! m]) = (map unat cs)[m := unat (cs ! m) + unat (ps ! m)]"
    by (simp add: map_update sum)
  have "length ps = length cs" using assms(1) by (simp add: links_ok_def)
  then show "upcoming (unat C) (map unat ps) (map unat cs) =
       (unat (cs ! m), m) # upcoming (unat C) (map unat ps) (map unat (cs[m := cs ! m + ps ! m]))"
    unfolding upd using upcoming_Cons [OF ne, of "unat C" "map unat ps"] m p(1) assms(2,3) by simp
qed

declare sched_loop.simps [simp del]

lemma sched_loop_more:
  assumes "links_ok C ps cs" "m = argmin (map unat cs)" "unat (cs ! m) < unat C"
  shows "sched_loop C ps cs current vl index sc vs =
    (if index < length sc then
       sched_loop C ps (cs[m := cs ! m + ps ! m]) (cs ! m) (of_nat m) (index + 1) (sc[index := cs ! m - current])
         (if index + 1 < length sc then vs[index + 1 := of_nat m] else vs)
     else Inl Out_of_bounds)"
proof -
  have ne: "cs \<noteq> []" and m: "m < length cs" "m < 256" and C: "unat (C * 2) = 2 * unat C"
    using assms(1) links_ok_step(1) [OF assms] by (auto simp: links_ok_def unat_word_ariths)
  have um: "unat (of_nat m :: u32) = m" using m by (simp add: unat_of_nat_u32)
  have e: "earliest cs (C * 2) vl of_nat = (cs ! m, of_nat m)"
    using assms(2,3) C m by (simp add: earliest_eq [OF ne])
  show ?thesis using assms(3)
    by (subst sched_loop.simps) (simp add: e Let_def um word_le_nat_alt)
qed

lemma sched_loop_last:
  assumes "links_ok C ps cs" "m = argmin (map unat cs)" "\<not> unat (cs ! m) < unat C"
  shows "\<exists>mn w. sched_loop C ps cs current vl index sc vs =
    (if index < length sc then Inr (sc[index := mn - current], if index + 1 < length sc then vs[index + 1 := w] else vs)
     else Inl Out_of_bounds)"
proof -
  have ne: "cs \<noteq> []" and C: "unat (C * 2) = 2 * unat C" using assms(1) by (auto simp: links_ok_def unat_word_ariths)
  have m: "m < length cs" using argmin(1) [of "map unat cs"] ne assms(2) by simp
  have "C \<le> fst (earliest cs (C * 2) vl of_nat)"
    using assms(2,3) C m by (auto simp: earliest_eq [OF ne] word_le_nat_alt)
  then show ?thesis by (subst sched_loop.simps) (auto simp: Let_def case_prod_beta)
qed

lemma take_written:
  assumes "take (Suc k) xs = take (Suc k) (ys[k := v])" "k < length ys"
  shows "xs ! k = v" "take k xs = take k ys"
proof -
  show "xs ! k = v" using arg_cong [OF assms(1), of "\<lambda>zs. zs ! k"] assms(2) by simp
  have "take k (take (Suc k) xs) = take k (take (Suc k) (ys[k := v]))" using assms(1) by (rule arg_cong)
  then show "take k xs = take k ys" by simp
qed

text \<open>
  The outer loop writes the merged list, as differences of times and as links, if the arrays have
  room for it and for one more difference.
\<close>

lemma sched_loop_correct:
  assumes "links_ok C ps cs" "length vs = length sc"
  shows "case sched_loop C ps cs current vl index sc vs of
      Inl e \<Rightarrow> length sc \<le> index + length (upcoming (unat C) (map unat ps) (map unat cs))
    | Inr (sc', vs') \<Rightarrow>
        index + length (upcoming (unat C) (map unat ps) (map unat cs)) < length sc \<and>
        length sc' = length sc \<and> length vs' = length sc \<and> take index sc' = take index sc \<and> take (index + 1) vs' = take (index + 1) vs \<and>
        (\<forall>j < length (upcoming (unat C) (map unat ps) (map unat cs)).
           sc' ! (index + j) = of_nat (fst (upcoming (unat C) (map unat ps) (map unat cs) ! j))
             - (if j = 0 then current else of_nat (fst (upcoming (unat C) (map unat ps) (map unat cs) ! (j - 1)))) \<and>
           vs' ! (index + 1 + j) = of_nat (snd (upcoming (unat C) (map unat ps) (map unat cs) ! j)))"
  using assms
proof (induction "length sc - index" arbitrary: cs current vl index sc vs rule: less_induct)
  case less
  define m where "m = argmin (map unat cs)"
  show ?case
  proof (cases "unat (cs ! m) < unat C \<and> index < length sc")
    case True
    note step = links_ok_step [OF less.prems(1) m_def conjunct1 [OF True]]
    let ?cs = "cs[m := cs ! m + ps ! m]" and ?sc = "sc[index := cs ! m - current]"
    let ?vs = "if index + 1 < length sc then vs[index + 1 := of_nat m] else vs"
    let ?U = "upcoming (unat C) (map unat ps) (map unat ?cs)"
    have eq: "sched_loop C ps cs current vl index sc vs = sched_loop C ps ?cs (cs ! m) (of_nat m) (index + 1) ?sc ?vs"
      using sched_loop_more [OF less.prems(1) m_def] True by simp
    have "length ?sc - (index + 1) < length sc - index" "length ?vs = length ?sc" using True less.prems(2) by auto
    note ih = less.hyps [OF this(1) step(3) this(2), of "cs ! m" "of_nat m"]
    show ?thesis
    proof (cases "sched_loop C ps ?cs (cs ! m) (of_nat m) (index + 1) ?sc ?vs")
      case (Inl e)
      then show ?thesis using ih unfolding eq step(5) by simp
    next
      case (Inr r)
      obtain sc' vs' where r: "r = (sc', vs')" by (cases r)
      note ih' = ih [unfolded Inr r sum.case prod.case]
      have room: "index + 1 < length sc" using ih' by simp
      have sc': "sc' ! index = cs ! m - current" "take index sc' = take index sc"
        using take_written [of index sc' sc] ih' True by simp_all
      have vs': "vs' ! (index + 1) = of_nat m" "take (index + 1) vs' = take (index + 1) vs"
        using take_written [of "Suc index" vs' vs] ih' room less.prems(2) by simp_all
      show ?thesis
        unfolding eq Inr r step(5) sum.case prod.case
      proof (intro conjI allI impI)
        fix j assume j: "j < length ((unat (cs ! m), m) # ?U)"
        show "sc' ! (index + j) = of_nat (fst (((unat (cs ! m), m) # ?U) ! j))
            - (if j = 0 then current else of_nat (fst (((unat (cs ! m), m) # ?U) ! (j - 1))))"
          using j ih' sc' by (cases j; cases "j - 1") auto
        show "vs' ! (index + 1 + j) = of_nat (snd (((unat (cs ! m), m) # ?U) ! j))"
          using j ih' vs' by (cases j) auto
      qed (use ih' sc' vs' in simp_all)
    qed
  next
    case False
    have ne: "cs \<noteq> []" using less.prems(1) by (simp add: links_ok_def)
    show ?thesis
    proof (cases "unat (cs ! m) < unat C")
      case True
      then show ?thesis using False sched_loop_more [OF less.prems(1) m_def] by simp
    next
      case late: False
      have "\<forall>c \<in> set (map unat cs). unat C \<le> c"
        using late argmin(1,2) [of "map unat cs"] ne unfolding m_def
        by (metis (no_types, lifting) List.finite_set Min_le le_trans length_map map_is_Nil_conv not_less nth_map)
      then have U: "upcoming (unat C) (map unat ps) (map unat cs) = []" by (rule upcoming_Nil)
      obtain mn w where "sched_loop C ps cs current vl index sc vs =
        (if index < length sc then Inr (sc[index := mn - current], if index + 1 < length sc then vs[index + 1 := w] else vs)
         else Inl Out_of_bounds)"
        using sched_loop_last [OF less.prems(1) m_def late] by blast
      then show ?thesis unfolding U using less.prems(2) by simp
    qed
  qed
qed

text \<open>The first \<open>n\<close> ticks of a schedule in the state, as pairs of time and link.\<close>

definition sched_events :: "nat \<Rightarrow> 'a tte_state_scheme \<Rightarrow> (nat \<times> nat) list" where
  "sched_events n s =
     map (\<lambda>j. (unat (startTick s) + sum_list (map unat (take j (sched s))), unat (VLsched s ! j))) [0..<n]"

lemma length_filter_classes:
  fixes n :: nat
  shows "\<forall>x \<in> set xs. f x < n \<Longrightarrow> length xs = (\<Sum>i<n. length (filter (\<lambda>x. f x = i) xs))"
proof (induction xs)
  case (Cons x xs)
  have "(\<Sum>i<n. length (filter (\<lambda>y. f y = i) (x # xs))) = (\<Sum>i<n. (if f x = i then 1 else 0) + length (filter (\<lambda>y. f y = i) xs))"
    by (intro sum.cong) auto
  also have "\<dots> = (\<Sum>i<n. if f x = i then 1 else 0) + length xs" using Cons by (simp only: sum.distrib) simp
  also have "(\<Sum>i<n. if f x = i then 1 else (0 :: nat)) = 1" using Cons.prems by (subst sum.delta') simp_all
  finally show ?case by simp
qed simp

lemma length_upcoming:
  assumes "length ps = length cs" "\<forall>p \<in> set ps. 0 < p"
  shows "length (upcoming C ps cs) = (\<Sum>i<length cs. ticks C (ps ! i) (cs ! i))"
proof -
  have "length (filter (\<lambda>e. snd e = i) (upcoming C ps cs)) = ticks C (ps ! i) (cs ! i)" if "i < length cs" for i
    using arg_cong [OF upcoming_complete [OF assms that], of length] by simp
  then show ?thesis
    using length_filter_classes [of "upcoming C ps cs" snd "length cs"] upcoming_links [OF assms(1)] by simp
qed

lemma upcoming_less: "e \<in> set (upcoming C ps cs) \<Longrightarrow> fst e < C"
proof (induction C ps cs rule: upcoming.induct)
  case (1 C ps cs)
  show ?case
  proof (cases "cs \<noteq> [] \<and> cs ! argmin cs < C \<and> 0 < ps ! argmin cs")
    case True
    then show ?thesis using "1.IH" [OF refl True] "1.prems" by (auto simp: upcoming_Cons)
  next
    case False
    then show ?thesis using "1.prems" by (subst (asm) upcoming.simps) (auto simp: Let_def)
  qed
qed

text \<open>Arrays that hold the differences and links of a sorted list of ticks describe this list.\<close>

lemma events_from_arrays:
  fixes sc vs :: "u32 list"
  assumes "sorted (map fst U)" "\<forall>e \<in> set U. fst e < 2 ^ 30 \<and> snd e < 256" "U = (t, i) # U'"
    and "unat st = t" "\<And>j. j < length U' \<Longrightarrow> sc ! j = of_nat (fst (U' ! j)) - of_nat (fst (U ! j))" "length U' < length sc"
    and "vs ! 0 = of_nat i" "\<And>j. j < length U' \<Longrightarrow> vs ! Suc j = of_nat (snd (U' ! j))"
  shows "map (\<lambda>j. (unat st + sum_list (map unat (take j sc)), unat (vs ! j :: u32))) [0..<length U] = U"
proof (rule nth_equalityI)
  fix j assume "j < length (map (\<lambda>j. (unat st + sum_list (map unat (take j sc)), unat (vs ! j))) [0..<length U])"
  then have j: "j < length U" by simp
  have num: "unat (of_nat (fst (U ! k)) :: u32) = fst (U ! k)" "unat (of_nat (snd (U ! k)) :: u32) = snd (U ! k)" if "k < length U" for k
    using assms(2) that by (auto intro!: unat_of_nat_u32 dest!: nth_mem)
  have "unat st + sum_list (map unat (take j sc)) = fst (U ! j)"
    using j
  proof (induction j)
    case (Suc j)
    have le: "fst (U ! j) \<le> fst (U ! Suc j)" using assms(1) Suc.prems by (auto simp: sorted_iff_nth_mono)
    have jU: "j < length U'" "j < length U" "U' ! j = U ! Suc j" using Suc.prems assms(3) by auto
    have "(of_nat (fst (U ! j)) :: u32) \<le> of_nat (fst (U ! Suc j))"
      unfolding word_le_nat_alt using num(1) [OF jU(2)] num(1) [OF Suc.prems] le by (simp only:)
    from unat_sub [OF this] have "unat (sc ! j) = fst (U ! Suc j) - fst (U ! j)"
      unfolding assms(5) [OF jU(1)] jU(3) num(1) [OF jU(2)] num(1) [OF Suc.prems] .
    then show ?case using Suc le jU assms(6) by (simp add: take_Suc_conv_app_nth)
  qed (simp add: assms(3,4))
  moreover have "unat (vs ! j) = snd (U ! j)"
    using num(2) [OF j] j assms(3,7,8) by (cases j) auto
  ultimately show "map (\<lambda>j. (unat st + sum_list (map unat (take j sc)), unat (vs ! j))) [0..<length U] ! j = U ! j"
    using j by (simp add: prod_eq_iff)
qed simp

lemma generate_schedule_events:
  assumes "unat (VLsize s) \<le> length (VLarray s)" "links = take (unat (VLsize s)) (VLarray s)"
    and ok: "links_ok (cluster_period s) (map period links) (map startTime links)"
    and "\<exists>v \<in> set links. startTime v < cluster_period s"
    and U: "U = upcoming (unat (cluster_period s)) (map unat (map period links)) (map unat (map startTime links))"
  shows "case tte_generate_schedule fresh fresh' s of
      Inl e \<Rightarrow> unat (fold (\<lambda>v n. n + max_queue v) links 0) < length U
    | Inr s' \<Rightarrow> length U \<le> unat (max_sched s') \<and> sched_events (length U) s' = U"
proof -
  let ?cs = "map startTime links" and ?ps = "map period links" and ?C = "cluster_period s"
  define m where "m = argmin (map unat ?cs)"
  let ?cs' = "?cs[m := ?cs ! m + ?ps ! m]" and ?n = "fold (\<lambda>v n. n + max_queue v) links 0"
  have ne: "?cs \<noteq> []" using ok by (simp add: links_ok_def)
  have lt: "unat (?cs ! m) < unat ?C"
    using assms(4) argmin(1,3) [of "map unat ?cs"] ne unfolding m_def
    by (fastforce simp: in_set_conv_nth word_less_nat_alt dest: le_less_trans)
  note step = links_ok_step [OF ok m_def lt]
  have e: "earliest ?cs ?C None Some = (?cs ! m, Some m)"
    using lt step(1) by (simp add: earliest_eq [OF ne] m_def)
  define U' where "U' = upcoming (unat ?C) (map unat ?ps) (map unat ?cs')"
  have U_Cons: "U = (unat (?cs ! m), m) # U'" unfolding U U'_def by (rule step(5))
  let ?vs = "(map fresh' [0..<unat ?n])[0 := of_nat m]"
  let ?loop = "sched_loop ?C ?ps ?cs' (?cs ! m) (of_nat m) 0 (map fresh [0..<unat ?n]) ?vs"
  have gen: "tte_generate_schedule fresh fresh' s =
    (if ?n = 0 then Inl Out_of_bounds else case ?loop of Inl e \<Rightarrow> Inl e
       | Inr (sc, vs) \<Rightarrow> Inr (s\<lparr>max_sched := ?n, startTick := ?cs ! m, sched := sc, VLsched := vs\<rparr>))"
    using assms(1) by (simp add: tte_generate_schedule_def Let_def e flip: assms(2) split: sum.splits)
  note loop = sched_loop_correct [OF step(3), where vs = ?vs and sc = "map fresh [0..<unat ?n]" and current = "?cs ! m" and
      vl = "of_nat m" and index = 0, folded U'_def]
  show ?thesis
  proof (cases "?n = 0 \<or> isl ?loop")
    case True
    then show ?thesis using loop U_Cons by (auto simp: gen isl_def)
  next
    case False
    then obtain sc vs where r: "?loop = Inr (sc, vs)" "?n \<noteq> 0" by (cases ?loop) auto
    note L = loop [unfolded r, simplified]
    have "vs ! 0 = of_nat m"
      using L r(2) nth_take [of 0 1 vs] nth_take [of 0 1 ?vs] by (simp add: unat_gt_0 unat_eq_zero)
    moreover have "sc ! j = of_nat (fst (U' ! j)) - of_nat (fst (U ! j))" if "j < length U'" for j
      using L that by (cases j) (auto simp: U_Cons)
    moreover have "\<forall>e \<in> set U. fst e < 2 ^ 30 \<and> snd e < 256"
      using ok upcoming_less upcoming_links [of "map unat ?ps" "map unat ?cs"] unfolding U links_ok_def
      by (fastforce intro: less_trans)
    moreover have "sorted (map fst U)" unfolding U by (rule upcoming_sorted)
    ultimately have "sched_events (length U) (s\<lparr>max_sched := ?n, startTick := ?cs ! m, sched := sc, VLsched := vs\<rparr>) = U"
      using events_from_arrays [of U "unat (?cs ! m)" m U' "?cs ! m" sc vs] L U_Cons by (simp add: sched_events_def)
    moreover have "length U \<le> unat ?n" using L U_Cons by simp
    ultimately show ?thesis using r by (simp add: gen)
  qed
qed

text \<open>C9: \<open>tte_generate_schedule\<close> is correct whenever the arrays suffice, and leaves them otherwise: if
  the links have positive periods and some link starts in the cluster period (all below \<open>2 ^ 30\<close>), the
  schedule it stores is sorted by time and contains for every link exactly the ticks
  \<open>startTime + k * period\<close> below the cluster period; it stores outside the arrays only if there are more
  ticks than the 8-bit sum of the queue lengths, from which the arrays are sized.\<close>

theorem tte_schedule_complete:
  assumes "unat (VLsize s) \<le> length (VLarray s)" "links = take (unat (VLsize s)) (VLarray s)"
    and "links_ok (cluster_period s) (map period links) (map startTime links)"
    and "\<exists>v \<in> set links. startTime v < cluster_period s"
  shows "let C = unat (cluster_period s);
       n = (\<Sum>v \<leftarrow> links. ticks C (unat (period v)) (unat (startTime v)))
     in case tte_generate_schedule fresh fresh' s of
          Inl e \<Rightarrow> unat (fold (\<lambda>v m. m + max_queue v) links 0) < n
        | Inr s' \<Rightarrow> n \<le> unat (max_sched s') \<and> sorted (map fst (sched_events n s')) \<and>
            (\<forall>i < length links. map fst (filter (\<lambda>e. snd e = i) (sched_events n s')) =
               map (\<lambda>k. unat (startTime (links ! i)) + k * unat (period (links ! i)))
                 [0..<ticks C (unat (period (links ! i))) (unat (startTime (links ! i)))])"
proof -
  let ?C = "unat (cluster_period s)" and ?ps = "map unat (map period links)" and ?cs = "map unat (map startTime links)"
  have pos: "length ?ps = length ?cs" "\<forall>p \<in> set ?ps. 0 < p" using assms(3) by (auto simp: links_ok_def)
  have "length (upcoming ?C ?ps ?cs) = (\<Sum>i<length links. ticks ?C (unat (period (links ! i))) (unat (startTime (links ! i))))"
    using length_upcoming [OF pos, of ?C] by simp
  also have "\<dots> = (\<Sum>v \<leftarrow> links. ticks ?C (unat (period v)) (unat (startTime v)))"
    by (simp add: sum_list_sum_nth atLeast0LessThan)
  finally have n: "(\<Sum>v \<leftarrow> links. ticks ?C (unat (period v)) (unat (startTime v))) = length (upcoming ?C ?ps ?cs)" ..
  have "map fst (filter (\<lambda>e. snd e = i) (upcoming ?C ?ps ?cs)) =
      map (\<lambda>k. unat (startTime (links ! i)) + k * unat (period (links ! i)))
        [0..<ticks ?C (unat (period (links ! i))) (unat (startTime (links ! i)))]" if "i < length links" for i
    using upcoming_complete [OF pos, of i ?C] that by simp
  then show ?thesis
    using generate_schedule_events [OF assms refl, of fresh fresh'] upcoming_sorted [of ?C ?ps ?cs]
    unfolding Let_def n by (auto split: sum.splits)
qed

text \<open>The configuration of the demonstration: three links in a cluster period of 20 ms.\<close>

definition tte_zero :: "VL list \<Rightarrow> tte_state" where
  "tte_zero links = \<lparr>trace = [], buff = \<lambda>_. 0, buff1 = \<lambda>_. 0, TTE_MAX_TRANS_DELAY = 0x2A60, TTE_COMP_DELAY = 0xFA0, TTE_PRECISION = 0x67C,
     integration_period = 800000, integration_cycle = 0, cluster_period = 200, tte_current_time = 0, timer_time = 0,
     clock_err = 0, clock_err_integral = 0, CT_marker = [0xAB, 0xAD, 0xBA, 0xBE], max_sched = 0,
     tte_mac = [0, 0, 0, 0, 0, 0], send_times = replicate 2000 0, send_time_i = 0, VLarray = links,
     VLsize = of_nat (length links), sched = [], VLsched = [], startTick = 0, schedplace = 0,
     tte_receive_log_max_time = 0, handle_integration_frame_log_max_time = 0, tte_clear_free_rx_buffer_max_time = 0\<rparr>"

definition demo_links :: "VL list" where
  "demo_links = [new_VL 200 8 40, new_VL 200 10 20, new_VL 200 100 100]"

theorem tte_schedule_complete_witness:
  "\<exists>s'. tte_generate_schedule (\<lambda>_. 0) (\<lambda>_. 0) (tte_zero demo_links) = Inr s' \<and> sorted (map fst (sched_events 16 s')) \<and>
     map fst (filter (\<lambda>e. snd e = 0) (sched_events 16 s')) = [8, 48, 88, 128, 168]"
proof -
  let ?s = "tte_zero demo_links"
  have links: "take (unat (VLsize ?s)) (VLarray ?s) = demo_links" by (simp add: tte_zero_def demo_links_def)
  have C: "unat (cluster_period ?s) = 200" by (simp add: tte_zero_def)
  have ok: "unat (VLsize ?s) \<le> length (VLarray ?s)" "links_ok (cluster_period ?s) (map period demo_links) (map startTime demo_links)"
    "\<exists>v \<in> set demo_links. startTime v < cluster_period ?s"
    by (simp_all add: tte_zero_def demo_links_def links_ok_def new_VL_def Let_def)
  have n: "(\<Sum>v \<leftarrow> demo_links. ticks 200 (unat (period v)) (unat (startTime v))) = 16"
    by (simp add: demo_links_def new_VL_def Let_def ticks_def)
  have room: "unat (fold (\<lambda>v m. m + max_queue v) demo_links 0) = 17"
    by (simp add: demo_links_def new_VL_def Let_def)
  have upt: "[0..<5] = [0, 1, 2, 3, 4 :: nat]" by (simp add: upt_rec)
  from tte_schedule_complete [OF ok(1) links [symmetric] ok(2,3), of "\<lambda>_. 0" "\<lambda>_. 0"]
  show ?thesis
    unfolding Let_def C n room by (auto simp: demo_links_def new_VL_def Let_def ticks_def upt split: sum.splits dest: spec [of _ 0])
qed

section \<open>Integration frames\<close>

text \<open>The point in time to which the arrival of a frame is attributed, and the fixed part of its delay.\<close>

definition permanence_point :: "u32 \<Rightarrow> u64 \<Rightarrow> 'a tte_state_scheme \<Rightarrow> u64" where
  "permanence_point addr t s = t + (ucast (TTE_MAX_TRANS_DELAY s) - transClk_to_clk (pcf_trans_clock (buff s) addr))"

definition fixed_delay :: "'a tte_state_scheme \<Rightarrow> u64" where
  "fixed_delay s = ucast (2 * TTE_MAX_TRANS_DELAY s) + ucast (TTE_COMP_DELAY s)"

definition delays_fit :: "'a tte_state_scheme \<Rightarrow> bool" where
  "delays_fit s \<longleftrightarrow> unat (2 * TTE_MAX_TRANS_DELAY s) + unat (TTE_COMP_DELAY s) < 2 ^ 32"

lemma fixed_delay_32: "delays_fit s \<Longrightarrow> ucast (2 * TTE_MAX_TRANS_DELAY s + TTE_COMP_DELAY s) = fixed_delay s"
  unfolding fixed_delay_def delays_fit_def
  by (rule word_unat_eq_iff [THEN iffD2]) (simp add: unat_word_ariths unsigned_ucast_eq take_bit_nat_eq_self)

lemma handle_frame_eq:
  assumes "delays_fit s"
  shows "handle_integration_frame E addr t s =
    (let P = permanence_point addr t s; D = fixed_delay s; s1 = s\<lparr>integration_cycle := pcf_integration_cycle (buff s) addr\<rparr>;
         S = (if tte_current_time s = 0 then P else tte_current_time s + D)
     in if S - ucast (TTE_PRECISION s) < P \<and> P < S + ucast (TTE_PRECISION s)
        then let s2 = restart_schedule E (s1\<lparr>tte_current_time := P - D\<rparr>)
             in (1, s2\<lparr>tte_current_time := tte_current_time s2 + ucast (integration_period s2)\<rparr>)
        else (0, s1\<lparr>tte_current_time := 0\<rparr>))"
proof -
  define P where "P = permanence_point addr t s"
  have P: "t + (ucast (TTE_MAX_TRANS_DELAY s) - transClk_to_clk (pcf_trans_clock (buff s) addr)) = P"
    by (simp add: P_def permanence_point_def)
  obtain x y :: u64 where xy: "ucast (2 * TTE_MAX_TRANS_DELAY s) = x" "ucast (TTE_COMP_DELAY s) = y" by blast
  then have D: "ucast (2 * TTE_MAX_TRANS_DELAY s + TTE_COMP_DELAY s) = x + y"
    using fixed_delay_32 [OF assms] by (simp add: fixed_delay_def)
  note simps = xy D P P_def [symmetric] fixed_delay_def Let_def handle_integration_frame_def
  show ?thesis
  proof (cases "tte_current_time s = 0")
    case True
    then show ?thesis by (simp add: simps)
  next
    case False
    have e: "P + (- x - y) = P - (x + y)" by simp
    show ?thesis using False by (simp add: simps add.assoc e)
  qed
qed

text \<open>C28: an integration frame is accepted exactly when its permanence point lies strictly within
  \<open>TTE_PRECISION\<close> of the scheduled one (for the first frame the scheduled one is its own); the node's
  time then follows the frame, \<open>integration_period\<close> later, and in cycle 0 the schedule restarts with
  its timer armed for the first tick; a rejected frame puts the node back into the unsynchronised
  state and arms nothing.\<close>

theorem integration_frame_window:
  assumes "delays_fit s"
  shows "let P = permanence_point addr t s; D = fixed_delay s;
       S = (if tte_current_time s = 0 then P else tte_current_time s + D);
       cycle0 = (pcf_integration_cycle (buff s) addr = 0);
       first = P - D + ucast (CYCLES_PER_UNIT * startTick s);
       (r, s') = handle_integration_frame E addr t s
     in if S - ucast (TTE_PRECISION s) < P \<and> P < S + ucast (TTE_PRECISION s)
        then r = 1 \<and> tte_current_time s' = P - D + ucast (integration_period s) \<and>
          (if cycle0 then schedplace s' = 0 \<and> timer_time s' = first \<and> trace s' = ArmTimer first # trace s
           else schedplace s' = schedplace s \<and> timer_time s' = timer_time s \<and> trace s' = trace s)
        else r = 0 \<and> tte_current_time s' = 0 \<and> trace s' = trace s \<and> timer_time s' = timer_time s"
  by (simp add: handle_frame_eq [OF assms] restart_schedule_def arm_clock_timer_def io_step_def Let_def)

text \<open>A node that has accepted a frame stays in lock step with a switch: the next frame is accepted
  exactly when it deviates by less than \<open>TTE_PRECISION\<close> from one integration period after the first
  (as long as the 64-bit times do not wrap around).\<close>

theorem integration_lock_step:
  assumes "delays_fit s" "handle_integration_frame E addr t s = (1, s1)" "s2 = s1\<lparr>buff := b\<rparr>"
    and "P = unat (permanence_point addr t s) + unat (integration_period s)"
    and "P + unat (TTE_PRECISION s) < 2 ^ 64" "unat (TTE_PRECISION s) \<le> P" "unat (fixed_delay s) < P"
  shows "fst (handle_integration_frame E' addr' t' s2) = 1 \<longleftrightarrow>
    \<bar>int (unat (permanence_point addr' t' s2)) - int P\<bar> < int (unat (TTE_PRECISION s))"
proof -
  define S prec P2 where "S = permanence_point addr t s + ucast (integration_period s)"
    and "prec = (ucast (TTE_PRECISION s) :: u64)" and "P2 = permanence_point addr' t' s2"
  have s1: "tte_current_time s1 = permanence_point addr t s - fixed_delay s + ucast (integration_period s)"
    and same: "TTE_MAX_TRANS_DELAY s1 = TTE_MAX_TRANS_DELAY s" "TTE_COMP_DELAY s1 = TTE_COMP_DELAY s" "TTE_PRECISION s1 = TTE_PRECISION s"
    using assms(2) unfolding handle_frame_eq [OF assms(1)]
    by (auto simp: Let_def restart_schedule_def arm_clock_timer_def io_step_def split: if_splits)
  have wide: "unat (ucast (x :: u32) :: u64) = unat x" for x
    using unat_less_32 [of x] by (simp add: unsigned_ucast_eq take_bit_nat_eq_self)
  have S: "unat S = P" using assms(4,5) by (simp add: S_def unat_word_ariths wide)
  have prec: "unat prec = unat (TTE_PRECISION s)" by (simp add: prec_def wide)
  have cur: "tte_current_time s2 + fixed_delay s2 = S" "delays_fit s2" "ucast (TTE_PRECISION s2) = prec"
    using assms(1,3) same s1 by (simp_all add: S_def prec_def fixed_delay_def delays_fit_def)
  have "fixed_delay s2 = fixed_delay s" using assms(3) same by (simp add: fixed_delay_def)
  then have "tte_current_time s2 \<noteq> 0" using cur(1) S assms(7) by auto
  then have "fst (handle_integration_frame E' addr' t' s2) = 1 \<longleftrightarrow> S - prec < P2 \<and> P2 < S + prec"
    unfolding handle_frame_eq [OF cur(2)] Let_def cur(1,3) P2_def [symmetric] by simp
  moreover have "unat (S - prec) = P - unat prec" "unat (S + prec) = P + unat prec"
    using S prec assms(5,6) by (simp_all add: unat_sub word_le_nat_alt) (simp add: unat_word_ariths)
  moreover have "\<bar>int a - int b\<bar> < int c \<longleftrightarrow> b - c < a \<and> a < b + c" if "c \<le> b" for a b c :: nat
    using that by linarith
  ultimately show ?thesis
    using assms(6) unfolding P2_def [symmetric] word_less_nat_alt prec by (simp only:)
qed

text \<open>A synchronised node at time 1000000 that receives its frames without transparent delay.\<close>

theorem integration_frame_window_witness:
  "let s = (tte_zero demo_links)\<lparr>tte_current_time := 1000000\<rparr>; (r, s') = handle_integration_frame regfile_env 0x100 1014848 s
   in r = 1 \<and> tte_current_time s' = 1800000"
  using integration_frame_window [of "(tte_zero demo_links)\<lparr>tte_current_time := 1000000\<rparr>" "0x100" 1014848 regfile_env]
  by (simp add: delays_fit_def tte_zero_def Let_def permanence_point_def fixed_delay_def pcf_trans_clock_def
      pcf_integration_cycle_def transClk_to_clk_def mem_iord_byte_def upt_rec case_prod_beta)

theorem integration_lock_step_witness:
  "let s1 = snd (handle_integration_frame regfile_env 0x100 1014848 ((tte_zero demo_links)\<lparr>tte_current_time := 1000000\<rparr>))
   in fst (handle_integration_frame regfile_env 0x100 1815000 (s1\<lparr>buff := \<lambda>_. 0\<rparr>)) = 1"
proof -
  let ?s = "(tte_zero demo_links)\<lparr>tte_current_time := 1000000\<rparr>"
  let ?h = "handle_integration_frame regfile_env 0x100 1014848 ?s"
  have zero: "transClk_to_clk (pcf_trans_clock (\<lambda>_. 0) 0x100) = 0"
    by (simp add: pcf_trans_clock_def transClk_to_clk_def mem_iord_byte_def upt_rec)
  have fit: "delays_fit ?s" by (simp add: delays_fit_def tte_zero_def)
  have h: "fst ?h = 1" "TTE_MAX_TRANS_DELAY (snd ?h) = 0x2A60"
    unfolding handle_frame_eq [OF fit]
    by (simp_all add: Let_def permanence_point_def fixed_delay_def tte_zero_def zero restart_schedule_def
        arm_clock_timer_def io_step_def)
  then have "?h = (1, snd ?h)" by (simp add: prod_eq_iff)
  from integration_lock_step [OF fit this refl refl, of regfile_env "0x100" 1815000 "\<lambda>_. 0"] h(2) show ?thesis
    by (simp add: Let_def permanence_point_def fixed_delay_def tte_zero_def zero)
qed

section \<open>Transparent clock and waiting\<close>

text \<open>Division by 125 as a multiplication and a shift.\<close>

lemma div_125:
  assumes "y < (6100874 :: nat)"
  shows "(y * 536871) div 67108864 = y div 125"
proof -
  define q r where "q = y div 125" and "r = y mod 125"
  have y: "y = 125 * q + r" "r < 125" by (simp_all add: q_def r_def)
  have "11 * y < 67108864 * (125 - r)"
  proof (cases "r = 124")
    case True
    then have "q \<le> 48805" using y assms by linarith
    then show ?thesis using y True by linarith
  qed (use y assms in linarith)
  then have "67108864 * (125 * q) \<le> 125 * (y * 536871)" "125 * (y * 536871) < 67108864 * (125 * q + 125)"
    using y by (simp_all add: algebra_simps)
  then have "67108864 * q \<le> y * 536871" "y * 536871 < 67108864 * Suc q" by simp_all
  then have "(y * 536871) div 67108864 = q" by (intro div_nat_eqI) (simp_all add: mult.commute)
  then show ?thesis by (simp add: q_def)
qed

text \<open>The conversion of a transparent clock (units of \<open>1 / 65536\<close> ns) to clock cycles of 12.5 ns is
  exact, although it multiplies and shifts instead of dividing, for every delay below 6.1 ms; for 6.1 ms
  and more it can be one cycle too large.\<close>

theorem transClk_to_clk_exact:
  assumes "unat x < 6100874 * 65536 div 10"
  shows "unat (transClk_to_clk x) = unat x * 10 div 65536 div 125"
proof -
  let ?y = "unat x * 10 div 65536"
  have y: "?y < 6100874" using assms by linarith
  have "unat (drop_bit 16 (x * 10)) = ?y"
    using assms by (simp add: unsigned_drop_bit_eq drop_bit_eq_div unat_word_ariths)
  then have prod: "unat (drop_bit 16 (x * 10) * 536871) = ?y * 536871"
    using y by (simp only: unat_word_ariths) simp
  have "unat (transClk_to_clk x) = drop_bit 26 (take_bit LENGTH(64) (?y * 536871))"
    by (simp only: transClk_to_clk_def unsigned_drop_bit_eq prod)
  also have "take_bit LENGTH(64) (?y * 536871) = ?y * 536871" by (rule take_bit_nat_eq_self) (use y in simp)
  also have "drop_bit 26 (?y * 536871) = ?y * 536871 div 67108864" by (simp add: drop_bit_eq_div)
  finally show ?thesis by (simp only: div_125 [OF y])
qed

theorem transClk_to_clk_exact_witness:
  "unat (transClk_to_clk 39981875200) = 48806 \<and> unat (transClk_to_clk 39982687847) = 48807 \<and>
   39982687847 * 10 div 65536 div 125 = (48806 :: nat)"
  using transClk_to_clk_exact [of 39981875200] by (simp add: transClk_to_clk_def drop_bit_eq_div)

text \<open>\<open>tte_wait_for_message\<close> returns if and only if the controller reports a received frame in some
  poll, whatever the timeout: it always answers 1 and never sets \<open>receive_point\<close>.\<close>

theorem tte_wait_ignores_timeout:
  "map_option (\<lambda>(r, p, m'). (r, p)) (tte_wait_for_message E receive_point timeout m) =
     (if \<exists>n. int_source E ((int_poll E ^^ n) (if timeout = 0 then m else snd (get_cpu_cycles E m))) AND INT_SOURCE_RXB_BIT \<noteq> 0
      then Some (1, receive_point) else None)"
proof -
  let ?m = "if timeout = 0 then m else snd (get_cpu_cycles E m)"
  have "tte_wait_for_message E receive_point timeout m = map_option (\<lambda>m'. (1, receive_point, m')) (rx_poll E ?m)"
    by (simp add: tte_wait_for_message_def Let_def case_prod_beta split: option.splits)
  then show ?thesis
    using rx_wait.terminates_iff [of E ?m] by (cases "rx_poll E ?m") (simp_all add: comp_def)
qed

end
