(* ===== verification/Task_List.thy ===== *)
theory Task_List
  imports Eth_Prelude "HOL-Library.Multiset"
begin

text \<open>
  The linked lists of the two schedulers \<^verbatim>\<open>c/apps/rmscheduling\<close> and \<^verbatim>\<open>c/apps/ttscheduling\<close>, which have
  the same structure: nodes with a task and a \<open>next\<close> pointer, a head, a tail and a counter.  Nodes are
  never freed, so the memory is a total map from addresses to nodes, \<open>malloc\<close> takes a new address,
  and \<open>NULL\<close> is \<open>None\<close>.  A loop along \<open>next\<close> need not end on a cyclic list: it is \<open>None\<close> then.
\<close>

record 'a node =
  node_task :: 'a
  next_ptr :: "nat option"

type_synonym 'a store = "nat \<Rightarrow> 'a node"

record 'a task_queue =
  store :: "'a store"
  new_addr :: nat
  head_ptr :: "nat option"
  tail_ptr :: "nat option"
  task_count :: u32

section \<open>Operations\<close>

definition create_node :: "'a \<Rightarrow> ('a, 'b) task_queue_scheme \<Rightarrow> nat \<times> ('a, 'b) task_queue_scheme" where
  "create_node t q =
     (let p = new_addr q
      in (p, q\<lparr>store := (store q)(p := \<lparr>node_task = t, next_ptr = None\<rparr>), new_addr := p + 1\<rparr>))"

definition set_next :: "nat \<Rightarrow> nat option \<Rightarrow> 'a store \<Rightarrow> 'a store" where
  "set_next p n st = st(p := (st p)\<lparr>next_ptr := n\<rparr>)"

definition enqueue :: "'a \<Rightarrow> ('a, 'b) task_queue_scheme \<Rightarrow> ('a, 'b) task_queue_scheme" where
  "enqueue t q =
     (let (temp, q) = create_node t q;
          q = q\<lparr>task_count := task_count q + 1\<rparr>
      in case tail_ptr q of
           None \<Rightarrow> q\<lparr>head_ptr := Some temp, tail_ptr := Some temp\<rparr>
         | Some last_node \<Rightarrow> q\<lparr>store := set_next last_node (Some temp) (store q), tail_ptr := Some temp\<rparr>)"

text \<open>The node before the point of insertion.\<close>

partial_function (option) slot_before :: "('a \<Rightarrow> u64) \<Rightarrow> 'a store \<Rightarrow> u64 \<Rightarrow> nat \<Rightarrow> nat option" where
  "slot_before key st k current =
     (case next_ptr (st current) of
        None \<Rightarrow> Some current
      | Some n \<Rightarrow> if key (node_task (st n)) < k then slot_before key st k n else Some current)"

text \<open>The sorted insertions of the code, which differ in the key; \<open>tail\<close> is not touched.\<close>

definition sorted_insert :: "('a \<Rightarrow> u64) \<Rightarrow> nat \<Rightarrow> ('a, 'b) task_queue_scheme \<Rightarrow> ('a, 'b) task_queue_scheme option" where
  "sorted_insert key new q =
     (let st = store q; k = key (node_task (st new))
      in case head_ptr q of
           None \<Rightarrow> Some (q\<lparr>store := set_next new None st, head_ptr := Some new, task_count := task_count q + 1\<rparr>)
         | Some h \<Rightarrow>
             if key (node_task (st h)) \<ge> k then
               Some (q\<lparr>store := set_next new (Some h) st, head_ptr := Some new, task_count := task_count q + 1\<rparr>)
             else
               (case slot_before key st k h of
                  None \<Rightarrow> None
                | Some current \<Rightarrow>
                    Some (q\<lparr>store := set_next current (Some new) (set_next new (next_ptr (st current)) st),
                            task_count := task_count q + 1\<rparr>)))"

definition dequeue :: "('a, 'b) task_queue_scheme \<Rightarrow> nat option \<times> ('a, 'b) task_queue_scheme" where
  "dequeue q =
     (case head_ptr q of
        None \<Rightarrow> (None, q)
      | Some h \<Rightarrow>
          let q = q\<lparr>head_ptr := next_ptr (store q h)\<rparr>;
              q = (if head_ptr q = None then q\<lparr>tail_ptr := None\<rparr> else q)
          in (Some h, q\<lparr>task_count := task_count q - 1\<rparr>))"

definition set_task :: "nat \<Rightarrow> 'a \<Rightarrow> ('a, 'b) task_queue_scheme \<Rightarrow> ('a, 'b) task_queue_scheme" where
  "set_task p t q = q\<lparr>store := (store q)(p := (store q p)\<lparr>node_task := t\<rparr>)\<rparr>"

text \<open>The loop of the dispatchers: the first node whose task is ready.\<close>

partial_function (option) first_ready :: "('a \<Rightarrow> bool) \<Rightarrow> 'a store \<Rightarrow> nat option \<Rightarrow> nat option option" where
  "first_ready ready st node_itr =
     (case node_itr of
        None \<Rightarrow> Some None
      | Some p \<Rightarrow> if ready (node_task (st p)) then Some (Some p) else first_ready ready st (next_ptr (st p)))"

section \<open>The list in the store\<close>

fun path :: "'a store \<Rightarrow> nat option \<Rightarrow> nat list \<Rightarrow> bool" where
  "path st p [] \<longleftrightarrow> p = None"
| "path st p (a # as) \<longleftrightarrow> p = Some a \<and> path st (next_ptr (st a)) as"

definition tasks_of :: "'a store \<Rightarrow> nat list \<Rightarrow> 'a list" where
  "tasks_of st as = map (\<lambda>a. node_task (st a)) as"

definition queue_nodes :: "('a, 'b) task_queue_scheme \<Rightarrow> nat list \<Rightarrow> bool" where
  "queue_nodes q as \<longleftrightarrow> path (store q) (head_ptr q) as \<and> distinct as"

lemma path_unique: "path st p as \<Longrightarrow> path st p bs \<Longrightarrow> as = bs"
  by (induction as arbitrary: p bs) (case_tac bs; auto)+

lemma path_cong: "(\<And>a. a \<in> set as \<Longrightarrow> st a = st' a) \<Longrightarrow> path st p as = path st' p as"
  by (induction as arbitrary: p) auto

lemma node_task_set_next [simp]: "node_task (set_next p n st a) = node_task (st a)"
  by (simp add: set_next_def)

lemma next_ptr_set_next [simp]: "next_ptr (set_next p n st a) = (if a = p then n else next_ptr (st a))"
  by (simp add: set_next_def)

lemma tasks_of_set_next [simp]: "tasks_of (set_next p n st) as = tasks_of st as"
  by (simp add: tasks_of_def)

lemma path_set_next [simp]: "p \<notin> set as \<Longrightarrow> path (set_next p n st) q as = path st q as"
  by (rule path_cong) (auto simp: set_next_def)

text \<open>A list of which the node before the insertion point is known.\<close>

lemma path_insert_after:
  "path st p (as @ c # bs) \<Longrightarrow> distinct (as @ c # bs) \<Longrightarrow> new \<notin> set (as @ c # bs) \<Longrightarrow>
   path (set_next c (Some new) (set_next new (next_ptr (st c)) st)) p (as @ c # new # bs)"
proof (induction as arbitrary: p)
  case Nil
  then have "path (set_next c (Some new) (set_next new (next_ptr (st c)) st)) (next_ptr (st c)) bs" by simp
  with Nil show ?case by auto
next
  case (Cons a as)
  then show ?case by auto
qed

lemma slot_before_path:
  assumes "path st (Some c) (c # as)"
  shows "\<exists>bs ds. c # as = bs @ ds \<and> bs \<noteq> [] \<and> slot_before key st k c = Some (last bs) \<and>
    (\<forall>b \<in> set (tl bs). key (node_task (st b)) < k) \<and> (ds = [] \<or> k \<le> key (node_task (st (hd ds))))"
  using assms
proof (induction as arbitrary: c)
  case Nil
  then have "slot_before key st k c = Some c" by (subst slot_before.simps) simp
  then show ?case by (intro exI [of _ "[c]"] exI [of _ "[]"]) simp
next
  case (Cons d as)
  then have d: "next_ptr (st c) = Some d" "path st (Some d) (d # as)" by auto
  show ?case
  proof (cases "key (node_task (st d)) < k")
    case True
    obtain bs ds where ih: "d # as = bs @ ds" "bs \<noteq> []" "slot_before key st k d = Some (last bs)"
      "\<forall>b \<in> set (tl bs). key (node_task (st b)) < k" "ds = [] \<or> k \<le> key (node_task (st (hd ds)))"
      using Cons.IH [OF d(2)] by auto
    have "slot_before key st k c = Some (last bs)" using d ih(3) True by (subst slot_before.simps) simp
    moreover have "\<forall>b \<in> set bs. key (node_task (st b)) < k" using ih(1,2,4) True by (cases bs) auto
    ultimately show ?thesis using ih by (intro exI [of _ "c # bs"] exI [of _ ds]) auto
  next
    case False
    then have "slot_before key st k c = Some c" using d by (subst slot_before.simps) simp
    with False show ?thesis by (intro exI [of _ "[c]"] exI [of _ "d # as"]) auto
  qed
qed

text \<open>Insertion of a node into a list refines the insertion of its task into the list of tasks.\<close>

definition insert_task :: "('a \<Rightarrow> u64) \<Rightarrow> 'a \<Rightarrow> 'a list \<Rightarrow> 'a list" where
  "insert_task key t ts = takeWhile (\<lambda>u. key u < key t) ts @ t # dropWhile (\<lambda>u. key u < key t) ts"

lemma sorted_insert_refines:
  assumes "queue_nodes q as" "new \<notin> set as"
  shows "\<exists>q' as'. sorted_insert key new q = Some q' \<and> queue_nodes q' as' \<and> set as' = insert new (set as) \<and>
    tasks_of (store q') as' = insert_task key (node_task (store q new)) (tasks_of (store q) as) \<and>
    (\<forall>a. node_task (store q' a) = node_task (store q a)) \<and> task_count q' = task_count q + 1 \<and> tail_ptr q' = tail_ptr q \<and>
    new_addr q' = new_addr q \<and> task_queue.more q' = task_queue.more q"
proof -
  let ?st = "store q" and ?k = "key (node_task (store q new))"
  let ?less = "\<lambda>u. key u < ?k"
  have path: "path ?st (head_ptr q) as" and dist: "distinct as" using assms(1) by (simp_all add: queue_nodes_def)
  show ?thesis
  proof (cases as)
    case Nil
    then show ?thesis using path
      by (intro exI [of _ "q\<lparr>store := set_next new None ?st, head_ptr := Some new, task_count := task_count q + 1\<rparr>"] exI [of _ "[new]"])
        (simp add: sorted_insert_def queue_nodes_def tasks_of_def insert_task_def Let_def)
  next
    case (Cons h hs)
    then have h: "head_ptr q = Some h" and hpath: "path ?st (Some h) (h # hs)" using path by auto
    show ?thesis
    proof (cases "key (node_task (?st h)) \<ge> ?k")
      case True
      let ?q = "q\<lparr>store := set_next new (Some h) ?st, head_ptr := Some new, task_count := task_count q + 1\<rparr>"
      have "sorted_insert key new q = Some ?q" using h True by (simp add: sorted_insert_def Let_def)
      moreover have "queue_nodes ?q (new # as)"
        using path dist assms(2) h by (simp add: queue_nodes_def)
      moreover have "insert_task key (node_task (?st new)) (tasks_of ?st as) = tasks_of ?st (new # as)"
        using True Cons by (auto simp: insert_task_def tasks_of_def)
      ultimately show ?thesis by (intro exI [of _ ?q] exI [of _ "new # as"]) simp
    next
      case False
      obtain bs ds where bs: "as = bs @ ds" "bs \<noteq> []" "slot_before key ?st ?k h = Some (last bs)"
        "\<forall>b \<in> set (tl bs). key (node_task (?st b)) < ?k" "ds = [] \<or> ?k \<le> key (node_task (?st (hd ds)))"
        using slot_before_path [OF hpath, of key ?k] Cons by auto
      let ?c = "last bs"
      let ?q = "q\<lparr>store := set_next ?c (Some new) (set_next new (next_ptr (?st ?c)) ?st), task_count := task_count q + 1\<rparr>"
      have "hd bs = h" using bs(1,2) Cons by (cases bs) auto
      then have "\<forall>b \<in> set bs. key (node_task (?st b)) < ?k" using bs(2,4) False by (cases bs) auto
      then have all: "\<And>t. t \<in> set (tasks_of ?st bs) \<Longrightarrow> ?less t" by (auto simp: tasks_of_def)
      have "insert_task key (node_task (?st new)) (tasks_of ?st as) = tasks_of ?st (bs @ new # ds)"
        using takeWhile_append2 [of "tasks_of ?st bs" ?less "tasks_of ?st ds"] dropWhile_append2 [of "tasks_of ?st bs" ?less "tasks_of ?st ds"]
          all bs(1,5) by (cases ds) (auto simp: insert_task_def tasks_of_def)
      moreover have split: "butlast bs @ ?c # xs = bs @ xs" for xs using bs(2) by (metis append_butlast_last_id append.assoc append_Cons append_Nil)
      moreover have "path (store ?q) (head_ptr q) (bs @ new # ds)"
        using path_insert_after [of ?st "head_ptr q" "butlast bs" ?c ds new] path dist assms(2) bs(1) by (simp add: split)
      moreover have "sorted_insert key new q = Some ?q" using h False bs(3) by (simp add: sorted_insert_def Let_def)
      moreover have "distinct (bs @ new # ds)" using dist assms(2) bs(1) by auto
      ultimately show ?thesis using bs(1)
        by (intro exI [of _ ?q] exI [of _ "bs @ new # ds"]) (auto simp: queue_nodes_def)
    qed
  qed
qed

section \<open>Sorted lists\<close>

lemma sorted_insert_task:
  assumes "sorted (map key ts)"
  shows "sorted (map key (insert_task key t ts))" "mset (insert_task key t ts) = add_mset t (mset ts)"
proof -
  let ?P = "\<lambda>u. key u < key t"
  have split: "takeWhile ?P ts @ dropWhile ?P ts = ts" by simp
  have "sorted (map key (takeWhile ?P ts))" "sorted (map key (dropWhile ?P ts))"
    using assms by (metis map_append sorted_append split)+
  moreover have "\<forall>u \<in> set (takeWhile ?P ts). key u \<le> key t" by (auto dest: set_takeWhileD)
  moreover have "\<forall>u \<in> set (dropWhile ?P ts). key t \<le> key u"
  proof (cases "dropWhile ?P ts")
    case (Cons d ds)
    then have "\<not> ?P d" by (metis hd_dropWhile list.sel(1) list.simps(3))
    then show ?thesis using calculation(2) Cons by auto
  next
    case Nil
    then show ?thesis by (metis empty_iff list.set(1))
  qed
  ultimately show "sorted (map key (insert_task key t ts))"
    using order_trans by (fastforce simp: insert_task_def sorted_append)
  have "mset ts = mset (takeWhile ?P ts) + mset (dropWhile ?P ts)" by (metis mset_append split)
  then show "mset (insert_task key t ts) = add_mset t (mset ts)" by (simp add: insert_task_def)
qed

lemma first_ready_head:
  "first_ready ready st None = Some None"
  "first_ready ready st (Some p) = (if ready (node_task (st p)) then Some (Some p) else first_ready ready st (next_ptr (st p)))"
  by (subst first_ready.simps, simp)+

lemma first_ready_none:
  "path st p as \<Longrightarrow> (\<And>t. t \<in> set (tasks_of st as) \<Longrightarrow> \<not> ready t) \<Longrightarrow> first_ready ready st p = Some None"
  by (induction as arbitrary: p) (auto simp: first_ready_head tasks_of_def)

lemma tasks_of_cong: "(\<And>a. a \<in> set as \<Longrightarrow> node_task (st a) = node_task (st' a)) \<Longrightarrow> tasks_of st as = tasks_of st' as"
  by (simp add: tasks_of_def)

text \<open>Writing the task of a node keeps the list.\<close>

lemma path_set_task [simp]: "path (store (set_task p t q)) h as = path (store q) h as"
  by (induction as arbitrary: h) (auto simp: set_task_def)

lemma set_task_simps [simp]:
  "head_ptr (set_task p t q) = head_ptr q" "tail_ptr (set_task p t q) = tail_ptr q"
  "task_count (set_task p t q) = task_count q" "task_queue.more (set_task p t q) = task_queue.more q"
  "node_task (store (set_task p t q) a) = (if a = p then t else node_task (store q a))"
  "next_ptr (store (set_task p t q) a) = next_ptr (store q a)"
  by (simp_all add: set_task_def)

text \<open>Taking out the head of a list and inserting it again.\<close>

lemma dequeue_sorted_insert:
  assumes "queue_nodes q (p # as)"
  shows "\<exists>q' as'. fst (dequeue q) = Some p \<and> sorted_insert key p (snd (dequeue q)) = Some q' \<and> queue_nodes q' as' \<and>
    tasks_of (store q') as' = insert_task key (node_task (store q p)) (tasks_of (store q) as) \<and>
    set as' = insert p (set as) \<and> (\<forall>a. node_task (store q' a) = node_task (store q a)) \<and>
    task_count q' = task_count q \<and> task_queue.more q' = task_queue.more q"
proof -
  let ?d = "snd (dequeue q)"
  have d: "fst (dequeue q) = Some p" "queue_nodes ?d as" "p \<notin> set as" "store ?d = store q"
    "task_count ?d = task_count q - 1" "task_queue.more ?d = task_queue.more q"
    using assms by (auto simp: dequeue_def queue_nodes_def Let_def)
  with sorted_insert_refines [OF d(2,3), of key] show ?thesis by auto
qed

end
