(* ===== verification/Rm_Scheduler.thy ===== *)
theory Rm_Scheduler
  imports Task_List
begin

text \<open>
  The rate-monotonic scheduler \<^verbatim>\<open>c/apps/rmscheduling/rm_minimal_scheduler.c\<close>.  The clock function and the
  functions of the tasks are given by the application: \<open>clk n\<close> is what the \<open>n\<close>-th call of \<open>get_time\<close>
  returns, and a run of a task is recorded in \<open>executed\<close> (the tasks get a constant pointer and do not
  change the schedule).
\<close>

datatype TaskState = ELECTED | BLOCKED | READY | PASSIVE | NONEXIST

record MinimalRMTask =
  task_state :: TaskState
  task_id :: u16
  period :: u64
  deadline :: u64
  wcet :: u32
  earliest_release :: u64
  release_time :: u64
  delta_sum :: u64
  last_release_time :: u64
  exec_count :: u32
  overruns :: u16
  task_func :: nat

record MinimalRMSchedule = "MinimalRMTask task_queue" +
  hyper_period :: u64
  start_time :: u64
  clock_calls :: nat
  executed :: "(nat \<times> u16) list"

definition init_minimal_rmtask :: "MinimalRMTask \<Rightarrow> u16 \<Rightarrow> u64 \<Rightarrow> u64 \<Rightarrow> u32 \<Rightarrow> u64 \<Rightarrow> nat \<Rightarrow> MinimalRMTask" where
  "init_minimal_rmtask new_task ident per dl w earliest func =
     new_task\<lparr>task_func := func, task_id := ident, task_state := READY, period := per, deadline := dl, wcet := w,
       release_time := earliest, last_release_time := 0, delta_sum := 0, exec_count := 0, overruns := 0\<rparr>"

definition create_rmtasknode :: "MinimalRMTask \<Rightarrow> MinimalRMSchedule \<Rightarrow> nat \<times> MinimalRMSchedule" where
  "create_rmtasknode t s = create_node t s"

text \<open>A new schedule; the argument \<open>num_tasks\<close> of the code is not used.\<close>

definition init_minimal_rmschedule :: "u64 \<Rightarrow> MinimalRMTask store \<Rightarrow> nat \<Rightarrow> MinimalRMSchedule" where
  "init_minimal_rmschedule hyperperiod memory addr =
     \<lparr>store = memory, new_addr = addr, head_ptr = None, tail_ptr = None, task_count = 0,
      hyper_period = hyperperiod, start_time = 0, clock_calls = 0, executed = []\<rparr>"

definition rmschedule_enqueue :: "MinimalRMTask \<Rightarrow> MinimalRMSchedule \<Rightarrow> MinimalRMSchedule" where
  "rmschedule_enqueue t s = enqueue t s"

definition rmschedule_sortedinsert_period :: "nat \<Rightarrow> MinimalRMSchedule \<Rightarrow> MinimalRMSchedule option" where
  "rmschedule_sortedinsert_period new_node s = sorted_insert period new_node s"

definition rmschedule_sortedinsert_deadline :: "nat \<Rightarrow> MinimalRMSchedule \<Rightarrow> MinimalRMSchedule option" where
  "rmschedule_sortedinsert_deadline new_node s = sorted_insert deadline new_node s"

definition rmschedule_sortedinsert_release :: "nat \<Rightarrow> MinimalRMSchedule \<Rightarrow> MinimalRMSchedule option" where
  "rmschedule_sortedinsert_release new_node s = sorted_insert release_time new_node s"

definition rmschedule_dequeue :: "MinimalRMSchedule \<Rightarrow> nat option \<times> MinimalRMSchedule" where
  "rmschedule_dequeue s = dequeue s"

definition get_time :: "(nat \<Rightarrow> u64) \<Rightarrow> MinimalRMSchedule \<Rightarrow> u64 \<times> MinimalRMSchedule" where
  "get_time clk s = (clk (clock_calls s), s\<lparr>clock_calls := clock_calls s + 1\<rparr>)"

text \<open>The bookkeeping before and after the task runs.\<close>

definition elect :: "u64 \<Rightarrow> MinimalRMTask \<Rightarrow> MinimalRMTask" where
  "elect current_time t =
     t\<lparr>task_state := ELECTED, release_time := current_time + period t,
       delta_sum := delta_sum t + (if last_release_time t = 0 then period t else current_time - last_release_time t),
       last_release_time := current_time\<rparr>"

definition finish :: "u64 \<Rightarrow> MinimalRMTask \<Rightarrow> MinimalRMTask" where
  "finish elapsed t =
     (let t = t\<lparr>exec_count := exec_count t + 1\<rparr>
      in t\<lparr>overruns := overruns t + (if elapsed > ucast (exec_count t) * period t + deadline t then 1 else 0),
           task_state := READY\<rparr>)"

text \<open>After a run the scheduler takes out the head of the list, whichever node it has run.\<close>

definition run_task :: "(nat \<Rightarrow> u64) \<Rightarrow> u64 \<Rightarrow> nat \<Rightarrow> MinimalRMSchedule \<Rightarrow> MinimalRMSchedule option" where
  "run_task clk current_time p s =
     (let s = set_task p (elect current_time (node_task (store s p))) s;
          t = node_task (store s p);
          s = s\<lparr>executed := executed s @ [(task_func t, task_id t)]\<rparr>;
          (now, s) = get_time clk s;
          s = set_task p (finish (now - start_time s - current_time) (node_task (store s p))) s;
          (exec_task, s) = rmschedule_dequeue s
      in case exec_task of None \<Rightarrow> None | Some e \<Rightarrow> rmschedule_sortedinsert_release e s)"

definition minimal_rm_scheduler :: "(nat \<Rightarrow> u64) \<Rightarrow> MinimalRMSchedule \<Rightarrow> (u8 \<times> MinimalRMSchedule) option" where
  "minimal_rm_scheduler clk s =
     (let (now, s) = get_time clk s;
          current_time = now - start_time s
      in case first_ready (\<lambda>t. current_time \<ge> release_time t) (store s) (head_ptr s) of
           None \<Rightarrow> None
         | Some None \<Rightarrow> Some (0, s)
         | Some (Some p) \<Rightarrow> map_option (Pair 1) (run_task clk current_time p s))"

text \<open>The two loops of \<open>calc_hyperperiod\<close> over the list, and its search.\<close>

partial_function (option) fold_nodes :: "('a \<Rightarrow> 'b \<Rightarrow> 'b) \<Rightarrow> 'a store \<Rightarrow> nat option \<Rightarrow> 'b \<Rightarrow> 'b option" where
  "fold_nodes f st node_itr acc =
     (case node_itr of
        None \<Rightarrow> Some acc
      | Some p \<Rightarrow> fold_nodes f st (next_ptr (st p)) (f (node_task (st p)) acc))"

definition count_divides :: "u64 \<Rightarrow> MinimalRMTask \<Rightarrow> fault + u32 \<Rightarrow> fault + u32" where
  "count_divides l t found =
     (case found of
        Inl e \<Rightarrow> Inl e
      | Inr n \<Rightarrow> if period t = 0 then Inl Division_by_zero else Inr (if l mod period t = 0 then n + 1 else 0))"

partial_function (option) lcm_search ::
  "MinimalRMTask store \<Rightarrow> nat option \<Rightarrow> u32 \<Rightarrow> u32 \<Rightarrow> u64 \<Rightarrow> u32 \<Rightarrow> (fault + u64) option" where
  "lcm_search st h n_tasks step l found_lcm =
     (case fold_nodes (count_divides l) st h (Inr found_lcm) of
        None \<Rightarrow> None
      | Some (Inl e) \<Rightarrow> Some (Inl e)
      | Some (Inr n) \<Rightarrow> if n = n_tasks then Some (Inr l) else lcm_search st h n_tasks step (l + ucast step) n)"

definition calc_hyperperiod :: "MinimalRMSchedule \<Rightarrow> u32 \<Rightarrow> (fault + u64) option" where
  "calc_hyperperiod s step =
     (case fold_nodes (\<lambda>t l. if period t > l then period t else l) (store s) (head_ptr s) 0 of
        None \<Rightarrow> None
      | Some l \<Rightarrow> lcm_search (store s) (head_ptr s) (task_count s) step l 0)"

section \<open>Sorted insertion\<close>

text \<open>Each of the three sorted insertions of a new node into a list that is sorted by its key
  (period, deadline or release time) returns, and the list it leaves is sorted again and contains
  exactly one more task.\<close>

theorem rm_insertions_sorted:
  assumes "(f, key) \<in> {(rmschedule_sortedinsert_period, period), (rmschedule_sortedinsert_deadline, deadline),
      (rmschedule_sortedinsert_release, release_time)}"
    and "queue_nodes s as" "new \<notin> set as" "sorted (map key (tasks_of (store s) as))"
  shows "\<exists>s' as'. f new s = Some s' \<and> queue_nodes s' as' \<and> sorted (map key (tasks_of (store s') as')) \<and>
     mset (tasks_of (store s') as') = add_mset (node_task (store s new)) (mset (tasks_of (store s) as)) \<and>
     task_count s' = task_count s + 1"
proof -
  have "f new s = sorted_insert key new s"
    using assms(1) by (auto simp: rmschedule_sortedinsert_period_def rmschedule_sortedinsert_deadline_def rmschedule_sortedinsert_release_def)
  with sorted_insert_refines [OF assms(2,3), of key] sorted_insert_task [OF assms(4)] show ?thesis by metis
qed

section \<open>The scheduler\<close>

lemma set_task_rm [simp]:
  "start_time (set_task p t s) = start_time s" "clock_calls (set_task p t s) = clock_calls s"
  "executed (set_task p t s) = executed s"
  by (simp_all add: set_task_def)

lemma executed_more: "task_queue.more s' = task_queue.more s \<Longrightarrow> executed s' = executed s"
  by (cases s; cases s') simp

text \<open>C29: on a list that is sorted by release time, with \<open>now\<close> the clock less the start time, the
  scheduler returns 0 and runs nothing when the head of the list (if any) is not yet released.
  Otherwise it runs the head, which has the earliest release time of all tasks, and no other task; it
  returns 1, and the list is again sorted by release time and holds the same tasks, of which that one
  has been elected at \<open>now\<close> and finished; the task counter is as before.\<close>

theorem rm_scheduler_runs_earliest:
  fixes clk :: "nat \<Rightarrow> u64" and s :: MinimalRMSchedule and as :: "nat list"
  defines "now \<equiv> clk (clock_calls s) - start_time s" and "ts \<equiv> tasks_of (store s) as"
  assumes "queue_nodes s as" "sorted (map release_time ts)"
  shows "if ts = [] \<or> now < release_time (hd ts)
    then minimal_rm_scheduler clk s = Some (0, s\<lparr>clock_calls := clock_calls s + 1\<rparr>)
    else \<exists>s' as'. minimal_rm_scheduler clk s = Some (1, s') \<and> queue_nodes s' as' \<and>
      sorted (map release_time (tasks_of (store s') as')) \<and>
      add_mset (hd ts) (mset (tasks_of (store s') as')) =
        add_mset (finish (clk (clock_calls s + 1) - start_time s - now) (elect now (hd ts))) (mset ts) \<and>
      executed s' = executed s @ [(task_func (hd ts), task_id (hd ts))] \<and> task_count s' = task_count s"
proof -
  let ?s = "s\<lparr>clock_calls := clock_calls s + 1\<rparr>" and ?ready = "\<lambda>t. now \<ge> release_time t"
  have path: "path (store s) (head_ptr s) as" using assms(3) by (simp add: queue_nodes_def)
  have step: "minimal_rm_scheduler clk s = (case first_ready ?ready (store s) (head_ptr s) of
        None \<Rightarrow> None | Some None \<Rightarrow> Some (0, ?s)
      | Some (Some p) \<Rightarrow> map_option (Pair 1) (run_task clk now p ?s))"
    by (simp add: minimal_rm_scheduler_def get_time_def now_def Let_def split: option.split)
  show ?thesis
  proof (cases "ts = [] \<or> now < release_time (hd ts)")
    case True
    have "\<not> ?ready t" if "t \<in> set ts" for t
      using True assms(4) that by (cases ts) (auto simp: not_le dest: order.strict_trans2)
    then have "first_ready ?ready (store s) (head_ptr s) = Some None"
      using first_ready_none [OF path] by (simp add: ts_def)
    with True step show ?thesis by simp
  next
    case False
    then obtain p ps where as: "as = p # ps" by (cases as) (auto simp: ts_def tasks_of_def)
    let ?t = "node_task (store s p)"
    let ?f = "finish (clk (clock_calls s + 1) - start_time s - now) (elect now ?t)"
    let ?r = "set_task p ?f ((set_task p (elect now ?t) ?s)\<lparr>executed := executed s @ [(task_func ?t, task_id ?t)], clock_calls := clock_calls s + 2\<rparr>)"
    have hd: "hd ts = ?t" and tl: "ts = ?t # tasks_of (store s) ps" by (simp_all add: ts_def tasks_of_def as)
    have "first_ready ?ready (store s) (head_ptr s) = Some (Some p)"
      using path False by (auto simp: as hd tl first_ready_head not_less)
    moreover have "run_task clk now p ?s =
        (let (exec_task, s) = rmschedule_dequeue ?r in case exec_task of None \<Rightarrow> None
           | Some e \<Rightarrow> rmschedule_sortedinsert_release e s)"
      by (simp add: run_task_def get_time_def Let_def elect_def)
    ultimately have run: "minimal_rm_scheduler clk s = map_option (Pair 1)
        (let (exec_task, s) = rmschedule_dequeue ?r in case exec_task of None \<Rightarrow> None
           | Some e \<Rightarrow> rmschedule_sortedinsert_release e s)"
      by (simp add: step)
    have qr: "queue_nodes ?r (p # ps)" using assms(3) path by (simp add: queue_nodes_def as)
    have "tasks_of (store ?r) ps = tasks_of (store s) ps"
      using assms(3) by (intro tasks_of_cong) (auto simp: queue_nodes_def as)
    with dequeue_sorted_insert [OF qr, of release_time] obtain s' as' where
      s': "fst (rmschedule_dequeue ?r) = Some p" "rmschedule_sortedinsert_release p (snd (rmschedule_dequeue ?r)) = Some s'"
        "queue_nodes s' as'" "tasks_of (store s') as' = insert_task release_time ?f (tasks_of (store s) ps)"
        "task_count s' = task_count s" "executed s' = executed s @ [(task_func ?t, task_id ?t)]"
      by (auto simp: rmschedule_dequeue_def rmschedule_sortedinsert_release_def dest: executed_more)
    have sorted: "sorted (map release_time (tasks_of (store s) ps))" using assms(4) tl by simp
    have "minimal_rm_scheduler clk s = Some (1, s')" using s'(1,2) by (simp add: run case_prod_beta)
    with False s'(3-6) sorted_insert_task [OF sorted, of ?f] show ?thesis by (auto simp: hd tl)
  qed
qed

section \<open>The hyperperiod\<close>

lemma fold_nodes_path: "path st p as \<Longrightarrow> fold_nodes f st p acc = Some (fold f (tasks_of st as) acc)"
  by (induction as arbitrary: p acc) (subst fold_nodes.simps, auto simp: tasks_of_def)+

text \<open>The counter at the end of a round: the run of matching periods at the end of the list, to which
  the counter at the start of the round is added when all periods match.\<close>

definition streak :: "('a \<Rightarrow> bool) \<Rightarrow> 'a list \<Rightarrow> u32 \<Rightarrow> u32" where
  "streak P ts n = fold (\<lambda>t n. if P t then n + 1 else 0) ts n"

lemma streak_all: "\<forall>t \<in> set ts. P t \<Longrightarrow> streak P ts n = n + of_nat (length ts)"
  by (induction ts arbitrary: n) (auto simp: streak_def)

lemma streak_not_all: "\<not> (\<forall>t \<in> set ts. P t) \<Longrightarrow> \<exists>m < length ts. streak P ts n = of_nat m"
proof (induction ts rule: rev_induct)
  case (snoc t ts)
  show ?case
  proof (cases "P t")
    case True
    then obtain m where "m < length ts" "streak P ts n = of_nat m" using snoc by auto
    then show ?thesis using True by (intro exI [of _ "Suc m"]) (simp add: streak_def)
  qed (auto simp: streak_def)
qed simp

lemma streak_last: "ts \<noteq> [] \<Longrightarrow> \<not> P (last ts) \<Longrightarrow> streak P ts n = 0"
  by (induction ts rule: rev_induct) (auto simp: streak_def)

lemma streak_eq_length:
  assumes "length ts < 2 ^ 32"
  shows "streak P ts n = of_nat (length ts) \<longleftrightarrow> n = 0 \<and> (\<forall>t \<in> set ts. P t)"
proof (cases "\<forall>t \<in> set ts. P t")
  case False
  then obtain m where m: "m < length ts" "streak P ts n = of_nat m" using streak_not_all by metis
  have "(of_nat m :: u32) \<noteq> of_nat (length ts)"
    using m(1) assms by (simp add: of_nat_inverse word_unat_eq_iff unat_of_nat)
  with m(2) False show ?thesis by simp
qed (simp add: streak_all)

lemma word_mod_0_iff: "(l :: u64) mod p = 0 \<longleftrightarrow> unat p dvd unat l"
  by (simp add: word_unat_eq_iff unat_mod_distrib dvd_eq_mod_eq_0)

lemma count_divides_fold:
  "\<forall>t \<in> set ts. period t \<noteq> 0 \<Longrightarrow>
   fold (count_divides l) ts (Inr n) = Inr (streak (\<lambda>t. unat (period t) dvd unat l) ts n)"
  by (induction ts arbitrary: n) (auto simp: count_divides_def streak_def word_mod_0_iff)

lemma unat_ucast_32_64: "unat (ucast (n :: u32) :: u64) = unat n"
  using unat_less_32 [of n] by (simp add: unsigned_ucast_eq take_bit_nat_eq_self)

lemma unat_add_no_wrap_64: "unat (l :: u64) + unat (step :: u32) < 2 ^ 64 \<Longrightarrow> unat (l + ucast step) = unat l + unat step"
  by (simp add: unat_plus_if' unat_ucast_32_64)

lemma lcm_search_reaches:
  assumes "path st h as" "ts = tasks_of st as" "ts \<noteq> []" "length ts < 2 ^ 32" "\<forall>t \<in> set ts. period t \<noteq> 0"
    and "m < 2 ^ 64" "\<forall>t \<in> set ts. unat (period t) dvd m"
    and "unat l + k * unat step = m" "\<And>j. j < k \<Longrightarrow> \<exists>t \<in> set ts. \<not> unat (period t) dvd unat l + j * unat step"
    and "k = 0 \<Longrightarrow> n = 0" "k > 0 \<Longrightarrow> \<not> unat (period (last ts)) dvd m - unat step"
  shows "lcm_search st h (of_nat (length ts)) step l n = Some (Inr (of_nat m))"
  using assms(8-11)
proof (induction k arbitrary: l n)
  case 0
  then have "streak (\<lambda>t. unat (period t) dvd unat l) ts n = of_nat (length ts)"
    using assms(4,7) by (simp add: streak_eq_length)
  moreover have "of_nat m = l" using 0(1) by (simp flip: 0(1))
  ultimately show ?case
    using assms(2,5) by (subst lcm_search.simps) (simp add: fold_nodes_path [OF assms(1)] count_divides_fold)
next
  case (Suc k)
  let ?n = "streak (\<lambda>t. unat (period t) dvd unat l) ts n"
  have "\<not> (\<forall>t \<in> set ts. unat (period t) dvd unat l)" using Suc.prems(2) [of 0] by simp
  then have "?n \<noteq> of_nat (length ts)" using assms(4) by (simp add: streak_eq_length)
  then have "lcm_search st h (of_nat (length ts)) step l n = lcm_search st h (of_nat (length ts)) step (l + ucast step) ?n"
    using assms(2,5) by (subst lcm_search.simps) (simp add: fold_nodes_path [OF assms(1)] count_divides_fold)
  also have "\<dots> = Some (Inr (of_nat m))"
  proof (rule Suc.IH)
    have "unat l + unat step < 2 ^ 64" using Suc.prems(1) assms(6) by (simp add: field_simps)
    then have l: "unat (l + ucast step) = unat l + unat step"
      by (simp add: unat_add_no_wrap_64)
    then show "unat (l + ucast step) + k * unat step = m" using Suc.prems(1) by simp
    show "\<exists>t \<in> set ts. \<not> unat (period t) dvd unat (l + ucast step) + j * unat step" if "j < k" for j
      using Suc.prems(2) [of "Suc j"] that by (simp add: l add.assoc)
    show "?n = 0" if "k = 0"
      using that Suc.prems(1,4) assms(3) by (intro streak_last) auto
    show "\<not> unat (period (last ts)) dvd m - unat step" using Suc.prems(4) by simp
  qed
  finally show ?case .
qed

definition max_period :: "MinimalRMTask list \<Rightarrow> u64 \<Rightarrow> u64" where
  "max_period ts l = fold (\<lambda>t l. if period t > l then period t else l) ts l"

lemma max_period_Cons: "max_period (t # ts) l = max_period ts (max l (period t))" "max_period [] l = l"
  by (auto simp: max_period_def max_def dest: less_imp_le)

lemma max_period_cases: "l \<le> max_period ts l" "max_period ts l = l \<or> (\<exists>t \<in> set ts. max_period ts l = period t)"
proof (induction ts arbitrary: l)
  case (Cons t ts)
  { case 1 show ?case using Cons.IH(1) [of "max l (period t)"] by (simp add: max_period_Cons) }
  { case 2 show ?case using Cons.IH(2) [of "max l (period t)"] by (auto simp: max_period_Cons max_def split: if_splits) }
qed (simp_all add: max_period_Cons)

lemma max_period_in:
  assumes "ts \<noteq> []" "\<forall>t \<in> set ts. period t \<noteq> 0"
  shows "\<exists>t \<in> set ts. max_period ts 0 = period t"
proof -
  obtain t us where ts: "ts = t # us" using assms(1) by (cases ts) auto
  have "max_period ts 0 \<ge> period t" using max_period_cases(1) [of "period t" us] by (simp add: ts max_period_Cons)
  then have "max_period ts 0 \<noteq> 0" using assms(2) ts by auto
  then show ?thesis using max_period_cases(2) [of ts 0] by simp
qed

text \<open>C30: for a list of tasks whose periods are multiples of the step, \<open>calc_hyperperiod\<close> returns the
  least common multiple of the periods, if that fits into 64 bits and the last period of the list is
  not the step itself (the counter of matching periods is not reset between the rounds of the search,
  so that a last period that divides every candidate keeps it from reaching the number of tasks).\<close>

theorem calc_hyperperiod_is_lcm:
  fixes s :: MinimalRMSchedule and as :: "nat list" and step :: u32
  defines "ts \<equiv> tasks_of (store s) as"
  assumes "queue_nodes s as" "ts \<noteq> []" "length ts < 2 ^ 32" "task_count s = of_nat (length ts)"
    and "\<forall>t \<in> set ts. period t \<noteq> 0 \<and> unat step dvd unat (period t)" "period (last ts) \<noteq> ucast step"
    and "Lcm ((\<lambda>t. unat (period t)) ` set ts) < 2 ^ 64"
  shows "calc_hyperperiod s step = Some (Inr (of_nat (Lcm ((\<lambda>t. unat (period t)) ` set ts))))"
proof -
  define m where "m = Lcm ((\<lambda>t. unat (period t)) ` set ts)"
  let ?l = "max_period ts 0"
  have path: "path (store s) (head_ptr s) as" using assms(2) by (simp add: queue_nodes_def)
  have pos: "\<forall>t \<in> set ts. period t \<noteq> 0" using assms(6) by simp
  obtain u where u: "u \<in> set ts" "?l = period u" using max_period_in [OF assms(3) pos] by auto
  have m0: "m \<noteq> 0" using pos by (auto simp: m_def Lcm_0_iff unat_eq_zero)
  have all: "\<forall>t \<in> set ts. unat (period t) dvd m" by (auto simp: m_def intro: dvd_Lcm)
  have step: "unat step dvd unat ?l" "unat step dvd m" using u assms(6) all by (auto intro: dvd_trans)
  have lm: "unat ?l \<le> m" using u all m0 by (simp add: dvd_imp_le)
  obtain k where k: "unat ?l + k * unat step = m"
    using step lm by (metis dvd_diff_nat dvd_def le_add_diff_inverse mult.commute)
  have step0: "unat step \<noteq> 0" using step(2) m0 by auto
  have "calc_hyperperiod s step = lcm_search (store s) (head_ptr s) (of_nat (length ts)) step ?l 0"
    using assms(5) by (simp add: calc_hyperperiod_def fold_nodes_path [OF path] ts_def max_period_def)
  also have "\<dots> = Some (Inr (of_nat m))"
  proof (rule lcm_search_reaches [OF path _ assms(3,4) pos _ all k])
    show "\<exists>t \<in> set ts. \<not> unat (period t) dvd unat ?l + j * unat step" if "j < k" for j
    proof (rule ccontr)
      assume "\<not> (\<exists>t \<in> set ts. \<not> unat (period t) dvd unat ?l + j * unat step)"
      then have "m dvd unat ?l + j * unat step" by (auto simp: m_def intro: Lcm_least)
      moreover have "unat ?l + j * unat step < m" using k that step0 by (metis add_less_cancel_left mult_less_mono1 neq0_conv)
      moreover have "0 < unat ?l" using u pos by (simp add: unat_gt_0)
      ultimately show False by (meson dvd_imp_le leD trans_less_add1)
    qed
    show "\<not> unat (period (last ts)) dvd m - unat step"
    proof
      assume "unat (period (last ts)) dvd m - unat step"
      moreover have "unat step \<le> m" using step(2) m0 by (simp add: dvd_imp_le)
      ultimately have "unat (period (last ts)) dvd unat step"
        using all assms(3) by (metis diff_diff_cancel dvd_diff_nat last_in_set)
      with assms(3,6) have "unat (period (last ts)) = unat step" by (simp add: dvd_antisym)
      then have "period (last ts) = ucast step" by (simp add: word_unat_eq_iff unat_ucast_32_64)
      with assms(7) show False by simp
    qed
  qed (use assms(8) in \<open>simp_all add: ts_def m_def\<close>)
  finally show ?thesis by (simp add: m_def)
qed

section \<open>Witnesses\<close>

definition demo_rmtask :: "u16 \<Rightarrow> u64 \<Rightarrow> u64 \<Rightarrow> MinimalRMTask" where
  "demo_rmtask ident per earliest = init_minimal_rmtask
     \<lparr>task_state = NONEXIST, task_id = 0, period = 0, deadline = 0, wcet = 0, earliest_release = 0, release_time = 0,
      delta_sum = 0, last_release_time = 0, exec_count = 0, overruns = 0, task_func = 0\<rparr> ident per per 10 earliest 5"

definition demo_rmschedule :: MinimalRMSchedule where
  "demo_rmschedule =
     snd (create_rmtasknode (demo_rmtask 3 2500 4)
       (rmschedule_enqueue (demo_rmtask 2 3000 6)
         (rmschedule_enqueue (demo_rmtask 1 2000 5)
           (init_minimal_rmschedule 0 (\<lambda>_. \<lparr>node_task = demo_rmtask 0 0 0, next_ptr = None\<rparr>) 10))))"

lemmas demo_rm_defs = demo_rmschedule_def demo_rmtask_def init_minimal_rmtask_def init_minimal_rmschedule_def
  rmschedule_enqueue_def enqueue_def create_rmtasknode_def create_node_def set_next_def

lemma demo_rmschedule_nodes:
  "queue_nodes demo_rmschedule [10, 11]"
  "tasks_of (store demo_rmschedule) [10, 11] = [demo_rmtask 1 2000 5, demo_rmtask 2 3000 6]"
  "task_count demo_rmschedule = 2" "clock_calls demo_rmschedule = 0" "start_time demo_rmschedule = 0"
  by (simp_all add: demo_rm_defs queue_nodes_def tasks_of_def)

lemma demo_rmtask_fields [simp]:
  "period (demo_rmtask i p r) = p" "release_time (demo_rmtask i p r) = r" "task_id (demo_rmtask i p r) = i"
  by (simp_all add: demo_rmtask_def init_minimal_rmtask_def)

theorem rm_insertions_sorted_witness:
  "\<exists>s' as'. rmschedule_sortedinsert_period 12 demo_rmschedule = Some s' \<and> queue_nodes s' as' \<and>
     sorted (map period (tasks_of (store s') as')) \<and> task_count s' = 3"
  using rm_insertions_sorted [of rmschedule_sortedinsert_period period demo_rmschedule "[10, 11]" 12]
  by (auto simp: demo_rmschedule_nodes)

theorem rm_scheduler_runs_earliest_witness:
  "\<exists>s'. minimal_rm_scheduler (\<lambda>n. 5) demo_rmschedule = Some (1, s') \<and> task_count s' = 2"
  using rm_scheduler_runs_earliest [of demo_rmschedule "[10, 11]" "\<lambda>n. 5"]
  by (auto simp: demo_rmschedule_nodes)

theorem calc_hyperperiod_is_lcm_witness:
  "calc_hyperperiod demo_rmschedule 1000 = Some (Inr 6000)"
proof -
  have "lcm 2000 (3000 :: nat) = 6000" by (simp add: lcm_nat_def gcd_non_0_nat)
  then have "Lcm ((\<lambda>t. unat (period t)) ` set (tasks_of (store demo_rmschedule) [10, 11])) = 6000"
    by (simp add: demo_rmschedule_nodes)
  then show ?thesis using calc_hyperperiod_is_lcm [of demo_rmschedule "[10, 11]" 1000]
    by (simp add: demo_rmschedule_nodes del: Lcm_insert)
qed

end
