(* ===== verification/Tt_Scheduler.thy ===== *)
theory Tt_Scheduler
  imports Task_List
begin

text \<open>
  The time-triggered scheduler \<^verbatim>\<open>c/apps/ttscheduling/tt_minimal_scheduler.c\<close>.  The release times of a task are
  an array of the application to which the task has a pointer: the model has a memory of 64-bit cells
  for these arrays, and \<open>release_times t\<close> is the address of the first one, so that \<open>p[i]\<close> is the cell at
  \<open>p + i\<close> whether or not it belongs to the array.  As in the other scheduler, \<open>clk n\<close> is what the \<open>n\<close>-th
  call of \<open>get_time\<close> returns and \<open>tt_executed\<close> records the runs of the task functions.
\<close>

record MinimalTTTask =
  tt_id :: u16
  tt_period :: u64
  release_times :: nat
  tt_deadline :: u64
  tt_wcet :: u32
  release_inst :: u32
  nr_releases :: u32
  tt_delta_sum :: u64
  tt_last_release_time :: u64
  tt_exec_count :: u32
  tt_func :: nat

record MinimalTTSchedule = "MinimalTTTask task_queue" +
  tt_hyper_period :: u64
  tt_start_time :: u64
  cells :: "nat \<Rightarrow> u64"
  tt_clock_calls :: nat
  tt_executed :: "(nat \<times> u16) list"

definition init_minimal_tttask :: "MinimalTTTask \<Rightarrow> u16 \<Rightarrow> u64 \<Rightarrow> nat \<Rightarrow> u64 \<Rightarrow> nat \<Rightarrow> MinimalTTTask" where
  "init_minimal_tttask newTask ident per rel n func =
     newTask\<lparr>tt_func := func, tt_id := ident, tt_period := per, tt_last_release_time := 0, tt_delta_sum := 0,
       tt_exec_count := 0, release_inst := 0, nr_releases := ucast n, release_times := rel\<rparr>"

text \<open>The array of tasks that the code is given is not used.\<close>

definition init_minimal_ttschedule ::
  "u64 \<Rightarrow> u32 \<Rightarrow> MinimalTTTask store \<Rightarrow> nat \<Rightarrow> (nat \<Rightarrow> u64) \<Rightarrow> MinimalTTSchedule" where
  "init_minimal_ttschedule hyperperiod num_tasks memory addr arrays =
     \<lparr>store = memory, new_addr = addr, head_ptr = None, tail_ptr = None, task_count = num_tasks,
      tt_hyper_period = hyperperiod, tt_start_time = 0, cells = arrays, tt_clock_calls = 0, tt_executed = []\<rparr>"

definition create_tttasknode :: "MinimalTTTask \<Rightarrow> MinimalTTSchedule \<Rightarrow> nat \<times> MinimalTTSchedule" where
  "create_tttasknode t s = create_node t s"

definition ttschedule_enqueue :: "MinimalTTTask \<Rightarrow> MinimalTTSchedule \<Rightarrow> MinimalTTSchedule" where
  "ttschedule_enqueue t s = enqueue t s"

definition ttschedule_sortedinsert_period :: "nat \<Rightarrow> MinimalTTSchedule \<Rightarrow> MinimalTTSchedule option" where
  "ttschedule_sortedinsert_period new_node s = sorted_insert tt_period new_node s"

definition release_slot :: "MinimalTTTask \<Rightarrow> nat" where
  "release_slot t = release_times t + unat (release_inst t)"

definition next_release :: "(nat \<Rightarrow> u64) \<Rightarrow> MinimalTTTask \<Rightarrow> u64" where
  "next_release mem t = mem (release_slot t)"

definition ttschedule_sortedinsert_release :: "nat \<Rightarrow> MinimalTTSchedule \<Rightarrow> MinimalTTSchedule option" where
  "ttschedule_sortedinsert_release new_node s = sorted_insert (next_release (cells s)) new_node s"

definition ttschedule_dequeue :: "MinimalTTSchedule \<Rightarrow> nat option \<times> MinimalTTSchedule" where
  "ttschedule_dequeue s = dequeue s"

definition tt_get_time :: "(nat \<Rightarrow> u64) \<Rightarrow> MinimalTTSchedule \<Rightarrow> u64 \<times> MinimalTTSchedule" where
  "tt_get_time clk s = (clk (tt_clock_calls s), s\<lparr>tt_clock_calls := tt_clock_calls s + 1\<rparr>)"

text \<open>The bookkeeping of a task that has run; the modulo of the code is a fault for no releases.\<close>

definition advance :: "u64 \<Rightarrow> MinimalTTTask \<Rightarrow> fault + MinimalTTTask" where
  "advance current_time t =
     (if nr_releases t = 0 then Inl Division_by_zero
      else Inr (t\<lparr>release_inst := (release_inst t + 1) mod nr_releases t,
        tt_delta_sum := tt_delta_sum t +
          (if tt_last_release_time t = 0 then tt_period t else current_time - tt_last_release_time t),
        tt_last_release_time := current_time, tt_exec_count := tt_exec_count t + 1\<rparr>))"

definition tt_run_task :: "u64 \<Rightarrow> nat \<Rightarrow> MinimalTTSchedule \<Rightarrow> (fault + MinimalTTSchedule) option" where
  "tt_run_task current_time p s =
     (let t = node_task (store s p);
          s = s\<lparr>tt_executed := tt_executed s @ [(tt_func t, tt_id t)]\<rparr>;
          s = s\<lparr>cells := (cells s)(release_slot t := cells s (release_slot t) + tt_hyper_period s)\<rparr>
      in case advance current_time t of
           Inl e \<Rightarrow> Some (Inl e)
         | Inr t \<Rightarrow>
             (let s = set_task p t s;
                  (exec_task, s) = ttschedule_dequeue s
              in case exec_task of None \<Rightarrow> None | Some e \<Rightarrow> map_option Inr (ttschedule_sortedinsert_release e s)))"

definition tt_minimal_dispatcher :: "MinimalTTSchedule \<Rightarrow> u64 \<Rightarrow> (fault + u8 \<times> MinimalTTSchedule) option" where
  "tt_minimal_dispatcher s current_time =
     (case first_ready (\<lambda>t. current_time \<ge> next_release (cells s) t) (store s) (head_ptr s) of
        None \<Rightarrow> None
      | Some None \<Rightarrow> Some (Inr (0, s))
      | Some (Some p) \<Rightarrow> map_option (map_sum id (Pair 1)) (tt_run_task current_time p s))"

partial_function (option) tt_loop ::
  "(nat \<Rightarrow> u64) \<Rightarrow> u64 \<Rightarrow> bool \<Rightarrow> u64 \<Rightarrow> u64 \<Rightarrow> u32 \<Rightarrow> MinimalTTSchedule \<Rightarrow> (fault + u32 \<times> MinimalTTSchedule) option" where
  "tt_loop clk limit forever begin_time current_time n_executed s =
     (if forever \<or> current_time < limit then
        (case tt_minimal_dispatcher s current_time of
           None \<Rightarrow> None
         | Some (Inl e) \<Rightarrow> Some (Inl e)
         | Some (Inr (r, s')) \<Rightarrow>
             tt_loop clk limit forever begin_time (fst (tt_get_time clk s') - begin_time) (n_executed + ucast r)
               (snd (tt_get_time clk s')))
      else Some (Inr (n_executed, s)))"

text \<open>The bound is computed in every round, but neither factor changes.\<close>

definition tt_minimal_schedule_loop ::
  "(nat \<Rightarrow> u64) \<Rightarrow> MinimalTTSchedule \<Rightarrow> u32 \<Rightarrow> bool \<Rightarrow> (fault + u32 \<times> MinimalTTSchedule) option" where
  "tt_minimal_schedule_loop clk s noLoops forever =
     (let (begin_time, s) = tt_get_time clk s;
          (now, s) = tt_get_time clk s
      in tt_loop clk (ucast noLoops * tt_hyper_period s) forever begin_time (now - begin_time) 0 s)"

section \<open>Well-formed schedules\<close>

text \<open>The release index of every task of the list is inside its array, the arrays of different tasks do
  not overlap, and the list is sorted by the next releases.\<close>

definition array_cells :: "MinimalTTTask \<Rightarrow> nat set" where
  "array_cells t = {release_times t ..< release_times t + unat (nr_releases t)}"

definition tt_wf :: "MinimalTTSchedule \<Rightarrow> nat list \<Rightarrow> bool" where
  "tt_wf s as \<longleftrightarrow> queue_nodes s as \<and>
     (\<forall>a \<in> set as. release_inst (node_task (store s a)) < nr_releases (node_task (store s a))) \<and>
     (\<forall>a \<in> set as. \<forall>b \<in> set as. a \<noteq> b \<longrightarrow> array_cells (node_task (store s a)) \<inter> array_cells (node_task (store s b)) = {}) \<and>
     sorted (map (next_release (cells s)) (tasks_of (store s) as))"

lemma release_slot_in: "release_inst t < nr_releases t \<Longrightarrow> release_slot t \<in> array_cells t"
  by (simp add: release_slot_def array_cells_def word_less_nat_alt)

lemma advance_ok:
  assumes "release_inst t < nr_releases t"
  shows "\<exists>u. advance now t = Inr u \<and> release_inst u < nr_releases u \<and> array_cells u = array_cells t"
proof -
  have "nr_releases t \<noteq> 0" using assms by auto
  then show ?thesis by (simp add: advance_def array_cells_def word_mod_less_divisor word_neq_0_conv)
qed

lemma more_tt:
  "task_queue.more (s' :: MinimalTTSchedule) = task_queue.more s \<Longrightarrow>
   cells s' = cells s \<and> tt_executed s' = tt_executed s \<and> tt_clock_calls s' = tt_clock_calls s \<and> tt_hyper_period s' = tt_hyper_period s"
  by (cases s; cases s') simp

lemma set_task_tt [simp]:
  "cells (set_task p t s) = cells s" "tt_executed (set_task p t s) = tt_executed s"
  "tt_clock_calls (set_task p t s) = tt_clock_calls s" "tt_hyper_period (set_task p t s) = tt_hyper_period s"
  by (simp_all add: set_task_def)

text \<open>Running the head of a well-formed schedule: its array gets the next hyper period, and the list is
  sorted again.\<close>

lemma tt_run_head:
  fixes s :: MinimalTTSchedule
  assumes wf: "tt_wf s (p # ps)" and u: "advance now (node_task (store s p)) = Inr u"
  shows "\<exists>s' as'. tt_run_task now p s = Some (Inr s') \<and> tt_wf s' as' \<and> set as' = insert p (set ps) \<and>
    (\<forall>a. node_task (store s' a) = (if a = p then u else node_task (store s a))) \<and>
    cells s' = (cells s)(release_slot (node_task (store s p)) := next_release (cells s) (node_task (store s p)) + tt_hyper_period s) \<and>
    tt_executed s' = tt_executed s @ [(tt_func (node_task (store s p)), tt_id (node_task (store s p)))] \<and>
    task_count s' = task_count s \<and> tt_clock_calls s' = tt_clock_calls s \<and> tt_hyper_period s' = tt_hyper_period s"
proof -
  let ?t = "node_task (store s p)"
  let ?mem = "(cells s)(release_slot ?t := next_release (cells s) ?t + tt_hyper_period s)"
  let ?r = "set_task p u (s\<lparr>tt_executed := tt_executed s @ [(tt_func ?t, tt_id ?t)], cells := ?mem\<rparr>)"
  let ?key = "next_release ?mem"
  have nodes: "queue_nodes s (p # ps)" and inst: "\<forall>a \<in> set (p # ps). release_inst (node_task (store s a)) < nr_releases (node_task (store s a))"
    and disj: "\<forall>a \<in> set (p # ps). \<forall>b \<in> set (p # ps). a \<noteq> b \<longrightarrow> array_cells (node_task (store s a)) \<inter> array_cells (node_task (store s b)) = {}"
    and sorted: "sorted (map (next_release (cells s)) (tasks_of (store s) (p # ps)))"
    using wf by (simp_all add: tt_wf_def)
  have p: "p \<notin> set ps" using nodes by (simp add: queue_nodes_def)
  have u': "release_inst u < nr_releases u" "array_cells u = array_cells ?t" using advance_ok [of ?t now] inst u by auto
  have qr: "queue_nodes ?r (p # ps)" using nodes by (simp add: queue_nodes_def)
  have tasks: "tasks_of (store ?r) ps = tasks_of (store s) ps" using p by (intro tasks_of_cong) auto
  have "next_release ?mem v = next_release (cells s) v" if "v \<in> set (tasks_of (store s) ps)" for v
  proof -
    obtain a where a: "a \<in> set ps" "v = node_task (store s a)" using \<open>v \<in> _\<close> by (auto simp: tasks_of_def)
    have "release_slot v \<in> array_cells v" "release_slot ?t \<in> array_cells ?t" using a inst by (simp_all add: release_slot_in)
    moreover have "array_cells v \<inter> array_cells ?t = {}" using disj a p by auto
    ultimately show ?thesis by (auto simp: next_release_def)
  qed
  then have "map ?key (tasks_of (store s) ps) = map (next_release (cells s)) (tasks_of (store s) ps)" by simp
  moreover have "sorted (map (next_release (cells s)) (tasks_of (store s) ps))" using sorted by (simp add: tasks_of_def)
  ultimately have sorted': "sorted (map ?key (tasks_of (store s) ps))" by metis
  obtain s' as' where s': "fst (dequeue ?r) = Some p" "sorted_insert ?key p (snd (dequeue ?r)) = Some s'" "queue_nodes s' as'"
      "tasks_of (store s') as' = insert_task ?key u (tasks_of (store s) ps)" "set as' = insert p (set ps)"
      "\<forall>a. node_task (store s' a) = (if a = p then u else node_task (store s a))"
      "task_count s' = task_count s" "task_queue.more s' = task_queue.more ?r"
    using dequeue_sorted_insert [OF qr, of ?key] tasks by auto
  have fields: "cells s' = ?mem" "tt_executed s' = tt_executed s @ [(tt_func ?t, tt_id ?t)]"
      "tt_clock_calls s' = tt_clock_calls s" "tt_hyper_period s' = tt_hyper_period s"
    using more_tt [OF s'(8)] by simp_all
  have "cells (snd (dequeue ?r)) = ?mem" by (simp add: dequeue_def Let_def split: option.split)
  then have run: "tt_run_task now p s = Some (Inr s')" using s'(1,2) u
    by (simp add: tt_run_task_def Let_def ttschedule_dequeue_def ttschedule_sortedinsert_release_def case_prod_beta next_release_def)
  have "tt_wf s' as'" unfolding tt_wf_def
  proof (intro conjI)
    show "sorted (map (next_release (cells s')) (tasks_of (store s') as'))"
      using sorted_insert_task(1) [OF sorted', of u] by (simp add: fields(1) s'(4))
    show "\<forall>a \<in> set as'. release_inst (node_task (store s' a)) < nr_releases (node_task (store s' a))"
      using s'(5,6) inst u' by auto
    show "\<forall>a \<in> set as'. \<forall>b \<in> set as'. a \<noteq> b \<longrightarrow> array_cells (node_task (store s' a)) \<inter> array_cells (node_task (store s' b)) = {}"
      using s'(5,6) disj u'(2) by auto
  qed (rule s'(3))
  with run fields s' show ?thesis by blast
qed

lemma tt_dispatcher_idle:
  assumes "tt_wf s as" "as = [] \<or> now < next_release (cells s) (node_task (store s (hd as)))"
  shows "tt_minimal_dispatcher s now = Some (Inr (0, s))"
proof -
  have path: "path (store s) (head_ptr s) as" and sorted: "sorted (map (next_release (cells s)) (tasks_of (store s) as))"
    using assms(1) by (simp_all add: tt_wf_def queue_nodes_def)
  have "\<not> now \<ge> next_release (cells s) t" if "t \<in> set (tasks_of (store s) as)" for t
    using assms(2) sorted that by (cases as) (auto simp: tasks_of_def not_le dest: order.strict_trans2)
  then have "first_ready (\<lambda>t. now \<ge> next_release (cells s) t) (store s) (head_ptr s) = Some None"
    by (rule first_ready_none [OF path])
  then show ?thesis by (simp add: tt_minimal_dispatcher_def)
qed

lemma tt_dispatcher_head:
  assumes "tt_wf s (p # ps)" "\<not> now < next_release (cells s) (node_task (store s p))"
  shows "tt_minimal_dispatcher s now = map_option (map_sum id (Pair 1)) (tt_run_task now p s)"
  using assms by (auto simp: tt_minimal_dispatcher_def tt_wf_def queue_nodes_def first_ready_head not_less)

text \<open>C10: on a well-formed schedule the dispatcher does nothing and returns 0 when no task is due, that is
  when the head of the list (if any) is released later than \<open>now\<close>.  Otherwise it runs the head, which
  has the earliest next release, and returns 1: the cell of that release is moved on by the hyper period
  and no other cell changes, the task goes on to its next release and no other task changes, and the
  schedule is well-formed with the same tasks, in particular sorted by the next releases.\<close>

theorem tt_dispatcher_runs_next_release:
  fixes s :: MinimalTTSchedule
  assumes "tt_wf s as"
  shows "if as = [] \<or> now < next_release (cells s) (node_task (store s (hd as)))
    then tt_minimal_dispatcher s now = Some (Inr (0, s))
    else \<exists>s' as' u. tt_minimal_dispatcher s now = Some (Inr (1, s')) \<and> tt_wf s' as' \<and> set as' = set as \<and>
      advance now (node_task (store s (hd as))) = Inr u \<and>
      (\<forall>a. node_task (store s' a) = (if a = hd as then u else node_task (store s a))) \<and>
      cells s' = (cells s)(release_slot (node_task (store s (hd as))) :=
        next_release (cells s) (node_task (store s (hd as))) + tt_hyper_period s) \<and>
      tt_executed s' = tt_executed s @ [(tt_func (node_task (store s (hd as))), tt_id (node_task (store s (hd as))))] \<and>
      task_count s' = task_count s"
proof (cases "as = [] \<or> now < next_release (cells s) (node_task (store s (hd as)))")
  case True
  then show ?thesis using tt_dispatcher_idle [OF assms] by auto
next
  case False
  then obtain p ps where as: "as = p # ps" by (cases as) auto
  then obtain u where u: "advance now (node_task (store s p)) = Inr u"
    using advance_ok [of "node_task (store s p)" now] assms by (auto simp: tt_wf_def)
  show ?thesis
    using tt_run_head [OF assms [unfolded as] u] tt_dispatcher_head [of s p ps now] assms False u by (auto simp: as)
qed

section \<open>The loop\<close>

text \<open>Whether the task at the head of the list is due.\<close>

definition tt_due :: "u64 \<Rightarrow> MinimalTTSchedule \<Rightarrow> bool" where
  "tt_due now s = (case head_ptr s of None \<Rightarrow> False | Some p \<Rightarrow> next_release (cells s) (node_task (store s p)) \<le> now)"

text \<open>The state after one call of the dispatcher (the same state, should it not return).\<close>

definition tt_dispatched :: "u64 \<Rightarrow> MinimalTTSchedule \<Rightarrow> MinimalTTSchedule" where
  "tt_dispatched now s = (case tt_minimal_dispatcher s now of Some (Inr (r, s')) \<Rightarrow> s' | _ \<Rightarrow> s)"

text \<open>The schedule at the beginning of round \<open>i\<close>: round \<open>i\<close> uses the clock reading before it, the \<open>i\<close>-th after
  the first one, and reads the clock once.\<close>

primrec tt_round :: "(nat \<Rightarrow> u64) \<Rightarrow> u64 \<Rightarrow> MinimalTTSchedule \<Rightarrow> nat \<Rightarrow> MinimalTTSchedule" where
  "tt_round clk t0 s 0 = s"
| "tt_round clk t0 s (Suc i) =
     (let s' = tt_dispatched (clk (tt_clock_calls s + i - 1) - t0) (tt_round clk t0 s i)
      in s'\<lparr>tt_clock_calls := tt_clock_calls s' + 1\<rparr>)"

lemma tt_wf_clock [simp]: "tt_wf (s\<lparr>tt_clock_calls := n\<rparr>) as = tt_wf s as"
  by (simp add: tt_wf_def queue_nodes_def)

lemma tt_due_iff:
  assumes "tt_wf s as"
  shows "tt_due now s \<longleftrightarrow> \<not> (as = [] \<or> now < next_release (cells s) (node_task (store s (hd as))))"
  using assms by (cases as) (auto simp: tt_due_def tt_wf_def queue_nodes_def)

lemma tt_dispatcher_step:
  assumes "tt_wf s as"
  shows "tt_minimal_dispatcher s now = Some (Inr (if tt_due now s then 1 else 0, tt_dispatched now s))"
    "\<exists>as'. tt_wf (tt_dispatched now s) as'" "tt_clock_calls (tt_dispatched now s) = tt_clock_calls s"
    "tt_executed (tt_dispatched now s) = tt_executed s @
       (if tt_due now s then [(tt_func (node_task (store s (hd as))), tt_id (node_task (store s (hd as))))] else [])"
proof -
  have "\<exists>s' as'. tt_minimal_dispatcher s now = Some (Inr (if tt_due now s then 1 else 0, s')) \<and> tt_wf s' as' \<and>
    tt_clock_calls s' = tt_clock_calls s \<and> tt_executed s' = tt_executed s @
       (if tt_due now s then [(tt_func (node_task (store s (hd as))), tt_id (node_task (store s (hd as))))] else [])"
  proof (cases "tt_due now s")
    case False
    then show ?thesis using tt_dispatcher_idle [OF assms] assms tt_due_iff [OF assms] by auto
  next
    case True
    then obtain p ps where as: "as = p # ps" using tt_due_iff [OF assms] by (cases as) auto
    then obtain u where u: "advance now (node_task (store s p)) = Inr u"
      using advance_ok [of "node_task (store s p)" now] assms by (auto simp: tt_wf_def)
    show ?thesis
      using tt_run_head [OF assms [unfolded as] u] tt_dispatcher_head [of s p ps now] assms True tt_due_iff [OF assms]
      by (auto simp: as)
  qed
  then show "tt_minimal_dispatcher s now = Some (Inr (if tt_due now s then 1 else 0, tt_dispatched now s))"
    "\<exists>as'. tt_wf (tt_dispatched now s) as'" "tt_clock_calls (tt_dispatched now s) = tt_clock_calls s"
    "tt_executed (tt_dispatched now s) = tt_executed s @
       (if tt_due now s then [(tt_func (node_task (store s (hd as))), tt_id (node_task (store s (hd as))))] else [])"
    by (auto simp: tt_dispatched_def)
qed

lemma tt_round_wf:
  assumes "tt_wf s as"
  shows "(\<exists>as'. tt_wf (tt_round clk t0 s i) as') \<and> tt_clock_calls (tt_round clk t0 s i) = tt_clock_calls s + i"
proof (induction i)
  case 0
  then show ?case using assms by auto
next
  case (Suc i)
  then obtain as' where "tt_wf (tt_round clk t0 s i) as'" by blast
  from tt_dispatcher_step(2,3) [OF this] Suc show ?case by (simp add: Let_def)
qed

text \<open>The loop from round \<open>i\<close> on.\<close>

lemma tt_loop_rounds:
  assumes "tt_wf s as" "0 < tt_clock_calls s"
    and "\<forall>j<k. clk (tt_clock_calls s + (i + j) - 1) - t0 < limit" "\<not> clk (tt_clock_calls s + (i + k) - 1) - t0 < limit"
  shows "tt_loop clk limit False t0 (clk (tt_clock_calls s + i - 1) - t0) n (tt_round clk t0 s i) =
    Some (Inr (n + of_nat (card {j. i \<le> j \<and> j < i + k \<and> tt_due (clk (tt_clock_calls s + j - 1) - t0) (tt_round clk t0 s j)}),
      tt_round clk t0 s (i + k)))"
  using assms(3,4)
proof (induction k arbitrary: i n)
  case 0
  have none: "{j. i \<le> j \<and> j < i \<and> P j} = {}" for P by auto
  show ?case using 0 by (subst tt_loop.simps) (simp add: none)
next
  case (Suc k)
  let ?now = "clk (tt_clock_calls s + i - 1) - t0" and ?s = "tt_round clk t0 s i"
  let ?D = "\<lambda>i k. {j. i \<le> j \<and> j < i + k \<and> tt_due (clk (tt_clock_calls s + j - 1) - t0) (tt_round clk t0 s j)}"
  obtain as' where wf: "tt_wf ?s as'" using tt_round_wf [OF assms(1)] by blast
  note step = tt_dispatcher_step [OF wf, of ?now]
  have calls: "tt_clock_calls (tt_dispatched ?now ?s) = tt_clock_calls s + i" using step(3) tt_round_wf [OF assms(1)] by simp
  have next_round: "tt_round clk t0 s (Suc i) = (tt_dispatched ?now ?s)\<lparr>tt_clock_calls := tt_clock_calls s + i + 1\<rparr>"
    by (simp add: Let_def calls [simplified])
  have "?D i (Suc k) = (if tt_due ?now ?s then insert i (?D (Suc i) k) else ?D (Suc i) k)"
    by (auto simp: le_less Suc_le_eq)
  then have "card (?D i (Suc k)) = (if tt_due ?now ?s then 1 else 0) + card (?D (Suc i) k)" by simp
  moreover have "?now < limit" using Suc.prems(1) by force
  moreover have "\<forall>j<k. clk (tt_clock_calls s + (Suc i + j) - 1) - t0 < limit"
    using Suc.prems(1) by (metis Suc_less_eq add_Suc add_Suc_right)
  moreover have "\<not> clk (tt_clock_calls s + (Suc i + k) - 1) - t0 < limit" using Suc.prems(2) by simp
  ultimately show ?case
    using Suc.IH [of "Suc i" "n + (if tt_due ?now ?s then 1 else 0)"] step(1) next_round
    by (subst tt_loop.simps) (cases "tt_due ?now ?s"; simp add: tt_get_time_def calls [simplified] add.assoc del: tt_round.simps)
qed

lemma tt_rounds_executed:
  assumes "tt_wf s as"
  shows "length (tt_executed (tt_round clk t0 s k)) =
    length (tt_executed s) + card {j. j < k \<and> tt_due (clk (tt_clock_calls s + j - 1) - t0) (tt_round clk t0 s j)}"
proof (induction k)
  case (Suc k)
  let ?D = "\<lambda>k. {j. j < k \<and> tt_due (clk (tt_clock_calls s + j - 1) - t0) (tt_round clk t0 s j)}"
  let ?due = "tt_due (clk (tt_clock_calls s + k - 1) - t0) (tt_round clk t0 s k)"
  obtain as' where "tt_wf (tt_round clk t0 s k) as'" using tt_round_wf [OF assms] by blast
  note step = tt_dispatcher_step(4) [OF this, of "clk (tt_clock_calls s + k - 1) - t0"]
  have "?D (Suc k) = (if ?due then insert k (?D k) else ?D k)" by (auto simp: less_Suc_eq)
  then have "card (?D (Suc k)) = card (?D k) + (if ?due then 1 else 0)" by simp
  then show ?case using Suc step by (simp add: Let_def)
qed simp

text \<open>C31: the loop over a well-formed schedule returns, and exactly when the clock says so.  Let the \<open>k\<close>-th clock
  reading after the first two be the first one at which \<open>noLoops\<close> hyper periods are over.  Then the loop calls the
  dispatcher exactly \<open>k\<close> times, in round \<open>j\<close> with the clock reading made before that round; in each round the
  schedule is well-formed, and the dispatcher runs the task at the head of the list, and says so, if and only if that task is due.
  The result is the number of rounds in which a task was due (modulo the width of the counter), which
  is the number of tasks run, and the final schedule is the one after these \<open>k\<close> rounds.\<close>

theorem tt_schedule_loop_returns:
  fixes s :: MinimalTTSchedule
  assumes "tt_wf s as"
    and "\<forall>j<k. clk (tt_clock_calls s + 1 + j) - clk (tt_clock_calls s) < ucast noLoops * tt_hyper_period s"
    and "clk (tt_clock_calls s + 1 + k) - clk (tt_clock_calls s) \<ge> ucast noLoops * tt_hyper_period s"
  shows "\<exists>st. st 0 = s\<lparr>tt_clock_calls := tt_clock_calls s + 2\<rparr> \<and>
    (\<forall>j<k. \<exists>as s'. tt_wf (st j) as \<and>
       tt_minimal_dispatcher (st j) (clk (tt_clock_calls s + 1 + j) - clk (tt_clock_calls s)) =
         Some (Inr (if tt_due (clk (tt_clock_calls s + 1 + j) - clk (tt_clock_calls s)) (st j) then 1 else 0, s')) \<and>
       st (Suc j) = s'\<lparr>tt_clock_calls := tt_clock_calls s + 3 + j\<rparr>) \<and>
    (let m = card {j. j < k \<and> tt_due (clk (tt_clock_calls s + 1 + j) - clk (tt_clock_calls s)) (st j)}
     in tt_minimal_schedule_loop clk s noLoops False = Some (Inr (of_nat m, st k)) \<and>
        length (tt_executed (st k)) = length (tt_executed s) + m \<and> (\<exists>as. tt_wf (st k) as))"
proof -
  let ?s = "s\<lparr>tt_clock_calls := tt_clock_calls s + 2\<rparr>" and ?t0 = "clk (tt_clock_calls s)"
  let ?st = "tt_round clk ?t0 ?s"
  have wf: "tt_wf ?s as" using assms(1) by simp
  have idx: "tt_clock_calls ?s + j - 1 = tt_clock_calls s + 1 + j" for j by simp
  note run = tt_loop_rounds [OF wf, of k clk 0 ?t0 "ucast noLoops * tt_hyper_period s" 0, unfolded add_0 idx]
    and ran = tt_rounds_executed [OF wf, of clk ?t0 k, unfolded idx]
  have loop: "tt_minimal_schedule_loop clk s noLoops False =
      Some (Inr (of_nat (card {j. j < k \<and> tt_due (clk (tt_clock_calls s + 1 + j) - ?t0) (?st j)}), ?st k))"
    using run assms(2,3) by (simp add: tt_minimal_schedule_loop_def tt_get_time_def not_less)
  have "\<exists>as s'. tt_wf (?st j) as \<and> tt_minimal_dispatcher (?st j) (clk (tt_clock_calls s + 1 + j) - ?t0) =
         Some (Inr (if tt_due (clk (tt_clock_calls s + 1 + j) - ?t0) (?st j) then 1 else 0, s')) \<and>
       ?st (Suc j) = s'\<lparr>tt_clock_calls := tt_clock_calls s + 3 + j\<rparr>" for j
  proof -
    obtain as' where wf': "tt_wf (?st j) as'" and calls: "tt_clock_calls (?st j) = tt_clock_calls s + 2 + j"
      using tt_round_wf [OF wf, of clk ?t0 j] by auto
    note step = tt_dispatcher_step(1,3) [OF wf', of "clk (tt_clock_calls s + 1 + j) - ?t0"]
    show ?thesis
      using step calls wf' by (intro exI [of _ as'] exI [of _ "tt_dispatched (clk (tt_clock_calls s + 1 + j) - ?t0) (?st j)"])
        (simp add: Let_def numeral_eq_Suc)
  qed
  then show ?thesis
    using loop ran tt_round_wf [OF wf, of clk ?t0 k] by (intro exI [of _ ?st]) (simp add: Let_def)
qed

section \<open>Witnesses\<close>

definition demo_tttask :: "u16 \<Rightarrow> nat \<Rightarrow> MinimalTTTask" where
  "demo_tttask ident rel = init_minimal_tttask
     \<lparr>tt_id = 0, tt_period = 0, release_times = 0, tt_deadline = 0, tt_wcet = 0, release_inst = 0, nr_releases = 0,
      tt_delta_sum = 0, tt_last_release_time = 0, tt_exec_count = 0, tt_func = 0\<rparr> ident 50 rel 2 7"

definition demo_ttschedule :: MinimalTTSchedule where
  "demo_ttschedule =
     ttschedule_enqueue (demo_tttask 2 2)
       (ttschedule_enqueue (demo_tttask 1 0)
         (init_minimal_ttschedule 100 0 (\<lambda>_. \<lparr>node_task = demo_tttask 0 0, next_ptr = None\<rparr>) 10 (\<lambda>n. 10 * of_nat n)))"

lemmas demo_tt_defs = demo_ttschedule_def demo_tttask_def init_minimal_tttask_def init_minimal_ttschedule_def
  ttschedule_enqueue_def enqueue_def create_node_def set_next_def

lemma demo_ttschedule_wf: "tt_wf demo_ttschedule [10, 11]"
  by (simp add: demo_tt_defs tt_wf_def queue_nodes_def tasks_of_def next_release_def release_slot_def array_cells_def)

theorem tt_dispatcher_runs_next_release_witness:
  "\<exists>s' as'. tt_minimal_dispatcher demo_ttschedule 5 = Some (Inr (1, s')) \<and> tt_wf s' as' \<and> tt_executed s' = [(7, 1)]"
  using tt_dispatcher_runs_next_release [OF demo_ttschedule_wf, of 5]
  by (auto simp: demo_tt_defs next_release_def release_slot_def)

text \<open>With a clock that advances by 60 per reading, one hyper period of 100 is one round, in which the first task is due.\<close>

theorem tt_schedule_loop_returns_witness:
  "\<exists>s' as. tt_minimal_schedule_loop (\<lambda>n. of_nat n * 60) demo_ttschedule 1 False = Some (Inr (1, s')) \<and>
     tt_wf s' as \<and> length (tt_executed s') = 1"
proof -
  have demo: "tt_clock_calls demo_ttschedule = 0" "tt_hyper_period demo_ttschedule = 100" "tt_executed demo_ttschedule = []"
    by (simp_all add: demo_tt_defs)
  have due: "tt_due 60 (demo_ttschedule\<lparr>tt_clock_calls := n\<rparr>)" for n
    by (simp add: tt_due_def demo_tt_defs next_release_def release_slot_def)
  have one: "card {j. j < (1 :: nat) \<and> P j} = 1" if "P 0" for P
  proof -
    have "{j. j < (1 :: nat) \<and> P j} = {0}" using that by auto
    then show ?thesis by simp
  qed
  have pre: "\<forall>j<1. (of_nat (0 + 1 + j) * 60 - of_nat 0 * 60 :: u64) < ucast (1 :: u32) * 100"
    "(of_nat (0 + 1 + 1) * 60 - of_nat 0 * 60 :: u64) \<ge> ucast (1 :: u32) * 100"
    by simp_all
  obtain st where st: "st 0 = demo_ttschedule\<lparr>tt_clock_calls := 0 + 2\<rparr>"
    and loop: "let m = card {j. j < 1 \<and> tt_due (of_nat (0 + 1 + j) * 60 - of_nat 0 * 60) (st j)}
       in tt_minimal_schedule_loop (\<lambda>n. of_nat n * 60) demo_ttschedule 1 False = Some (Inr (of_nat m, st 1)) \<and>
          length (tt_executed (st 1)) = length ([] :: (nat \<times> u16) list) + m \<and> (\<exists>as. tt_wf (st 1) as)"
    using tt_schedule_loop_returns [OF demo_ttschedule_wf, of 1 "\<lambda>n. of_nat n * 60" 1, unfolded demo, OF pre]
    by (elim exE conjE) (rule that, assumption+)
  have "card {j. j < 1 \<and> tt_due (of_nat (0 + 1 + j) * 60 - of_nat 0 * 60) (st j)} = 1" by (rule one) (simp add: st due)
  with loop show ?thesis unfolding Let_def by auto
qed

end
