(* ===== verification/Download.thy ===== *)
theory Download
  imports Patmos_IO
begin

text \<open>
  The boot loader's download of an application, \<^verbatim>\<open>c/bootloader/download.c\<close>.  The bytes come from
  \<open>get_byte\<close> and acknowledgements go to \<open>put_byte\<close>, which the build binds to the serial line, to the
  decompressor or to UDP: the loop is a function of these two operations on a state \<open>'s\<close> of its channel
  (\<open>None\<close> is an operation that does not return).  Main memory is a \<open>buffer\<close>: \<open>*(MEM + x/4)\<close> is the word at
  the byte address \<open>4 * (x/4)\<close>.
\<close>

section \<open>The loader\<close>

datatype load_state = STATE_ENTRYPOINT | STATE_SECTION_NUMBER | STATE_SECTION_FILESIZE
  | STATE_SECTION_OFFSET | STATE_SECTION_MEMSIZE | STATE_SECTION_DATA

fun state_code :: "load_state \<Rightarrow> u32" where
  "state_code STATE_ENTRYPOINT = 0"
| "state_code STATE_SECTION_NUMBER = 1"
| "state_code STATE_SECTION_FILESIZE = 2"
| "state_code STATE_SECTION_OFFSET = 3"
| "state_code STATE_SECTION_MEMSIZE = 4"
| "state_code STATE_SECTION_DATA = 5"

record loader =
  entrypoint :: u32
  section_number :: u32
  section_count :: u32
  section_filesize :: u32
  section_offset :: u32
  section_memsize :: u32
  section_byte_count :: u32
  integer :: u32
  current_state :: load_state
  main_mem :: buffer

record packet_vars =
  packet_byte_count :: u32
  packet_size :: u32
  calculated_crc :: u32
  received_crc :: u32

definition loader_init :: "buffer \<Rightarrow> loader" where
  "loader_init m =
     \<lparr>entrypoint = 0, section_number = -1, section_count = 0, section_filesize = 0, section_offset = 0, section_memsize = 0,
      section_byte_count = 0, integer = 0, current_state = STATE_ENTRYPOINT, main_mem = m\<rparr>"

definition packet_init :: packet_vars where
  "packet_init = \<lparr>packet_byte_count = 0, packet_size = 0, calculated_crc = 0, received_crc = 0xFFFFFFFF\<rparr>"

definition crc_bit :: "u32 \<Rightarrow> u32" where
  "crc_bit crc = (if crc AND 1 > 0 then drop_bit 1 crc XOR 0xEDB88320 else drop_bit 1 crc)"

definition crc_byte :: "u32 \<Rightarrow> u32 \<Rightarrow> u32" where
  "crc_byte data crc = (crc_bit ^^ 8) (crc XOR data)"

text \<open>\<open>*(MEM + x/4) = v\<close>\<close>

definition mem_put :: "u32 \<Rightarrow> u32 \<Rightarrow> buffer \<Rightarrow> buffer" where
  "mem_put x v m = m(word_ptr (x div 4) := v)"

text \<open>A complete header word: it is stored and the state goes on.\<close>

fun header_word :: "loader \<Rightarrow> loader" where
  "header_word d = (case current_state d of
      STATE_ENTRYPOINT \<Rightarrow> d\<lparr>entrypoint := integer d, section_byte_count := 0, current_state := STATE_SECTION_NUMBER\<rparr>
    | STATE_SECTION_NUMBER \<Rightarrow> d\<lparr>section_number := integer d, section_byte_count := 0, current_state := STATE_SECTION_FILESIZE\<rparr>
    | STATE_SECTION_FILESIZE \<Rightarrow> d\<lparr>section_filesize := integer d, section_byte_count := 0, current_state := STATE_SECTION_OFFSET\<rparr>
    | STATE_SECTION_OFFSET \<Rightarrow> d\<lparr>section_offset := integer d, section_byte_count := 0, current_state := STATE_SECTION_MEMSIZE\<rparr>
    | STATE_SECTION_MEMSIZE \<Rightarrow> d\<lparr>section_memsize := integer d, section_byte_count := 0, current_state := STATE_SECTION_DATA\<rparr>
    | STATE_SECTION_DATA \<Rightarrow> d)"

text \<open>Filling the rest of a section with zeros; the counter can wrap around below \<open>section_memsize\<close>.\<close>

partial_function (option) zero_fill :: "u32 \<Rightarrow> u32 \<Rightarrow> u32 \<Rightarrow> buffer \<Rightarrow> buffer option" where
  "zero_fill offset memsize n m =
     (if n < memsize then zero_fill offset memsize (n + 4) (mem_put (offset + n) 0 m) else Some m)"

text \<open>The end of a section.\<close>

definition section_end :: "loader \<Rightarrow> loader option" where
  "section_end d =
     (if current_state d = STATE_SECTION_DATA \<and> section_byte_count d = section_filesize d then
        (case zero_fill (section_offset d) (section_memsize d) ((section_byte_count d + 3) AND NOT 3) (main_mem d) of
           None \<Rightarrow> None
         | Some m \<Rightarrow> Some (d\<lparr>main_mem := m, section_byte_count := 0, section_count := section_count d + 1,
                         current_state := STATE_SECTION_FILESIZE\<rparr>))
      else Some d)"

text \<open>A byte of the payload, after the checksum has been updated.\<close>

definition payload_byte :: "u32 \<Rightarrow> loader \<Rightarrow> loader option" where
  "payload_byte data d =
     (let d = d\<lparr>integer := integer d OR push_bit (unat ((3 - section_byte_count d mod 4) * 8)) data\<rparr>;
          d = d\<lparr>section_byte_count := section_byte_count d + 1\<rparr>;
          d = (if current_state d \<noteq> STATE_SECTION_DATA then
                 if section_byte_count d = 4 then header_word d else d
               else d\<lparr>main_mem := mem_put (section_offset d + section_byte_count d - 1) (integer d) (main_mem d)\<rparr>)
      in map_option (\<lambda>d. if section_byte_count d mod 4 = 0 then d\<lparr>integer := 0\<rparr> else d) (section_end d))"

text \<open>A byte inside a packet: checksum or payload.\<close>

definition packet_byte :: "u32 \<Rightarrow> packet_vars \<times> loader \<Rightarrow> (packet_vars \<times> loader) option" where
  "packet_byte data = (\<lambda>(q, d).
     if packet_byte_count q < 4 then Some (q\<lparr>received_crc := push_bit 8 (received_crc q) OR data\<rparr>, d)
     else if packet_byte_count q < packet_size q + 4 then
       map_option (Pair (q\<lparr>calculated_crc := crc_byte data (calculated_crc q)\<rparr>)) (payload_byte data d)
     else Some (q, d))"

partial_function (option) download_loop ::
  "(u32 \<Rightarrow> 's \<Rightarrow> 's) \<Rightarrow> ('s \<Rightarrow> (u32 \<times> 's) option) \<Rightarrow> (u8 \<Rightarrow> 's \<Rightarrow> 's option) \<Rightarrow> packet_vars \<Rightarrow> loader \<Rightarrow> 's \<Rightarrow>
     (u32 \<times> loader \<times> 's) option" where
  "download_loop leds get put q d s =
     (case get (leds (state_code (current_state d)) s) of
        None \<Rightarrow> None
      | Some (data, s) \<Rightarrow>
          if packet_size q = 0 then
            download_loop leds get put
              (q\<lparr>packet_size := data, packet_byte_count := 0, calculated_crc := 0xFFFFFFFF, received_crc := 0\<rparr>) d s
          else
            (case packet_byte data (q, d) of
               None \<Rightarrow> None
             | Some (q, d) \<Rightarrow>
                 (let q = q\<lparr>packet_byte_count := packet_byte_count q + 1\<rparr>
                  in if packet_byte_count q = packet_size q + 4 then
                       (let q = q\<lparr>calculated_crc := calculated_crc q XOR 0xFFFFFFFF\<rparr>
                        in case put (ucast (calculated_crc q)) s of
                             None \<Rightarrow> None
                           | Some s \<Rightarrow>
                               if calculated_crc q \<noteq> received_crc q then Some (0, d, s)
                               else if section_count d = section_number d then Some (entrypoint d, d, s)
                               else download_loop leds get put (q\<lparr>packet_size := 0\<rparr>) d s)
                     else download_loop leds get put q d s)))"

section \<open>The serial line\<close>

text \<open>The addresses of the UART and of the LEDs are those of the processor configuration.\<close>

record boot_devices =
  uart_base :: u32
  leds_base :: u32

partial_function (option) uart_wait :: "env \<Rightarrow> boot_devices \<Rightarrow> u32 \<Rightarrow> 'a machine_scheme \<Rightarrow> 'a machine_scheme option" where
  "uart_wait E D msk s =
     (case io_rd E (uart_base D) s of (v, s) \<Rightarrow> if v AND msk = 0 then uart_wait E D msk s else Some s)"

definition uart_read :: "env \<Rightarrow> boot_devices \<Rightarrow> 'a machine_scheme \<Rightarrow> (u32 \<times> 'a machine_scheme) option" where
  "uart_read E D s = map_option (io_rd E (uart_base D + 4)) (uart_wait E D 0x02 s)"

definition uart_write :: "env \<Rightarrow> boot_devices \<Rightarrow> u8 \<Rightarrow> 'a machine_scheme \<Rightarrow> 'a machine_scheme option" where
  "uart_write E D c s = map_option (io_wr E (uart_base D + 4) (ucast c)) (uart_wait E D 0x01 s)"

text \<open>The download without compression.\<close>

definition download_uart :: "env \<Rightarrow> boot_devices \<Rightarrow> buffer \<Rightarrow> 'a machine_scheme \<Rightarrow> (u32 \<times> loader \<times> 'a machine_scheme) option" where
  "download_uart E D m s = download_loop (io_wr E (leds_base D)) (uart_read E D) (uart_write E D) packet_init (loader_init m) s"

section \<open>Payload\<close>

fun payload_bytes :: "u8 list \<Rightarrow> loader \<Rightarrow> loader option" where
  "payload_bytes [] d = Some d"
| "payload_bytes (b # bs) d = (case payload_byte (ucast b) d of None \<Rightarrow> None | Some d \<Rightarrow> payload_bytes bs d)"

lemma payload_bytes_append:
  "payload_bytes (bs @ cs) d = (case payload_bytes bs d of None \<Rightarrow> None | Some d \<Rightarrow> payload_bytes cs d)"
  by (induction bs arbitrary: d) (auto split: option.split)

text \<open>The bytes \<open>bs\<close> take the loader from \<open>d\<close> to \<open>d'\<close>, and it is not finished before the last of them.\<close>

definition loads :: "loader \<Rightarrow> u8 list \<Rightarrow> loader \<Rightarrow> bool" where
  "loads d bs d' \<longleftrightarrow> payload_bytes bs d = Some d' \<and>
     (\<forall>k < length bs. \<exists>e. payload_bytes (take k bs) d = Some e \<and> section_count e \<noteq> section_number e)"

lemma loads_Nil [simp]: "loads d [] d' \<longleftrightarrow> d' = d"
  by (auto simp: loads_def)

lemma loads_append:
  assumes "loads d bs e" "loads e cs d'"
  shows "loads d (bs @ cs) d'"
  unfolding loads_def
proof (intro conjI allI impI)
  show "payload_bytes (bs @ cs) d = Some d'" using assms by (simp add: loads_def payload_bytes_append)
  fix k assume k: "k < length (bs @ cs)"
  show "\<exists>e. payload_bytes (take k (bs @ cs)) d = Some e \<and> section_count e \<noteq> section_number e"
  proof (cases "k < length bs")
    case False
    then have "take k (bs @ cs) = bs @ take (k - length bs) cs" "k - length bs < length cs" using k by simp_all
    then show ?thesis using assms by (simp add: loads_def payload_bytes_append)
  qed (use assms in \<open>simp add: loads_def\<close>)
qed

lemma loads_split:
  assumes "loads d (bs @ cs) d'" "cs \<noteq> []"
  shows "\<exists>e. loads d bs e \<and> loads e cs d' \<and> section_count e \<noteq> section_number e"
proof -
  have prefixes: "\<exists>e. payload_bytes (take k (bs @ cs)) d = Some e \<and> section_count e \<noteq> section_number e"
    if "k < length (bs @ cs)" for k using assms(1) that by (simp only: loads_def)
  obtain e where e: "payload_bytes bs d = Some e" "section_count e \<noteq> section_number e"
    using prefixes [of "length bs"] assms(2) by auto
  have "loads d bs e" unfolding loads_def
  proof (intro conjI allI impI)
    fix k assume "k < length bs"
    then show "\<exists>e. payload_bytes (take k bs) d = Some e \<and> section_count e \<noteq> section_number e" using prefixes [of k] by simp
  qed (rule e(1))
  moreover have "loads e cs d'" unfolding loads_def
  proof (intro conjI allI impI)
    show "payload_bytes cs e = Some d'" using assms(1) e(1) by (simp add: loads_def payload_bytes_append)
    fix k assume "k < length cs"
    then show "\<exists>e'. payload_bytes (take k cs) e = Some e' \<and> section_count e' \<noteq> section_number e'"
      using prefixes [of "length bs + k"] e(1) by (auto simp: payload_bytes_append)
  qed
  ultimately show ?thesis using e(2) by blast
qed

text \<open>A header word.\<close>

definition be_bytes :: "u32 \<Rightarrow> u8 list" where
  "be_bytes w = [ucast (drop_bit 24 w), ucast (drop_bit 16 w), ucast (drop_bit 8 w), ucast w]"

lemma ucast_byte: "ucast (ucast (w :: u32) :: u8) = (take_bit 8 w :: u32)"
  by (rule bit_eqI) (auto simp: bit_simps)

lemma be_bytes_word:
  "((push_bit 24 (ucast (ucast (drop_bit 24 w) :: u8)) OR push_bit 16 (ucast (ucast (drop_bit 16 w) :: u8)))
     OR push_bit 8 (ucast (ucast (drop_bit 8 w) :: u8))) OR ucast (ucast w :: u8) = (w :: u32)"
  unfolding ucast_byte using word_of_bytes [of w] by (simp add: or.assoc)

lemma payload_header_byte:
  assumes "current_state d \<noteq> STATE_SECTION_DATA" "section_byte_count d < 3"
  shows "payload_byte v d =
    Some (d\<lparr>integer := integer d OR push_bit (unat ((3 - section_byte_count d mod 4) * 8)) v,
            section_byte_count := section_byte_count d + 1\<rparr>)"
proof -
  have "section_byte_count d + 1 \<noteq> 4" "(section_byte_count d + 1) mod 4 \<noteq> 0"
    using assms(2) by (auto simp: word_less_nat_alt word_unat_eq_iff unat_mod unat_plus_if')
  then show ?thesis using assms(1) by (simp add: payload_byte_def section_end_def Let_def)
qed

lemma header_word_count:
  "current_state d \<noteq> STATE_SECTION_DATA \<Longrightarrow>
   header_word (d\<lparr>integer := w, section_byte_count := n\<rparr>) = header_word (d\<lparr>integer := w\<rparr>)"
  by (cases d) (auto split: load_state.split)

lemma header_loads:
  assumes "current_state d \<noteq> STATE_SECTION_DATA" "section_byte_count d = 0" "integer d = 0"
    "section_count d \<noteq> section_number d"
    and "section_end (header_word (d\<lparr>integer := w\<rparr>)) = Some e" "section_byte_count e = 0"
  shows "loads d (be_bytes w) (e\<lparr>integer := 0\<rparr>)"
proof -
  let ?b = "\<lambda>n. ucast (ucast (drop_bit n w) :: u8) :: u32"
  let ?d1 = "d\<lparr>integer := push_bit 24 (?b 24), section_byte_count := 1\<rparr>"
  let ?d2 = "d\<lparr>integer := push_bit 24 (?b 24) OR push_bit 16 (?b 16), section_byte_count := 2\<rparr>"
  let ?d3 = "d\<lparr>integer := push_bit 24 (?b 24) OR push_bit 16 (?b 16) OR push_bit 8 (?b 8), section_byte_count := 3\<rparr>"
  have 1: "payload_byte (?b 24) d = Some ?d1" and 2: "payload_byte (?b 16) ?d1 = Some ?d2"
    and 3: "payload_byte (?b 8) ?d2 = Some ?d3"
    using assms(1-3) by (simp_all add: payload_header_byte or.assoc)
  have "payload_byte (?b 0) ?d3 = map_option (\<lambda>d. if section_byte_count d mod 4 = 0 then d\<lparr>integer := 0\<rparr> else d)
      (section_end (header_word (d\<lparr>integer := w, section_byte_count := 4\<rparr>)))"
    using assms(1) be_bytes_word [of w] by (simp add: payload_byte_def Let_def or.assoc del: header_word.simps)
  then have 4: "payload_byte (?b 0) ?d3 = Some (e\<lparr>integer := 0\<rparr>)"
    using assms(5,6) by (simp add: header_word_count [OF assms(1)] del: header_word.simps)
  show ?thesis
    using 1 2 3 4 assms(4) by (auto simp: loads_def be_bytes_def less_Suc_eq)
qed

section \<open>Section data in memory\<close>

text \<open>Byte \<open>l\<close> of a word, in memory order.\<close>

definition word_byte :: "u32 \<Rightarrow> nat \<Rightarrow> u32" where
  "word_byte w l = take_bit 8 (drop_bit (24 - 8 * l) w)"

lemma lane_nat: "unat (take_bit 2 (x :: u32)) = unat x mod 4"
  by (simp add: take_bit_eq_mod unat_mod)

lemma lane_shift: "unat (24 - 8 * take_bit 2 (x :: u32)) = 24 - 8 * (unat x mod 4)"
  by (rule lane_cases [of x]) (simp_all flip: lane_nat)

text \<open>Whether two addresses are in the same word, relative to an aligned base.\<close>

lemma same_word_iff:
  assumes "aligned4 base"
  shows "word_ptr (drop_bit 2 a) = word_ptr (drop_bit 2 c) \<longleftrightarrow> unat (a - base) div 4 = unat (c - base) div 4"
proof -
  have rel: "word_ptr (drop_bit 2 x) = base + word_ptr (drop_bit 2 (x - base))" for x
    using assms take_bit_2_add [of "x - base" base] by (simp add: word_ptr_lane aligned4_def)
  have nat: "unat (word_ptr (drop_bit 2 x)) = unat x div 4 * 4" for x :: u32
  proof -
    have "unat (x - take_bit 2 x) = unat x - unat x mod 4"
      by (subst unat_sub) (simp_all add: lane_nat word_le_nat_alt)
    then show ?thesis by (simp add: word_ptr_lane minus_mod_eq_div_mult)
  qed
  have "word_ptr (drop_bit 2 a) = word_ptr (drop_bit 2 c) \<longleftrightarrow>
      word_ptr (drop_bit 2 (a - base)) = word_ptr (drop_bit 2 (c - base))"
    using rel [of a] rel [of c] by simp
  also have "\<dots> \<longleftrightarrow> unat (a - base) div 4 = unat (c - base) div 4" by (simp add: word_unat_eq_iff nat)
  finally show ?thesis .
qed

lemma mem_put_byte:
  assumes "aligned4 base"
  shows "mem_iord_byte (mem_put x v m) a =
    (if unat (a - base) div 4 = unat (x - base) div 4 then word_byte v (unat (a - base) mod 4) else mem_iord_byte m a)"
proof -
  have x: "x div 4 = drop_bit 2 x" by (simp add: drop_bit_eq_div)
  have "take_bit 2 a = take_bit 2 (a - base)"
    using assms take_bit_2_add [of "a - base" base] by (simp add: aligned4_def)
  then show ?thesis
    using same_word_iff [OF assms, of a x]
    by (auto simp: mem_put_def x mem_iord_byte_lane word_byte_def lane_shift)
qed

text \<open>Memory after the bytes \<open>bs\<close> have been stored at \<open>base\<close>, followed by zeros up to \<open>pad\<close> bytes.\<close>

definition stored :: "u32 \<Rightarrow> u8 list \<Rightarrow> nat \<Rightarrow> (u32 \<Rightarrow> u32) \<Rightarrow> u32 \<Rightarrow> u32" where
  "stored base bs pad f a =
     (let j = unat (a - base) in if j < length bs then ucast (bs ! j) else if j < pad then 0 else f a)"

definition round4 :: "nat \<Rightarrow> nat" where
  "round4 n = (n + 3) div 4 * 4"

lemma bit_word_byte: "bit (word_byte w l) n \<longleftrightarrow> n < 8 \<and> bit w (24 - 8 * l + n)"
  by (auto simp: word_byte_def bit_simps)

lemma word_byte_or:
  assumes "l < 4" "c < 4"
  shows "word_byte (i OR push_bit (24 - 8 * c) (ucast (b :: u8))) l = (if l = c then word_byte i l OR ucast b else word_byte i l)"
proof (rule bit_eqI)
  fix n
  have b: "\<not> bit b k" if "8 \<le> k" for k using bit_imp_le_length [of b k] that by auto
  have inside: "24 - 8 * l + n < 32" if "n < 8" using that by arith
  consider "l < c" "8 \<le> 24 - 8 * l + n - (24 - 8 * c)" | "l = c" "n < 8" | "l = c" "8 \<le> n" | "n < 8" "24 - 8 * l + n < 24 - 8 * c" | "c < l" "\<not> n < 8"
    using assms by arith
  then show "bit (word_byte (i OR push_bit (24 - 8 * c) (ucast b)) l) n \<longleftrightarrow>
      bit (if l = c then word_byte i l OR ucast b else word_byte i l) n"
    using b inside by cases (auto simp: bit_word_byte bit_or_iff bit_push_bit_iff bit_ucast_iff not_less)
qed

lemma count_mod_4: "unat ((of_nat k :: u32) mod 4) = k mod 4"
proof -
  have "(4 :: nat) dvd 2 ^ 32" by simp
  then have "k mod 2 ^ 32 mod 4 = k mod 4" by (rule mod_mod_cancel)
  then show ?thesis by (simp add: unat_mod unat_of_nat)
qed

lemma count_shift: "unat (24 - (of_nat k :: u32) mod 4 * 8) = 24 - 8 * (k mod 4)"
proof -
  have k: "(of_nat k :: u32) mod 4 = of_nat (k mod 4)" using count_mod_4 [of k] by (metis word_of_nat_eq_iff unat_of_nat of_nat_unat ucast_id word_unat_eq_iff unsigned_of_nat take_bit_of_nat)
  have "k mod 4 = 0 \<or> k mod 4 = 1 \<or> k mod 4 = 2 \<or> k mod 4 = 3" by auto
  then show ?thesis unfolding k by auto
qed

text \<open>The loader after the bytes \<open>bs\<close> of a section: the word that is being collected and the memory.\<close>

definition collected :: "u8 list \<Rightarrow> u32 \<Rightarrow> bool" where
  "collected bs i \<longleftrightarrow> (\<forall>l < 4. word_byte i l = (if l < length bs mod 4 then ucast (bs ! (length bs - length bs mod 4 + l)) else 0))"

lemma collected_snoc:
  assumes "collected bs i" "l < 4"
  shows "word_byte (i OR push_bit (24 - 8 * (length bs mod 4)) (ucast b)) l =
    (if l \<le> length bs mod 4 then ucast ((bs @ [b]) ! (length bs - length bs mod 4 + l)) else 0)"
proof -
  have "length bs mod 4 < 4" by simp
  with assms show ?thesis
    by (simp add: word_byte_or collected_def nth_append) (auto simp: mod_le_divisor)
qed

lemma round4_Suc: "round4 (Suc k) = k div 4 * 4 + 4"
  by (simp add: round4_def div_add_self1)

lemma same_div_4:
  assumes "(j :: nat) div 4 = k div 4"
  shows "k - k mod 4 + j mod 4 = j \<and> (j mod 4 \<le> k mod 4 \<longleftrightarrow> j \<le> k) \<and> j < round4 (Suc k)"
proof -
  have "k div 4 * 4 + j mod 4 = j" "k div 4 * 4 + k mod 4 = k" using assms by (metis div_mult_mod_eq)+
  moreover have "j mod 4 < 4" by simp
  ultimately show ?thesis unfolding round4_Suc by linarith
qed

lemma other_div_4:
  assumes "(j :: nat) div 4 \<noteq> k div 4"
  shows "(j < Suc k \<longleftrightarrow> j < k) \<and> (\<not> j < k \<longrightarrow> \<not> j < round4 (Suc k) \<and> \<not> j < round4 k)"
proof -
  have "j \<noteq> k" using assms by auto
  moreover have "round4 (Suc k) \<le> j" if "k \<le> j"
  proof -
    have "k div 4 < j div 4" using assms div_le_mono [OF that, of 4] by simp
    then have "k div 4 * 4 + 4 \<le> j div 4 * 4" by simp
    also have "\<dots> \<le> j" by simp
    finally show ?thesis by (simp add: round4_Suc)
  qed
  moreover have "round4 k \<le> round4 (Suc k)" by (auto simp: round4_def intro: div_le_mono)
  ultimately show ?thesis by auto
qed

lemma stored_snoc:
  assumes "aligned4 base" "collected bs i" "length bs < 2 ^ 32"
    and "\<And>a. mem_iord_byte m a = stored base bs (round4 (length bs)) f a"
  shows "mem_iord_byte (mem_put (base + of_nat (length bs)) (i OR push_bit (24 - 8 * (length bs mod 4)) (ucast b)) m) a =
    stored base (bs @ [b]) (round4 (Suc (length bs))) f a"
proof -
  let ?k = "length bs" and ?j = "unat (a - base)"
  have k: "unat (of_nat ?k :: u32) = ?k" using assms(3) by (rule unat_of_nat_u32)
  show ?thesis
  proof (cases "?j div 4 = ?k div 4")
    case True
    have "?k - ?k mod 4 + ?j mod 4 = ?j" "?j mod 4 \<le> ?k mod 4 \<longleftrightarrow> ?j \<le> ?k" "?j < round4 (Suc ?k)"
      using same_div_4 [OF True] by simp_all
    then show ?thesis
      using True collected_snoc [OF assms(2), of "?j mod 4" b]
      by (auto simp: mem_put_byte [OF assms(1)] k stored_def Let_def less_Suc_eq_le)
  next
    case False
    then have "?j < Suc ?k \<longleftrightarrow> ?j < ?k" "\<not> ?j < ?k \<Longrightarrow> \<not> ?j < round4 (Suc ?k) \<and> \<not> ?j < round4 ?k"
      using other_div_4 [OF False] by simp_all
    with False show ?thesis
      by (auto simp: mem_put_byte [OF assms(1)] k assms(4) stored_def Let_def nth_append)
  qed
qed

lemma collected_next:
  assumes "collected bs i"
  shows "collected (bs @ [b])
    (if Suc (length bs) mod 4 = 0 then 0 else i OR push_bit (24 - 8 * (length bs mod 4)) (ucast b))"
proof (cases "Suc (length bs) mod 4 = 0")
  case True
  then show ?thesis by (simp add: collected_def word_byte_def)
next
  case False
  then have k: "Suc (length bs) mod 4 = Suc (length bs mod 4)" by (simp add: mod_Suc split: if_splits)
  then show ?thesis
    using False collected_snoc [OF assms, of _ b] by (simp add: collected_def less_Suc_eq_le)
qed

text \<open>The loader inside the data of a section.\<close>

definition in_section :: "loader \<Rightarrow> u8 list \<Rightarrow> loader \<Rightarrow> bool" where
  "in_section d bs e \<longleftrightarrow> (\<exists>i m. e = d\<lparr>section_byte_count := of_nat (length bs), integer := i, main_mem := m\<rparr> \<and> collected bs i \<and>
     (\<forall>a. mem_iord_byte m a = stored (section_offset d) bs (round4 (length bs)) (mem_iord_byte (main_mem d)) a))"

text \<open>One more byte, without the test for the end of the section.\<close>

definition data_byte :: "u32 \<Rightarrow> loader \<Rightarrow> loader" where
  "data_byte data d =
     (let d = d\<lparr>integer := integer d OR push_bit (unat ((3 - section_byte_count d mod 4) * 8)) data\<rparr>;
          d = d\<lparr>section_byte_count := section_byte_count d + 1\<rparr>
      in d\<lparr>main_mem := mem_put (section_offset d + section_byte_count d - 1) (integer d) (main_mem d)\<rparr>)"

definition clear_word :: "loader \<Rightarrow> loader" where
  "clear_word d = (if section_byte_count d mod 4 = 0 then d\<lparr>integer := 0\<rparr> else d)"

lemma payload_data_byte:
  "current_state d = STATE_SECTION_DATA \<Longrightarrow> payload_byte data d = map_option clear_word (section_end (data_byte data d))"
  by (simp add: payload_byte_def data_byte_def clear_word_def [abs_def] Let_def)

lemma in_section_next:
  assumes "in_section d bs e" "aligned4 (section_offset d)" "length bs < 2 ^ 32"
  shows "in_section d (bs @ [b]) (clear_word (data_byte (ucast b) e))"
proof -
  obtain i m where e: "e = d\<lparr>section_byte_count := of_nat (length bs), integer := i, main_mem := m\<rparr>" and i: "collected bs i"
    and m: "\<And>a. mem_iord_byte m a = stored (section_offset d) bs (round4 (length bs)) (mem_iord_byte (main_mem d)) a"
    using assms(1) by (auto simp: in_section_def)
  let ?i = "i OR push_bit (24 - 8 * (length bs mod 4)) (ucast b)"
  have "(of_nat (length bs) + 1 :: u32) mod 4 = 0 \<longleftrightarrow> Suc (length bs) mod 4 = 0"
    using count_mod_4 [of "Suc (length bs)"] by (simp add: unat_eq_zero add.commute flip: unat_eq_zero)
  then have "clear_word (data_byte (ucast b) e) =
      d\<lparr>section_byte_count := of_nat (Suc (length bs)), integer := (if Suc (length bs) mod 4 = 0 then 0 else ?i),
        main_mem := mem_put (section_offset d + of_nat (length bs)) ?i m\<rparr>"
    by (cases d) (simp add: e clear_word_def data_byte_def Let_def count_shift add.commute)
  moreover have "mem_iord_byte (mem_put (section_offset d + of_nat (length bs)) ?i m) a =
      stored (section_offset d) (bs @ [b]) (round4 (Suc (length bs))) (mem_iord_byte (main_mem d)) a" for a
    by (rule stored_snoc [OF assms(2) i assms(3) m])
  ultimately show ?thesis
    using collected_next [OF i, of b] unfolding in_section_def by (intro exI conjI) auto
qed

text \<open>All bytes but the last of a section.\<close>

lemma data_prefix:
  assumes "current_state d = STATE_SECTION_DATA" "section_byte_count d = 0" "integer d = 0" "aligned4 (section_offset d)"
    and "length bs < unat (section_filesize d)"
  shows "\<exists>e. payload_bytes bs d = Some e \<and> in_section d bs e"
  using assms(5)
proof (induction bs rule: rev_induct)
  case Nil
  have "in_section d [] d"
    using assms(2,3) by (auto simp: in_section_def collected_def word_byte_def stored_def round4_def intro!: exI [of _ 0] exI [of _ "main_mem d"])
  then show ?case by simp
next
  case (snoc b bs)
  then obtain e where e: "payload_bytes bs d = Some e" "in_section d bs e" by auto
  have len: "Suc (length bs) < unat (section_filesize d)" using snoc.prems by simp
  then have "length bs < 2 ^ 32" using unat_less_32 [of "section_filesize d"] by simp
  then have "in_section d (bs @ [b]) (clear_word (data_byte (ucast b) e))" by (rule in_section_next [OF e(2) assms(4)])
  moreover have "section_end (data_byte (ucast b) e) = Some (data_byte (ucast b) e)"
  proof -
    have "Suc (length bs) < 2 ^ 32" using len unat_less_32 [of "section_filesize d"] by simp
    then have "unat (of_nat (Suc (length bs)) :: u32) = Suc (length bs)" by (rule unat_of_nat_u32)
    then have "of_nat (Suc (length bs)) \<noteq> section_filesize d" using len by (metis less_irrefl)
    then show ?thesis using e(2) by (auto simp: in_section_def section_end_def data_byte_def Let_def add.commute)
  qed
  moreover have "current_state e = STATE_SECTION_DATA" using e(2) assms(1) by (auto simp: in_section_def)
  ultimately show ?case by (simp add: payload_bytes_append e(1) payload_data_byte)
qed

section \<open>A section\<close>

text \<open>Filling with zeros ends unless the counter wraps around.\<close>

lemma zero_fill_step: "zero_fill offset memsize n m =
    (if n < memsize then zero_fill offset memsize (n + 4) (mem_put (offset + n) 0 m) else Some m)"
  by (rule zero_fill.simps)

lemma round4_bounds: "n \<le> round4 n" "round4 n mod 4 = 0" "n \<le> m \<Longrightarrow> m mod 4 = 0 \<Longrightarrow> round4 n \<le> m"
proof -
  show "n \<le> round4 n" unfolding round4_def by linarith
  show "round4 n mod 4 = 0" by (simp add: round4_def)
  assume "n \<le> m" "m mod 4 = 0"
  then obtain q where "m = 4 * q" by (auto simp: dvd_def mod_eq_0_iff_dvd)
  moreover have "(n + 3) div 4 \<le> (4 * q + 3) div 4" using calculation \<open>n \<le> m\<close> by (intro div_le_mono) simp
  ultimately show "round4 n \<le> m" by (simp add: round4_def)
qed

lemma round4_above:
  assumes "k mod 4 = 0" "k < n"
  shows "k + 4 \<le> round4 n"
proof -
  obtain q where q: "k = 4 * q" using assms(1) by (auto simp: dvd_def mod_eq_0_iff_dvd)
  have "(4 * q + 4) div 4 \<le> (n + 3) div 4" using assms(2) q by (intro div_le_mono) simp
  then show ?thesis by (simp add: round4_def q)
qed

lemma zero_fill_stored:
  assumes "aligned4 offset" "unat memsize \<le> 2 ^ 32 - 4" "k mod 4 = 0" "k \<le> round4 (unat memsize)" "length bs \<le> k"
    and "\<And>a. mem_iord_byte m a = stored offset bs k f a"
  shows "\<exists>m'. zero_fill offset memsize (of_nat k) m = Some m' \<and>
    (\<forall>a. mem_iord_byte m' a = stored offset bs (round4 (unat memsize)) f a)"
  using assms(3-6)
proof (induction "round4 (unat memsize) - k" arbitrary: k m rule: less_induct)
  case less
  have "round4 (unat memsize) \<le> 2 ^ 32 - 4" using assms(2) by (intro round4_bounds(3)) simp_all
  then have k32: "k < 2 ^ 32" using less.prems(2) by simp
  then have k: "unat (of_nat k :: u32) = k" by (rule unat_of_nat_u32)
  show ?case
  proof (cases "k < unat memsize")
    case True
    have next_le: "k + 4 \<le> round4 (unat memsize)" using less.prems(1) True by (rule round4_above)
    have "mem_iord_byte (mem_put (offset + of_nat k) 0 m) a = stored offset bs (k + 4) f a" for a
    proof -
      let ?j = "unat (a - offset)"
      obtain q where q: "k = 4 * q" using less.prems(1) by (auto simp: dvd_def mod_eq_0_iff_dvd)
      have "?j div 4 = k div 4 \<longleftrightarrow> k \<le> ?j \<and> ?j < k + 4" unfolding q by auto
      then show ?thesis
        using less.prems(3,4) by (auto simp: mem_put_byte [OF assms(1)] k stored_def Let_def word_byte_def)
    qed
    moreover have "(k + 4) mod 4 = 0" using less.prems(1) by simp
    ultimately have "\<exists>m'. zero_fill offset memsize (of_nat (k + 4)) (mem_put (offset + of_nat k) 0 m) = Some m' \<and>
        (\<forall>a. mem_iord_byte m' a = stored offset bs (round4 (unat memsize)) f a)"
      using less.hyps [of "k + 4"] less.prems(3) next_le by simp
    moreover have "(of_nat k :: u32) < memsize" using True k by (simp add: word_less_nat_alt)
    ultimately show ?thesis by (subst zero_fill_step) (simp add: add.commute)
  next
    case False
    then have "round4 (unat memsize) \<le> k" using less.prems(1) by (intro round4_bounds(3)) simp_all
    then have "k = round4 (unat memsize)" using less.prems(2) by simp
    moreover have "\<not> (of_nat k :: u32) < memsize" using False k by (simp add: word_less_nat_alt)
    ultimately show ?thesis using less.prems(4) by (subst zero_fill_step) simp
  qed
qed

lemma round4_word:
  assumes "n \<le> 2 ^ 32 - 4"
  shows "((of_nat n + 3) AND NOT 3 :: u32) = of_nat (round4 n)"
proof -
  have n: "unat (of_nat n + 3 :: u32) = n + 3"
  proof -
    have "n + 3 < 2 ^ 32" using assms by simp
    then have "unat (of_nat (n + 3) :: u32) = n + 3" by (rule unat_of_nat_u32)
    then show ?thesis by simp
  qed
  have "unat ((of_nat n + 3) AND NOT 3 :: u32) = unat (word_ptr (drop_bit 2 (of_nat n + 3)))"
    unfolding and_not_3 word_ptr_def ..
  also have "\<dots> = round4 n"
  proof -
    have "unat (x - take_bit 2 x) = unat x div 4 * 4" for x :: u32
      by (subst unat_sub) (simp_all add: lane_nat word_le_nat_alt minus_mod_eq_div_mult)
    then show ?thesis by (simp add: word_ptr_lane n round4_def)
  qed
  finally show ?thesis by (metis word_of_nat_eq_iff unat_of_nat word_unat_eq_iff of_nat_unat ucast_id)
qed

text \<open>A section of an image, and how it is sent.\<close>

record image_section =
  sec_offset :: u32
  sec_memsize :: u32
  sec_data :: "u8 list"

definition section_ok :: "image_section \<Rightarrow> bool" where
  "section_ok sc \<longleftrightarrow> aligned4 (sec_offset sc) \<and> length (sec_data sc) \<le> unat (sec_memsize sc) \<and> unat (sec_memsize sc) \<le> 2 ^ 32 - 4"

definition section_bytes :: "image_section \<Rightarrow> u8 list" where
  "section_bytes sc = be_bytes (of_nat (length (sec_data sc))) @ be_bytes (sec_offset sc) @ be_bytes (sec_memsize sc) @ sec_data sc"

text \<open>The memory, byte by byte, with a section loaded.\<close>

definition with_section :: "image_section \<Rightarrow> (u32 \<Rightarrow> u32) \<Rightarrow> u32 \<Rightarrow> u32" where
  "with_section sc f = stored (sec_offset sc) (sec_data sc) (round4 (unat (sec_memsize sc))) f"

lemma section_end_stored:
  assumes "section_ok sc" "current_state e = STATE_SECTION_DATA" "section_filesize e = of_nat (length (sec_data sc))"
    "section_byte_count e = of_nat (length (sec_data sc))" "section_offset e = sec_offset sc" "section_memsize e = sec_memsize sc"
    and "\<And>a. mem_iord_byte (main_mem e) a = stored (sec_offset sc) (sec_data sc) (round4 (length (sec_data sc))) f a"
  shows "\<exists>m. section_end e = Some (e\<lparr>main_mem := m, section_byte_count := 0, section_count := section_count e + 1,
      current_state := STATE_SECTION_FILESIZE\<rparr>) \<and> mem_iord_byte m = with_section sc f"
proof -
  let ?n = "length (sec_data sc)"
  have ok: "aligned4 (sec_offset sc)" "?n \<le> unat (sec_memsize sc)" "unat (sec_memsize sc) \<le> 2 ^ 32 - 4"
    using assms(1) by (simp_all add: section_ok_def)
  have "round4 ?n \<le> round4 (unat (sec_memsize sc))" using ok(2) by (auto simp: round4_def intro: div_le_mono)
  then obtain m where "zero_fill (sec_offset sc) (sec_memsize sc) (of_nat (round4 ?n)) (main_mem e) = Some m"
      "\<forall>a. mem_iord_byte m a = stored (sec_offset sc) (sec_data sc) (round4 (unat (sec_memsize sc))) f a"
    using zero_fill_stored [OF ok(1,3) round4_bounds(2) _ round4_bounds(1) assms(7)] by auto
  moreover have "((of_nat ?n + 3) AND NOT 3 :: u32) = of_nat (round4 ?n)" using ok by (intro round4_word) simp
  ultimately show ?thesis using assms(2-6) by (auto simp: section_end_def with_section_def)
qed

definition after_section :: "image_section \<Rightarrow> buffer \<Rightarrow> loader \<Rightarrow> loader" where
  "after_section sc m d = d\<lparr>section_filesize := of_nat (length (sec_data sc)), section_offset := sec_offset sc,
     section_memsize := sec_memsize sc, section_byte_count := 0, integer := 0, section_count := section_count d + 1,
     current_state := STATE_SECTION_FILESIZE, main_mem := m\<rparr>"

text \<open>The data of a section that is not empty.\<close>

lemma data_loads:
  assumes ok: "section_ok sc" and "sec_data sc \<noteq> []" and st: "current_state d = STATE_SECTION_DATA"
    and fields: "section_filesize d = of_nat (length (sec_data sc))" "section_offset d = sec_offset sc" "section_memsize d = sec_memsize sc"
    and zero: "section_byte_count d = 0" "integer d = 0" and un: "section_count d \<noteq> section_number d"
  shows "\<exists>m. loads d (sec_data sc) (d\<lparr>section_byte_count := 0, integer := 0, section_count := section_count d + 1,
     current_state := STATE_SECTION_FILESIZE, main_mem := m\<rparr>) \<and> mem_iord_byte m = with_section sc (mem_iord_byte (main_mem d))"
proof -
  let ?n = "length (sec_data sc)"
  have al: "aligned4 (section_offset d)" and n32: "?n < 2 ^ 32" using ok fields by (auto simp: section_ok_def)
  then have n: "unat (section_filesize d) = ?n" by (simp add: fields unat_of_nat_u32)
  obtain bs b where data: "sec_data sc = bs @ [b]" using assms(2) by (metis append_butlast_last_id)
  obtain e where e: "payload_bytes bs d = Some e" "in_section d bs e"
    using data_prefix [OF st zero al, of bs] n data by auto
  have est: "current_state e = STATE_SECTION_DATA" using e(2) st by (auto simp: in_section_def)
  have len: "length bs < 2 ^ 32" using n32 data by simp
  let ?e = "data_byte (ucast b) e"
  have in_e: "in_section d (sec_data sc) (clear_word ?e)"
    unfolding data by (rule in_section_next [OF e(2) al len])
  have fields_e: "current_state ?e = STATE_SECTION_DATA" "section_filesize ?e = of_nat ?n" "section_byte_count ?e = of_nat ?n"
      "section_offset ?e = sec_offset sc" "section_memsize ?e = sec_memsize sc" "section_count ?e = section_count d"
    using e(2) st fields data by (auto simp: in_section_def data_byte_def Let_def)
  have "main_mem (clear_word ?e) = main_mem ?e" by (simp add: clear_word_def)
  then have mem: "mem_iord_byte (main_mem ?e) a = stored (sec_offset sc) (sec_data sc) (round4 ?n) (mem_iord_byte (main_mem d)) a" for a
    using in_e fields by (auto simp: in_section_def)
  obtain m where m: "section_end ?e = Some (?e\<lparr>main_mem := m, section_byte_count := 0, section_count := section_count ?e + 1,
        current_state := STATE_SECTION_FILESIZE\<rparr>)" "mem_iord_byte m = with_section sc (mem_iord_byte (main_mem d))"
    using section_end_stored [OF ok fields_e(1-5) mem] by auto
  have "payload_bytes (sec_data sc) d = Some (d\<lparr>section_byte_count := 0, integer := 0, section_count := section_count d + 1,
      current_state := STATE_SECTION_FILESIZE, main_mem := m\<rparr>)"
    using e m(1) by (cases d) (auto simp: data payload_bytes_append payload_data_byte [OF est] clear_word_def in_section_def data_byte_def Let_def)
  moreover have "\<exists>e. payload_bytes (take k (sec_data sc)) d = Some e \<and> section_count e \<noteq> section_number e" if "k < ?n" for k
    using data_prefix [OF st zero al, of "take k (sec_data sc)"] that n un by (auto simp: in_section_def)
  ultimately show ?thesis using m(2) unfolding loads_def by blast
qed

lemma header_loads_plain:
  assumes "current_state d \<in> {STATE_ENTRYPOINT, STATE_SECTION_NUMBER, STATE_SECTION_FILESIZE, STATE_SECTION_OFFSET}"
    "section_byte_count d = 0" "integer d = 0" "section_count d \<noteq> section_number d"
  shows "loads d (be_bytes w) ((header_word (d\<lparr>integer := w\<rparr>))\<lparr>integer := 0\<rparr>)"
  using assms by (intro header_loads) (auto simp: section_end_def)

lemma memsize_loads:
  assumes "current_state d = STATE_SECTION_MEMSIZE" "section_filesize d \<noteq> 0"
    "section_byte_count d = 0" "integer d = 0" "section_count d \<noteq> section_number d"
  shows "loads d (be_bytes w) (d\<lparr>section_memsize := w, section_byte_count := 0, current_state := STATE_SECTION_DATA, integer := 0\<rparr>)"
  using header_loads [of d w] assms by (cases d) (auto simp: section_end_def)

lemma section_loads:
  assumes ok: "section_ok sc" and st: "current_state d = STATE_SECTION_FILESIZE"
    and zero: "section_byte_count d = 0" "integer d = 0" and un: "section_count d \<noteq> section_number d"
  shows "\<exists>m. loads d (section_bytes sc) (after_section sc m d) \<and> mem_iord_byte m = with_section sc (mem_iord_byte (main_mem d))"
proof -
  let ?n = "length (sec_data sc)"
  let ?d1 = "d\<lparr>section_filesize := of_nat ?n, section_byte_count := 0, current_state := STATE_SECTION_OFFSET, integer := 0\<rparr>"
  let ?d2 = "d\<lparr>section_filesize := of_nat ?n, section_offset := sec_offset sc, section_byte_count := 0,
      current_state := STATE_SECTION_MEMSIZE, integer := 0\<rparr>"
  let ?d3 = "d\<lparr>section_filesize := of_nat ?n, section_offset := sec_offset sc, section_memsize := sec_memsize sc,
      section_byte_count := 0, current_state := STATE_SECTION_DATA, integer := 0\<rparr>"
  have 1: "loads d (be_bytes (of_nat ?n)) ?d1"
    using header_loads_plain [of d "of_nat ?n"] st zero un by (cases d) auto
  have 2: "loads ?d1 (be_bytes (sec_offset sc)) ?d2"
    using header_loads_plain [of ?d1 "sec_offset sc"] un by (cases d) auto
  have n0: "(of_nat ?n :: u32) = 0 \<longleftrightarrow> sec_data sc = []"
    using ok unat_of_nat_u32 [of ?n] by (auto simp: section_ok_def simp flip: unat_eq_zero)
  show ?thesis
  proof (cases "sec_data sc = []")
    case False
    then have 3: "loads ?d2 (be_bytes (sec_memsize sc)) ?d3"
      using memsize_loads [of ?d2 "sec_memsize sc"] un n0 by (cases d) auto
    obtain m where m: "loads ?d3 (sec_data sc) (after_section sc m d)" "mem_iord_byte m = with_section sc (mem_iord_byte (main_mem d))"
      using data_loads [OF ok False, of ?d3] un by (cases d) (auto simp: after_section_def)
    show ?thesis using loads_append [OF 1 loads_append [OF 2 loads_append [OF 3 m(1)]]] m(2) by (auto simp: section_bytes_def)
  next
    case True
    have "stored (sec_offset sc) [] (round4 0) f a = f a" for f a by (simp add: stored_def round4_def)
    then obtain m where m: "section_end ?d3 = Some (?d3\<lparr>main_mem := m, section_byte_count := 0, section_count := section_count d + 1,
          current_state := STATE_SECTION_FILESIZE\<rparr>)" "mem_iord_byte m = with_section sc (mem_iord_byte (main_mem d))"
      using section_end_stored [OF ok, of ?d3 "mem_iord_byte (main_mem d)"] True by auto
    have "section_end (?d3\<lparr>integer := sec_memsize sc\<rparr>) = Some ((after_section sc m d)\<lparr>integer := sec_memsize sc\<rparr>)"
      using m(1) by (cases d) (auto simp: section_end_def after_section_def split: option.splits if_splits)
    then have "loads ?d2 (be_bytes (sec_memsize sc)) (after_section sc m d)"
      using header_loads [of ?d2 "sec_memsize sc" "(after_section sc m d)\<lparr>integer := sec_memsize sc\<rparr>"] un
      by (cases d) (simp add: after_section_def)
    then show ?thesis using loads_append [OF 1 loads_append [OF 2]] m(2) True by (auto simp: section_bytes_def)
  qed
qed

text \<open>A whole image.\<close>

definition image_bytes :: "u32 \<Rightarrow> image_section list \<Rightarrow> u8 list" where
  "image_bytes entry secs = be_bytes entry @ be_bytes (of_nat (length secs)) @ concat (map section_bytes secs)"

lemma sections_load:
  assumes "\<forall>sc \<in> set secs. section_ok sc" "current_state d = STATE_SECTION_FILESIZE" "section_byte_count d = 0" "integer d = 0"
    and "section_number d = section_count d + of_nat (length secs)" "length secs < 2 ^ 32"
  shows "\<exists>d'. loads d (concat (map section_bytes secs)) d' \<and> section_count d' = section_number d' \<and> entrypoint d' = entrypoint d \<and>
    mem_iord_byte (main_mem d') = fold with_section secs (mem_iord_byte (main_mem d))"
  using assms
proof (induction secs arbitrary: d)
  case (Cons sc secs)
  have "(of_nat (length (sc # secs)) :: u32) \<noteq> 0"
    using Cons.prems(6) unat_of_nat_u32 [of "length (sc # secs)"] by (metis list.size(4) nat.simps(3) add_Suc_right unat_0)
  then have un: "section_count d \<noteq> section_number d" using Cons.prems(5) by (metis add_cancel_left_right)
  obtain m where m: "loads d (section_bytes sc) (after_section sc m d)" "mem_iord_byte m = with_section sc (mem_iord_byte (main_mem d))"
    using section_loads [of sc d] Cons.prems un by auto
  let ?d = "after_section sc m d"
  have "current_state ?d = STATE_SECTION_FILESIZE" "section_byte_count ?d = 0" "integer ?d = 0" "entrypoint ?d = entrypoint d"
      "section_number ?d = section_count ?d + of_nat (length secs)" "main_mem ?d = m"
    using Cons.prems(5) by (simp_all add: after_section_def)
  with Cons.IH [of ?d] Cons.prems(1,6) obtain d' where
    "loads ?d (concat (map section_bytes secs)) d'" "section_count d' = section_number d'" "entrypoint d' = entrypoint d"
    "mem_iord_byte (main_mem d') = fold with_section secs (mem_iord_byte m)" by auto
  with m show ?case by (auto intro: loads_append)
qed simp

lemma image_loads:
  assumes "\<forall>sc \<in> set secs. section_ok sc" "length secs < 2 ^ 32 - 1"
  shows "\<exists>d'. loads (loader_init m) (image_bytes entry secs) d' \<and> section_count d' = section_number d' \<and> entrypoint d' = entry \<and>
    mem_iord_byte (main_mem d') = fold with_section secs (mem_iord_byte m)"
proof -
  let ?d = "loader_init m"
  let ?d1 = "?d\<lparr>entrypoint := entry, current_state := STATE_SECTION_NUMBER\<rparr>"
  let ?d2 = "?d\<lparr>entrypoint := entry, section_number := of_nat (length secs), current_state := STATE_SECTION_FILESIZE\<rparr>"
  have 1: "loads ?d (be_bytes entry) ?d1" using header_loads_plain [of ?d entry] by (simp add: loader_init_def)
  have 2: "loads ?d1 (be_bytes (of_nat (length secs))) ?d2"
    using header_loads_plain [of ?d1 "of_nat (length secs)"] by (simp add: loader_init_def)
  obtain d' where "loads ?d2 (concat (map section_bytes secs)) d'" "section_count d' = section_number d'" "entrypoint d' = entry"
      "mem_iord_byte (main_mem d') = fold with_section secs (mem_iord_byte m)"
    using sections_load [OF assms(1), of ?d2] assms(2) by (auto simp: loader_init_def)
  with loads_append [OF 1 loads_append [OF 2]] show ?thesis by (auto simp: image_bytes_def)
qed

section \<open>Packets\<close>

definition crc_fold :: "u8 list \<Rightarrow> u32 \<Rightarrow> u32" where
  "crc_fold bs c = fold (\<lambda>b. crc_byte (ucast b)) bs c"

definition crc32 :: "u8 list \<Rightarrow> u32" where
  "crc32 bs = crc_fold bs 0xFFFFFFFF XOR 0xFFFFFFFF"

text \<open>A packet with the checksum field \<open>c\<close>.\<close>

definition packet_wire :: "u32 \<Rightarrow> u8 list \<Rightarrow> u8 list" where
  "packet_wire c p = of_nat (length p) # be_bytes c @ p"

definition packet_ok :: "u8 list \<Rightarrow> bool" where
  "packet_ok p \<longleftrightarrow> p \<noteq> [] \<and> length p < 256"

definition wire :: "u8 list list \<Rightarrow> u8 list" where
  "wire ps = concat (map (\<lambda>p. packet_wire (crc32 p) p) ps)"

lemma crc_shift_in:
  "push_bit 8 (push_bit 8 (push_bit 8 (take_bit 8 (drop_bit 24 w)) OR take_bit 8 (drop_bit 16 w)) OR take_bit 8 (drop_bit 8 w))
     OR take_bit 8 w = (w :: u32)"
  using word_of_bytes [of w] by (simp add: push_bit_or or.assoc)

text \<open>
  The interface between the loader and its channel: \<open>holds s bs\<close> says that the bytes \<open>bs\<close> are still to
  come.  Reading takes the first of them, and writing an acknowledgement or the LEDs takes none.
\<close>

definition verdict :: "bool \<Rightarrow> loader \<Rightarrow> 's \<Rightarrow> (u32 \<times> loader \<times> 's) option \<Rightarrow> (u32 \<times> loader \<times> 's) option" where
  "verdict crc_ok d s cont =
     (if \<not> crc_ok then Some (0, d, s) else if section_count d = section_number d then Some (entrypoint d, d, s) else cont)"

locale byte_channel =
  fixes leds :: "u32 \<Rightarrow> 's \<Rightarrow> 's"
    and get :: "'s \<Rightarrow> (u32 \<times> 's) option"
    and put :: "u8 \<Rightarrow> 's \<Rightarrow> 's option"
    and holds :: "'s \<Rightarrow> u8 list \<Rightarrow> bool"
  assumes holds_leds: "holds s bs \<Longrightarrow> holds (leds c s) bs"
    and holds_get: "holds s (b # bs) \<Longrightarrow> \<exists>s'. get s = Some (ucast b, s') \<and> holds s' bs"
    and holds_put: "holds s bs \<Longrightarrow> \<exists>s'. put ack s = Some s' \<and> holds s' bs"
begin

lemma next_byte:
  assumes "holds s (b # bs)"
  shows "\<exists>s'. get (leds c s) = Some (ucast b, s') \<and> holds s' bs"
  using holds_get holds_leds assms by blast

text \<open>A byte that is not the last one of its packet.\<close>

lemma loop_inside:
  assumes "holds s (b # bs)" "packet_size q \<noteq> 0" "packet_byte (ucast b) (q, d) = Some (q', d')"
    "packet_byte_count q' + 1 \<noteq> packet_size q' + 4"
  shows "\<exists>s'. download_loop leds get put q d s = download_loop leds get put (q'\<lparr>packet_byte_count := packet_byte_count q' + 1\<rparr>) d' s' \<and>
    holds s' bs"
proof -
  obtain s' where s': "get (leds (state_code (current_state d)) s) = Some (ucast b, s')" "holds s' bs" using next_byte [OF assms(1)] by blast
  then show ?thesis using assms(2-4) by (subst download_loop.simps) (auto simp: Let_def)
qed

text \<open>What happens at the end of a packet.\<close>

lemma loop_packet_end:
  assumes "holds s (b # bs)" "packet_size q \<noteq> 0" "packet_byte (ucast b) (q, d) = Some (q', d')"
    "packet_byte_count q' + 1 = packet_size q' + 4"
  shows "\<exists>s' q''. holds s' bs \<and> packet_size q'' = 0 \<and> download_loop leds get put q d s =
    verdict (calculated_crc q' XOR 0xFFFFFFFF = received_crc q') d' s' (download_loop leds get put q'' d' s')"
proof -
  obtain t where t: "get (leds (state_code (current_state d)) s) = Some (ucast b, t)" "holds t bs" using next_byte [OF assms(1)] by blast
  obtain s' where s': "put (ucast (calculated_crc q' XOR 0xFFFFFFFF)) t = Some s'" "holds s' bs" using holds_put [OF t(2)] by blast
  let ?q = "q'\<lparr>packet_byte_count := packet_byte_count q' + 1, calculated_crc := calculated_crc q' XOR 0xFFFFFFFF, packet_size := 0\<rparr>"
  have "download_loop leds get put q d s =
      verdict (calculated_crc q' XOR 0xFFFFFFFF = received_crc q') d' s' (download_loop leds get put ?q d' s')"
    using t(1) s'(1) assms(2-4) by (subst download_loop.simps) (simp add: Let_def verdict_def)
  with s'(2) show ?thesis by (intro exI [of _ s'] exI [of _ ?q]) simp
qed

lemma payload_run:
  assumes "bs \<noteq> []" "length bs \<le> n" "n < 256" "packet_size q = of_nat n" "packet_byte_count q = of_nat (4 + n - length bs)"
    and "holds s (bs @ rest)" "payload_bytes bs d = Some d'"
  shows "\<exists>s' q'. holds s' rest \<and> packet_size q' = 0 \<and> download_loop leds get put q d s =
    verdict (crc_fold bs (calculated_crc q) XOR 0xFFFFFFFF = received_crc q) d' s' (download_loop leds get put q' d' s')"
  using assms
proof (induction bs arbitrary: q d s)
  case (Cons b bs)
  let ?k = "4 + n - length (b # bs)"
  have k: "?k < n + 4" "4 \<le> ?k" "?k + 1 = 4 + n - length bs" using Cons.prems(2) by auto
  have small: "unat (of_nat i :: u32) = i" if "i \<le> 300" for i using that by (intro unat_of_nat_u32) simp
  have n0: "packet_size q \<noteq> 0" using Cons.prems(2,3,4) small [of n] by (auto simp flip: unat_eq_zero)
  have cnt: "\<not> packet_byte_count q < 4" "packet_byte_count q < packet_size q + 4"
  proof -
    have "packet_size q + 4 = of_nat (n + 4)" using Cons.prems(4) by simp
    then show "\<not> packet_byte_count q < 4" "packet_byte_count q < packet_size q + 4"
      using k Cons.prems(3,5) small [of ?k] small [of "n + 4"] by (simp_all add: word_less_nat_alt)
  qed
  obtain e where e: "payload_byte (ucast b) d = Some e" "payload_bytes bs e = Some d'"
    using Cons.prems(7) by (auto split: option.splits)
  let ?q = "q\<lparr>calculated_crc := crc_byte (ucast b) (calculated_crc q)\<rparr>"
  have pb: "packet_byte (ucast b) (q, d) = Some (?q, e)" using cnt e(1) by (simp add: packet_byte_def)
  have q1: "packet_byte_count ?q + 1 = of_nat (4 + n - length bs)" using Cons.prems(5) by (simp flip: k(3))
  show ?case
  proof (cases "bs = []")
    case True
    then have "packet_byte_count ?q + 1 = packet_size ?q + 4" using q1 Cons.prems(4) by simp
    from loop_packet_end [OF _ n0 pb this, of s rest] show ?thesis
      using Cons.prems(6) True e(2) by (simp add: crc_fold_def)
  next
    case False
    have "4 + n - length bs < n + 4" using False by (cases bs) auto
    then have "of_nat (4 + n - length bs) \<noteq> (of_nat (n + 4) :: u32)"
      using Cons.prems(3) small [of "4 + n - length bs"] small [of "n + 4"] by (auto simp del: of_nat_add)
    then have "packet_byte_count ?q + 1 \<noteq> packet_size ?q + 4" using q1 Cons.prems(4) by simp
    from loop_inside [OF _ n0 pb this, of s "bs @ rest"] obtain s' where
      s': "download_loop leds get put q d s = download_loop leds get put (?q\<lparr>packet_byte_count := packet_byte_count ?q + 1\<rparr>) e s'"
        "holds s' (bs @ rest)" using Cons.prems(6) by auto
    show ?thesis
      using Cons.IH [of "?q\<lparr>packet_byte_count := packet_byte_count ?q + 1\<rparr>" s' e] False Cons.prems(2-4) q1 s' e(2)
      by (simp add: crc_fold_def)
  qed
qed simp

end

context byte_channel
begin

text \<open>The size byte and the checksum field.\<close>

lemma packet_header_run:
  assumes "packet_size q = 0" "holds s (of_nat n # be_bytes c @ bs)" "0 < n" "n < 256"
  shows "\<exists>s'. download_loop leds get put q d s = download_loop leds get put
      \<lparr>packet_byte_count = 4, packet_size = of_nat n, calculated_crc = 0xFFFFFFFF, received_crc = c\<rparr> d s' \<and> holds s' bs"
proof -
  let ?q = "\<lambda>k r. \<lparr>packet_byte_count = k, packet_size = of_nat n, calculated_crc = 0xFFFFFFFF, received_crc = r\<rparr>"
  let ?b = "\<lambda>n. ucast (drop_bit n c) :: u8"
  have "unat (of_nat n :: u8) = n" using assms(4) by (simp add: unat_of_nat)
  then have n1: "ucast (of_nat n :: u8) = (of_nat n :: u32)" by (metis of_nat_unat)
  have n3: "unat (of_nat n :: u32) = n" using assms(4) by (intro unat_of_nat_u32) simp
  then have n2: "(of_nat n :: u32) \<noteq> 0" using assms(3) by (metis less_irrefl unat_0)
  note n = n1 n2 n3
  obtain s0 where 0: "download_loop leds get put q d s = download_loop leds get put (?q 0 0) d s0" "holds s0 (be_bytes c @ bs)"
  proof -
    obtain s0 where "get (leds (state_code (current_state d)) s) = Some (ucast (of_nat n :: u8), s0)" "holds s0 (be_bytes c @ bs)"
      using next_byte [OF assms(2)] by blast
    then show ?thesis using assms(1) n(1) that by (cases q) (subst (asm) download_loop.simps, simp)
  qed
  have step: "\<exists>t'. download_loop leds get put (?q k r) d t = download_loop leds get put (?q (k + 1) (push_bit 8 r OR ucast b)) d t' \<and> holds t' cs"
    if "holds t (b # cs)" "k < 4" for t b cs k r
  proof -
    have "k + 1 \<noteq> of_nat n + 4"
    proof -
      have "unat (k + 1) \<le> 4" using that(2) by (simp add: word_less_nat_alt unat_plus_if')
      moreover have "unat (of_nat n + 4 :: u32) = n + 4" using assms(4) n(3) by (simp add: unat_plus_if')
      ultimately show ?thesis using assms(3) by (metis add_le_cancel_right add_0 not_less)
    qed
    then show ?thesis
      using loop_inside [of t b cs "?q k r" d "?q k (push_bit 8 r OR ucast b)" d] that n(2) by (simp add: packet_byte_def)
  qed
  obtain s1 where 1: "download_loop leds get put (?q 0 0) d s0 = download_loop leds get put (?q 1 (push_bit 8 0 OR ucast (?b 24))) d s1"
      "holds s1 (?b 16 # ?b 8 # ucast c # bs)"
    using step [of s0 "?b 24" "?b 16 # ?b 8 # ucast c # bs" 0 0] 0(2) by (auto simp: be_bytes_def)
  obtain s2 where 2: "download_loop leds get put (?q 1 (ucast (?b 24))) d s1 =
      download_loop leds get put (?q 2 (push_bit 8 (ucast (?b 24)) OR ucast (?b 16))) d s2" "holds s2 (?b 8 # ucast c # bs)"
    using step [OF 1(2), of 1 "ucast (?b 24)"] by auto
  obtain s3 where 3: "download_loop leds get put (?q 2 (push_bit 8 (ucast (?b 24)) OR ucast (?b 16))) d s2 =
      download_loop leds get put (?q 3 (push_bit 8 (push_bit 8 (ucast (?b 24)) OR ucast (?b 16)) OR ucast (?b 8))) d s3"
      "holds s3 (ucast c # bs)"
    using step [OF 2(2), of 2 "push_bit 8 (ucast (?b 24)) OR ucast (?b 16)"] by auto
  obtain s4 where 4: "download_loop leds get put (?q 3 (push_bit 8 (push_bit 8 (ucast (?b 24)) OR ucast (?b 16)) OR ucast (?b 8))) d s3 =
      download_loop leds get put (?q 4 c) d s4" "holds s4 bs"
    using step [OF 3(2), of 3 "push_bit 8 (push_bit 8 (ucast (?b 24)) OR ucast (?b 16)) OR ucast (?b 8)"] crc_shift_in [of c]
    by (auto simp: ucast_byte)
  show ?thesis using 0(1) 1(1) 2(1) 3(1) 4 by auto
qed

lemma packet_run:
  assumes "packet_ok p" "packet_size q = 0" "holds s (packet_wire c p @ rest)" "payload_bytes p d = Some d'"
  shows "\<exists>s' q'. holds s' rest \<and> packet_size q' = 0 \<and>
    download_loop leds get put q d s = verdict (crc32 p = c) d' s' (download_loop leds get put q' d' s')"
proof -
  let ?n = "length p"
  have n: "0 < ?n" "?n < 256" using assms(1) by (simp_all add: packet_ok_def)
  obtain t where t: "download_loop leds get put q d s = download_loop leds get put
      \<lparr>packet_byte_count = 4, packet_size = of_nat ?n, calculated_crc = 0xFFFFFFFF, received_crc = c\<rparr> d t" "holds t (p @ rest)"
    using packet_header_run [OF assms(2) _ n, of s c "p @ rest" d] assms(3) by (auto simp: packet_wire_def)
  show ?thesis
    using payload_run [of p ?n "\<lparr>packet_byte_count = 4, packet_size = of_nat ?n, calculated_crc = 0xFFFFFFFF, received_crc = c\<rparr>" t rest d d']
      n t assms(4) by (simp add: crc32_def)
qed

text \<open>A stream of packets whose payload takes the loader from \<open>d\<close> to \<open>d'\<close>, finished only there.\<close>

lemma stream_run:
  assumes "\<forall>p \<in> set ps. packet_ok p" "ps \<noteq> []" "loads d (concat ps) d'" "packet_size q = 0" "holds s (wire ps @ rest)"
  shows "\<exists>s' q'. holds s' rest \<and> packet_size q' = 0 \<and>
    download_loop leds get put q d s = verdict True d' s' (download_loop leds get put q' d' s')"
  using assms
proof (induction ps arbitrary: d q s)
  case (Cons p ps)
  have p: "packet_ok p" using Cons.prems(1) by simp
  obtain e where e: "payload_bytes p d = Some e" "payload_bytes (concat ps) e = Some d'"
    using Cons.prems(3) by (auto simp: loads_def payload_bytes_append split: option.splits)
  obtain s1 q1 where 1: "holds s1 (wire ps @ rest)" "packet_size q1 = 0"
      "download_loop leds get put q d s = verdict True e s1 (download_loop leds get put q1 e s1)"
    using packet_run [OF p Cons.prems(4) _ e(1), of s "crc32 p" "wire ps @ rest"] Cons.prems(5) by (auto simp: wire_def)
  show ?case
  proof (cases "ps = []")
    case True
    then show ?thesis using 1 e(2) by (auto simp: wire_def)
  next
    case False
    obtain p' ps' where "ps = p' # ps'" using False by (cases ps) auto
    then have "concat ps \<noteq> []" using Cons.prems(1) by (auto simp: packet_ok_def)
    then have "loads e (concat ps) d'" and un: "section_count e \<noteq> section_number e"
      using loads_split [of d p "concat ps" d'] Cons.prems(3) e(1) by (auto simp: loads_def)
    then show ?thesis
      using Cons.IH [OF _ False _ 1(2,1)] Cons.prems(1) 1(3) un by (simp add: verdict_def)
  qed
qed simp

lemma image_download:
  assumes "\<forall>p \<in> set ps. packet_ok p" "concat ps = image_bytes entry secs" "\<forall>sc \<in> set secs. section_ok sc" "length secs < 2 ^ 32 - 1"
    and "holds s (wire ps @ rest)"
  shows "\<exists>d' s'. download_loop leds get put packet_init (loader_init m) s = Some (entry, d', s') \<and> holds s' rest \<and>
    mem_iord_byte (main_mem d') = fold with_section secs (mem_iord_byte m)"
proof -
  obtain d' where d': "loads (loader_init m) (concat ps) d'" "section_count d' = section_number d'" "entrypoint d' = entry"
      "mem_iord_byte (main_mem d') = fold with_section secs (mem_iord_byte m)"
    using image_loads [OF assms(3,4), of m entry] assms(2) by auto
  have "ps \<noteq> []" using assms(2) by (auto simp: image_bytes_def be_bytes_def)
  then obtain s' where "holds s' rest" "download_loop leds get put packet_init (loader_init m) s = Some (entry, d', s')"
    using stream_run [OF assms(1) _ d'(1) _ assms(5), of packet_init] d'(2,3) by (auto simp: verdict_def packet_init_def)
  with d'(4) show ?thesis by blast
qed

text \<open>A checksum that does not match ends the download, also after correct packets of an unfinished image.\<close>

lemma crc_mismatch:
  assumes ps: "\<forall>p \<in> set ps. packet_ok p" "loads d (concat ps @ bs) d''" "bs \<noteq> []"
    and p: "packet_ok p" "c \<noteq> crc32 p" "payload_bytes (concat ps @ p) d = Some d'"
    and q: "packet_size q = 0" "holds s (wire ps @ packet_wire c p @ rest)"
  shows "\<exists>s'. download_loop leds get put q d s = Some (0, d', s') \<and> holds s' rest"
proof -
  obtain e where e: "loads d (concat ps) e" "section_count e \<noteq> section_number e" using loads_split [OF ps(2,3)] by blast
  then have pe: "payload_bytes p e = Some d'" using p(3) by (simp add: loads_def payload_bytes_append)
  have "\<exists>s1 q1. holds s1 (packet_wire c p @ rest) \<and> packet_size q1 = 0 \<and>
      download_loop leds get put q d s = download_loop leds get put q1 e s1"
  proof (cases "ps = []")
    case True
    then show ?thesis using e(1) q by (auto simp: wire_def)
  next
    case False
    then show ?thesis using stream_run [OF ps(1) False e(1) q] e(2) by (auto simp: verdict_def)
  qed
  then show ?thesis using packet_run [OF p(1) _ _ pe] p(2) by (fastforce simp: verdict_def)
qed

end

section \<open>The serial line as a channel\<close>

fun is_data_read :: "boot_devices \<Rightarrow> io_event \<Rightarrow> bool" where
  "is_data_read D (IoRd a v) \<longleftrightarrow> a = uart_base D + 4"
| "is_data_read D _ \<longleftrightarrow> False"

definition data_reads :: "boot_devices \<Rightarrow> io_trace \<Rightarrow> nat" where
  "data_reads D tr = length (filter (is_data_read D) tr)"

text \<open>The trace after \<open>k\<close> reads of the status register.\<close>

fun poll :: "env \<Rightarrow> boot_devices \<Rightarrow> nat \<Rightarrow> io_trace \<Rightarrow> io_trace" where
  "poll E D 0 tr = tr"
| "poll E D (Suc k) tr = poll E D k (IoRd (uart_base D) (io_val E tr (uart_base D)) # tr)"

text \<open>
  What the loader relies on: the data register delivers the bytes of \<open>input\<close> one after the other, and
  the flags for a received byte and for a free transmitter are seen after finitely many reads.
\<close>

definition uart_serves :: "env \<Rightarrow> boot_devices \<Rightarrow> u8 list \<Rightarrow> bool" where
  "uart_serves E D input \<longleftrightarrow>
     (\<forall>tr. data_reads D tr < length input \<longrightarrow> io_val E tr (uart_base D + 4) = ucast (input ! data_reads D tr)) \<and>
     (\<forall>tr. \<exists>k. io_val E (poll E D k tr) (uart_base D) AND 0x01 \<noteq> 0) \<and>
     (\<forall>tr. data_reads D tr < length input \<longrightarrow> (\<exists>k. io_val E (poll E D k tr) (uart_base D) AND 0x02 \<noteq> 0))"

definition uart_holds :: "env \<Rightarrow> boot_devices \<Rightarrow> u8 list \<Rightarrow> 'a machine_scheme \<Rightarrow> u8 list \<Rightarrow> bool" where
  "uart_holds E D input s bs \<longleftrightarrow>
     uart_serves E D input \<and> data_reads D (trace s) \<le> length input \<and> bs = drop (data_reads D (trace s)) input"

lemma data_reads_simps [simp]:
  "data_reads D (IoRd a v # tr) = (if a = uart_base D + 4 then Suc (data_reads D tr) else data_reads D tr)"
  "data_reads D (IoWr a v # tr) = data_reads D tr" "data_reads D [] = 0"
  by (simp_all add: data_reads_def)

lemma uart_wait_returns:
  assumes "io_val E (poll E D k (trace s)) (uart_base D) AND msk \<noteq> 0"
  shows "\<exists>s'. uart_wait E D msk s = Some s' \<and> data_reads D (trace s') = data_reads D (trace s)"
  using assms
proof (induction k arbitrary: s)
  case 0
  then show ?case by (subst uart_wait.simps) (simp add: io_rd_def io_step_def Let_def)
next
  case (Suc k)
  show ?case
  proof (cases "io_val E (trace s) (uart_base D) AND msk = 0")
    case True
    then show ?thesis using Suc.IH [of "snd (io_rd E (uart_base D) s)"] Suc.prems
      by (subst uart_wait.simps) (simp add: io_rd_def io_step_def Let_def)
  qed (subst uart_wait.simps, simp add: io_rd_def io_step_def Let_def)
qed

interpretation uart: byte_channel "io_wr E (leds_base D)" "uart_read E D" "uart_write E D" "uart_holds E D input" for E D input
proof
  fix s :: "'a machine_scheme" and bs c
  assume "uart_holds E D input s bs"
  then show "uart_holds E D input (io_wr E (leds_base D) c s) bs" by (simp add: uart_holds_def io_wr_def io_step_def)
next
  fix s :: "'a machine_scheme" and b bs
  assume "uart_holds E D input s (b # bs)"
  then have serves: "uart_serves E D input" and "drop (data_reads D (trace s)) input = b # bs" by (simp_all add: uart_holds_def)
  then have n: "data_reads D (trace s) < length input" "input ! data_reads D (trace s) = b"
      "drop (Suc (data_reads D (trace s))) input = bs"
    by (metis drop_all list.distinct(1) not_less, metis nth_via_drop, metis drop_Suc list.sel(3) tl_drop)
  obtain t where t: "uart_wait E D 0x02 s = Some t" "data_reads D (trace t) = data_reads D (trace s)"
    using uart_wait_returns serves n(1) unfolding uart_serves_def by metis
  have "io_val E (trace t) (uart_base D + 4) = ucast b" using serves n t(2) by (simp add: uart_serves_def)
  then show "\<exists>s'. uart_read E D s = Some (ucast b, s') \<and> uart_holds E D input s' bs"
    using serves n t by (simp add: uart_read_def io_rd_def io_step_def Let_def uart_holds_def Suc_le_eq)
next
  fix s :: "'a machine_scheme" and bs ack
  assume *: "uart_holds E D input s bs"
  then obtain t where "uart_wait E D 0x01 s = Some t" "data_reads D (trace t) = data_reads D (trace s)"
    using uart_wait_returns unfolding uart_holds_def uart_serves_def by metis
  then show "\<exists>s'. uart_write E D ack s = Some s' \<and> uart_holds E D input s' bs"
    using * by (simp add: uart_write_def io_wr_def io_step_def uart_holds_def)
qed

section \<open>The download\<close>

text \<open>C11: when the serial line delivers an image in packets of at most 255 bytes with their checksums,
  however it is cut into packets and however long the device lets the loader wait, the download returns,
  its result is the entry point of the image, and every byte of main memory is that of the last section
  that covers it: the data of the section, zero in the rest of its size in memory, and unchanged outside
  of all sections.\<close>

theorem download_loads_image:
  assumes "uart_serves E D (wire ps @ rest)" "data_reads D (trace s) = 0"
    and "\<forall>p \<in> set ps. packet_ok p" "concat ps = image_bytes entry secs" "\<forall>sc \<in> set secs. section_ok sc" "length secs < 2 ^ 32 - 1"
  shows "\<exists>d s'. download_uart E D m s = Some (entry, d, s') \<and>
    mem_iord_byte (main_mem d) = fold with_section secs (mem_iord_byte m)"
  using uart.image_download [OF assms(3-6), of E D "wire ps @ rest" s rest m] assms(1,2)
  by (auto simp: download_uart_def uart_holds_def)

text \<open>C32: when correct packets of an image that is not yet complete are followed by a packet whose checksum
  field differs from the checksum of its payload, the download ends with the result \<open>NULL\<close>.  By then
  the payload has already been processed as if it were correct: the hypothesis that this ends is needed.\<close>

theorem download_rejects_corrupt_packet:
  assumes "uart_serves E D (wire ps @ packet_wire c p @ rest)" "data_reads D (trace s) = 0"
    and "\<forall>p \<in> set ps. packet_ok p" "concat ps @ bs = image_bytes entry secs" "bs \<noteq> []"
    and "\<forall>sc \<in> set secs. section_ok sc" "length secs < 2 ^ 32 - 1"
    and "packet_ok p" "c \<noteq> crc32 p" "payload_bytes (concat ps @ p) (loader_init m) = Some d"
  shows "\<exists>s'. download_uart E D m s = Some (0, d, s')"
proof -
  obtain d'' where "loads (loader_init m) (concat ps @ bs) d''" using image_loads [OF assms(6,7)] assms(4) by metis
  then show ?thesis
    using uart.crc_mismatch [OF assms(3) _ assms(5,8-10), of d'' packet_init E D "wire ps @ packet_wire c p @ rest" s rest] assms(1,2)
    by (auto simp: download_uart_def uart_holds_def packet_init_def)
qed

section \<open>Witnesses\<close>

text \<open>A serial line that is always ready and delivers the bytes of \<open>input\<close>.\<close>

definition ready_env :: "boot_devices \<Rightarrow> u8 list \<Rightarrow> env" where
  "ready_env D input =
     \<lparr>eth_val = \<lambda>_ _. 0, eth1_val = \<lambda>_ _. 0,
      io_val = \<lambda>tr a. if a = uart_base D + 4 then ucast (input ! data_reads D tr) else 3,
      usecs_val = \<lambda>_. 0, cycles_val = \<lambda>_. 0, dma = \<lambda>_ b. b, dma1 = \<lambda>_ b. b, timer_loclk = 0\<rparr>"

lemma ready_env_serves: "uart_serves (ready_env D input) D input"
  unfolding uart_serves_def by (intro conjI allI impI exI [of _ 0]) (simp_all add: ready_env_def)

definition demo_devices :: boot_devices where
  "demo_devices = \<lparr>uart_base = 0xF0080000, leds_base = 0xF0090000\<rparr>"

definition demo_section :: image_section where
  "demo_section = \<lparr>sec_offset = 0x100, sec_memsize = 8, sec_data = [1, 2, 3]\<rparr>"

definition empty_machine :: machine where
  "empty_machine = \<lparr>trace = [], buff = \<lambda>_. 0, buff1 = \<lambda>_. 0\<rparr>"

lemma demo_section_ok: "section_ok demo_section"
  by (simp add: section_ok_def demo_section_def aligned4_def take_bit_eq_mod)

theorem download_loads_image_witness:
  "\<exists>d s'. download_uart (ready_env demo_devices (wire [image_bytes 0x20 [demo_section]])) demo_devices (\<lambda>_. 0xFFFFFFFF) empty_machine =
      Some (0x20, d, s') \<and> mem_iord_byte (main_mem d) 0x102 = 3 \<and> mem_iord_byte (main_mem d) 0x107 = 0"
proof -
  let ?p = "image_bytes 0x20 [demo_section]"
  have "packet_ok ?p" by (simp add: packet_ok_def image_bytes_def section_bytes_def be_bytes_def demo_section_def)
  then obtain d s' where "download_uart (ready_env demo_devices (wire [?p])) demo_devices (\<lambda>_. 0xFFFFFFFF) empty_machine = Some (0x20, d, s')"
      "mem_iord_byte (main_mem d) = with_section demo_section (mem_iord_byte (\<lambda>_. 0xFFFFFFFF))"
    using download_loads_image [where E = "ready_env demo_devices (wire [?p])" and D = demo_devices and ps = "[?p]" and rest = "[]"
        and s = empty_machine and entry = "0x20" and secs = "[demo_section]" and m = "\<lambda>_. 0xFFFFFFFF"]
    by (auto simp: ready_env_serves empty_machine_def demo_section_ok)
  then show ?thesis by (auto simp: with_section_def stored_def demo_section_def round4_def)
qed

theorem download_rejects_corrupt_packet_witness:
  "\<exists>d s'. download_uart (ready_env demo_devices (packet_wire (NOT (crc32 [0])) [0])) demo_devices (\<lambda>_. 0) empty_machine = Some (0, d, s')"
proof -
  let ?p = "[0 :: u8]" and ?c = "NOT (crc32 [0])"
  have c: "?c \<noteq> crc32 ?p" by (metis bit_not_iff bit_eq_iff possible_bit_word zero_less_numeral len_gt_0)
  have "payload_byte 0 (loader_init (\<lambda>_. 0)) \<noteq> None"
    by (simp add: payload_header_byte loader_init_def)
  then obtain d where "payload_bytes ?p (loader_init (\<lambda>_. 0)) = Some d" by auto
  then show ?thesis
    using download_rejects_corrupt_packet [where E = "ready_env demo_devices (packet_wire ?c ?p)" and D = demo_devices and ps = "[]"
        and c = ?c and p = ?p and rest = "[]" and s = empty_machine and bs = "image_bytes 0 []" and entry = 0 and secs = "[]"
        and m = "\<lambda>_. 0" and d = d] c
    by (auto simp: ready_env_serves wire_def empty_machine_def packet_ok_def image_bytes_def be_bytes_def)
qed

end
