(* ===== verification/Decompress.thy ===== *)
theory Decompress
  imports Download Fifo
begin

text \<open>
  The decompressor \<^verbatim>\<open>c/bootloader/decompress.c\<close>, an LZSS decoder with a ring buffer of 1024 bytes that
  returns one byte at a time, and the download through it (the configuration of \<^verbatim>\<open>boot.h\<close>).
\<close>

section \<open>The decoder\<close>

record lz_state = machine +
  text_buf :: "u8 list"
  write_pos :: u32
  read_pos :: u32
  flags :: u32

text \<open>The loop of \<open>decompress_init\<close> stores \<open>N - F = 958\<close> blanks.\<close>

definition decompress_init :: "'a lz_state_scheme \<Rightarrow> 'a lz_state_scheme" where
  "decompress_init s =
     (let s = s\<lparr>text_buf := fold (\<lambda>i buf. buf[i := 32]) [0..<958] (text_buf s), write_pos := 958\<rparr>
      in s\<lparr>read_pos := write_pos s, flags := 0\<rparr>)"

definition lz_put :: "u8 \<Rightarrow> 'a lz_state_scheme \<Rightarrow> 'a lz_state_scheme" where
  "lz_put c s = s\<lparr>text_buf := (text_buf s)[unat (write_pos s) := c], write_pos := (write_pos s + 1) AND 1023\<rparr>"

text \<open>The loop \<open>for (k = i; k <= i + j; k++)\<close>, which runs \<open>n = j + 1\<close> times.\<close>

fun lz_copy :: "u32 \<Rightarrow> nat \<Rightarrow> 'a lz_state_scheme \<Rightarrow> 'a lz_state_scheme" where
  "lz_copy k 0 s = s"
| "lz_copy k (Suc n) s = lz_copy (k + 1) n (lz_put (text_buf s ! unat (k AND 1023)) s)"

definition lz_flags :: "env \<Rightarrow> boot_devices \<Rightarrow> 'a lz_state_scheme \<Rightarrow> 'a lz_state_scheme option" where
  "lz_flags E D s =
     (let s = s\<lparr>flags := drop_bit 1 (flags s)\<rparr>
      in if flags s AND 0x100 = 0 then
           (case uart_read E D s of None \<Rightarrow> None | Some (c, s) \<Rightarrow> Some (s\<lparr>flags := c OR 0xFF00\<rparr>))
         else Some s)"

definition lz_refill :: "env \<Rightarrow> boot_devices \<Rightarrow> 'a lz_state_scheme \<Rightarrow> 'a lz_state_scheme option" where
  "lz_refill E D s =
     (case lz_flags E D s of
        None \<Rightarrow> None
      | Some s \<Rightarrow>
          if flags s AND 1 \<noteq> 0 then
            (case uart_read E D s of None \<Rightarrow> None | Some (c, s) \<Rightarrow> Some (lz_put (ucast c) s))
          else
            (case uart_read E D s of
               None \<Rightarrow> None
             | Some (i, s) \<Rightarrow>
                 (case uart_read E D s of
                    None \<Rightarrow> None
                  | Some (j, s) \<Rightarrow>
                      (let i = i OR push_bit 2 (j AND push_bit 6 0xFF AND 0xFF);
                           j = (j AND 63) + 2
                       in Some (lz_copy i (unat j + 1) s)))))"

definition decompress_get_byte :: "env \<Rightarrow> boot_devices \<Rightarrow> 'a lz_state_scheme \<Rightarrow> (u32 \<times> 'a lz_state_scheme) option" where
  "decompress_get_byte E D s =
     (case if read_pos s = write_pos s then lz_refill E D s else Some s of
        None \<Rightarrow> None
      | Some s \<Rightarrow> Some (ucast (text_buf s ! unat (read_pos s)), s\<lparr>read_pos := (read_pos s + 1) AND 1023\<rparr>))"

definition download :: "env \<Rightarrow> boot_devices \<Rightarrow> buffer \<Rightarrow> 'a lz_state_scheme \<Rightarrow> (u32 \<times> loader \<times> 'a lz_state_scheme) option" where
  "download E D m s =
     download_loop (io_wr E (leds_base D)) (decompress_get_byte E D) (uart_write E D) packet_init (loader_init m) (decompress_init s)"

section \<open>One-pass decoding\<close>

text \<open>The reference: tokens, their bytes, and the decoder that expands them in one pass over the ring.\<close>

datatype token = Literal u8 | Match nat nat   \<comment> \<open>index and number of bytes\<close>

fun token_ok :: "token \<Rightarrow> bool" where
  "token_ok (Literal b) \<longleftrightarrow> True"
| "token_ok (Match i n) \<longleftrightarrow> i < 1024 \<and> 3 \<le> n \<and> n < 67"

fun token_bytes :: "token \<Rightarrow> u8 list" where
  "token_bytes (Literal b) = [b]"
| "token_bytes (Match i n) = [of_nat (i mod 256), of_nat (i div 256 * 64 + (n - 3))]"

fun is_literal :: "token \<Rightarrow> bool" where
  "is_literal (Literal b) \<longleftrightarrow> True"
| "is_literal (Match i n) \<longleftrightarrow> False"

text \<open>The flag byte of at most eight tokens, first token in the lowest bit.\<close>

fun flag_byte :: "token list \<Rightarrow> nat" where
  "flag_byte [] = 0"
| "flag_byte (t # ts) = of_bool (is_literal t) + 2 * flag_byte ts"

definition group_bytes :: "token list \<Rightarrow> u8 list" where
  "group_bytes ts = of_nat (flag_byte ts) # concat (map token_bytes ts)"

type_synonym ring = "u8 list \<times> nat"

definition ring_put :: "u8 \<Rightarrow> ring \<Rightarrow> ring" where
  "ring_put b r = ((fst r)[snd r := b], (snd r + 1) mod 1024)"

fun copied :: "nat \<Rightarrow> nat \<Rightarrow> ring \<Rightarrow> u8 list" where
  "copied i 0 r = []"
| "copied i (Suc n) r = (let b = fst r ! (i mod 1024) in b # copied (i + 1) n (ring_put b r))"

fun token_out :: "token \<Rightarrow> ring \<Rightarrow> u8 list" where
  "token_out (Literal b) r = [b]"
| "token_out (Match i n) r = copied i n r"

fun expand :: "token list \<Rightarrow> ring \<Rightarrow> u8 list" where
  "expand [] r = []"
| "expand (t # ts) r = (let out = token_out t r in out @ expand ts (fold ring_put out r))"

section \<open>The ring buffer\<close>

definition ring_of :: "'a lz_state_scheme \<Rightarrow> ring" where
  "ring_of s = (text_buf s, unat (write_pos s))"

definition lz_wf :: "'a lz_state_scheme \<Rightarrow> bool" where
  "lz_wf s \<longleftrightarrow> length (text_buf s) = 1024 \<and> unat (write_pos s) < 1024 \<and> unat (read_pos s) < 1024"

lemma unat_and_1023: "unat ((x :: u32) AND 1023) = unat x mod 1024"
proof -
  have "(1023 :: u32) = mask 10" by (simp add: mask_eq_exp_minus_1)
  then have "x AND 1023 = take_bit 10 x" by (simp add: take_bit_eq_mask)
  then show ?thesis by (simp add: unsigned_take_bit_eq take_bit_eq_mod unat_mod)
qed

lemma unat_succ_1023: "unat x < 1024 \<Longrightarrow> unat (((x :: u32) + 1) AND 1023) = (unat x + 1) mod 1024"
  by (simp add: unat_and_1023 unat_plus_if')

lemma lz_put_simps [simp]:
  "read_pos (lz_put c s) = read_pos s" "flags (lz_put c s) = flags s" "trace (lz_put c s) = trace s"
  by (simp_all add: lz_put_def)

lemma lz_put_ring:
  "lz_wf s \<Longrightarrow> ring_of (lz_put c s) = ring_put c (ring_of s)" "lz_wf s \<Longrightarrow> lz_wf (lz_put c s)"
  by (simp_all add: ring_of_def ring_put_def lz_put_def lz_wf_def unat_succ_1023)

lemma lz_copy_simps [simp]:
  "read_pos (lz_copy k n s) = read_pos s" "flags (lz_copy k n s) = flags s" "trace (lz_copy k n s) = trace s"
  by (induction k n s rule: lz_copy.induct) simp_all

lemma lz_copy_ring:
  "lz_wf s \<Longrightarrow> unat i + n < 2 ^ 32 \<Longrightarrow>
   lz_wf (lz_copy i n s) \<and> ring_of (lz_copy i n s) = fold ring_put (copied (unat i) n (ring_of s)) (ring_of s)"
proof (induction n arbitrary: i s)
  case (Suc n)
  then have i: "unat (i + 1) = unat i + 1" by (simp add: unat_plus_if')
  let ?b = "text_buf s ! (unat i mod 1024)"
  have "lz_copy i (Suc n) s = lz_copy (i + 1) n (lz_put ?b s)" by (simp add: unat_and_1023)
  moreover have "fst (ring_of s) = text_buf s" by (simp add: ring_of_def)
  ultimately show ?case
    using Suc.IH [of "lz_put ?b s" "i + 1"] Suc.prems lz_put_ring [of s ?b] i by (simp add: Let_def)
qed simp

text \<open>What has been written and not yet read.\<close>

definition pending :: "u8 list \<Rightarrow> nat \<Rightarrow> u8 list \<Rightarrow> bool" where
  "pending buf r out \<longleftrightarrow> (\<forall>t < length out. buf ! ((r + t) mod 1024) = out ! t)"

lemma ring_put_simps: "fst (ring_put b r) = (fst r)[snd r := b]" "snd (ring_put b r) = Suc (snd r) mod 1024"
  by (simp_all add: ring_put_def)

lemma ring_written:
  assumes "length buf = 1024" "p < 1024" "length out < 1024"
  shows "length (fst (fold ring_put out (buf, p))) = 1024 \<and> snd (fold ring_put out (buf, p)) = (p + length out) mod 1024 \<and>
    pending (fst (fold ring_put out (buf, p))) p out"
  using assms(3)
proof (induction out rule: rev_induct)
  case Nil
  then show ?case using assms(1,2) by (simp add: pending_def)
next
  case (snoc b out)
  let ?r = "fold ring_put out (buf, p)"
  have IH: "length (fst ?r) = 1024" "snd ?r = (p + length out) mod 1024" "pending (fst ?r) p out" using snoc by simp_all
  have "(fst ?r)[(p + length out) mod 1024 := b] ! ((p + t) mod 1024) = (out @ [b]) ! t" if "t < Suc (length out)" for t
  proof (cases "t = length out")
    case False
    then have "(p + t) mod 1024 \<noteq> (p + length out) mod 1024"
      using ring_index_eq [of p 1024 t "length out"] assms(2) that snoc.prems by simp
    then show ?thesis using IH(3) that False by (simp add: pending_def nth_append)
  qed (simp add: IH(1))
  then show ?case using IH by (simp add: ring_put_simps pending_def mod_Suc_eq)
qed

lemma length_token_out: "token_ok t \<Longrightarrow> 0 < length (token_out t r) \<and> length (token_out t r) < 1024"
proof -
  have "length (copied i n r) = n" for i n by (induction i n r rule: copied.induct) (simp_all add: Let_def)
  then show "token_ok t \<Longrightarrow> ?thesis" by (cases t) auto
qed

section \<open>The flags\<close>

text \<open>The flags when the tokens \<open>ts\<close> of the current group are still to come; \<open>again\<close>: there are further groups.\<close>

definition flags_ok :: "u32 \<Rightarrow> token list \<Rightarrow> bool \<Rightarrow> bool" where
  "flags_ok f ts again \<longleftrightarrow> (\<forall>k < length ts. bit f (9 + k) \<and> (bit f (1 + k) \<longleftrightarrow> is_literal (ts ! k))) \<and> (again \<longrightarrow> \<not> bit f (9 + length ts))"

lemma bit_flag_byte: "bit (flag_byte ts) k \<longleftrightarrow> k < length ts \<and> is_literal (ts ! k)"
proof (induction ts arbitrary: k)
  case (Cons t ts)
  have "flag_byte (t # ts) div 2 = flag_byte ts" "odd (flag_byte (t # ts)) \<longleftrightarrow> is_literal t" by simp_all
  then show ?case using Cons by (cases k) (simp_all add: bit_0 bit_Suc del: flag_byte.simps)
qed simp

lemma bit_FF00: "bit (0xFF00 :: u32) k \<longleftrightarrow> 8 \<le> k \<and> k < 16"
proof -
  have eq: "(0xFF00 :: u32) = push_bit 8 (mask 8)" by (simp add: mask_eq_exp_minus_1 push_bit_eq_mult)
  show ?thesis unfolding eq bit_push_bit_iff bit_mask_iff by auto
qed

lemma flags_ok_shift:
  assumes "flags_ok f (t # ts) again"
  shows "bit (drop_bit 1 f) 8" "bit (drop_bit 1 f) 0 \<longleftrightarrow> is_literal t" "flags_ok (drop_bit 1 f) ts again"
proof -
  have all: "bit f (9 + k)" "bit f (1 + k) \<longleftrightarrow> is_literal ((t # ts) ! k)" if "k < Suc (length ts)" for k
    using assms that by (auto simp: flags_ok_def)
  show "bit (drop_bit 1 f) 8" "bit (drop_bit 1 f) 0 \<longleftrightarrow> is_literal t" using all [of 0] by (simp_all add: bit_drop_bit_eq)
  show "flags_ok (drop_bit 1 f) ts again"
    using all [of "Suc _"] assms by (auto simp: flags_ok_def bit_drop_bit_eq)
qed

lemma flags_ok_new:
  fixes t :: token
  assumes "length ts < 8" "again \<longrightarrow> length ts = 7"
  defines "f \<equiv> ucast (of_nat (flag_byte (t # ts)) :: u8) OR 0xFF00"
  shows "bit f 0 \<longleftrightarrow> is_literal t" "flags_ok f ts again"
proof -
  have b: "bit f k \<longleftrightarrow> (k < 8 \<and> k < length (t # ts) \<and> is_literal ((t # ts) ! k)) \<or> (8 \<le> k \<and> k < 16)" for k
  proof -
    obtain n where n: "flag_byte (t # ts) = n" by blast
    have "bit (ucast (of_nat n :: u8) :: u32) k \<longleftrightarrow> k < 8 \<and> bit n k" by (auto simp: bit_ucast_iff bit_of_nat_iff)
    then show ?thesis using bit_flag_byte [of "t # ts" k] unfolding f_def bit_or_iff bit_FF00 n by simp
  qed
  show "bit f 0 \<longleftrightarrow> is_literal t" by (simp add: b)
  show "flags_ok f ts again" using assms(1,2) by (auto simp: flags_ok_def b)
qed

section \<open>The decoder as a channel\<close>

lemma uart_wait_more: "uart_wait E D msk s = Some s' \<Longrightarrow> machine.more s' = machine.more s"
proof (induction rule: uart_wait.raw_induct [rotated 1, consumes 1])
  case (1 wait E D msk s s')
  from 1(2) show ?case
    by (auto simp: io_rd_def io_step_def Let_def split: if_splits dest: 1(1))
qed

lemma lz_fields_more:
  "machine.more s' = machine.more s \<Longrightarrow>
   text_buf s' = text_buf s \<and> write_pos s' = write_pos s \<and> read_pos s' = read_pos s \<and> flags s' = flags s"
  by (cases s; cases s') simp

lemma uart_read_fields:
  assumes "uart_read E D s = Some (v, s')"
  shows "text_buf s' = text_buf s" "write_pos s' = write_pos s" "read_pos s' = read_pos s" "flags s' = flags s"
proof -
  have "machine.more s' = machine.more s"
    using assms uart_wait_more [of E D 2 s] by (auto simp: uart_read_def io_rd_def io_step_def Let_def)
  from lz_fields_more [OF this]
  show "text_buf s' = text_buf s" "write_pos s' = write_pos s" "read_pos s' = read_pos s" "flags s' = flags s" by simp_all
qed

lemma uart_holds_cong: "trace s' = trace s \<Longrightarrow> uart_holds E D input s' bs = uart_holds E D input s bs"
  by (simp add: uart_holds_def)

fun groups_ok :: "token list list \<Rightarrow> bool" where
  "groups_ok [] \<longleftrightarrow> True"
| "groups_ok (g # gs) \<longleftrightarrow> g \<noteq> [] \<and> length g \<le> 8 \<and> (gs \<noteq> [] \<longrightarrow> length g = 8) \<and> groups_ok gs"

text \<open>The tokens \<open>ts\<close> of the current group and the groups \<open>gs\<close> are still to be read from the line.\<close>

definition lz_input :: "env \<Rightarrow> boot_devices \<Rightarrow> u8 list \<Rightarrow> 'a lz_state_scheme \<Rightarrow> token list \<Rightarrow> token list list \<Rightarrow> bool" where
  "lz_input E D input s ts gs \<longleftrightarrow>
     uart_holds E D input s (concat (map token_bytes ts) @ concat (map group_bytes gs)) \<and>
     groups_ok gs \<and> (\<forall>t \<in> set (ts @ concat gs). token_ok t) \<and> flags_ok (flags s) ts (gs \<noteq> [])"

lemma lz_flags_next:
  assumes "lz_input E D input s ts gs" "ts @ concat gs = t # us"
  shows "\<exists>s' ts' gs'. lz_flags E D s = Some s' \<and> us = ts' @ concat gs' \<and> groups_ok gs' \<and>
    uart_holds E D input s' (token_bytes t @ concat (map token_bytes ts') @ concat (map group_bytes gs')) \<and>
    (flags s' AND 1 \<noteq> 0 \<longleftrightarrow> is_literal t) \<and> flags_ok (flags s') ts' (gs' \<noteq> []) \<and>
    text_buf s' = text_buf s \<and> write_pos s' = write_pos s \<and> read_pos s' = read_pos s"
proof -
  have bit0: "x AND 1 \<noteq> 0 \<longleftrightarrow> bit x 0" for x :: u32 by (simp add: and_one_eq mod_2_eq_odd bit_0)
  have bit8: "x AND 0x100 = 0 \<longleftrightarrow> \<not> bit x 8" for x :: u32
    using and_exp_eq_0_iff_not_bit [of x 8] by simp
  let ?s = "s\<lparr>flags := drop_bit 1 (flags s)\<rparr>"
  have holds: "uart_holds E D input ?s (concat (map token_bytes ts) @ concat (map group_bytes gs))"
    using assms(1) uart_holds_cong [of ?s s] by (simp add: lz_input_def)
  show ?thesis
  proof (cases ts)
    case (Cons t' ts')
    then have "t' = t" "us = ts' @ concat gs" using assms(2) by simp_all
    moreover have "flags_ok (flags s) (t' # ts') (gs \<noteq> [])" using assms(1) Cons by (simp add: lz_input_def)
    note flags_ok_shift [OF this]
    ultimately show ?thesis using holds assms(1) Cons
      by (intro exI [of _ ?s] exI [of _ ts'] exI [of _ gs]) (simp add: lz_flags_def Let_def bit0 bit8 lz_input_def)
  next
    case Nil
    then obtain g gs' where gs: "gs = g # gs'" using assms(2) by (cases gs) auto
    with assms have g: "g \<noteq> []" "length g \<le> 8" "gs' \<noteq> [] \<longrightarrow> length g = 8" "groups_ok gs'" by (auto simp: lz_input_def)
    then obtain ts' where ts': "g = t # ts'" "us = ts' @ concat gs'" using assms(2) Nil gs by (cases g) auto
    have "\<not> bit (flags s) 9" using assms(1) Nil gs by (simp add: lz_input_def flags_ok_def)
    then have new: "flags ?s AND 0x100 = 0" by (simp add: bit8 bit_drop_bit_eq)
    let ?c = "of_nat (flag_byte (t # ts')) :: u8"
    have "uart_holds E D input ?s (?c # concat (map token_bytes (t # ts')) @ concat (map group_bytes gs'))"
      using holds Nil gs ts' by (simp add: group_bytes_def del: flag_byte.simps)
    then obtain s' where s': "uart_read E D ?s = Some (ucast ?c, s')"
        "uart_holds E D input s' (concat (map token_bytes (t # ts')) @ concat (map group_bytes gs'))"
      using uart.holds_get by blast
    have "lz_flags E D s = Some (s'\<lparr>flags := ucast ?c OR 0xFF00\<rparr>)" using new s'(1) by (simp add: lz_flags_def Let_def)
    moreover have "uart_holds E D input (s'\<lparr>flags := ucast ?c OR 0xFF00\<rparr>) (token_bytes t @ concat (map token_bytes ts') @ concat (map group_bytes gs'))"
      using s'(2) uart_holds_cong [of "s'\<lparr>flags := ucast ?c OR 0xFF00\<rparr>" s'] by simp
    moreover have "length ts' < 8" "(gs' \<noteq> []) \<longrightarrow> length ts' = 7" using g ts' by auto
    note flags_ok_new [OF this, of t]
    ultimately show ?thesis using g(4) ts'(2) uart_read_fields [OF s'(1)]
      by (intro exI [of _ "s'\<lparr>flags := ucast ?c OR 0xFF00\<rparr>"] exI [of _ ts'] exI [of _ gs']) (simp add: bit0 del: flag_byte.simps)
  qed
qed

text \<open>The two bytes of a match.\<close>

lemma unat_ucast_of_nat: "k < 256 \<Longrightarrow> unat (ucast (of_nat k :: u8) :: u32) = k"
  by (simp add: unsigned_ucast_eq unat_of_nat take_bit_nat_eq_self)

lemma match_index:
  assumes "unat a < 256" "unat c < 256"
  shows "unat (a OR push_bit 2 (c AND push_bit 6 0xFF AND 0xFF) :: u32) = unat a + unat c div 64 * 256"
proof -
  have small: "bit x k \<Longrightarrow> k < 8" if "unat x < 256" for x :: u32 and k
  proof -
    have "take_bit 8 x = x" using that by (simp add: word_unat_eq_iff unsigned_take_bit_eq take_bit_nat_eq_self)
    then show "bit x k \<Longrightarrow> k < 8" by (metis bit_take_bit_iff)
  qed
  have eq768: "(768 :: int) = push_bit 8 (mask 2)" by (simp add: mask_eq_exp_minus_1 push_bit_eq_mult)
  have 768: "bit (768 :: int) k \<longleftrightarrow> 8 \<le> k \<and> k < 10" for k unfolding eq768 bit_push_bit_iff bit_mask_iff by auto
  have ix: "8 \<le> k \<Longrightarrow> 6 + (k - 8) = k - 2" for k :: nat by simp
  have "push_bit 2 (c AND push_bit 6 0xFF AND 0xFF) = push_bit 8 (drop_bit 6 c)"
    by (rule bit_eqI) (use small [OF assms(2)] in \<open>fastforce simp: bit_simps bit_FF bit_255_int 768 ix\<close>)
  moreover have "a OR push_bit 8 (drop_bit 6 c) = a + push_bit 8 (drop_bit 6 c)"
    using small [OF assms(1)] by (intro disjunctive_add_eq_or [symmetric] bit_eqI) (fastforce simp: bit_simps)
  moreover have "unat (push_bit 8 (drop_bit 6 c)) = unat c div 64 * 256"
  proof -
    have "unat (drop_bit 6 c) = unat c div 64" by (simp add: drop_bit_eq_div unat_div)
    moreover from this have "unat (drop_bit 6 c) < 4" using assms(2) by (simp add: less_mult_imp_div_less)
    ultimately show ?thesis by (simp add: push_bit_eq_mult unat_word_ariths(2))
  qed
  moreover have "unat c div 64 < 4" using assms(2) by (simp add: less_mult_imp_div_less)
  then have "unat a + unat c div 64 * 256 < 4294967296" using assms(1) by linarith
  ultimately show ?thesis by (simp add: unat_plus_if')
qed

lemma match_count: "unat c < 256 \<Longrightarrow> unat ((c AND 63 :: u32) + 2) + 1 = unat c mod 64 + 3"
proof -
  have "c AND 63 = take_bit 6 c" by (simp add: take_bit_eq_mask mask_eq_exp_minus_1)
  then have "unat (c AND 63) = unat c mod 64" by (simp add: take_bit_eq_mod unat_mod)
  moreover have "unat c mod 64 < 64" by simp
  ultimately show ?thesis by (simp add: unat_plus_if')
qed

lemma lz_refill_next:
  assumes "lz_input E D input s ts gs" "ts @ concat gs = t # us" "lz_wf s"
  shows "\<exists>s' ts' gs'. lz_refill E D s = Some s' \<and> us = ts' @ concat gs' \<and> lz_input E D input s' ts' gs' \<and>
    lz_wf s' \<and> read_pos s' = read_pos s \<and> ring_of s' = fold ring_put (token_out t (ring_of s)) (ring_of s)"
proof -
  obtain s1 ts' gs' where 1: "lz_flags E D s = Some s1" "us = ts' @ concat gs'" "groups_ok gs'"
      "uart_holds E D input s1 (token_bytes t @ concat (map token_bytes ts') @ concat (map group_bytes gs'))"
      "flags s1 AND 1 \<noteq> 0 \<longleftrightarrow> is_literal t" "flags_ok (flags s1) ts' (gs' \<noteq> [])"
      "text_buf s1 = text_buf s" "write_pos s1 = write_pos s" "read_pos s1 = read_pos s"
    using lz_flags_next [OF assms(1,2)] by blast
  let ?rest = "concat (map token_bytes ts') @ concat (map group_bytes gs')"
  have tok: "token_ok t" "\<forall>u \<in> set (ts' @ concat gs'). token_ok u" using assms(1,2) 1(2) by (auto simp: lz_input_def)
  have wf1: "lz_wf s1" "ring_of s1 = ring_of s" using assms(3) 1(7-9) by (simp_all add: lz_wf_def ring_of_def)
  show ?thesis
  proof (cases t)
    case (Literal b)
    obtain s2 where 2: "uart_read E D s1 = Some (ucast b, s2)" "uart_holds E D input s2 ?rest"
      using uart.holds_get [of E D input s1 b ?rest] 1(4) Literal by auto
    note f2 = uart_read_fields [OF 2(1)]
    have wf2: "lz_wf s2" "ring_of s2 = ring_of s" using wf1 f2 by (simp_all add: lz_wf_def ring_of_def)
    have "lz_refill E D s = Some (lz_put b s2)" using 1(1,5) 2(1) Literal by (simp add: lz_refill_def)
    moreover have "lz_input E D input (lz_put b s2) ts' gs'"
      using 1(3,6) tok(2) f2(4) 2(2) uart_holds_cong [of "lz_put b s2" s2] by (simp add: lz_input_def)
    ultimately show ?thesis using 1(2,9) f2(3) lz_put_ring [OF wf2(1), of b] wf2(2) Literal by (intro exI conjI) auto
  next
    case (Match i n)
    then have i: "i < 1024" "3 \<le> n" "n < 67" using tok(1) by simp_all
    let ?a = "of_nat (i mod 256) :: u8" and ?c = "of_nat (i div 256 * 64 + (n - 3)) :: u8"
    have "i div 256 < 4" using i(1) by (simp add: less_mult_imp_div_less)
    then have k: "i div 256 * 64 + (n - 3) < 256" using i by linarith
    have byte: "unat (ucast ?a :: u32) = i mod 256" "unat (ucast ?c :: u32) = i div 256 * 64 + (n - 3)"
      using k by (simp_all only: unat_ucast_of_nat mod_less_divisor zero_less_numeral)
    obtain s2 where 2: "uart_read E D s1 = Some (ucast ?a, s2)" "uart_holds E D input s2 (?c # ?rest)"
      using uart.holds_get [of E D input s1 ?a "?c # ?rest"] 1(4) Match by auto
    obtain s3 where 3: "uart_read E D s2 = Some (ucast ?c, s3)" "uart_holds E D input s3 ?rest"
      using uart.holds_get [OF 2(2)] by blast
    note f3 = uart_read_fields [OF 2(1)] uart_read_fields [OF 3(1)]
    have wf3: "lz_wf s3" "ring_of s3 = ring_of s" using wf1 f3 by (simp_all add: lz_wf_def ring_of_def)
    let ?i = "ucast ?a OR push_bit 2 (ucast ?c AND push_bit 6 0xFF AND 0xFF) :: u32"
    have fields: "unat ?i = i" "unat ((ucast ?c AND 63 :: u32) + 2) + 1 = n"
    proof -
      have "n - 3 < 64" using i by simp
      then have "(i div 256 * 64 + (n - 3)) div 64 = i div 256" "(i div 256 * 64 + (n - 3)) mod 64 = n - 3"
        by (simp_all only: div_mult_self3 mod_mult_self3 div_less mod_less add_0_right)
      moreover have "unat (ucast ?a :: u32) < 256" "unat (ucast ?c :: u32) < 256" using byte k by simp_all
      ultimately have "unat ?i = i mod 256 + i div 256 * 256" "unat ((ucast ?c AND 63 :: u32) + 2) + 1 = n - 3 + 3"
        using match_index [of "ucast ?a" "ucast ?c"] match_count [of "ucast ?c"] by (simp_all only: byte)
      then show "unat ?i = i" "unat ((ucast ?c AND 63 :: u32) + 2) + 1 = n" using i(2) by (simp_all only: mod_div_mult_eq le_add_diff_inverse2)
    qed
    have "lz_refill E D s = Some (lz_copy ?i (unat ((ucast ?c AND 63 :: u32) + 2) + 1) s3)"
      using 1(1,5) 2(1) 3(1) Match by (simp add: lz_refill_def Let_def)
    then have "lz_refill E D s = Some (lz_copy ?i n s3)" by (simp only: fields(2))
    moreover have "lz_input E D input (lz_copy ?i n s3) ts' gs'"
      using 1(3,6) tok(2) f3(4,8) 3(2) uart_holds_cong [of "lz_copy ?i n s3" s3] by (simp add: lz_input_def)
    ultimately show ?thesis
      using 1(2,9) f3(3,7) lz_copy_ring [OF wf3(1), of ?i n] wf3(2) fields(1) i Match
      by (intro exI [of _ "lz_copy ?i n s3"] exI [of _ ts'] exI [of _ gs']) simp
  qed
qed

text \<open>
  The bytes \<open>bs\<close> are still to come: first those in the ring buffer between the two positions, then what
  one-pass decoding makes of the tokens on the line.
\<close>

definition lz_holds :: "env \<Rightarrow> boot_devices \<Rightarrow> u8 list \<Rightarrow> 'a lz_state_scheme \<Rightarrow> u8 list \<Rightarrow> bool" where
  "lz_holds E D input s bs \<longleftrightarrow> lz_wf s \<and>
     (\<exists>pend ts gs. bs = pend @ expand (ts @ concat gs) (ring_of s) \<and> lz_input E D input s ts gs \<and> length pend < 1024 \<and>
        unat (write_pos s) = (unat (read_pos s) + length pend) mod 1024 \<and> pending (text_buf s) (unat (read_pos s)) pend)"

lemma lz_holds_cong:
  assumes "\<And>bs. uart_holds E D input s bs \<Longrightarrow> uart_holds E D input s' bs"
    and "text_buf s' = text_buf s" "write_pos s' = write_pos s" "read_pos s' = read_pos s" "flags s' = flags s" "lz_holds E D input s bs"
  shows "lz_holds E D input s' bs"
proof -
  have "ring_of s' = ring_of s" "lz_wf s' = lz_wf s" using assms(2-4) by (simp_all add: ring_of_def lz_wf_def)
  moreover have "lz_input E D input s ts gs \<Longrightarrow> lz_input E D input s' ts gs" for ts gs
    using assms(1,5) by (simp add: lz_input_def)
  ultimately show ?thesis using assms(2-4,6) unfolding lz_holds_def by metis
qed

text \<open>Taking the first byte out of the ring buffer.\<close>

lemma lz_take:
  assumes "lz_wf s" "lz_input E D input s ts gs" "length (b # pend) < 1024"
    "unat (write_pos s) = (unat (read_pos s) + length (b # pend)) mod 1024" "pending (text_buf s) (unat (read_pos s)) (b # pend)"
  shows "text_buf s ! unat (read_pos s) = b \<and>
    lz_holds E D input (s\<lparr>read_pos := (read_pos s + 1) AND 1023\<rparr>) (pend @ expand (ts @ concat gs) (ring_of s))"
proof -
  let ?r = "unat (read_pos s)" and ?s = "s\<lparr>read_pos := (read_pos s + 1) AND 1023\<rparr>"
  have r: "?r < 1024" using assms(1) by (simp add: lz_wf_def)
  note r' = unat_succ_1023 [OF r]
  have "lz_wf ?s" using assms(1) r' by (simp add: lz_wf_def)
  moreover have "lz_input E D input ?s ts gs" using assms(2) uart_holds_cong [of ?s s] by (simp add: lz_input_def)
  moreover have "unat (write_pos ?s) = (unat (read_pos ?s) + length pend) mod 1024"
    using assms(4) by (simp add: r' mod_simps)
  moreover have "pending (text_buf ?s) (unat (read_pos ?s)) pend"
    using assms(5) by (auto simp: pending_def r' mod_simps dest: spec [of _ "Suc _"])
  moreover have "text_buf s ! ?r = b" using assms(5) r by (auto simp: pending_def dest: spec [of _ 0])
  moreover have "ring_of ?s = ring_of s" by (simp add: ring_of_def)
  ultimately show ?thesis using assms(3) unfolding lz_holds_def
    by (intro conjI exI [of _ pend] exI [of _ ts] exI [of _ gs]) simp_all
qed

lemma lz_holds_get:
  assumes "lz_holds E D input s (b # bs)"
  shows "\<exists>s'. decompress_get_byte E D s = Some (ucast b, s') \<and> lz_holds E D input s' bs"
proof -
  obtain pend ts gs where h: "lz_wf s" "b # bs = pend @ expand (ts @ concat gs) (ring_of s)" "lz_input E D input s ts gs" "length pend < 1024"
      "unat (write_pos s) = (unat (read_pos s) + length pend) mod 1024" "pending (text_buf s) (unat (read_pos s)) pend"
    using assms by (auto simp: lz_holds_def)
  have r: "unat (read_pos s) < 1024" using h(1) by (simp add: lz_wf_def)
  show ?thesis
  proof (cases pend)
    case (Cons b' pend')
    then have "b' = b" and bs: "bs = pend' @ expand (ts @ concat gs) (ring_of s)" using h(2) by simp_all
    have "read_pos s \<noteq> write_pos s"
      using h(4,5) Cons r ring_index_eq [of "unat (read_pos s)" 1024 "length pend" 0] by (auto simp: word_unat_eq_iff)
    then show ?thesis using lz_take [OF h(1,3), of b pend'] h(4-6) Cons \<open>b' = b\<close> bs
      by (auto simp: decompress_get_byte_def)
  next
    case Nil
    then have eq: "read_pos s = write_pos s" using h(5) r by (simp add: word_unat_eq_iff)
    obtain t us where t: "ts @ concat gs = t # us" using h(2) Nil by (cases "ts @ concat gs") auto
    obtain s' ts' gs' where s': "lz_refill E D s = Some s'" "us = ts' @ concat gs'" "lz_input E D input s' ts' gs'" "lz_wf s'"
        "read_pos s' = read_pos s" "ring_of s' = fold ring_put (token_out t (ring_of s)) (ring_of s)"
      using lz_refill_next [OF h(3) t h(1)] by blast
    let ?out = "token_out t (ring_of s)"
    have "token_ok t" using h(3) t by (auto simp: lz_input_def)
    then have len: "0 < length ?out" "length ?out < 1024" using length_token_out by simp_all
    have ring: "pending (text_buf s') (unat (read_pos s')) ?out" "unat (write_pos s') = (unat (read_pos s') + length ?out) mod 1024"
    proof -
      have "length (text_buf s) = 1024" using h(1) by (simp add: lz_wf_def)
      note written = ring_written [OF this r len(2)]
      have rg: "ring_of s = (text_buf s, unat (read_pos s))" using eq by (simp add: ring_of_def)
      have "pending (fst (ring_of s')) (unat (read_pos s)) ?out" "snd (ring_of s') = (unat (read_pos s) + length ?out) mod 1024"
        using written by (simp_all only: s'(6) rg)
      then show "pending (text_buf s') (unat (read_pos s')) ?out" "unat (write_pos s') = (unat (read_pos s') + length ?out) mod 1024"
        by (simp_all add: ring_of_def [of s'] s'(5))
    qed
    obtain pend' where out: "?out = b # pend'" "bs = pend' @ expand us (ring_of s')"
      using h(2) Nil t len(1) s'(6) by (cases ?out) (auto simp: Let_def)
    have "text_buf s' ! unat (read_pos s') = b \<and>
        lz_holds E D input (s'\<lparr>read_pos := (read_pos s' + 1) AND 1023\<rparr>) (pend' @ expand (ts' @ concat gs') (ring_of s'))"
      using len ring out(1) by (intro lz_take [OF s'(4,3)]) simp_all
    then show ?thesis using eq s'(1,2) out(2) by (auto simp: decompress_get_byte_def)
  qed
qed

interpretation lz: byte_channel "io_wr E (leds_base D)" "decompress_get_byte E D" "uart_write E D" "lz_holds E D input" for E D input
proof
  fix s :: "'a lz_state_scheme" and bs c
  assume "lz_holds E D input s bs"
  then show "lz_holds E D input (io_wr E (leds_base D) c s) bs"
    by (rule lz_holds_cong [rotated 5]) (erule uart.holds_leds, simp_all add: io_wr_def io_step_def)
next
  fix s :: "'a lz_state_scheme" and b bs
  assume "lz_holds E D input s (b # bs)"
  then show "\<exists>s'. decompress_get_byte E D s = Some (ucast b, s') \<and> lz_holds E D input s' bs" by (rule lz_holds_get)
next
  fix s :: "'a lz_state_scheme" and bs ack
  assume *: "lz_holds E D input s bs"
  then obtain cs where "uart_holds E D input s cs" by (auto simp: lz_holds_def lz_input_def)
  then obtain s' where s': "uart_write E D ack s = Some s'" using uart.holds_put by blast
  then have "machine.more s' = machine.more s"
    using uart_wait_more [of E D 1 s] by (auto simp: uart_write_def io_wr_def io_step_def)
  note fields = lz_fields_more [OF this]
  have "uart_holds E D input s cs \<Longrightarrow> uart_holds E D input s' cs" for cs
    using uart.holds_put [of E D input s cs ack] s' by auto
  then have "lz_holds E D input s' bs" using fields by (intro lz_holds_cong [OF _ _ _ _ _ *]) simp_all
  with s' show "\<exists>s'. uart_write E D ack s = Some s' \<and> lz_holds E D input s' bs" by blast
qed

section \<open>The decoder and the download\<close>

fun decompress_bytes :: "env \<Rightarrow> boot_devices \<Rightarrow> nat \<Rightarrow> 'a lz_state_scheme \<Rightarrow> (u32 list \<times> 'a lz_state_scheme) option" where
  "decompress_bytes E D 0 s = Some ([], s)"
| "decompress_bytes E D (Suc n) s =
     (case decompress_get_byte E D s of
        None \<Rightarrow> None
      | Some (c, s) \<Rightarrow> map_option (\<lambda>(cs, s). (c # cs, s)) (decompress_bytes E D n s))"

definition start_ring :: "'a lz_state_scheme \<Rightarrow> ring" where
  "start_ring s = (replicate 958 32 @ drop 958 (text_buf s), 958)"

lemma fill_blanks:
  "n \<le> length buf \<Longrightarrow> fold (\<lambda>i buf. buf[i := x]) [0..<n] buf = replicate n x @ drop n buf"
proof (induction n)
  case (Suc n)
  then have "drop n buf = buf ! n # drop (Suc n) buf" by (simp add: Cons_nth_drop_Suc)
  with Suc show ?case by (simp add: list_update_append replicate_append_same flip: replicate_Suc)
qed simp

lemma lz_start:
  assumes "uart_serves E D (concat (map group_bytes gs))" "data_reads D (trace s) = 0" "groups_ok gs" "\<forall>t \<in> set (concat gs). token_ok t"
    "length (text_buf s) = 1024"
  shows "lz_holds E D (concat (map group_bytes gs)) (decompress_init s) (expand (concat gs) (start_ring s))"
proof -
  let ?s = "decompress_init s"
  have s: "text_buf ?s = replicate 958 32 @ drop 958 (text_buf s)" "write_pos ?s = 958" "read_pos ?s = 958" "flags ?s = 0" "trace ?s = trace s"
    using fill_blanks [of 958 "text_buf s" 32] assms(5) by (simp_all add: decompress_init_def Let_def)
  then have "lz_wf ?s" "ring_of ?s = start_ring s" using assms(5) by (simp_all add: lz_wf_def ring_of_def start_ring_def)
  moreover have "lz_input E D (concat (map group_bytes gs)) ?s [] gs"
    using assms(1-4) s by (simp add: lz_input_def uart_holds_def flags_ok_def)
  ultimately show ?thesis using s unfolding lz_holds_def
    by (intro conjI exI [of _ "[]"] exI [of _ gs]) (simp_all add: pending_def)
qed

text \<open>C33: the decoder that returns one byte per call agrees with decoding in one pass: on a line that
  delivers the encoded tokens, as many calls as the tokens expand to return, and they return exactly that
  expansion, for literals and for matches that overlap the bytes they produce.\<close>

theorem decompress_one_pass:
  assumes "uart_serves E D (concat (map group_bytes gs))" "data_reads D (trace s) = 0" "groups_ok gs" "\<forall>t \<in> set (concat gs). token_ok t"
    "length (text_buf s) = 1024"
  shows "\<exists>s'. decompress_bytes E D (length (expand (concat gs) (start_ring s))) (decompress_init s) =
    Some (map ucast (expand (concat gs) (start_ring s)), s')"
proof -
  have "\<exists>s'. decompress_bytes E D (length bs) t = Some (map ucast bs, s')" if "lz_holds E D input t bs" for t bs input
    using that
  proof (induction bs arbitrary: t)
    case (Cons b bs)
    then obtain t' where t': "decompress_get_byte E D t = Some (ucast b, t')" "lz_holds E D input t' bs" using lz_holds_get by blast
    then show ?case using Cons.IH [OF t'(2)] by auto
  qed simp
  then show ?thesis using lz_start [OF assms] by blast
qed

text \<open>C4: the download through the decompressor: when the serial line delivers groups of tokens that
  expand to the packets of an image, the download returns the entry point of the image and every byte of
  main memory is that of the last section that covers it.\<close>

theorem compressed_download_loads_image:
  assumes "uart_serves E D (concat (map group_bytes gs))" "data_reads D (trace s) = 0" "groups_ok gs" "\<forall>t \<in> set (concat gs). token_ok t"
    "length (text_buf s) = 1024" "expand (concat gs) (start_ring s) = wire ps @ rest"
    and "\<forall>p \<in> set ps. packet_ok p" "concat ps = image_bytes entry secs" "\<forall>sc \<in> set secs. section_ok sc" "length secs < 2 ^ 32 - 1"
  shows "\<exists>d s'. download E D m s = Some (entry, d, s') \<and>
    mem_iord_byte (main_mem d) = fold with_section secs (mem_iord_byte m)"
  using lz.image_download [OF assms(7-10), of E D "concat (map group_bytes gs)" "decompress_init s" rest m] lz_start [OF assms(1-5)] assms(6)
  by (auto simp: download_def)

section \<open>Witnesses\<close>

text \<open>An encoder that uses literals only.\<close>

fun chunks8 :: "'b list \<Rightarrow> 'b list list" where
  "chunks8 [] = []"
| "chunks8 (x # xs) = take 8 (x # xs) # chunks8 (drop 8 (x # xs))"

lemma chunks8_concat [simp]: "concat (chunks8 xs) = xs"
  by (induction xs rule: chunks8.induct) (simp_all only: chunks8.simps concat.simps append_take_drop_id)

lemma chunks8_groups: "groups_ok (chunks8 ts)"
proof (induction ts rule: chunks8.induct)
  case (2 t ts)
  have "chunks8 xs \<noteq> [] \<longleftrightarrow> xs \<noteq> []" for xs :: "token list" by (cases xs) auto
  with 2 show ?case by auto
qed simp

lemma expand_literals: "expand (map Literal bs) r = bs"
  by (induction bs arbitrary: r) (simp_all add: Let_def)

definition demo_lz :: lz_state where
  "demo_lz = machine.extend empty_machine (lz_state.fields (replicate 1024 0) 0 0 0)"

lemma demo_lz_fields: "trace demo_lz = []" "length (text_buf demo_lz) = 1024"
  by (simp_all add: demo_lz_def machine.defs lz_state.defs empty_machine_def)

theorem decompress_one_pass_witness:
  "\<exists>s'. decompress_bytes (ready_env demo_devices (group_bytes [Literal 7, Match 958 3])) demo_devices (length [7 :: u8, 7, 7, 7])
     (decompress_init demo_lz) = Some ([7, 7, 7, 7], s')"
proof -
  have three: "copied i 3 r = (let b = fst r ! (i mod 1024); r1 = ring_put b r; c = fst r1 ! ((i + 1) mod 1024); r2 = ring_put c r1
      in [b, c, fst r2 ! ((i + 2) mod 1024)])" for i r
    by (simp add: numeral_3_eq_3 Let_def)
  have seven: "expand [Literal 7, Match 958 3] (buf, 958) = [7, 7, 7, 7]" if "length buf = 1024" for buf
    using that by (simp add: three ring_put_def Let_def)
  have "expand [Literal 7, Match 958 3] (start_ring demo_lz) = [7, 7, 7, 7]"
    unfolding start_ring_def by (rule seven) (simp add: demo_lz_fields)
  then show ?thesis
    using decompress_one_pass [of "ready_env demo_devices (group_bytes [Literal 7, Match 958 3])" demo_devices "[[Literal 7, Match 958 3]]" demo_lz]
    by (simp add: ready_env_serves demo_lz_fields del: expand.simps decompress_bytes.simps)
qed

theorem compressed_download_loads_image_witness:
  "\<exists>gs d s'. download (ready_env demo_devices (concat (map group_bytes gs))) demo_devices (\<lambda>_. 0xFFFFFFFF) demo_lz =
      Some (0x20, d, s') \<and> mem_iord_byte (main_mem d) 0x102 = 3"
proof -
  let ?p = "image_bytes 0x20 [demo_section]"
  let ?gs = "chunks8 (map Literal (wire [?p]))"
  have "packet_ok ?p" by (simp add: packet_ok_def image_bytes_def section_bytes_def be_bytes_def demo_section_def)
  then obtain d s' where "download (ready_env demo_devices (concat (map group_bytes ?gs))) demo_devices (\<lambda>_. 0xFFFFFFFF) demo_lz = Some (0x20, d, s')"
      "mem_iord_byte (main_mem d) = with_section demo_section (mem_iord_byte (\<lambda>_. 0xFFFFFFFF))"
    using compressed_download_loads_image [of "ready_env demo_devices (concat (map group_bytes ?gs))" demo_devices ?gs demo_lz "[?p]" "[]" "0x20" "[demo_section]"
        "\<lambda>_. 0xFFFFFFFF"]
    by (auto simp: ready_env_serves demo_lz_fields demo_section_ok chunks8_groups expand_literals)
  then show ?thesis by (auto simp: with_section_def stored_def demo_section_def intro!: exI)
qed

end
