(* ===== verification/Boot_Main.thy ===== *)
theory Boot_Main
  imports Decompress
begin

text \<open>
  The combined master and slave boot loader \<^verbatim>\<open>c/bootloader/bootloader.c\<close>: every core runs \<open>main\<close>, and the cores
  communicate through \<open>boot_info\<close> in shared memory.  A step of a core is one statement with at most one
  access to a shared status (the four stores into the own record are one step, since nobody else reads the
  other fields before); a run is any interleaving of the steps.  Core 0 has the serial line.  The
  application is a parameter: \<open>app c e\<close> is what the entry point \<open>e\<close> returns on core \<open>c\<close>; it is assumed not to
  write \<open>boot_info\<close>.  The timer is read as an arbitrary value.
\<close>

section \<open>State\<close>

datatype boot_status = STATUS_NULL | STATUS_BOOT | STATUS_INIT | STATUS_RETURN
  | STATUS_OTHER u32   \<comment> \<open>what was in memory before the first boot, or set by an application\<close>

record slave_info =
  sl_status :: boot_status
  sl_return_val :: u32
  sl_param :: u32
  sl_funcpoint :: u32

datatype boot_pc =
    Start | Delay u32 | ClearStatus | ClearEntry
  | ClearSlaves nat | BootLoop nat | Load                           \<comment> \<open>core 0\<close>
  | SlaveClear | SlaveBoot | SlaveWaitBoot | SlaveWaitInit          \<comment> \<open>other cores\<close>
  | CopyIspm
  | MasterInit | MasterWaitInit nat | SlaveInit
  | Enter | Call | StoreRet
  | MasterCheck nat | MasterSpin nat | MasterPrint nat | MasterReturn | MasterWaitDone nat
  | SlaveReturn | SlaveWaitReturn | SlaveDone
  | Restart

datatype boot_event =
    Booted nat          \<comment> \<open>a core has entered \<open>main\<close>\<close>
  | Loaded u32          \<comment> \<open>the download has returned\<close>
  | Called nat u32      \<comment> \<open>a core calls the entry point\<close>
  | GlobalMode nat | LocalMode nat | Invalidated nat

record boot_state =
  m_status :: boot_status
  m_entrypoint :: u32
  slave :: "nat \<Rightarrow> slave_info"
  pc :: "nat \<Rightarrow> boot_pc"
  retval :: "nat \<Rightarrow> u32"
  mem :: buffer
  spm :: "nat \<Rightarrow> buffer"
  line :: lz_state
  events :: "boot_event list"   \<comment> \<open>most recent first\<close>

record boot_config =
  cpucnt :: nat
  ispm_size :: nat
  devices :: boot_devices

section \<open>Steps\<close>

definition goto :: "nat \<Rightarrow> boot_pc \<Rightarrow> boot_state \<Rightarrow> boot_state" where
  "goto c p s = s\<lparr>pc := (pc s)(c := p)\<rparr>"

definition set_status :: "nat \<Rightarrow> boot_status \<Rightarrow> boot_state \<Rightarrow> boot_state" where
  "set_status i v s = s\<lparr>slave := (slave s)(i := (slave s i)\<lparr>sl_status := v\<rparr>)\<rparr>"

definition clear_slave :: "nat \<Rightarrow> boot_state \<Rightarrow> boot_state" where
  "clear_slave i s =
     s\<lparr>slave := (slave s)(i := \<lparr>sl_status = STATUS_NULL, sl_return_val = -1, sl_param = 0, sl_funcpoint = 0\<rparr>)\<rparr>"

definition log :: "boot_event \<Rightarrow> boot_state \<Rightarrow> boot_state" where
  "log e s = s\<lparr>events := e # events s\<rparr>"

text \<open>The instruction scratchpad gets the words of main memory from 64 K on.\<close>

definition copy_ispm :: "nat \<Rightarrow> buffer \<Rightarrow> buffer \<Rightarrow> buffer" where
  "copy_ispm size_bytes m sp =
     fold (\<lambda>i sp. sp(word_ptr (0x4000 + of_nat i) := m (word_ptr (0x4000 + of_nat i)))) [0..<size_bytes div 4] sp"

text \<open>The characters of the exit message.\<close>

definition exit_char :: "nat \<Rightarrow> u32 \<Rightarrow> u8" where
  "exit_char k r = (if k = 0 then 0 else if k = 1 then 120 else ucast (r AND 0xFF))"

definition boot_step :: "env \<Rightarrow> boot_config \<Rightarrow> (nat \<Rightarrow> u32 \<Rightarrow> u32) \<Rightarrow> nat \<Rightarrow> u32 \<Rightarrow> boot_state \<Rightarrow> boot_state option" where
  "boot_step E C app c timer s = (case pc s c of
      Start \<Rightarrow> Some (goto c (Delay (timer + 1000)) s)
    | Delay val \<Rightarrow> Some (if sint (timer - val) < 0 then s else goto c ClearStatus s)
    | ClearStatus \<Rightarrow> Some (goto c ClearEntry (log (Booted c) (s\<lparr>m_status := STATUS_NULL\<rparr>)))
    | ClearEntry \<Rightarrow> Some (goto c (if c = 0 then ClearSlaves 0 else SlaveClear) (s\<lparr>m_entrypoint := 0\<rparr>))
    | ClearSlaves i \<Rightarrow>
        Some (if i < cpucnt C then goto c (ClearSlaves (i + 1)) (clear_slave i s) else goto c (BootLoop 0) s)
    | BootLoop i \<Rightarrow>
        Some (if i < 0x10 then goto c (BootLoop (i + 1)) (s\<lparr>m_status := STATUS_BOOT\<rparr>) else goto c Load s)
    | Load \<Rightarrow>
        (case download E (devices C) (mem s) (line s) of
           None \<Rightarrow> None
         | Some (e, d, l) \<Rightarrow> Some (goto c CopyIspm (log (Loaded e) (s\<lparr>m_entrypoint := e, mem := main_mem d, line := l\<rparr>))))
    | SlaveClear \<Rightarrow> Some (goto c SlaveBoot (clear_slave c s))
    | SlaveBoot \<Rightarrow> Some (goto c SlaveWaitBoot (set_status c STATUS_BOOT s))
    | SlaveWaitBoot \<Rightarrow> Some (goto c (if m_status s \<noteq> STATUS_BOOT then SlaveBoot else SlaveWaitInit) s)
    | SlaveWaitInit \<Rightarrow> Some (if m_status s \<noteq> STATUS_INIT then s else goto c CopyIspm s)
    | CopyIspm \<Rightarrow>
        Some (goto c (if c = 0 then MasterInit else SlaveInit) (s\<lparr>spm := (spm s)(c := copy_ispm (ispm_size C) (mem s) (spm s c))\<rparr>))
    | MasterInit \<Rightarrow> Some (goto c (MasterWaitInit 1) (s\<lparr>m_status := STATUS_INIT\<rparr>))
    | MasterWaitInit i \<Rightarrow>
        Some (if i < cpucnt C then
                if sl_status (slave s i) \<noteq> STATUS_INIT then s else goto c (MasterWaitInit (i + 1)) s
              else goto c Enter s)
    | SlaveInit \<Rightarrow> Some (goto c Enter (set_status c STATUS_INIT s))
    | Enter \<Rightarrow>
        (let s = s\<lparr>retval := (retval s)(c := -1)\<rparr>
         in Some (if m_entrypoint s \<noteq> 0 then goto c Call (log (GlobalMode c) s)
                  else goto c (if c = 0 then MasterCheck 1 else SlaveReturn) s))
    | Call \<Rightarrow>
        (let e = m_entrypoint s
         in Some (goto c StoreRet (log (LocalMode c) (log (Called c e) (s\<lparr>retval := (retval s)(c := app c e)\<rparr>)))))
    | StoreRet \<Rightarrow>
        Some (goto c (if c = 0 then MasterCheck 1 else SlaveReturn)
          (s\<lparr>slave := (slave s)(c := (slave s c)\<lparr>sl_return_val := retval s c\<rparr>)\<rparr>))
    | MasterCheck i \<Rightarrow>
        Some (if i < cpucnt C then
                goto c (if sl_status (slave s i) \<noteq> STATUS_NULL then MasterSpin i else MasterCheck (i + 1)) s
              else goto c (MasterPrint 0) s)
    | MasterSpin i \<Rightarrow> Some (if sl_status (slave s i) \<noteq> STATUS_RETURN then s else goto c (MasterCheck (i + 1)) s)
    | MasterPrint k \<Rightarrow>
        (case uart_write E (devices C) (exit_char k (retval s c)) (line s) of
           None \<Rightarrow> None
         | Some l \<Rightarrow> Some (goto c (if k < 2 then MasterPrint (k + 1) else MasterReturn) (s\<lparr>line := l\<rparr>)))
    | MasterReturn \<Rightarrow> Some (goto c (MasterWaitDone 1) (s\<lparr>m_status := STATUS_RETURN\<rparr>))
    | MasterWaitDone i \<Rightarrow>
        Some (if i < cpucnt C then
                if sl_status (slave s i) = STATUS_RETURN then s else goto c (MasterWaitDone (i + 1)) s
              else goto c Restart s)
    | SlaveReturn \<Rightarrow> Some (goto c SlaveWaitReturn (set_status c STATUS_RETURN s))
    | SlaveWaitReturn \<Rightarrow> Some (goto c (if m_status s \<noteq> STATUS_RETURN then SlaveReturn else SlaveDone) s)
    | SlaveDone \<Rightarrow> Some (goto c Restart (set_status c STATUS_NULL s))
    | Restart \<Rightarrow> Some (goto c Start (log (Invalidated c) s)))"

text \<open>Every interleaving of the cores, from any contents of the memory.\<close>

inductive reachable :: "env \<Rightarrow> boot_config \<Rightarrow> (nat \<Rightarrow> u32 \<Rightarrow> u32) \<Rightarrow> boot_state \<Rightarrow> bool" for E C app where
  power_on: "(\<And>c. pc s c = Start) \<Longrightarrow> events s = [] \<Longrightarrow> reachable E C app s"
| step: "reachable E C app s \<Longrightarrow> c < cpucnt C \<Longrightarrow> boot_step E C app c timer s = Some s' \<Longrightarrow> reachable E C app s'"

section \<open>A slave calls the application only after a download\<close>

text \<open>The master has downloaded since core \<open>c\<close> has entered \<open>main\<close>.\<close>

fun is_loaded :: "boot_event \<Rightarrow> bool" where
  "is_loaded (Loaded e) \<longleftrightarrow> True"
| "is_loaded _ \<longleftrightarrow> False"

fun loaded_since :: "nat \<Rightarrow> boot_event list \<Rightarrow> bool" where
  "loaded_since c [] \<longleftrightarrow> False"
| "loaded_since c (e # es) \<longleftrightarrow> is_loaded e \<or> (e \<noteq> Booted c \<and> loaded_since c es)"

definition entering :: "boot_pc \<Rightarrow> bool" where
  "entering p \<longleftrightarrow> p \<in> {ClearEntry, SlaveClear, SlaveBoot, SlaveWaitBoot}"

definition started :: "boot_pc \<Rightarrow> bool" where
  "started p \<longleftrightarrow> p \<in> {CopyIspm, SlaveInit, Enter, Call, StoreRet}"

definition announcing :: "boot_pc \<Rightarrow> bool" where
  "announcing p \<longleftrightarrow> (\<exists>i. p = BootLoop i) \<or> p = Load"

definition clearing :: "boot_pc \<Rightarrow> bool" where
  "clearing p \<longleftrightarrow> p = ClearEntry \<or> (\<exists>i. p = ClearSlaves i) \<or> announcing p"

text \<open>The places of \<open>main\<close> that only core 0 or only the others reach.\<close>

definition role_ok :: "nat \<Rightarrow> boot_pc \<Rightarrow> bool" where
  "role_ok c p \<longleftrightarrow> (case p of
      ClearSlaves i \<Rightarrow> c = 0 | BootLoop i \<Rightarrow> c = 0 | Load \<Rightarrow> c = 0 | MasterInit \<Rightarrow> c = 0 | MasterWaitInit i \<Rightarrow> c = 0
    | MasterCheck i \<Rightarrow> c = 0 | MasterSpin i \<Rightarrow> c = 0 | MasterPrint i \<Rightarrow> c = 0 | MasterReturn \<Rightarrow> c = 0 | MasterWaitDone i \<Rightarrow> c = 0
    | _ \<Rightarrow> True)"

definition boot_inv :: "nat \<Rightarrow> boot_state \<Rightarrow> bool" where
  "boot_inv c s \<longleftrightarrow>
     (\<forall>k. role_ok k (pc s k)) \<and>
     (clearing (pc s 0) \<longrightarrow> m_status s \<in> {STATUS_NULL, STATUS_BOOT}) \<and>
     (\<not> loaded_since c (events s) \<longrightarrow>
        (entering (pc s c) \<and> m_status s = STATUS_BOOT \<longrightarrow> announcing (pc s 0)) \<and>
        (pc s c = SlaveWaitInit \<longrightarrow> announcing (pc s 0)) \<and> \<not> started (pc s c))"

lemmas boot_defs = goto_def log_def set_status_def clear_slave_def Let_def

text \<open>What a step of core \<open>k\<close> does to the other cores, to the log, to the master's status and to its own place.\<close>

lemma step_pc_other: "boot_step E C app k timer s = Some s' \<Longrightarrow> j \<noteq> k \<Longrightarrow> pc s' j = pc s j"
  by (cases "pc s k") (auto simp: boot_step_def boot_defs split: if_splits option.splits)

lemma step_status:
  "boot_step E C app k timer s = Some s' \<Longrightarrow> m_status s' = (case pc s k of
      ClearStatus \<Rightarrow> STATUS_NULL | BootLoop i \<Rightarrow> if i < 0x10 then STATUS_BOOT else m_status s
    | MasterInit \<Rightarrow> STATUS_INIT | MasterReturn \<Rightarrow> STATUS_RETURN | _ \<Rightarrow> m_status s)"
  by (cases "pc s k") (auto simp: boot_step_def boot_defs split: if_splits option.splits)

lemma step_loaded:
  "boot_step E C app k timer s = Some s' \<Longrightarrow> loaded_since c (events s') \<longleftrightarrow>
     pc s k = Load \<or> (\<not> (pc s k = ClearStatus \<and> k = c) \<and> loaded_since c (events s))"
  by (cases "pc s k") (auto simp: boot_step_def boot_defs split: if_splits option.splits)

lemma step_role: "boot_step E C app k timer s = Some s' \<Longrightarrow> role_ok k (pc s k) \<Longrightarrow> role_ok k (pc s' k)"
  by (cases "pc s k") (auto simp: boot_step_def boot_defs role_ok_def split: if_splits option.splits)

lemmas boot_places = entering_def started_def announcing_def clearing_def

lemma step_place:
  assumes "boot_step E C app k timer s = Some s'"
  shows "clearing (pc s' k) \<Longrightarrow> clearing (pc s k) \<or> pc s k = ClearStatus"
    and "announcing (pc s k) \<Longrightarrow> pc s k \<noteq> Load \<Longrightarrow> announcing (pc s' k)"
    and "entering (pc s' k) \<Longrightarrow> entering (pc s k) \<or> pc s k = ClearStatus"
    and "pc s' k = SlaveWaitInit \<Longrightarrow> pc s k = SlaveWaitInit \<or> pc s k = SlaveWaitBoot \<and> m_status s = STATUS_BOOT"
    and "started (pc s' k) \<Longrightarrow> started (pc s k) \<or> (pc s k = SlaveWaitInit \<and> m_status s = STATUS_INIT) \<or> pc s k = Load \<or>
      (\<exists>i. pc s k = MasterWaitInit i)"
  using assms by (cases "pc s k"; (auto simp: boot_step_def boot_defs boot_places split: if_splits option.splits; fail))+

lemma announcing_status:
  assumes "boot_step E C app k timer s = Some s'" "role_ok k (pc s k)" "clearing (pc s 0) \<longrightarrow> m_status s \<in> {STATUS_NULL, STATUS_BOOT}"
  shows "clearing (pc s' 0) \<longrightarrow> m_status s' \<in> {STATUS_NULL, STATUS_BOOT}"
proof (cases "k = 0")
  case True
  then show ?thesis
    using step_place(1) [OF assms(1)] step_status [OF assms(1)] assms(3) by (auto simp: boot_places split: boot_pc.splits)
next
  case False
  then show ?thesis
    using step_pc_other [OF assms(1), of 0] step_status [OF assms(1)] assms(2,3) by (auto simp: role_ok_def split: boot_pc.splits)
qed

text \<open>The announcement of the master ends only with the download, and only the announcement writes \<open>STATUS_BOOT\<close>.\<close>

lemma announcing_step:
  assumes "boot_step E C app k timer s = Some s'" "role_ok k (pc s k)" "announcing (pc s 0)" "\<not> (k = 0 \<and> pc s k = Load)"
  shows "announcing (pc s' 0)"
  using assms step_place(2) [OF assms(1)] step_pc_other [OF assms(1), of 0] by (cases "k = 0") auto

lemma status_boot:
  assumes "boot_step E C app k timer s = Some s'" "role_ok k (pc s k)" "m_status s' = STATUS_BOOT"
  shows "m_status s = STATUS_BOOT \<or> announcing (pc s' 0)"
proof (cases "\<exists>i. pc s k = BootLoop i")
  case True
  then obtain i where "pc s k = BootLoop i" by blast
  moreover from this have "k = 0" using assms(2) by (simp add: role_ok_def)
  ultimately show ?thesis using step_place(2) [OF assms(1)] by (simp add: announcing_def)
next
  case False
  then show ?thesis using step_status [OF assms(1)] assms(3) by (auto split: boot_pc.splits)
qed

lemma boot_inv_step:
  assumes inv: "boot_inv c s" and step: "boot_step E C app k timer s = Some s'" and "0 < c"
  shows "boot_inv c s'"
proof -
  have roles: "role_ok j (pc s j)" for j using inv by (simp add: boot_inv_def)
  have "role_ok j (pc s' j)" for j
    using roles step_role [OF step] step_pc_other [OF step, of j] by (cases "j = k") auto
  moreover have "clearing (pc s' 0) \<longrightarrow> m_status s' \<in> {STATUS_NULL, STATUS_BOOT}"
    using announcing_status [OF step roles] inv by (simp add: boot_inv_def)
  moreover
  { assume "\<not> loaded_since c (events s')"
    then have no_load: "pc s k \<noteq> Load" and old: "loaded_since c (events s) \<Longrightarrow> pc s k = ClearStatus \<and> k = c"
      using step_loaded [OF step, of c] by auto
    have inv': "entering (pc s c) \<and> m_status s = STATUS_BOOT \<longrightarrow> announcing (pc s 0)"
        "pc s c = SlaveWaitInit \<longrightarrow> announcing (pc s 0)" "\<not> started (pc s c)" if "\<not> (pc s k = ClearStatus \<and> k = c)"
      using inv old that by (auto simp: boot_inv_def)
    have ann: "announcing (pc s 0) \<Longrightarrow> announcing (pc s' 0)" using announcing_step [OF step roles] no_load by auto
    have "(entering (pc s' c) \<and> m_status s' = STATUS_BOOT \<longrightarrow> announcing (pc s' 0)) \<and>
        (pc s' c = SlaveWaitInit \<longrightarrow> announcing (pc s' 0)) \<and> \<not> started (pc s' c)"
    proof (cases "pc s k = ClearStatus \<and> k = c")
      case True
      then have "pc s' c = ClearEntry" "m_status s' = STATUS_NULL" using step by (auto simp: boot_step_def boot_defs)
      then show ?thesis by (simp add: boot_places)
    next
      case False
      note inv' = inv' [OF False]
      have status: "clearing (pc s 0) \<longrightarrow> m_status s \<in> {STATUS_NULL, STATUS_BOOT}" using inv by (simp add: boot_inv_def)
      have enter: "entering (pc s' c) \<Longrightarrow> entering (pc s c)" "pc s' c = SlaveWaitInit \<Longrightarrow> announcing (pc s 0)"
        "started (pc s' c) \<Longrightarrow> False"
      proof -
        show "entering (pc s' c) \<Longrightarrow> entering (pc s c)"
          using step_place(3) [OF step] step_pc_other [OF step, of c] False by (cases "k = c") auto
        show "pc s' c = SlaveWaitInit \<Longrightarrow> announcing (pc s 0)"
          using step_place(4) [OF step] step_pc_other [OF step, of c] inv' by (cases "k = c") (auto simp: entering_def)
        show "started (pc s' c) \<Longrightarrow> False"
          using step_place(5) [OF step] step_pc_other [OF step, of c] inv' no_load roles [of c] \<open>0 < c\<close> status
          by (cases "k = c") (auto simp: clearing_def role_ok_def)
      qed
      then show ?thesis using ann inv'(1) status_boot [OF step roles] by blast
    qed }
  ultimately show ?thesis by (auto simp: boot_inv_def)
qed

text \<open>C5: whatever was in memory before and however the cores interleave, also over any number of rounds, a
  slave that has left the boot phase, in particular one that is about to call the entry point, has seen
  the master complete a download since the slave itself entered \<open>main\<close>.\<close>

theorem slave_calls_after_download:
  assumes "reachable E C app s" "0 < c" "pc s c \<in> {CopyIspm, SlaveInit, Enter, Call, StoreRet}"
  shows "loaded_since c (events s)"
proof -
  have "boot_inv c s" using assms(1)
  proof induction
    case (power_on s)
    then show ?case by (simp add: boot_inv_def role_ok_def boot_places)
  next
    case (step s k timer s')
    then show ?case using boot_inv_step assms(2) by blast
  qed
  then show ?thesis using assms(3) by (auto simp: boot_inv_def started_def)
qed

section \<open>Witness\<close>

text \<open>A schedule is a list of cores with the timer values they read.\<close>

fun boot_run :: "env \<Rightarrow> boot_config \<Rightarrow> (nat \<Rightarrow> u32 \<Rightarrow> u32) \<Rightarrow> (nat \<times> u32) list \<Rightarrow> boot_state \<Rightarrow> boot_state option" where
  "boot_run E C app [] s = Some s"
| "boot_run E C app (ct # cts) s = (case boot_step E C app (fst ct) (snd ct) s of None \<Rightarrow> None | Some s \<Rightarrow> boot_run E C app cts s)"

lemma boot_run_reachable:
  "reachable E C app s \<Longrightarrow> \<forall>ct \<in> set cts. fst ct < cpucnt C \<Longrightarrow> boot_run E C app cts s = Some s' \<Longrightarrow> reachable E C app s'"
  by (induction cts arbitrary: s) (auto split: option.splits intro: reachable.step)

definition demo_packets :: "u8 list" where
  "demo_packets = concat (map group_bytes (chunks8 (map Literal (wire [image_bytes 0x20 [demo_section]]))))"

definition demo_config :: boot_config where
  "demo_config = \<lparr>cpucnt = 2, ispm_size = 0, devices = demo_devices\<rparr>"

definition demo_boot :: boot_state where
  "demo_boot = \<lparr>m_status = STATUS_OTHER 7, m_entrypoint = 3, slave = \<lambda>_. \<lparr>sl_status = STATUS_OTHER 9, sl_return_val = 0, sl_param = 0, sl_funcpoint = 0\<rparr>,
     pc = \<lambda>_. Start, retval = \<lambda>_. 0, mem = \<lambda>_. 0, spm = \<lambda>_ _. 0, line = demo_lz, events = []\<rparr>"

lemma demo_download: "\<exists>d l. download (ready_env demo_devices demo_packets) demo_devices (\<lambda>_. 0) demo_lz = Some (0x20, d, l)"
proof -
  let ?p = "image_bytes 0x20 [demo_section]" and ?gs = "chunks8 (map Literal (wire [image_bytes 0x20 [demo_section]]))"
  have ok: "uart_serves (ready_env demo_devices demo_packets) demo_devices (concat (map group_bytes ?gs))"
    using ready_env_serves by (simp add: demo_packets_def)
  have "lz_holds (ready_env demo_devices demo_packets) demo_devices (concat (map group_bytes ?gs)) (decompress_init demo_lz) (wire [?p] @ [])"
    using lz_start [OF ok, of demo_lz] by (simp add: demo_lz_fields chunks8_groups expand_literals)
  moreover have "packet_ok ?p" by (simp add: packet_ok_def image_bytes_def section_bytes_def be_bytes_def demo_section_def)
  ultimately show ?thesis
    using lz.image_download [of "[?p]" "0x20" "[demo_section]"] by (fastforce simp: download_def demo_section_ok)
qed

theorem slave_calls_after_download_witness:
  "\<exists>s. reachable (ready_env demo_devices demo_packets) demo_config (\<lambda>_ _. 0) s \<and> pc s 1 = CopyIspm \<and> loaded_since 1 (events s)"
proof -
  let ?E = "ready_env demo_devices demo_packets"
  let ?cts = "(1, 0) # replicate 5 (1, 5000) @ (0, 0) # replicate 23 (0, 5000) @ [(1, 0), (0, 0), (0, 0), (0, 0), (1, 0)]"
  obtain d l where dl: "download ?E demo_devices (\<lambda>_. 0) demo_lz = Some (0x20, d, l)" using demo_download by blast
  have start: "reachable ?E demo_config (\<lambda>_ _. 0) demo_boot" by (rule reachable.power_on) (simp_all add: demo_boot_def)
  have "\<exists>s. boot_run ?E demo_config (\<lambda>_ _. 0) ?cts demo_boot = Some s \<and> pc s 1 = CopyIspm"
    using dl by (simp add: numeral_eq_Suc boot_step_def boot_defs demo_boot_def demo_config_def)
  then obtain s where s: "boot_run ?E demo_config (\<lambda>_ _. 0) ?cts demo_boot = Some s" "pc s 1 = CopyIspm" by blast
  have "reachable ?E demo_config (\<lambda>_ _. 0) s"
    by (rule boot_run_reachable [OF start _ s(1)]) (auto simp: demo_config_def)
  then show ?thesis using slave_calls_after_download [of ?E demo_config "\<lambda>_ _. 0" s 1] s(2) by auto
qed

end
