(* ===== verification/Boot_Ethmac.thy ===== *)
theory Boot_Ethmac
  imports Udp Download
begin

text \<open>
  The download over UDP, \<^verbatim>\<open>c/bootloader/ethmac.c\<close>, an alternative channel of the boot loader on top of
  \<^verbatim>\<open>c/ethlib\<close>.  \<open>mac_packet_type\<close> returns an enumerator of \<open>eth_protocol\<close>; the code compares its number.
\<close>

section \<open>The channel\<close>

abbreviation (input) RX_ADDR :: u32 where "RX_ADDR \<equiv> 0x000"
abbreviation (input) TX_ADDR :: u32 where "TX_ADDR \<equiv> 0x800"
abbreviation (input) ARP_ADDR :: u32 where "ARP_ADDR \<equiv> 0xC00"
abbreviation (input) TARGET_PORT :: u16 where "TARGET_PORT \<equiv> 8888"
abbreviation (input) HOST_PORT :: u16 where "HOST_PORT \<equiv> 8889"

record ethmac_state = udp_state +
  host_ip :: "u8 list"
  available :: u32
  read_offset :: u32

fun protocol_code :: "eth_protocol \<Rightarrow> u8" where
  "protocol_code TIMEOUT = -1"
| "protocol_code UNSUPPORTED = 0"
| "protocol_code IP = 1"
| "protocol_code ICMP = 2"
| "protocol_code UDP = 3"
| "protocol_code TCP = 4"
| "protocol_code PTP = 5"
| "protocol_code ARP = 6"
| "protocol_code LLDP = 7"
| "protocol_code MDNS = 8"
| "protocol_code TTE_PCF = 9"
| "protocol_code TTE_MSG = 10"
| "protocol_code INTERNOC_MSG = 11"

definition ethmac_init :: "env \<Rightarrow> 'a ethmac_state_scheme \<Rightarrow> 'a ethmac_state_scheme" where
  "ethmac_init E s =
     (let s = eth_mac_initialize E s;
          s = s\<lparr>arp_table := arp_table_init (arp_table s)\<rparr>;
          s = s\<lparr>my_mac := [0x00, 0xFF, 0xEE, 0xF0, 0xDA, 0x42]\<rparr>;
          s = s\<lparr>my_ip := [192, 168, 24, 50]\<rparr>
      in s\<lparr>available := 0, read_offset := 0\<rparr>)"

text \<open>The body of the loop of \<open>ethmac_get_byte\<close>.\<close>

definition ethmac_poll :: "env \<Rightarrow> u8 \<Rightarrow> 'a ethmac_state_scheme \<Rightarrow> 'a ethmac_state_scheme option" where
  "ethmac_poll E beyond s =
     (case eth_mac_receive E RX_ADDR 0 s of
        None \<Rightarrow> None
      | Some (_, s) \<Rightarrow>
          (let packet_type = protocol_code (mac_packet_type (buff s) RX_ADDR);
               s = (if packet_type = 2 \<and> udp_get_source_port (buff s) RX_ADDR = HOST_PORT \<and>
                       udp_get_destination_port (buff s) RX_ADDR = TARGET_PORT
                    then s\<lparr>available := ucast (udp_get_data_length (buff s) RX_ADDR), read_offset := 0,
                           host_ip := ipv4_get_source_ip (buff s) RX_ADDR\<rparr>
                    else s)
           in if packet_type = 3 then map_option snd (arp_process_received E beyond RX_ADDR TX_ADDR s) else Some s))"

partial_function (option) ethmac_wait :: "env \<Rightarrow> u8 \<Rightarrow> 'a ethmac_state_scheme \<Rightarrow> 'a ethmac_state_scheme option" where
  "ethmac_wait E beyond s =
     (if available s = 0 then (case ethmac_poll E beyond s of None \<Rightarrow> None | Some s \<Rightarrow> ethmac_wait E beyond s) else Some s)"

definition ethmac_get_byte :: "env \<Rightarrow> u8 \<Rightarrow> 'a ethmac_state_scheme \<Rightarrow> (u32 \<times> 'a ethmac_state_scheme) option" where
  "ethmac_get_byte E beyond s =
     (case ethmac_wait E beyond s of
        None \<Rightarrow> None
      | Some s \<Rightarrow>
          Some (take_bit 8 (mem_iord_byte (buff s) (RX_ADDR + 42 + read_offset s)),
                s\<lparr>available := available s - 1, read_offset := read_offset s + 1\<rparr>))"

definition ethmac_put_byte :: "env \<Rightarrow> u8 \<Rightarrow> u8 \<Rightarrow> 'a ethmac_state_scheme \<Rightarrow> 'a ethmac_state_scheme option" where
  "ethmac_put_byte E beyond c s =
     map_option snd (udp_send E beyond TX_ADDR ARP_ADDR (host_ip s) TARGET_PORT HOST_PORT [c] 1 10000 s)"

definition download_eth ::
  "env \<Rightarrow> boot_devices \<Rightarrow> u8 \<Rightarrow> buffer \<Rightarrow> 'a ethmac_state_scheme \<Rightarrow> (u32 \<times> loader \<times> 'a ethmac_state_scheme) option" where
  "download_eth E D beyond m s =
     download_loop (io_wr E (leds_base D)) (ethmac_get_byte E beyond) (ethmac_put_byte E beyond) packet_init (loader_init m) (ethmac_init E s)"

section \<open>What the channel accepts\<close>

lemma ethmac_io_stable [simp]: "available (io_step E e s) = available s"
  by (simp add: io_step_def)

lemma arp_process_available:
  assumes "arp_process_received E beyond rx tx s = Some (p, s')"
  shows "available s' = available s"
proof -
  have "available s2 = available s1" if "eth_mac_send E tx n s1 = Some s2" for s1 s2 :: "'a ethmac_state_scheme" and n
    using send_stable [OF that, of available] by simp
  then show ?thesis
    using assms by (auto simp: arp_process_received_def Let_def split: if_splits option.splits prod.splits)
qed

text \<open>One round of the loop delivers data exactly for a frame that is classified as ICMP.\<close>

lemma ethmac_poll_available:
  assumes "ethmac_poll E beyond s = Some s'"
  shows "\<exists>r t. eth_mac_receive E RX_ADDR 0 s = Some (r, t) \<and>
    available s' = (if mac_packet_type (buff t) RX_ADDR = ICMP \<and> udp_get_source_port (buff t) RX_ADDR = HOST_PORT \<and>
        udp_get_destination_port (buff t) RX_ADDR = TARGET_PORT
      then ucast (udp_get_data_length (buff t) RX_ADDR) else available s)"
proof -
  obtain r t where t: "eth_mac_receive E RX_ADDR 0 s = Some (r, t)"
    using assms by (auto simp: ethmac_poll_def split: option.splits)
  let ?ok = "mac_packet_type (buff t) RX_ADDR = ICMP \<and> udp_get_source_port (buff t) RX_ADDR = HOST_PORT \<and>
        udp_get_destination_port (buff t) RX_ADDR = TARGET_PORT"
  define u where "u = (if ?ok then t\<lparr>available := ucast (udp_get_data_length (buff t) RX_ADDR), read_offset := 0,
      host_ip := ipv4_get_source_ip (buff t) RX_ADDR\<rparr> else t)"
  have "available t = available s" using receive_stable [OF t, of available] by simp
  then have u: "available u = (if ?ok then ucast (udp_get_data_length (buff t) RX_ADDR) else available s)" by (simp add: u_def)
  have codes: "protocol_code p = 2 \<longleftrightarrow> p = ICMP" "protocol_code p = 3 \<longleftrightarrow> p = UDP" for p by (cases p; simp)+
  have "ethmac_poll E beyond s =
      (if mac_packet_type (buff t) RX_ADDR = UDP then map_option snd (arp_process_received E beyond RX_ADDR TX_ADDR u) else Some u)"
    unfolding ethmac_poll_def t option.case prod.case Let_def codes u_def ..
  then have "available s' = available u"
    using assms arp_process_available [of E beyond RX_ADDR TX_ADDR u]
    by (cases "arp_process_received E beyond RX_ADDR TX_ADDR u") (auto split: if_splits)
  with t u show ?thesis by auto
qed

text \<open>C34: \<open>ethmac_get_byte\<close> takes the enumerator 2 for UDP, but it is that of ICMP: as long as the controller
  receives no frame that is classified as ICMP, in particular while it receives UDP datagrams to the right
  port, a loader without data waits for ever.\<close>

theorem ethmac_ignores_udp:
  fixes s :: ethmac_state
  assumes "\<forall>(t :: ethmac_state) r t'. eth_mac_receive E RX_ADDR 0 t = Some (r, t') \<longrightarrow> mac_packet_type (buff t') RX_ADDR \<noteq> ICMP"
    and "available s = 0"
  shows "ethmac_get_byte E beyond s = None"
proof -
  have "E' = E \<Longrightarrow> available t = 0 \<Longrightarrow> False" if "ethmac_wait E' beyond t = Some t'" for t t' :: ethmac_state and E'
    using that
  proof (induction rule: ethmac_wait.raw_induct [rotated 1, consumes 1])
    case (1 wait E' b t t')
    then obtain u where u: "ethmac_poll E b t = Some u" "wait E' b u = Some t'" by (auto split: option.splits)
    have "available u = 0" using ethmac_poll_available [OF u(1)] assms(1) 1(4) by auto
    then show ?case using 1(1) [OF u(2)] 1(3) by simp
  qed
  then have "ethmac_wait E beyond s = None" using assms(2) by (cases "ethmac_wait E beyond s") auto
  then show ?thesis by (simp add: ethmac_get_byte_def)
qed

text \<open>A controller that has always received the same UDP datagram.\<close>

definition udp_only_frame :: buffer where
  "udp_only_frame = (\<lambda>_. 0)(12 := 0x08004500, 20 := 0x00000011)"

definition udp_only_env :: env where
  "udp_only_env = \<lparr>eth_val = \<lambda>_ _. 4, eth1_val = \<lambda>_ _. 0, io_val = \<lambda>_ _. 0, usecs_val = \<lambda>_. 0, cycles_val = \<lambda>_. 0,
     dma = \<lambda>_ _. udp_only_frame, dma1 = \<lambda>_ b. b, timer_loclk = 0\<rparr>"

definition idle_ethmac :: ethmac_state where
  "idle_ethmac = \<lparr>trace = [], buff = \<lambda>_. 0, buff1 = \<lambda>_. 0, my_mac = my_mac_init, my_ip = [192, 168, 24, 50], arp_table = [],
     ipv4_id = 0, host_ip = [], available = 0, read_offset = 0\<rparr>"

lemma udp_only_frame_type: "mac_packet_type udp_only_frame RX_ADDR = UDP"
  by (simp add: mac_packet_type_def udp_only_frame_def mem_iord_byte_lane word_ptr_def Let_def)

theorem ethmac_ignores_udp_witness: "ethmac_get_byte udp_only_env 0 idle_ethmac = None"
proof (rule ethmac_ignores_udp)
  have "buff t' = udp_only_frame" if "eth_mac_receive udp_only_env RX_ADDR 0 t = Some (r, t')" for t t' :: ethmac_state and r
    using that by (auto simp: eth_mac_receive_def rx_release_def eth_iowr_def eth_iord_def io_step_def udp_only_env_def Let_def split: option.splits)
  then show "\<forall>(t :: ethmac_state) r t'. eth_mac_receive udp_only_env RX_ADDR 0 t = Some (r, t') \<longrightarrow> mac_packet_type (buff t') RX_ADDR \<noteq> ICMP"
    by (auto simp: udp_only_frame_type)
  show "available idle_ethmac = 0" by (simp add: idle_ethmac_def)
qed

end
