(* ===== verification/Noc.thy ===== *)
theory Noc
  imports Eth_Prelude
begin

text \<open>
  The driver of the network interface \<^verbatim>\<open>c/libnoc/noc.c\<close> (without \<open>TRAP\<close>), and the measurement of a
  scratchpad's size in \<^verbatim>\<open>c/libnoc/noc.c\<close> and \<^verbatim>\<open>c/libmp/utils.c\<close>.

  A core has a communication scratchpad, accessed in words, and the DMA table of its network interface, two
  words per receiver.  Where the scratchpad is mapped (\<open>NOC_SPM_BASE\<close>) comes from the tool chain and is the field
  \<open>spm_base\<close>.  The network itself is hardware of another repository: it is a parameter \<open>net\<close>, and what
  the libraries rely on is the hypothesis \<open>in_order\<close>.
\<close>

section \<open>The network interface of a core\<close>

record node =
  spm_base :: u32
  spm :: "nat \<Rightarrow> u32"        \<comment> \<open>by word number from \<open>NOC_SPM_BASE\<close> on\<close>
  dma_tab :: "u32 \<Rightarrow> u32"    \<comment> \<open>by word number from \<open>NOC_DMA_BASE\<close> on\<close>

text \<open>An access through a pointer into the scratchpad.\<close>

definition spm_word :: "'a node_scheme \<Rightarrow> u32 \<Rightarrow> nat" where
  "spm_word n p = unat (p - spm_base n) div 4"

definition spm_load :: "u32 \<Rightarrow> 'a node_scheme \<Rightarrow> u32" where
  "spm_load p n = spm n (spm_word n p)"

definition spm_store :: "u32 \<Rightarrow> u32 \<Rightarrow> 'a node_scheme \<Rightarrow> 'a node_scheme" where
  "spm_store p v n = n\<lparr>spm := (spm n)(spm_word n p := v)\<rparr>"

definition NOC_ACTIVE_BIT :: u32 where
  "NOC_ACTIVE_BIT = 0x80000000"

datatype pkt_type = DATA_PKT_TYPE | CONFIG_PKT_TYPE | DATA_IRQ_PKT_TYPE | IRQ_PKT_TYPE

fun pkt_code :: "pkt_type \<Rightarrow> u8" where
  "pkt_code DATA_PKT_TYPE = 0"
| "pkt_code CONFIG_PKT_TYPE = 1"
| "pkt_code DATA_IRQ_PKT_TYPE = 2"
| "pkt_code IRQ_PKT_TYPE = 3"

definition k_noc_dma_done :: "u32 \<Rightarrow> 'a node_scheme \<Rightarrow> bool" where
  "k_noc_dma_done dma_id n \<longleftrightarrow> dma_tab n (push_bit 1 dma_id + 1) AND NOC_ACTIVE_BIT = 0"

definition k_noc_dma_clear :: "u32 \<Rightarrow> 'a node_scheme \<Rightarrow> 'a node_scheme" where
  "k_noc_dma_clear dma_id n = n\<lparr>dma_tab := (dma_tab n)(push_bit 1 dma_id + 1 := 0, push_bit 1 dma_id := 0)\<rparr>"

definition k_noc_dma_write :: "u32 \<Rightarrow> u16 \<Rightarrow> u16 \<Rightarrow> u16 \<Rightarrow> u8 \<Rightarrow> 'a node_scheme \<Rightarrow> bool \<times> 'a node_scheme" where
  "k_noc_dma_write dma_id write_ptr read_ptr words pkt_type n =
     (if \<not> k_noc_dma_done dma_id n then (False, n)
      else if pkt_type > 3 then (False, n)
      else (True, n\<lparr>dma_tab := (dma_tab n)
             (push_bit 1 dma_id := push_bit 14 (ucast pkt_type) OR ucast write_ptr,
              push_bit 1 dma_id + 1 := NOC_ACTIVE_BIT OR push_bit 14 (ucast words) OR ucast read_ptr)\<rparr>))"

definition noc_dma_write :: "u32 \<Rightarrow> u16 \<Rightarrow> u16 \<Rightarrow> u16 \<Rightarrow> u8 \<Rightarrow> 'a node_scheme \<Rightarrow> bool \<times> 'a node_scheme" where
  "noc_dma_write = k_noc_dma_write"

definition noc_dma_done :: "u32 \<Rightarrow> 'a node_scheme \<Rightarrow> bool" where
  "noc_dma_done = k_noc_dma_done"

definition noc_dma_clear :: "u32 \<Rightarrow> 'a node_scheme \<Rightarrow> 'a node_scheme" where
  "noc_dma_clear = k_noc_dma_clear"

text \<open>The macro \<open>W(X)\<close>, converted to the \<open>unsigned short\<close> of the parameters.\<close>

definition W :: "u32 \<Rightarrow> u16" where
  "W x = ucast ((x + 3) div 4)"

definition noc_conf :: "u32 \<Rightarrow> u32 \<Rightarrow> u32 \<Rightarrow> u32 \<Rightarrow> 'a node_scheme \<Rightarrow> bool \<times> 'a node_scheme" where
  "noc_conf dma_id dst src sz n =
     noc_dma_write dma_id (W (dst - spm_base n)) (W (src - spm_base n)) (W sz) (pkt_code CONFIG_PKT_TYPE) n"

definition noc_irq :: "u32 \<Rightarrow> u32 \<Rightarrow> u32 \<Rightarrow> 'a node_scheme \<Rightarrow> bool \<times> 'a node_scheme" where
  "noc_irq dma_id dst src n =
     noc_dma_write dma_id (W (dst - spm_base n)) (W (src - spm_base n)) 1 (pkt_code IRQ_PKT_TYPE) n"

definition noc_nbwrite :: "u32 \<Rightarrow> u32 \<Rightarrow> u32 \<Rightarrow> u32 \<Rightarrow> u32 \<Rightarrow> 'a node_scheme \<Rightarrow> bool \<times> 'a node_scheme" where
  "noc_nbwrite dma_id dst src sz irq_enable n =
     (if irq_enable = 1 then
        noc_dma_write dma_id (W (dst - spm_base n)) (W (src - spm_base n)) (W sz) (pkt_code DATA_IRQ_PKT_TYPE) n
      else if irq_enable = 0 then
        noc_dma_write dma_id (W (dst - spm_base n)) (W (src - spm_base n)) (W sz) (pkt_code DATA_PKT_TYPE) n
      else (False, n))"

section \<open>What the network does with an entry\<close>

text \<open>The fields of an entry as \<open>k_noc_dma_write\<close> lays them out.\<close>

definition entry_active :: "u32 \<times> u32 \<Rightarrow> bool" where
  "entry_active e \<longleftrightarrow> snd e AND NOC_ACTIVE_BIT \<noteq> 0"

definition entry_write :: "u32 \<times> u32 \<Rightarrow> nat" where
  "entry_write e = unat (take_bit 14 (fst e))"

definition entry_read :: "u32 \<times> u32 \<Rightarrow> nat" where
  "entry_read e = unat (take_bit 14 (snd e))"

definition entry_words :: "u32 \<times> u32 \<Rightarrow> nat" where
  "entry_words e = unat (drop_bit 14 (take_bit 31 (snd e)))"

definition dma_entry :: "u32 \<Rightarrow> 'a node_scheme \<Rightarrow> u32 \<times> u32" where
  "dma_entry dma_id n = (dma_tab n (push_bit 1 dma_id), dma_tab n (push_bit 1 dma_id + 1))"

definition set_entry :: "u32 \<Rightarrow> u32 \<times> u32 \<Rightarrow> 'a node_scheme \<Rightarrow> 'a node_scheme" where
  "set_entry dma_id e n = n\<lparr>dma_tab := (dma_tab n)(push_bit 1 dma_id := fst e, push_bit 1 dma_id + 1 := snd e)\<rparr>"

text \<open>The words \<open>rp, \<dots>, rp + k - 1\<close> of the sender are copied to \<open>wp, \<dots>, wp + k - 1\<close> at the receiver.\<close>

definition copy_words :: "nat \<Rightarrow> nat \<Rightarrow> nat \<Rightarrow> (nat \<Rightarrow> u32) \<Rightarrow> (nat \<Rightarrow> u32) \<Rightarrow> nat \<Rightarrow> u32" where
  "copy_words k rp wp src dst = (\<lambda>a. if wp \<le> a \<and> a < wp + k then src (rp + (a - wp)) else dst a)"

lemma copy_words_0 [simp]: "copy_words 0 rp wp src dst = dst"
  by (auto simp: copy_words_def fun_eq_iff)

lemma copy_words_1: "copy_words 1 rp wp src dst = dst(wp := src rp)"
  by (auto simp: copy_words_def fun_eq_iff)

type_synonym network = "u32 \<times> u32 \<Rightarrow> (nat \<Rightarrow> u32) \<Rightarrow> (nat \<Rightarrow> u32) \<Rightarrow> (u32 \<times> u32) \<times> (nat \<Rightarrow> u32)"

text \<open>The hypothesis on the network: a slot moves some of the next words of an active transfer, in order; the
  entry then describes the rest, and it is inactive when there is no rest.\<close>

definition slot_ok :: "u32 \<times> u32 \<Rightarrow> (nat \<Rightarrow> u32) \<Rightarrow> (nat \<Rightarrow> u32) \<Rightarrow> (u32 \<times> u32) \<times> (nat \<Rightarrow> u32) \<Rightarrow> nat \<Rightarrow> bool" where
  "slot_ok e src dst r k \<longleftrightarrow> k \<le> entry_words e \<and>
     snd r = copy_words k (entry_read e) (entry_write e) src dst \<and>
     (entry_active (fst r) \<longleftrightarrow> k < entry_words e) \<and>
     (k < entry_words e \<longrightarrow> entry_words (fst r) = entry_words e - k \<and> entry_read (fst r) = entry_read e + k \<and>
        entry_write (fst r) = entry_write e + k)"

definition in_order :: "network \<Rightarrow> bool" where
  "in_order net \<longleftrightarrow> (\<forall>e src dst.
     (\<not> entry_active e \<longrightarrow> net e src dst = (e, dst)) \<and>
     (entry_active e \<and> entry_write e + entry_words e \<le> 2 ^ 14 \<and> entry_read e + entry_words e \<le> 2 ^ 14 \<longrightarrow>
        (\<exists>k. slot_ok e src dst (net e src dst) k)))"

text \<open>A slot for the transfer from \<open>a\<close> to the receiver \<open>b\<close>, which is \<open>dma_id\<close> at \<open>a\<close>.\<close>

definition net_slot :: "network \<Rightarrow> u32 \<Rightarrow> 'a node_scheme \<Rightarrow> 'b node_scheme \<Rightarrow> 'a node_scheme \<times> 'b node_scheme" where
  "net_slot net dma_id a b =
     (let r = net (dma_entry dma_id a) (spm a) (spm b) in (set_entry dma_id (fst r) a, b\<lparr>spm := snd r\<rparr>))"


section \<open>Transfers\<close>

lemma active_bit: "x AND NOC_ACTIVE_BIT = 0 \<longleftrightarrow> \<not> bit x 31"
proof -
  have eq: "NOC_ACTIVE_BIT = push_bit 31 1" by (simp add: NOC_ACTIVE_BIT_def)
  have "bit NOC_ACTIVE_BIT k \<longleftrightarrow> k = 31" for k
    unfolding eq by (auto simp: bit_simps simp del: push_bit_of_1 push_bit_numeral)
  then show ?thesis by (subst bit_eq_iff) (auto simp: bit_and_iff dest: spec [of _ 31])
qed

lemma W_words: "w < 2 ^ 16 \<Longrightarrow> W (4 * of_nat w) = of_nat w"
proof -
  assume w: "w < 2 ^ 16"
  have "unat (4 * of_nat w + 3 :: u32) = 4 * w + 3"
    using unat_of_nat_u32 [of "4 * w + 3"] w by (simp add: of_nat_mult of_nat_add)
  then have "(4 * of_nat w + 3 :: u32) div 4 = of_nat w"
    using w by (intro word_unat_eq_iff [THEN iffD2]) (simp add: unat_div unat_of_nat_u32)
  moreover have "take_bit 32 w = w" using w by (simp add: take_bit_nat_eq_self)
  ultimately show ?thesis
    using w by (simp add: W_def word_unat_eq_iff unsigned_ucast_eq unsigned_of_nat)
qed

lemma ptr_less: "w < 2 ^ 14 \<Longrightarrow> (ucast (of_nat w :: u16) :: u32) = of_nat w"
  by (simp add: word_eq_iff_unsigned unsigned_of_nat unsigned_ucast_eq take_bit_nat_eq_self)

lemma ucast_words: "w < 2 ^ 16 \<Longrightarrow> (ucast (of_nat w :: u16) :: u32) = of_nat w"
  by (simp add: word_eq_iff_unsigned unsigned_of_nat unsigned_ucast_eq take_bit_nat_eq_self)

lemma take_ptr: "w < 2 ^ k \<Longrightarrow> k \<le> 32 \<Longrightarrow> take_bit k (of_nat w :: u32) = of_nat w"
  by (simp add: take_bit_of_nat take_bit_nat_eq_self)

lemma drop_push_words: "c < 2 ^ 16 \<Longrightarrow> drop_bit 14 (push_bit 14 (of_nat c :: u32)) = of_nat c"
proof -
  assume c: "c < 2 ^ 16"
  have "push_bit 14 (of_nat c :: u32) = of_nat (c * 2 ^ 14)" by (simp add: push_bit_eq_mult)
  then have "unat (push_bit 14 (of_nat c :: u32)) = c * 2 ^ 14" using c unat_of_nat_u32 [of "c * 2 ^ 14"] by simp
  then show ?thesis
    using c by (intro word_unat_eq_iff [THEN iffD2]) (simp add: unat_drop_bit_eq unat_of_nat_u32, simp add: drop_bit_eq_div)
qed

lemma entry_fields:
  assumes "w < 2 ^ 14" "r < 2 ^ 14" "c < 2 ^ 16"
    and e_def: "e = (push_bit 14 t OR of_nat w, NOC_ACTIVE_BIT OR push_bit 14 (of_nat c) OR of_nat r)"
  shows "entry_active e" "entry_write e = w" "entry_read e = r" "entry_words e = c"
proof -
  show "entry_active e" by (simp add: e_def entry_active_def active_bit NOC_ACTIVE_BIT_def bit_or_iff)
  show "entry_write e = w"
    using assms(1) by (simp add: e_def entry_write_def take_bit_push_bit take_ptr unat_of_nat_u32)
  have "take_bit 14 NOC_ACTIVE_BIT = 0" by (simp add: NOC_ACTIVE_BIT_def)
  then show "entry_read e = r"
    using assms(2) by (simp add: e_def entry_read_def take_bit_push_bit take_ptr unat_of_nat_u32)
  have "drop_bit 14 (take_bit 31 NOC_ACTIVE_BIT) = 0" by (simp add: NOC_ACTIVE_BIT_def)
  moreover have "drop_bit 14 (take_bit 31 (push_bit 14 (of_nat c :: u32))) = of_nat c"
    using assms(3) by (simp add: take_bit_push_bit take_ptr drop_push_words)
  moreover have "drop_bit 14 (take_bit 31 (of_nat r :: u32)) = 0"
    using assms(2) by (simp add: take_ptr) (simp add: drop_bit_eq_div word_unat_eq_iff unat_div unat_of_nat_u32)
  ultimately show "entry_words e = c"
    using assms(3) by (simp add: e_def entry_words_def unat_of_nat_u32)
qed

text \<open>Pointers into the scratchpad: word \<open>w\<close> is at \<open>spm_base + 4 * w\<close>.\<close>

definition spm_ptr :: "u32 \<Rightarrow> nat \<Rightarrow> u32" where
  "spm_ptr b w = b + 4 * of_nat w"

lemma spm_ptr_add [simp]: "spm_ptr b w + 4 * of_nat k = spm_ptr b (w + k)"
  by (simp add: spm_ptr_def algebra_simps)

lemma spm_word_ptr: "w < 2 ^ 14 \<Longrightarrow> spm_word n (spm_ptr (spm_base n) w) = w"
proof -
  assume w: "w < 2 ^ 14"
  have "unat (4 * of_nat w :: u32) = 4 * w" using unat_of_nat_u32 [of "4 * w"] w by simp
  then show ?thesis by (simp add: spm_word_def spm_ptr_def)
qed

lemma W_ptr: "w < 2 ^ 14 \<Longrightarrow> W (spm_ptr b w - b) = of_nat w"
  using W_words [of w] by (simp add: spm_ptr_def)

text \<open>What a successful \<open>noc_nbwrite\<close> puts into the table.\<close>

definition data_entry :: "pkt_type \<Rightarrow> nat \<Rightarrow> nat \<Rightarrow> nat \<Rightarrow> u32 \<times> u32" where
  "data_entry t w r c = (push_bit 14 (ucast (pkt_code t)) OR of_nat w, NOC_ACTIVE_BIT OR push_bit 14 (of_nat c) OR of_nat r)"

lemma data_entry_fields:
  assumes "w < 2 ^ 14" "r < 2 ^ 14" "c < 2 ^ 16"
  shows "entry_active (data_entry t w r c)" "entry_write (data_entry t w r c) = w" "entry_read (data_entry t w r c) = r"
    "entry_words (data_entry t w r c) = c"
  using entry_fields [OF assms data_entry_def] by simp_all

lemma nbwrite_data:
  assumes "w < 2 ^ 14" "r < 2 ^ 14" "c < 2 ^ 16"
  shows "noc_nbwrite dma_id (spm_ptr (spm_base n) w) (spm_ptr (spm_base n) r) (4 * of_nat c) 1 n =
      (if noc_dma_done dma_id n then (True, set_entry dma_id (data_entry DATA_IRQ_PKT_TYPE w r c) n) else (False, n))"
    and "noc_nbwrite dma_id (spm_ptr (spm_base n) w) (spm_ptr (spm_base n) r) (4 * of_nat c) 0 n =
      (if noc_dma_done dma_id n then (True, set_entry dma_id (data_entry DATA_PKT_TYPE w r c) n) else (False, n))"
  using assms
  by (simp_all add: noc_nbwrite_def noc_dma_write_def noc_dma_done_def k_noc_dma_write_def W_ptr W_words ptr_less ucast_words
      set_entry_def data_entry_def)

lemma dma_done_entry: "noc_dma_done dma_id n \<longleftrightarrow> \<not> entry_active (dma_entry dma_id n)"
  by (simp add: noc_dma_done_def k_noc_dma_done_def entry_active_def dma_entry_def)

lemma entry_slots: "push_bit 1 dma_id \<noteq> push_bit 1 dma_id + (1 :: u32)"
  by simp

lemma dma_entry_set [simp]: "dma_entry dma_id (set_entry dma_id e n) = e"
  by (simp add: dma_entry_def set_entry_def)

lemma set_entry_same [simp]: "set_entry dma_id (dma_entry dma_id n) n = n"
  by (simp add: set_entry_def dma_entry_def)

lemma node_of_set_entry [simp]: "spm (set_entry dma_id e n) = spm n" "spm_base (set_entry dma_id e n) = spm_base n"
  by (simp_all add: set_entry_def)

lemma node_of_store [simp]: "spm_base (spm_store p v n) = spm_base n" "dma_entry dma_id (spm_store p v n) = dma_entry dma_id n"
  "noc_dma_done dma_id (spm_store p v n) = noc_dma_done dma_id n"
  by (simp_all add: spm_store_def dma_entry_def noc_dma_done_def k_noc_dma_done_def)

text \<open>The blocking \<open>noc_write\<close>: between two attempts the network, and through it other cores, may have changed the
  node; \<open>others k\<close> is what happened before attempt \<open>k\<close>.\<close>

partial_function (option) noc_write ::
  "(nat \<Rightarrow> node \<Rightarrow> node) \<Rightarrow> nat \<Rightarrow> u32 \<Rightarrow> u32 \<Rightarrow> u32 \<Rightarrow> u32 \<Rightarrow> u32 \<Rightarrow> node \<Rightarrow> (nat \<times> node) option" where
  "noc_write others k dma_id dst src sz irq_enable n =
     (case noc_nbwrite dma_id dst src sz irq_enable (others k n) of
        (ret, n) \<Rightarrow> if ret then Some (k + 1, n) else noc_write others (k + 1) dma_id dst src sz irq_enable n)"

text \<open>A network that moves one word per slot.\<close>

definition one_word_net :: network where
  "one_word_net e src dst =
     (if \<not> entry_active e then (e, dst)
      else if entry_words e \<le> 1 then ((fst e, 0), copy_words (entry_words e) (entry_read e) (entry_write e) src dst)
      else ((of_nat (entry_write e + 1), NOC_ACTIVE_BIT OR push_bit 14 (of_nat (entry_words e - 1)) OR of_nat (entry_read e + 1)),
            copy_words 1 (entry_read e) (entry_write e) src dst))"

lemma one_word_net_in_order: "in_order one_word_net"
proof -
  have "\<exists>k. slot_ok e src dst (one_word_net e src dst) k"
    if e: "entry_active e" "entry_write e + entry_words e \<le> 2 ^ 14" "entry_read e + entry_words e \<le> 2 ^ 14" for e src dst
  proof (cases "entry_words e \<le> 1")
    case True
    then show ?thesis using e by (intro exI [of _ "entry_words e"]) (simp add: slot_ok_def one_word_net_def entry_active_def)
  next
    case False
    define e' :: "u32 \<times> u32" where
      "e' = (of_nat (entry_write e + 1), NOC_ACTIVE_BIT OR push_bit 14 (of_nat (entry_words e - 1)) OR of_nat (entry_read e + 1))"
    have small: "entry_write e + 1 < 2 ^ 14" "entry_read e + 1 < 2 ^ 14" "entry_words e - 1 < 2 ^ 16" using e False by auto
    have e': "e' = (push_bit 14 0 OR of_nat (entry_write e + 1),
        NOC_ACTIVE_BIT OR push_bit 14 (of_nat (entry_words e - 1)) OR of_nat (entry_read e + 1))"
      by (simp only: e'_def push_bit_of_0 or.left_neutral)
    have "one_word_net e src dst = (e', copy_words 1 (entry_read e) (entry_write e) src dst)"
      using e(1) False by (simp only: one_word_net_def e'_def if_False simp_thms)
    with entry_fields [OF small e'] show ?thesis using e False by (intro exI [of _ 1]) (simp add: slot_ok_def)
  qed
  then show ?thesis by (auto simp: in_order_def one_word_net_def)
qed

section \<open>Measuring a memory\<close>

text \<open>A memory of \<open>2 ^ k\<close> words is visible repeatedly in a larger address range.  \<open>phys\<close> is the address decoder,
  which is hardware: the physical word that is accessed at word offset \<open>i\<close>.\<close>

fun probe :: "u32 \<Rightarrow> (u32 \<Rightarrow> u32) \<Rightarrow> u32 \<Rightarrow> nat \<Rightarrow> u32 \<Rightarrow> (u32 \<Rightarrow> u32) \<Rightarrow> u32 \<times> (u32 \<Rightarrow> u32)" where
  "probe failed phys init 0 i m = (-1, m(phys 0 := init))"
| "probe failed phys init (Suc rounds) i m =
     (let tmp = m (phys i);
          m = m(phys i := 0)
      in if m (phys 0) = 0 then (i * 4, m(phys i := tmp, phys 0 := init))
         else
           let i = push_bit 1 i
           in if m (phys 0) \<noteq> 0xFFEEDDCC then (failed, m(phys i := tmp, phys 0 := init))
              else probe failed phys init rounds i (m(phys i := tmp)))"

definition find_mem_size :: "(u32 \<Rightarrow> u32) \<Rightarrow> (u32 \<Rightarrow> u32) \<Rightarrow> u32 \<times> (u32 \<Rightarrow> u32)" where
  "find_mem_size phys m = probe (-1) phys (m (phys 0)) 28 2 (m(phys 0 := 0xFFEEDDCC))"

definition test_spm_size :: "(u32 \<Rightarrow> u32) \<Rightarrow> (u32 \<Rightarrow> u32) \<Rightarrow> u32 \<times> (u32 \<Rightarrow> u32)" where
  "test_spm_size phys m = probe (-2) phys (m (phys 0)) 28 2 (m(phys 0 := 0xFFEEDDCC))"

lemma wrapped_power: "k \<le> 32 \<Longrightarrow> take_bit k (2 ^ j :: u32) = (if j < k then 2 ^ j else 0)"
  by (subst bit_eq_iff) (auto simp: bit_take_bit_iff bit_simps)

lemma power_less_inj: "i < 32 \<Longrightarrow> j < 32 \<Longrightarrow> (2 ^ i :: u32) = 2 ^ j \<longleftrightarrow> i = j"
  by (subst bit_eq_iff) (auto simp: bit_simps)

lemma probe_wrapped:
  assumes "d < k" "k \<le> 28" "d > 0 \<longrightarrow> m 0 = 0xFFEEDDCC"
  shows "probe failed (take_bit k) init (Suc (rounds + d)) (2 ^ (k - d)) m =
    (2 ^ (k + 2), \<lambda>a. if a = 0 then init else if \<exists>j. k - d \<le> j \<and> j < k \<and> a = 2 ^ j then 0 else m a)"
  using assms
proof (induction d arbitrary: m)
  case 0
  then show ?case by (auto simp: wrapped_power Let_def power_add fun_eq_iff)
next
  case (Suc d)
  have pow: "push_bit 1 (2 ^ (k - Suc d) :: u32) = 2 ^ (k - d)"
    using Suc.prems Suc_diff_Suc [of d k, symmetric] by simp
  let ?m = "m(2 ^ (k - Suc d) := 0, take_bit k (2 ^ (k - d)) := m (2 ^ (k - Suc d)))"
  have "(2 ^ (k - Suc d) :: u32) \<noteq> 0" using Suc.prems by simp
  then have "probe failed (take_bit k) init (Suc (rounds + Suc d)) (2 ^ (k - Suc d)) m =
      probe failed (take_bit k) init (Suc (rounds + d)) (2 ^ (k - d)) ?m"
    using Suc.prems pow by (simp add: wrapped_power Let_def)
  also have "\<dots> = (2 ^ (k + 2), \<lambda>a. if a = 0 then init else if \<exists>j. k - d \<le> j \<and> j < k \<and> a = 2 ^ j then 0 else ?m a)"
    using Suc.prems by (intro Suc.IH) (simp_all add: wrapped_power, linarith)
  also have "(\<lambda>a. if a = 0 then init else if \<exists>j. k - d \<le> j \<and> j < k \<and> a = 2 ^ j then 0 else ?m a) =
      (\<lambda>a. if a = 0 then init else if \<exists>j. k - Suc d \<le> j \<and> j < k \<and> a = 2 ^ j then 0 else m a)"
    using Suc.prems by (auto simp: fun_eq_iff wrapped_power power_less_inj le_Suc_eq)
  finally show ?case .
qed

text \<open>C36: a memory of \<open>2 ^ k\<close> words that is mapped repeatedly is measured correctly, by both routines and whatever
  it contains.  It is not left as it was: the words 2, 4, 8, \<dots> below its size are zero afterwards, since the saved
  word is written back only after the offset has been doubled.\<close>

theorem memory_measured:
  assumes "1 \<le> k" "k \<le> 28"
  shows "find_mem_size (take_bit k) m = (2 ^ (k + 2), \<lambda>a. if \<exists>j. 1 \<le> j \<and> j < k \<and> a = 2 ^ j then 0 else m a) \<and>
    test_spm_size (take_bit k) m = (2 ^ (k + 2), \<lambda>a. if \<exists>j. 1 \<le> j \<and> j < k \<and> a = 2 ^ j then 0 else m a)"
proof -
  have "probe failed (take_bit k) (m 0) 28 2 (m(0 := 0xFFEEDDCC)) =
      (2 ^ (k + 2), \<lambda>a. if \<exists>j. 1 \<le> j \<and> j < k \<and> a = 2 ^ j then 0 else m a)" for failed
    using probe_wrapped [of "k - 1" k "m(0 := 0xFFEEDDCC)" failed "m 0" "28 - k"] assms
    by (auto simp: fun_eq_iff)
  then show ?thesis by (simp add: find_mem_size_def test_spm_size_def)
qed

theorem memory_measured_witness:
  "fst (test_spm_size (take_bit 10) (\<lambda>_. 7)) = 4096 \<and> snd (test_spm_size (take_bit 10) (\<lambda>_. 7)) 4 = 0"
proof -
  have "\<exists>j. 1 \<le> j \<and> j < 10 \<and> (4 :: u32) = 2 ^ j" by (rule exI [of _ 2]) simp
  then show ?thesis using memory_measured [of 10] by simp
qed

end
