(* ===== verification/Noc_Multicast.thy ===== *)
theory Noc_Multicast
  imports Noc
begin

text \<open>
  Sets of cores \<^verbatim>\<open>c/libnoc/coreset.h\<close> (the variant for up to 32 cores), multicast transfers and the loading of the schedules
  in \<^verbatim>\<open>c/libnoc/noc.c\<close>.  The multicast relies on the sets only through the locale \<open>core_set\<close>.
\<close>

section \<open>Sets of cores\<close>

definition core_mask :: "u32 \<Rightarrow> u32" where
  "core_mask core = push_bit (unat (core mod 32)) 1"

definition coreset_clearall :: u32 where
  "coreset_clearall = 0"

definition coreset_add :: "u32 \<Rightarrow> u32 \<Rightarrow> u32" where
  "coreset_add core s = s OR core_mask core"

definition coreset_remove :: "u32 \<Rightarrow> u32 \<Rightarrow> u32" where
  "coreset_remove core s = s AND NOT (core_mask core)"

definition coreset_contains :: "u32 \<Rightarrow> u32 \<Rightarrow> bool" where
  "coreset_contains core s \<longleftrightarrow> s AND core_mask core \<noteq> 0"

definition coreset_empty :: "u32 \<Rightarrow> bool" where
  "coreset_empty s \<longleftrightarrow> s = 0"

section \<open>Multicast\<close>

text \<open>The state of a multicast: the node, the number of attempts made so far, and the receivers to which a transfer has been
  started, in order.\<close>

record mc_state =
  mc_node :: node
  mc_poll :: nat
  mc_started :: "(u32 \<times> u32) list"

text \<open>One attempt for a receiver (\<open>dma_id\<close> and address); \<open>others\<close> is what happened to the node since the last one.\<close>

definition mc_try :: "(nat \<Rightarrow> node \<Rightarrow> node) \<Rightarrow> u32 \<Rightarrow> u32 \<Rightarrow> u32 \<Rightarrow> u32 \<times> u32 \<Rightarrow> mc_state \<Rightarrow> bool \<times> mc_state" where
  "mc_try others src sz irq_enable r s =
     (case noc_nbwrite (fst r) (snd r) src sz irq_enable (others (mc_poll s) (mc_node s)) of
        (started, n) \<Rightarrow>
          (started, s\<lparr>mc_node := n, mc_poll := mc_poll s + 1, mc_started := (if started then mc_started s @ [r] else mc_started s)\<rparr>))"

text \<open>The \<open>for\<close> loop over the receivers, and the \<open>do\<close> loop around it, over any implementation of sets.\<close>

fun send_pass ::
  "(u32 \<Rightarrow> 's \<Rightarrow> bool) \<Rightarrow> (u32 \<Rightarrow> 's \<Rightarrow> 's) \<Rightarrow> (u32 \<times> u32 \<Rightarrow> mc_state \<Rightarrow> bool \<times> mc_state) \<Rightarrow> (u32 \<times> u32) list \<Rightarrow> 's \<Rightarrow> bool \<Rightarrow> mc_state \<Rightarrow>
     's \<times> bool \<times> mc_state" where
  "send_pass has put att [] sent fin s = (sent, fin, s)"
| "send_pass has put att (r # rs) sent fin s =
     (if \<not> has (fst r) sent then
        (case att r s of
           (ok, s) \<Rightarrow> if ok then send_pass has put att rs (put (fst r) sent) fin s else send_pass has put att rs sent False s)
      else send_pass has put att rs sent fin s)"

partial_function (option) send_loop ::
  "(u32 \<Rightarrow> 's \<Rightarrow> bool) \<Rightarrow> (u32 \<Rightarrow> 's \<Rightarrow> 's) \<Rightarrow> (u32 \<times> u32 \<Rightarrow> mc_state \<Rightarrow> bool \<times> mc_state) \<Rightarrow> (u32 \<times> u32) list \<Rightarrow> 's \<Rightarrow> mc_state \<Rightarrow> mc_state option"
where
  "send_loop has put att rs sent s =
     (case send_pass has put att rs sent True s of (sent, fin, s) \<Rightarrow> if fin then Some s else send_loop has put att rs sent s)"

definition noc_multisend ::
  "(nat \<Rightarrow> node \<Rightarrow> node) \<Rightarrow> (u32 \<times> u32) list \<Rightarrow> u32 \<Rightarrow> u32 \<Rightarrow> u32 \<Rightarrow> node \<Rightarrow> mc_state option" where
  "noc_multisend others receivers src sz irq_enable n =
     send_loop coreset_contains coreset_add (mc_try others src sz irq_enable) receivers coreset_clearall
       \<lparr>mc_node = n, mc_poll = 0, mc_started = []\<rparr>"

section \<open>Loading the schedules\<close>

text \<open>The tables of the network interface and the generated data: \<open>noc_init_array\<close> and its dimensions.\<close>

record noc_tables =
  sched_tab :: "u32 \<Rightarrow> u32"
  mc_tab :: "u32 \<Rightarrow> u32"

record noc_config =
  NOC_CORES :: u32
  NOC_CONFS :: nat
  NOC_TABLES :: u32
  NOC_SCHEDULE_ENTRIES :: u32
  noc_init_array :: "u32 \<Rightarrow> u32"

definition conf_index :: "noc_config \<Rightarrow> u32 \<Rightarrow> nat \<Rightarrow> u32" where
  "conf_index K cpuid j = of_nat j * NOC_CORES K * NOC_TABLES K * NOC_SCHEDULE_ENTRIES K + cpuid * NOC_TABLES K * NOC_SCHEDULE_ENTRIES K"

definition conf_entries :: "noc_config \<Rightarrow> u32 \<Rightarrow> nat \<Rightarrow> u16" where
  "conf_entries K cpuid j = ucast (noc_init_array K (conf_index K cpuid j))"

definition load_conf :: "noc_config \<Rightarrow> u32 \<Rightarrow> nat \<Rightarrow> u32 \<Rightarrow> noc_tables \<Rightarrow> noc_tables" where
  "load_conf K cpuid j base t =
     (let entries = conf_entries K cpuid j;
          tab = fold (\<lambda>i tab. tab(base + of_nat i := noc_init_array K (conf_index K cpuid j + of_nat i + 1))) [0..<unat entries] (sched_tab t)
      in t\<lparr>sched_tab := tab, mc_tab := (mc_tab t)(2 + of_nat j := push_bit 16 (ucast entries + base) OR base)\<rparr>)"

fun load_confs :: "noc_config \<Rightarrow> u32 \<Rightarrow> u32 \<Rightarrow> nat list \<Rightarrow> u32 \<Rightarrow> noc_tables \<Rightarrow> bool \<times> noc_tables" where
  "load_confs K cpuid table_size [] base t = (True, t)"
| "load_confs K cpuid table_size (j # js) base t =
     (if base + ucast (conf_entries K cpuid j) \<ge> table_size then (False, t)
      else load_confs K cpuid table_size js (base + ucast (conf_entries K cpuid j)) (load_conf K cpuid j base t))"

definition k_noc_sched_load :: "(u32 \<Rightarrow> u32) \<Rightarrow> noc_config \<Rightarrow> u32 \<Rightarrow> noc_tables \<Rightarrow> bool \<times> noc_tables" where
  "k_noc_sched_load phys K cpuid t =
     (case find_mem_size phys (sched_tab t) of
        (table_size, tab) \<Rightarrow> load_confs K cpuid table_size [0..<NOC_CONFS K] 0 (t\<lparr>sched_tab := tab\<rparr>))"

section \<open>The loop\<close>

definition send_round ::
  "(u32 \<Rightarrow> 's \<Rightarrow> bool) \<Rightarrow> (u32 \<Rightarrow> 's \<Rightarrow> 's) \<Rightarrow> (u32 \<times> u32 \<Rightarrow> mc_state \<Rightarrow> bool \<times> mc_state) \<Rightarrow> (u32 \<times> u32) list \<Rightarrow> 's \<times> mc_state \<Rightarrow>
     (mc_state + 's \<times> mc_state) option" where
  "send_round has put att rs x =
     (case send_pass has put att rs (fst x) True (snd x) of (sent, fin, s) \<Rightarrow> Some (if fin then Inl s else Inr (sent, s)))"

lemma send_loop_least: "send_loop has put att rs sent s = Some r \<Longrightarrow> ends (send_round has put att rs) (sent, s) r"
proof (induction rule: send_loop.raw_induct [rotated 1, consumes 1])
  case (1 loop has put att rs sent s r)
  obtain sent' fin s' where p: "send_pass has put att rs sent True s = (sent', fin, s')" by (metis prod_cases3)
  then show ?case
    using 1 by (cases fin) (auto simp: send_round_def intro: ends_now ends_later)
qed

interpretation mcast: round_loop "\<lambda>x. send_loop has put att rs (fst x) (snd x)" "send_round has put att rs"
  for has put att rs
proof
  show "send_loop has put att rs (fst x) (snd x) = (case send_round has put att rs x of None \<Rightarrow> None | Some (Inl r) \<Rightarrow> Some r
      | Some (Inr x) \<Rightarrow> send_loop has put att rs (fst x) (snd x))" for x
    by (subst send_loop.simps) (auto simp: send_round_def split: prod.splits)
  show "ends (send_round has put att rs) x r" if "send_loop has put att rs (fst x) (snd x) = Some r" for x r
    using send_loop_least [OF that] by simp
qed

section \<open>The contract of a set of cores\<close>

locale core_set =
  fixes none :: 's
    and put :: "u32 \<Rightarrow> 's \<Rightarrow> 's"
    and has :: "u32 \<Rightarrow> 's \<Rightarrow> bool"
    and members :: "'s \<Rightarrow> u32 set"
    and core_ok :: "u32 \<Rightarrow> bool"
  assumes members_none: "members none = {}"
    and members_put: "core_ok c \<Longrightarrow> members (put c s) = insert c (members s)"
    and has_iff: "core_ok c \<Longrightarrow> has c s \<longleftrightarrow> c \<in> members s"
begin

text \<open>The receivers a transfer was started to are those in the set.\<close>

definition multicast_inv :: "(u32 \<times> u32) list \<Rightarrow> 's \<Rightarrow> mc_state \<Rightarrow> bool" where
  "multicast_inv rs sent s \<longleftrightarrow> distinct (mc_started s) \<and> set (mc_started s) = {r \<in> set rs. fst r \<in> members sent}"

lemma send_pass_inv:
  assumes "multicast_inv rs sent s" "set qs \<subseteq> set rs" "distinct (map fst rs)" "\<forall>r \<in> set rs. core_ok (fst r)"
    and att_log: "\<And>r s. mc_started (snd (att r s)) = (if fst (att r s) then mc_started s @ [r] else mc_started s)"
  shows "case send_pass has put att qs sent fin s of (sent', fin', s') \<Rightarrow>
    multicast_inv rs sent' s' \<and> members sent \<subseteq> members sent' \<and> (fin' \<longrightarrow> fin \<and> fst ` set qs \<subseteq> members sent')"
  using assms(1,2)
proof (induction qs arbitrary: sent fin s)
  case (Cons r qs)
  have r: "r \<in> set rs" "core_ok (fst r)" using Cons.prems(2) assms(4) by auto
  obtain ok s' where t: "att r s = (ok, s')" by force
  have log: "mc_started s' = (if ok then mc_started s @ [r] else mc_started s)" using att_log [of r s] t by simp
  show ?case
  proof (cases "has (fst r) sent")
    case True
    then show ?thesis using Cons.IH [OF Cons.prems(1), of fin] Cons.prems(2) has_iff [OF r(2)] by auto
  next
    case new: False
    show ?thesis
    proof (cases ok)
      case True
      have only: "q = r" if "q \<in> set rs" "fst q = fst r" for q using that r(1) assms(3) by (auto simp: distinct_map inj_on_def)
      have "multicast_inv rs (put (fst r) sent) s'"
        using Cons.prems(1) new r True log has_iff [OF r(2), of sent] members_put [OF r(2), of sent] only by (auto simp: multicast_inv_def)
      then show ?thesis
        using Cons.IH [of "put (fst r) sent" s' fin] Cons.prems(2) new t True members_put [OF r(2), of sent] by (auto split: prod.splits)
    next
      case False
      then have "multicast_inv rs sent s'" using Cons.prems(1) log by (simp add: multicast_inv_def)
      then show ?thesis using Cons.IH [of sent s' False] Cons.prems(2) new t False by (auto split: prod.splits)
    qed
  qed
qed simp

lemma send_loop_inv:
  assumes "send_loop has put att rs sent s = Some s'" "multicast_inv rs sent s" "distinct (map fst rs)" "\<forall>r \<in> set rs. core_ok (fst r)"
    and "\<And>r s. mc_started (snd (att r s)) = (if fst (att r s) then mc_started s @ [r] else mc_started s)"
  shows "distinct (mc_started s') \<and> set (mc_started s') = set rs"
proof (rule mcast.result_inv [where I = "\<lambda>x. multicast_inv rs (fst x) (snd x)" and s = "(sent, s)"])
  show "send_loop has put att rs (fst (sent, s)) (snd (sent, s)) = Some s'" using assms(1) by simp
  note pass = send_pass_inv [OF _ order_refl assms(3-5), of _ _ True]
  show "multicast_inv rs (fst y) (snd y)" if "multicast_inv rs (fst x) (snd x)" "send_round has put att rs x = Some (Inr y)" for x y
    using pass [OF that(1)] that(2) by (auto simp: send_round_def split: prod.splits if_splits)
  show "distinct (mc_started r) \<and> set (mc_started r) = set rs"
    if "multicast_inv rs (fst x) (snd x)" "send_round has put att rs x = Some (Inl r)" for x r
    using pass [OF that(1)] that(2) by (auto simp: send_round_def multicast_inv_def split: prod.splits if_splits)
qed (use assms(2) in simp)

end

section \<open>The bit sets are sets\<close>

definition coreset_members :: "u32 \<Rightarrow> u32 set" where
  "coreset_members s = {c. c < 32 \<and> bit s (unat c)}"

lemma bit_core_mask:
  assumes "c < 32"
  shows "bit (core_mask c) i \<longleftrightarrow> i = unat c"
proof -
  have "unat c < 32" using assms by (simp add: word_less_nat_alt)
  then show ?thesis using assms by (auto simp: core_mask_def bit_push_bit_iff bit_1_iff mod_word_less simp del: push_bit_of_1)
qed

lemma core_less_eq: "c < 32 \<Longrightarrow> d < 32 \<Longrightarrow> unat c = unat d \<longleftrightarrow> c = (d :: u32)"
  by (simp add: word_unat_eq_iff)

interpretation cores: core_set coreset_clearall coreset_add coreset_contains coreset_members "\<lambda>c. c < 32"
proof
  show "coreset_members coreset_clearall = {}" by (simp add: coreset_members_def coreset_clearall_def)
  show "coreset_members (coreset_add c s) = insert c (coreset_members s)" if "c < 32" for c s
    using that by (auto simp: coreset_members_def coreset_add_def bit_or_iff bit_core_mask core_less_eq)
  show "coreset_contains c s \<longleftrightarrow> c \<in> coreset_members s" if "c < 32" for c s
  proof -
    have "unat c < 32" using that by (simp add: word_less_nat_alt)
    then have "s AND core_mask c = 0 \<longleftrightarrow> \<not> bit s (unat c)"
      by (subst bit_eq_iff) (auto simp: bit_and_iff bit_core_mask [OF that])
    then show ?thesis using that by (simp add: coreset_contains_def coreset_members_def)
  qed
qed

lemma coreset_remove_members: "c < 32 \<Longrightarrow> coreset_members (coreset_remove c s) = coreset_members s - {c}"
  by (auto simp: coreset_members_def coreset_remove_def bit_and_iff bit_not_iff bit_core_mask word_less_nat_alt word_unat_eq_iff)

lemma coreset_empty_members:
  assumes "coreset_members s = {}"
  shows "coreset_empty s"
proof -
  have "\<not> bit s i" if "i < 32" for i
  proof -
    have "unat (of_nat i :: u32) = i" using that by (intro unat_of_nat_u32) simp
    then have "(of_nat i :: u32) < 32" using that by (simp add: word_less_nat_alt)
    then show ?thesis using assms \<open>unat (of_nat i :: u32) = i\<close> by (auto simp: coreset_members_def)
  qed
  then show ?thesis unfolding coreset_empty_def by (subst bit_eq_iff) (auto simp: possible_bit_word)
qed

section \<open>A multicast starts every transfer once\<close>

lemma mc_try_log: "mc_started (snd (mc_try others src sz irq r s)) =
    (if fst (mc_try others src sz irq r s) then mc_started s @ [r] else mc_started s)"
  by (simp add: mc_try_def split: prod.splits)

lemma mc_try_poll: "mc_poll (snd (mc_try others src sz irq r s)) = Suc (mc_poll s)"
  by (simp add: mc_try_def split: prod.splits)

lemma nbwrite_free: "noc_dma_done dma_id n \<Longrightarrow> irq = 0 \<or> irq = 1 \<Longrightarrow> fst (noc_nbwrite dma_id dst src sz irq n)"
  by (auto simp: noc_nbwrite_def noc_dma_write_def noc_dma_done_def k_noc_dma_write_def)

lemma send_pass_poll:
  assumes "\<And>r s. mc_poll (snd (att r s)) = Suc (mc_poll s)" "\<And>r s. k \<le> mc_poll s \<Longrightarrow> fst (att r s)"
  shows "case send_pass has put att rs sent fin s of (sent', fin', s') \<Rightarrow>
    mc_poll s \<le> mc_poll s' \<and> (k \<le> mc_poll s \<longrightarrow> fin' = fin) \<and> (fin \<and> \<not> fin' \<longrightarrow> mc_poll s < mc_poll s')"
proof (induction rs arbitrary: sent fin s)
  case (Cons r rs)
  obtain ok s1 where t: "att r s = (ok, s1)" by force
  have s1: "mc_poll s1 = Suc (mc_poll s)" "k \<le> mc_poll s \<Longrightarrow> ok" using assms(1) [of r s] assms(2) [of s r] t by auto
  show ?case
    using Cons.IH [where sent = sent and fin = fin and s = s] Cons.IH [where sent = "put (fst r) sent" and fin = fin and s = s1]
      Cons.IH [where sent = sent and fin = False and s = s1] s1 t
    by (auto split: prod.splits)
qed simp

lemma send_loop_returns:
  assumes "\<And>r s. mc_poll (snd (att r s)) = Suc (mc_poll s)" "\<And>r s. k \<le> mc_poll s \<Longrightarrow> fst (att r s)"
  shows "\<exists>s'. send_loop has put att rs sent s = Some s'"
proof (induction "k - mc_poll s" arbitrary: sent s rule: less_induct)
  case less
  obtain sent' fin s' where p: "send_pass has put att rs sent True s = (sent', fin, s')" by (metis prod_cases3)
  have poll: "k \<le> mc_poll s \<longrightarrow> fin" "\<not> fin \<longrightarrow> mc_poll s < mc_poll s'"
    using send_pass_poll [where att = att and k = k, OF assms, where has = has and put = put and rs = rs and sent = sent and fin = True and s = s] p by auto
  show ?case
  proof (cases fin)
    case False
    then have "k - mc_poll s' < k - mc_poll s" using poll by auto
    then show ?thesis using less [of s' sent'] p False by (subst send_loop.simps) simp
  qed (use p in \<open>subst send_loop.simps, simp\<close>)
qed

text \<open>For receivers that are different cores, a multicast whose DMA entries become free eventually returns, and it has started exactly
  one transfer to every receiver.\<close>

theorem multisend_once:
  assumes "distinct (map fst receivers)" "\<forall>r \<in> set receivers. fst r < 32" "irq_enable = 0 \<or> irq_enable = 1"
    and "\<And>i n dma_id. k \<le> i \<Longrightarrow> noc_dma_done dma_id (others i n)"
  shows "\<exists>s. noc_multisend others receivers src sz irq_enable n = Some s \<and> distinct (mc_started s) \<and> set (mc_started s) = set receivers"
proof -
  let ?att = "mc_try others src sz irq_enable"
  have free: "fst (?att r s)" if "k \<le> mc_poll s" for r s
    using nbwrite_free [OF assms(4) [OF that, of "fst r" "mc_node s"] assms(3), of "snd r" src sz]
    by (auto simp: mc_try_def split: prod.splits)
  have "\<exists>s. noc_multisend others receivers src sz irq_enable n = Some s"
    unfolding noc_multisend_def by (rule send_loop_returns [where k = k]) (rule mc_try_poll, erule free)
  then obtain s where s: "noc_multisend others receivers src sz irq_enable n = Some s" ..
  moreover have "cores.multicast_inv receivers coreset_clearall \<lparr>mc_node = n, mc_poll = 0, mc_started = []\<rparr>"
    by (simp add: cores.multicast_inv_def cores.members_none)
  ultimately show ?thesis
    using cores.send_loop_inv [where att = ?att, OF _ _ assms(1,2) mc_try_log] unfolding noc_multisend_def by blast
qed

section \<open>The schedules are loaded one after the other\<close>

text \<open>The place of a configuration: after the entries of those before it.\<close>

definition conf_base :: "noc_config \<Rightarrow> u32 \<Rightarrow> nat \<Rightarrow> nat" where
  "conf_base K cpuid j = (\<Sum>i<j. unat (conf_entries K cpuid i))"

definition conf_loaded :: "noc_config \<Rightarrow> u32 \<Rightarrow> noc_tables \<Rightarrow> nat \<Rightarrow> bool" where
  "conf_loaded K cpuid t j \<longleftrightarrow>
     (\<forall>i < unat (conf_entries K cpuid j).
        sched_tab t (of_nat (conf_base K cpuid j + i)) = noc_init_array K (conf_index K cpuid j + of_nat i + 1)) \<and>
     mc_tab t (2 + of_nat j) = push_bit 16 (of_nat (conf_base K cpuid (Suc j))) OR of_nat (conf_base K cpuid j)"

lemma conf_base_Suc: "conf_base K cpuid (Suc j) = conf_base K cpuid j + unat (conf_entries K cpuid j)"
  by (simp add: conf_base_def)

lemma conf_base_mono: "i \<le> j \<Longrightarrow> conf_base K cpuid i \<le> conf_base K cpuid j"
  unfolding conf_base_def by (rule sum_mono2) auto

lemma fold_store_at:
  fixes b :: nat and v :: "nat \<Rightarrow> 'a"
  assumes "b + n \<le> 2 ^ 32"
  shows "fold (\<lambda>i tab. tab((of_nat (b + i) :: u32) := v i)) [0..<n] tab a =
    (if b \<le> unat a \<and> unat a < b + n then v (unat a - b) else tab a)"
  using assms
proof (induction n)
  case (Suc n)
  have "a = of_nat (b + n) \<longleftrightarrow> unat a = b + n"
    using unat_of_nat_u32 [of "b + n"] Suc.prems by (auto simp: word_unat_eq_iff simp del: of_nat_add)
  then show ?case using Suc by auto
qed auto

lemma load_conf_sched:
  assumes "conf_base K cpuid (Suc j) \<le> 2 ^ 32"
  shows "sched_tab (load_conf K cpuid j (of_nat (conf_base K cpuid j)) t) a =
    (if conf_base K cpuid j \<le> unat a \<and> unat a < conf_base K cpuid (Suc j)
     then noc_init_array K (conf_index K cpuid j + of_nat (unat a - conf_base K cpuid j) + 1) else sched_tab t a)"
  using fold_store_at [of "conf_base K cpuid j" "unat (conf_entries K cpuid j)"
      "\<lambda>i. noc_init_array K (conf_index K cpuid j + of_nat i + 1)" "sched_tab t" a] assms
  by (simp add: load_conf_def Let_def conf_base_Suc)

lemma load_conf_mc:
  "mc_tab (load_conf K cpuid j (of_nat (conf_base K cpuid j)) t) =
    (mc_tab t)(2 + of_nat j := push_bit 16 (of_nat (conf_base K cpuid (Suc j))) OR of_nat (conf_base K cpuid j))"
  by (simp add: load_conf_def Let_def conf_base_Suc add.commute unsigned_of_nat)

text \<open>The load keeps what lies before it, and places each remaining configuration.  The size of the table is that of the hardware, so that
  no index wraps around.\<close>

lemma load_confs_correct:
  assumes "conf_base K cpuid m \<le> 2 ^ 31" "table_size \<le> 2 ^ 31" "m \<le> n" "n < 2 ^ 31"
    and "load_confs K cpuid table_size [m..<n] (of_nat (conf_base K cpuid m)) t = (ok, t')"
  shows "(ok \<longleftrightarrow> (\<forall>j. m \<le> j \<and> j < n \<longrightarrow> conf_base K cpuid (Suc j) < unat table_size)) \<and>
    (\<forall>a. unat a < conf_base K cpuid m \<longrightarrow> sched_tab t' a = sched_tab t a) \<and> (\<forall>j < m. mc_tab t' (2 + of_nat j) = mc_tab t (2 + of_nat j)) \<and>
    (ok \<longrightarrow> (\<forall>j. m \<le> j \<and> j < n \<longrightarrow> conf_loaded K cpuid t' j))"
  using assms(1,3,5)
proof (induction "n - m" arbitrary: m t)
  case (Suc d)
  let ?B = "conf_base K cpuid" and ?t = "load_conf K cpuid m (of_nat (conf_base K cpuid m)) t"
  have mn: "[m..<n] = m # [Suc m..<n]" "m < n" using Suc.hyps(2) upt_conv_Cons by auto
  have "unat (conf_entries K cpuid m) < 2 ^ 16" by (rule order_less_le_trans [OF unsigned_less]) simp
  then have small: "?B (Suc m) < 2 ^ 32" using Suc.prems(1) by (simp add: conf_base_Suc)
  have nxt: "of_nat (?B m) + ucast (conf_entries K cpuid m) = (of_nat (?B (Suc m)) :: u32)" by (simp add: conf_base_Suc)
  have fits: "(of_nat (?B (Suc m)) \<ge> table_size) \<longleftrightarrow> \<not> ?B (Suc m) < unat table_size"
    using small by (simp add: word_le_nat_alt unat_of_nat_u32 not_less)
  show ?case
  proof (cases "?B (Suc m) < unat table_size")
    case False
    then show ?thesis using Suc.prems(3) mn fits nxt by (auto simp del: of_nat_add)
  next
    case True
    then have le: "?B (Suc m) \<le> 2 ^ 31" using assms(2) by (simp add: word_le_nat_alt)
    have run: "load_confs K cpuid table_size [Suc m..<n] (of_nat (?B (Suc m))) ?t = (ok, t')"
      using Suc.prems(3) mn True fits nxt by simp
    note IH = Suc.hyps(1) [OF _ le _ run]
    have kept: "sched_tab t' a = sched_tab ?t a" if "unat a < ?B (Suc m)" for a using IH Suc.hyps(2) mn(2) that by auto
    have mc: "mc_tab t' (2 + of_nat j) = mc_tab ?t (2 + of_nat j)" if "j \<le> m" for j using IH Suc.hyps(2) mn(2) that by auto
    have later: "ok \<longleftrightarrow> (\<forall>j. Suc m \<le> j \<and> j < n \<longrightarrow> ?B (Suc j) < unat table_size)"
      "ok \<longrightarrow> (\<forall>j. Suc m \<le> j \<and> j < n \<longrightarrow> conf_loaded K cpuid t' j)"
      using IH Suc.hyps(2) mn(2) by auto
    have "conf_loaded K cpuid t' m"
      using small mc [of m] kept by (auto simp: conf_loaded_def load_conf_mc load_conf_sched conf_base_Suc unat_of_nat_u32 simp del: of_nat_add)
    moreover have "sched_tab t' a = sched_tab t a" if "unat a < ?B m" for a
      using kept [of a] that small by (simp add: load_conf_sched conf_base_Suc)
    moreover have "mc_tab t' (2 + of_nat j) = mc_tab t (2 + of_nat j)" if "j < m" for j
    proof -
      have "(of_nat j :: u32) \<noteq> of_nat m" using that mn(2) assms(4) by (simp add: word_unat_eq_iff unat_of_nat_u32)
      then show ?thesis using mc [of j] that by (simp add: load_conf_mc)
    qed
    moreover have "m \<le> j \<and> j < n \<longleftrightarrow> j = m \<or> Suc m \<le> j \<and> j < n" for j using mn(2) by auto
    ultimately show ?thesis using later True by metis
  qed
qed (use assms in auto)

text \<open>The load succeeds exactly when all schedules fit into the table, and then every configuration is in its place.\<close>

theorem schedules_loaded:
  assumes "find_mem_size phys (sched_tab t) = (table_size, tab)" "table_size \<le> 2 ^ 31" "NOC_CONFS K < 2 ^ 31"
    and "k_noc_sched_load phys K cpuid t = (ok, t')"
  shows "(ok \<longleftrightarrow> (\<forall>j < NOC_CONFS K. conf_base K cpuid (Suc j) < unat table_size)) \<and> (ok \<longrightarrow> (\<forall>j < NOC_CONFS K. conf_loaded K cpuid t' j))"
  using load_confs_correct [of K cpuid 0 table_size "NOC_CONFS K" "t\<lparr>sched_tab := tab\<rparr>" ok t'] assms
  by (simp add: k_noc_sched_load_def conf_base_def)

end
