(* ===== verification/Noc_Init.thy ===== *)
theory Noc_Init
  imports Noc_Multicast
begin

text \<open>
  The start-up of the network \<open>noc_init\<close> in \<^verbatim>\<open>c/libnoc/noc.c\<close>: every core configures its network interface, the cores
  meet in \<open>noc_sync\<close> through the records of \<open>boot_info\<close>, and the master sets the network into run mode.  A step is one access to
  a shared status or register or the loading of a core's own tables; the cores interleave arbitrarily.  Whether the run-mode register already
  shows a written value is up to the hardware (\<open>ack\<close>).  The registration of interrupt handlers has no effect on this state.
\<close>

section \<open>Steps\<close>

datatype noc_status = STATUS_NULL | STATUS_INITDONE | STATUS_OTHER u32

datatype init_pc =
    Disable | WaitDisabled | LoadTables
  | Scan u32 bool | Notify                     \<comment> \<open>the master in \<open>noc_sync\<close>\<close>
  | Report | AwaitMaster                       \<comment> \<open>the others\<close>
  | Enable | WaitEnabled | InitDone

record noc_sys =
  tables :: "u32 \<Rightarrow> noc_tables"
  run_mode :: u8                               \<comment> \<open>the register \<open>NOC_TDM_BASE + 4\<close>\<close>
  master_status :: noc_status
  slave_status :: "u32 \<Rightarrow> noc_status"
  ipc :: "u32 \<Rightarrow> init_pc"
  load_result :: "u32 \<Rightarrow> bool option"         \<comment> \<open>what \<open>noc_configure\<close> returned\<close>

text \<open>The hardware and the configuration: memory decoders of the cores, the generated data, \<open>NOC_MASTER\<close> and \<open>get_cpucnt ()\<close>.\<close>

record noc_platform =
  phys_of :: "u32 \<Rightarrow> u32 \<Rightarrow> u32"
  noc_conf_data :: noc_config
  NOC_MASTER :: u32
  cpucnt :: u32

definition jump :: "u32 \<Rightarrow> init_pc \<Rightarrow> noc_sys \<Rightarrow> noc_sys" where
  "jump c p s = s\<lparr>ipc := (ipc s)(c := p)\<rparr>"

text \<open>\<open>k_noc_state_set\<close>: only the master writes the register, and waits until it reads the value.\<close>

definition k_noc_state_set :: "noc_platform \<Rightarrow> u32 \<Rightarrow> u8 \<Rightarrow> init_pc \<Rightarrow> init_pc \<Rightarrow> noc_sys \<Rightarrow> noc_sys" where
  "k_noc_state_set P c state wait after s =
     (if c = NOC_MASTER P then jump c wait (s\<lparr>run_mode := state\<rparr>) else jump c after s)"

definition noc_sync_step :: "noc_platform \<Rightarrow> u32 \<Rightarrow> noc_sys \<Rightarrow> noc_sys" where
  "noc_sync_step P c s = (case ipc s c of
      Scan i fin \<Rightarrow>
        if i < cpucnt P
        then jump c (Scan (i + 1)
          (if slave_status s i \<noteq> STATUS_NULL \<and> slave_status s i \<noteq> STATUS_INITDONE \<and> i \<noteq> NOC_MASTER P then False else fin)) s
        else jump c (if fin then Notify else Scan 0 True) s
    | Notify \<Rightarrow> jump c Enable (s\<lparr>master_status := STATUS_INITDONE\<rparr>)
    | Report \<Rightarrow> jump c AwaitMaster (s\<lparr>slave_status := (slave_status s)(c := STATUS_INITDONE)\<rparr>)
    | AwaitMaster \<Rightarrow> if master_status s \<noteq> STATUS_INITDONE then s else jump c Enable s
    | _ \<Rightarrow> s)"

definition noc_init_step :: "noc_platform \<Rightarrow> u32 \<times> bool \<Rightarrow> noc_sys \<Rightarrow> noc_sys" where
  "noc_init_step P act s = (let c = fst act; ack = snd act in case ipc s c of
      Disable \<Rightarrow> k_noc_state_set P c 0 WaitDisabled LoadTables s
    | WaitDisabled \<Rightarrow> if ack then jump c LoadTables s else s
    | LoadTables \<Rightarrow>
        (case k_noc_sched_load (phys_of P c) (noc_conf_data P) c (tables s c) of
           (ok, t) \<Rightarrow> jump c (if c = NOC_MASTER P then Scan 0 True else Report)
             (s\<lparr>tables := (tables s)(c := t), load_result := (load_result s)(c := Some ok)\<rparr>))
    | Enable \<Rightarrow> k_noc_state_set P c 1 WaitEnabled InitDone s
    | WaitEnabled \<Rightarrow> if ack then jump c InitDone s else s
    | InitDone \<Rightarrow> s
    | _ \<Rightarrow> noc_sync_step P c s)"

section \<open>The network runs only when all interfaces are configured\<close>

text \<open>The cores that take part: the master, and those with a status when the program starts.\<close>

definition takes_part :: "noc_platform \<Rightarrow> noc_sys \<Rightarrow> u32 \<Rightarrow> bool" where
  "takes_part P s c \<longleftrightarrow> c = NOC_MASTER P \<or> c < cpucnt P \<and> slave_status s c \<noteq> STATUS_NULL"

definition init_start :: "noc_platform \<Rightarrow> noc_sys \<Rightarrow> bool" where
  "init_start P s \<longleftrightarrow> master_status s \<noteq> STATUS_INITDONE \<and> (\<forall>c. ipc s c = Disable \<and> slave_status s c \<noteq> STATUS_INITDONE \<and> load_result s c = None)"

definition configured :: "noc_platform \<Rightarrow> noc_sys \<Rightarrow> noc_sys \<Rightarrow> u32 \<Rightarrow> bool" where
  "configured P s0 s c \<longleftrightarrow> (let r = k_noc_sched_load (phys_of P c) (noc_conf_data P) c (tables s0 c) in load_result s c = Some (fst r) \<and> tables s c = snd r)"

definition before_load :: "init_pc \<Rightarrow> bool" where
  "before_load p \<longleftrightarrow> p = Disable \<or> p = WaitDisabled \<or> p = LoadTables"

definition after_sync :: "init_pc \<Rightarrow> bool" where
  "after_sync p \<longleftrightarrow> p = Enable \<or> p = WaitEnabled \<or> p = InitDone"

text \<open>Per core: what it has done; for the master: what a scan has seen.\<close>

definition core_inv :: "noc_platform \<Rightarrow> noc_sys \<Rightarrow> noc_sys \<Rightarrow> u32 \<Rightarrow> bool" where
  "core_inv P s0 s c \<longleftrightarrow>
     (if before_load (ipc s c) then tables s c = tables s0 c else configured P s0 s c) \<and>
     (slave_status s c = STATUS_INITDONE \<longrightarrow> \<not> before_load (ipc s c)) \<and> (slave_status s c = STATUS_NULL \<longrightarrow> slave_status s0 c = STATUS_NULL) \<and>
     (after_sync (ipc s c) \<or> ipc s c = Notify \<longrightarrow> (\<forall>d. takes_part P s0 d \<longrightarrow> d = NOC_MASTER P \<or> slave_status s d = STATUS_INITDONE)) \<and>
     (case ipc s c of Scan i fin \<Rightarrow> c = NOC_MASTER P \<and> (fin \<longrightarrow> (\<forall>d<i. takes_part P s0 d \<longrightarrow> d = NOC_MASTER P \<or> slave_status s d = STATUS_INITDONE))
      | Notify \<Rightarrow> c = NOC_MASTER P | Report \<Rightarrow> c \<noteq> NOC_MASTER P | AwaitMaster \<Rightarrow> c \<noteq> NOC_MASTER P | WaitDisabled \<Rightarrow> c = NOC_MASTER P
      | WaitEnabled \<Rightarrow> c = NOC_MASTER P | _ \<Rightarrow> True)"

definition init_inv :: "noc_platform \<Rightarrow> noc_sys \<Rightarrow> noc_sys \<Rightarrow> bool" where
  "init_inv P s0 s \<longleftrightarrow> (\<forall>c. core_inv P s0 s c) \<and>
     (master_status s = STATUS_INITDONE \<longrightarrow> after_sync (ipc s (NOC_MASTER P))) \<and>
     (run_mode s \<noteq> 0 \<longrightarrow> ipc s (NOC_MASTER P) = Disable \<or> after_sync (ipc s (NOC_MASTER P))) \<and>
     (\<forall>c. after_sync (ipc s c) \<longrightarrow> after_sync (ipc s (NOC_MASTER P)))"

lemma init_start_inv: "init_start P s \<Longrightarrow> init_inv P s s"
  by (simp add: init_start_def init_inv_def core_inv_def before_load_def after_sync_def)

text \<open>A step of one core keeps what is known of the others.\<close>

lemma other_core_inv:
  assumes "core_inv P s0 s d" "ipc s' d = ipc s d" "tables s' d = tables s d" "load_result s' d = load_result s d" "slave_status s' d = slave_status s d"
    and "\<And>e. slave_status s e = STATUS_INITDONE \<Longrightarrow> slave_status s' e = STATUS_INITDONE"
  shows "core_inv P s0 s' d"
  using assms unfolding core_inv_def configured_def Let_def by (cases "ipc s d") (auto simp: before_load_def after_sync_def)

text \<open>A step that only moves a core on.\<close>

lemma jump_inv:
  assumes "init_inv P s0 s" "core_inv P s0 (jump c p s) c" "ipc s c \<noteq> Disable" "after_sync (ipc s c) \<longrightarrow> after_sync p"
    "after_sync p \<longrightarrow> c = NOC_MASTER P \<or> after_sync (ipc s (NOC_MASTER P))"
  shows "init_inv P s0 (jump c p s)"
proof -
  have "core_inv P s0 (jump c p s) d" for d
    using assms(1,2) other_core_inv [of P s0 s d "jump c p s"] by (cases "d = c") (auto simp: init_inv_def jump_def)
  then show ?thesis using assms(1,3-5) by (auto simp: init_inv_def jump_def)
qed

lemma next_less: "(d :: u32) < i + 1 \<Longrightarrow> i < n \<Longrightarrow> d < i \<or> d = i"
  by (metis inc_le less_le not_le order_less_le_trans word_le_less_eq add.commute linorder_not_le)

lemma scan_inv:
  assumes inv: "init_inv P s0 s" and pc: "ipc s c = Scan i fin"
  shows "init_inv P s0 (noc_sync_step P c s)"
proof -
  have c: "core_inv P s0 s c" "core_inv P s0 s i" using inv by (simp_all add: init_inv_def)
  show ?thesis
  proof (cases "i < cpucnt P")
    case True
    let ?bad = "slave_status s i \<noteq> STATUS_NULL \<and> slave_status s i \<noteq> STATUS_INITDONE \<and> i \<noteq> NOC_MASTER P"
    have step: "noc_sync_step P c s = jump c (Scan (i + 1) (if ?bad then False else fin)) s" using pc True by (simp add: noc_sync_step_def)
    have "core_inv P s0 (jump c (Scan (i + 1) (if ?bad then False else fin)) s) c"
      using c pc next_less [OF _ True] by (auto simp: core_inv_def jump_def before_load_def after_sync_def configured_def takes_part_def)
    then show ?thesis unfolding step by (rule jump_inv [OF inv]) (simp_all add: pc after_sync_def)
  next
    case False
    have lt: "d < i" if "d < cpucnt P" for d using that False by (simp add: not_less order_less_le_trans)
    have step: "noc_sync_step P c s = jump c (if fin then Notify else Scan 0 True) s" using pc False by (simp add: noc_sync_step_def)
    have "core_inv P s0 (jump c (if fin then Notify else Scan 0 True) s) c"
      using c(1) pc lt by (auto simp: core_inv_def jump_def before_load_def after_sync_def configured_def takes_part_def)
    then show ?thesis unfolding step by (rule jump_inv [OF inv]) (simp_all add: pc after_sync_def)
  qed
qed

text \<open>A step in which a core changes its own fields, or the shared ones, and moves on.\<close>

lemma own_step_inv:
  assumes "init_inv P s0 s" "s' = jump c p t" "core_inv P s0 s' c"
    and "ipc t = ipc s" "\<And>d. d \<noteq> c \<Longrightarrow> tables t d = tables s d \<and> load_result t d = load_result s d \<and> slave_status t d = slave_status s d"
      "\<And>d. slave_status s d = STATUS_INITDONE \<Longrightarrow> slave_status t d = STATUS_INITDONE"
    and "master_status t = STATUS_INITDONE \<longrightarrow> (if c = NOC_MASTER P then after_sync p else master_status s = STATUS_INITDONE)"
      "run_mode t \<noteq> 0 \<longrightarrow> (if c = NOC_MASTER P then after_sync p \<or> run_mode t = run_mode s \<and> ipc s c \<noteq> Disable \<and> \<not> after_sync (ipc s c)
         else run_mode t = run_mode s)"
      "after_sync (ipc s c) \<longrightarrow> after_sync p" "after_sync p \<longrightarrow> c = NOC_MASTER P \<or> after_sync (ipc s (NOC_MASTER P))"
  shows "init_inv P s0 s'"
proof -
  have "core_inv P s0 s' d" for d
    using assms(1-6) other_core_inv [of P s0 s d s'] by (cases "d = c") (auto simp: init_inv_def jump_def)
  then show ?thesis using assms(1,2,4,7-) by (auto simp: init_inv_def jump_def split: if_splits)
qed

lemmas init_defs = core_inv_def jump_def before_load_def after_sync_def configured_def takes_part_def Let_def

lemma sync_inv:
  assumes inv: "init_inv P s0 s"
  shows "init_inv P s0 (noc_sync_step P c s)"
proof (cases "ipc s c")
  case Notify
  have "core_inv P s0 s c" using inv by (simp add: init_inv_def)
  then show ?thesis
    using Notify by (intro own_step_inv [OF inv, where p = Enable and t = "s\<lparr>master_status := STATUS_INITDONE\<rparr>"])
      (auto simp: noc_sync_step_def init_defs)
next
  case Report
  have "core_inv P s0 s c" using inv by (simp add: init_inv_def)
  then show ?thesis
    using Report inv by (intro own_step_inv [OF inv, where p = AwaitMaster and c = c and t = "s\<lparr>slave_status := (slave_status s)(c := STATUS_INITDONE)\<rparr>"])
      (auto simp: noc_sync_step_def init_defs)
next
  case AwaitMaster
  have m: "core_inv P s0 s (NOC_MASTER P)" and c: "core_inv P s0 s c" using inv by (simp_all add: init_inv_def)
  show ?thesis
  proof (cases "master_status s = STATUS_INITDONE")
    case True
    then have "after_sync (ipc s (NOC_MASTER P))" using inv by (simp add: init_inv_def)
    then have "core_inv P s0 (jump c Enable s) c" using m c AwaitMaster by (auto simp: init_defs)
    then show ?thesis using jump_inv [OF inv, of c Enable] \<open>after_sync (ipc s (NOC_MASTER P))\<close> True AwaitMaster by (simp add: noc_sync_step_def after_sync_def)
  qed (use inv AwaitMaster in \<open>simp add: noc_sync_step_def\<close>)
qed (use inv scan_inv [OF inv] in \<open>simp_all add: noc_sync_step_def\<close>)

lemma init_step_inv:
  assumes inv: "init_inv P s0 s"
  shows "init_inv P s0 (noc_init_step P (c, ack) s)"
proof -
  have c: "core_inv P s0 s c" and m: "core_inv P s0 s (NOC_MASTER P)"
    and run: "run_mode s \<noteq> 0 \<longrightarrow> ipc s (NOC_MASTER P) = Disable \<or> after_sync (ipc s (NOC_MASTER P))"
    and sync: "after_sync (ipc s c) \<longrightarrow> after_sync (ipc s (NOC_MASTER P))"
    and st: "master_status s = STATUS_INITDONE \<longrightarrow> after_sync (ipc s (NOC_MASTER P))" using inv unfolding init_inv_def by blast+
  show ?thesis
  proof (cases "ipc s c")
    case Disable
    let ?p = "if c = NOC_MASTER P then WaitDisabled else LoadTables" and ?t = "if c = NOC_MASTER P then s\<lparr>run_mode := 0\<rparr> else s"
    have step: "noc_init_step P (c, ack) s = jump c ?p ?t" using Disable by (simp add: noc_init_step_def k_noc_state_set_def)
    have "core_inv P s0 (jump c ?p ?t) c" using c Disable by (auto simp: init_defs)
    then show ?thesis unfolding step
      by (rule own_step_inv [OF inv refl]) (use Disable st in \<open>auto simp: after_sync_def\<close>)
  next
    case LoadTables
    obtain ok tb where load: "k_noc_sched_load (phys_of P c) (noc_conf_data P) c (tables s c) = (ok, tb)" by force
    let ?p = "if c = NOC_MASTER P then Scan 0 True else Report" and ?t = "s\<lparr>tables := (tables s)(c := tb), load_result := (load_result s)(c := Some ok)\<rparr>"
    have step: "noc_init_step P (c, ack) s = jump c ?p ?t" using LoadTables load by (simp add: noc_init_step_def)
    have "core_inv P s0 (jump c ?p ?t) c" using c LoadTables load by (auto simp: init_defs)
    then show ?thesis unfolding step
      by (rule own_step_inv [OF inv refl]) (use LoadTables st in \<open>auto simp: after_sync_def\<close>)
  next
    case Enable
    let ?p = "if c = NOC_MASTER P then WaitEnabled else InitDone" and ?t = "if c = NOC_MASTER P then s\<lparr>run_mode := 1\<rparr> else s"
    have step: "noc_init_step P (c, ack) s = jump c ?p ?t" using Enable by (simp add: noc_init_step_def k_noc_state_set_def)
    have "core_inv P s0 (jump c ?p ?t) c" using c Enable by (auto simp: init_defs)
    then show ?thesis unfolding step
      by (rule own_step_inv [OF inv refl]) (use Enable st sync in \<open>auto simp: after_sync_def\<close>)
  next
    case WaitDisabled
    have "core_inv P s0 (jump c LoadTables s) c" using c WaitDisabled by (auto simp: init_defs)
    from jump_inv [OF inv this] show ?thesis using WaitDisabled inv by (simp add: noc_init_step_def after_sync_def)
  next
    case WaitEnabled
    have "core_inv P s0 (jump c InitDone s) c" using c WaitEnabled by (auto simp: init_defs)
    from jump_inv [OF inv this] show ?thesis using WaitEnabled inv sync by (simp add: noc_init_step_def after_sync_def)
  qed (use inv sync_inv [OF inv] in \<open>simp_all add: noc_init_step_def\<close>)
qed

lemma init_run_inv: "init_inv P s0 s \<Longrightarrow> init_inv P s0 (fold (noc_init_step P) acts s)"
proof (induction acts arbitrary: s)
  case (Cons act acts)
  have "init_inv P s0 (noc_init_step P act s)" using init_step_inv [OF Cons.prems, of "fst act" "snd act"] by simp
  from Cons.IH [OF this] show ?case by simp
qed simp

text \<open>C40: when the network has been set into run mode by the master, every core that takes part has loaded its tables, successfully or not: the
  result of \<open>noc_configure\<close> is not looked at.  No core leaves \<open>noc_sync\<close> earlier.\<close>

theorem network_runs_configured:
  assumes "init_start P s0" "s = fold (noc_init_step P) acts s0" "takes_part P s0 c"
    and "run_mode s \<noteq> 0 \<and> ipc s (NOC_MASTER P) \<noteq> Disable \<or> after_sync (ipc s d)"
  shows "configured P s0 s c"
proof -
  have inv: "init_inv P s0 s" unfolding assms(2) by (rule init_run_inv [OF init_start_inv [OF assms(1)]])
  then obtain e where e: "core_inv P s0 s e" "after_sync (ipc s e)" using assms(4) unfolding init_inv_def by blast
  have m: "core_inv P s0 s (NOC_MASTER P)" "core_inv P s0 s c" using inv by (simp_all add: init_inv_def)
  have "after_sync (ipc s (NOC_MASTER P))" using inv e(2) unfolding init_inv_def by blast
  then have "\<not> before_load (ipc s (NOC_MASTER P))" by (auto simp: before_load_def after_sync_def)
  moreover have "c = NOC_MASTER P \<or> slave_status s c = STATUS_INITDONE" using e assms(3) unfolding core_inv_def by blast
  ultimately have "\<not> before_load (ipc s c)" using m(2) unfolding core_inv_def by blast
  then show ?thesis using m(2) unfolding core_inv_def by (metis (full_types))
qed

section \<open>Witness\<close>

definition demo_platform :: noc_platform where
  "demo_platform = \<lparr>phys_of = (\<lambda>c a. a mod 2),
     noc_conf_data = \<lparr>NOC_CORES = 2, NOC_CONFS = 1, NOC_TABLES = 1, NOC_SCHEDULE_ENTRIES = 3, noc_init_array = (\<lambda>a. if a mod 3 = 0 then 2 else a)\<rparr>,
     NOC_MASTER = 0, cpucnt = 2\<rparr>"

definition demo_noc :: noc_sys where
  "demo_noc = \<lparr>tables = (\<lambda>c. \<lparr>sched_tab = (\<lambda>a. 0), mc_tab = (\<lambda>a. 0)\<rparr>), run_mode = 0, master_status = STATUS_OTHER 2,
     slave_status = (\<lambda>c. STATUS_OTHER 2), ipc = (\<lambda>c. Disable), load_result = (\<lambda>c. None)\<rparr>"

definition demo_noc_acts :: "(u32 \<times> bool) list" where
  "demo_noc_acts = [(0, True), (0, True), (0, True), (1, True), (1, True), (0, True), (0, True), (0, True), (1, True),
     (0, True), (0, True), (0, True), (0, True), (0, True), (1, True), (0, True)]"

theorem network_runs_configured_witness:
  "\<exists>s. init_start demo_platform demo_noc \<and> takes_part demo_platform demo_noc 1 \<and> s = fold (noc_init_step demo_platform) demo_noc_acts demo_noc \<and>
     run_mode s = 1 \<and> configured demo_platform demo_noc s 1"
proof -
  let ?s = "fold (noc_init_step demo_platform) demo_noc_acts demo_noc"
  have start: "init_start demo_platform demo_noc" by (simp add: init_start_def demo_noc_def)
  have part: "takes_part demo_platform demo_noc 1" by (simp add: takes_part_def demo_noc_def demo_platform_def)
  have run: "run_mode ?s = 1" "ipc ?s 0 = InitDone" by code_simp+
  have "configured demo_platform demo_noc ?s 1"
    using network_runs_configured [OF start refl part, of demo_noc_acts] run by (simp add: demo_platform_def after_sync_def)
  then show ?thesis using start part run by blast
qed

end
