(* ===== verification/Mp_Queue.thy ===== *)
theory Mp_Queue
  imports Noc
begin

text \<open>
  Queuing ports of the message passing library: \<^verbatim>\<open>c/libmp/queuing.c\<close>, with the allocation of scratchpad memory
  in \<^verbatim>\<open>c/libmp/mp.c\<close> and \<^verbatim>\<open>c/libmp/utils.c\<close>.

  A descriptor is the record \<open>qpd_t\<close> with the fields of both members of the union.  A channel is a source port
  on one core and a sink port on another; the two share no memory, every word goes over the network.  An
  operation is one step: it reads a location that the other side writes (the acknowledge counter, the flag of
  a buffer, the state of the transfer) at most once, and the network and the other core may act between any
  two operations.  The blocking operations repeat the others, with any behaviour of the rest of the system
  between two attempts.
\<close>

section \<open>Ports\<close>

datatype direction_t = SOURCE | SINK

record qpd_t =
  direction_type :: direction_t
  remote :: u32
  recv_addr :: u32
  send_recv_count :: u32
  buf_size :: u32
  num_buf :: u32
  write_buf :: u32
  shadow_write_buf :: u32
  send_count :: u32
  send_ptr :: u32
  read_buf :: u32
  recv_count :: u32
  recv_ptr :: u32

definition WALIGN :: "u32 \<Rightarrow> u32" where
  "WALIGN x = (x + 3) AND NOT 3"

definition FLAG_SIZE :: u32 where
  "FLAG_SIZE = 4"

definition FLAG_VALID :: u32 where
  "FLAG_VALID = 0xFFFFFFFF"

definition FLAG_INVALID :: u32 where
  "FLAG_INVALID = 0"

definition mp_send_alloc_size :: "qpd_t \<Rightarrow> u32" where
  "mp_send_alloc_size q = (buf_size q + FLAG_SIZE) * 2 + WALIGN 4"

definition mp_recv_alloc_size :: "qpd_t \<Rightarrow> u32" where
  "mp_recv_alloc_size q = (buf_size q + FLAG_SIZE) * num_buf q + WALIGN 4"

section \<open>Sending, receiving, acknowledging\<close>

definition mp_nbsend :: "qpd_t \<Rightarrow> 'a node_scheme \<Rightarrow> bool \<times> qpd_t \<times> 'a node_scheme" where
  "mp_nbsend q n =
     (let calc_rmt_addr = recv_addr q + (buf_size q + FLAG_SIZE) * send_ptr q;
          n = spm_store (write_buf q + buf_size q) FLAG_VALID n
      in if send_count q - spm_load (send_recv_count q) n = num_buf q then (False, q, n)
         else
           (case noc_nbwrite (remote q) calc_rmt_addr (write_buf q) (buf_size q + FLAG_SIZE) 1 n of
              (started, n) \<Rightarrow>
                if \<not> started then (False, q, n)
                else (True, q\<lparr>send_count := send_count q + 1,
                       send_ptr := (if send_ptr q = num_buf q - 1 then 0 else send_ptr q + 1),
                       write_buf := shadow_write_buf q, shadow_write_buf := write_buf q\<rparr>, n)))"

definition mp_nbrecv :: "qpd_t \<Rightarrow> 'a node_scheme \<Rightarrow> bool \<times> qpd_t \<times> 'a node_scheme" where
  "mp_nbrecv q n =
     (let calc_locl_addr = recv_addr q + (buf_size q + FLAG_SIZE) * recv_ptr q;
          recv_flag = calc_locl_addr + buf_size q
      in if spm_load recv_flag n = FLAG_INVALID then (False, q, n)
         else (True, q\<lparr>recv_ptr := (if recv_ptr q = num_buf q - 1 then 0 else recv_ptr q + 1), read_buf := calc_locl_addr\<rparr>,
               spm_store recv_flag FLAG_INVALID n))"

definition mp_nback :: "qpd_t \<Rightarrow> 'a node_scheme \<Rightarrow> bool \<times> 'a node_scheme" where
  "mp_nback q n =
     (if \<not> noc_dma_done (remote q) n then (False, n)
      else
        (let n = spm_store (recv_count q) (spm_load (recv_count q) n + 1) n
         in case noc_nbwrite (remote q) (send_recv_count q) (recv_count q) 4 1 n of
              (success, n) \<Rightarrow>
                (success, if \<not> success then spm_store (recv_count q) (spm_load (recv_count q) n - 1) n else n)))"

text \<open>A loop that repeats an operation until it succeeds or the time is over; \<open>now k\<close> is the clock at poll \<open>k\<close>
  and \<open>others k\<close> what happened to the node before.  A \<open>time_usecs\<close> of 0 means no time limit.\<close>

partial_function (option) poll ::
  "(nat \<Rightarrow> u64) \<Rightarrow> (nat \<Rightarrow> 'n \<Rightarrow> 'n) \<Rightarrow> ('q \<Rightarrow> 'n \<Rightarrow> bool \<times> 'q \<times> 'n) \<Rightarrow> u32 \<Rightarrow> u64 \<Rightarrow> nat \<Rightarrow> 'q \<Rightarrow> 'n \<Rightarrow> (bool \<times> nat \<times> 'q \<times> 'n) option"
where
  "poll now others op time_usecs timeout k q n =
     (if time_usecs = 0 \<or> now k < timeout then
        (case op q (others k n) of
           (ret, q, n) \<Rightarrow> if ret then Some (True, k + 1, q, n) else poll now others op time_usecs timeout (k + 1) q n)
      else Some (False, k + 1, q, others k n))"

definition mp_send ::
  "(nat \<Rightarrow> u64) \<Rightarrow> (nat \<Rightarrow> node \<Rightarrow> node) \<Rightarrow> u32 \<Rightarrow> nat \<Rightarrow> qpd_t \<Rightarrow> node \<Rightarrow> (bool \<times> nat \<times> qpd_t \<times> node) option" where
  "mp_send now others time_usecs k q n = poll now others mp_nbsend time_usecs (now k + ucast time_usecs) (k + 1) q n"

definition mp_recv ::
  "(nat \<Rightarrow> u64) \<Rightarrow> (nat \<Rightarrow> node \<Rightarrow> node) \<Rightarrow> u32 \<Rightarrow> nat \<Rightarrow> qpd_t \<Rightarrow> node \<Rightarrow> (bool \<times> nat \<times> qpd_t \<times> node) option" where
  "mp_recv now others time_usecs k q n = poll now others mp_nbrecv time_usecs (now k + ucast time_usecs) (k + 1) q n"

definition mp_ack_n ::
  "(nat \<Rightarrow> u64) \<Rightarrow> (nat \<Rightarrow> node \<Rightarrow> node) \<Rightarrow> u32 \<Rightarrow> u32 \<Rightarrow> nat \<Rightarrow> qpd_t \<Rightarrow> node \<Rightarrow> (bool \<times> nat \<times> qpd_t \<times> node) option" where
  "mp_ack_n now others time_usecs num_acks k q n =
     (let timeout = now k + ucast time_usecs
      in case poll now others (\<lambda>q n. (noc_dma_done (remote q) n, q, n)) time_usecs timeout (k + 1) q n of
           None \<Rightarrow> None
         | Some (False, k, q, n) \<Rightarrow> Some (False, k, q, n)
         | Some (True, k, q, n) \<Rightarrow>
             (case poll now others (\<lambda>q n. case noc_nbwrite (remote q) (send_recv_count q) (recv_count q) 4 1 n of (r, n) \<Rightarrow> (r, q, n))
                 time_usecs timeout k q (spm_store (recv_count q) (spm_load (recv_count q) n + num_acks) n) of
                None \<Rightarrow> None
              | Some (ret, k, q, n) \<Rightarrow>
                  Some (ret, k, q, if ret then n else spm_store (recv_count q) (spm_load (recv_count q) n - num_acks) n)))"

definition mp_ack ::
  "(nat \<Rightarrow> u64) \<Rightarrow> (nat \<Rightarrow> node \<Rightarrow> node) \<Rightarrow> u32 \<Rightarrow> nat \<Rightarrow> qpd_t \<Rightarrow> node \<Rightarrow> (bool \<times> nat \<times> qpd_t \<times> node) option" where
  "mp_ack now others time_usecs k q n = mp_ack_n now others time_usecs 1 k q n"

section \<open>Allocation and creation of ports\<close>

record core = node +
  cpuid :: u32
  spm_alloc :: u32                \<comment> \<open>\<open>spm_alloc_array[cpuid]\<close>\<close>
  spm_size :: u32                 \<comment> \<open>\<open>spm_size_array[cpuid]\<close>, in bytes\<close>
  qpds :: "u32 \<Rightarrow> qpd_t"        \<comment> \<open>the descriptors in the scratchpad\<close>

datatype port_t = SAMPLING | QUEUING

record chan_info_t =
  port_type :: port_t
  src_id :: u32
  sink_id :: u32
  src_addr :: u32
  sink_addr :: u32
  src_qpd_ptr :: u32
  sink_qpd_ptr :: u32

text \<open>The size of the scratchpad is added to \<open>NOC_SPM_BASE\<close>, a pointer to words.\<close>

definition mp_alloc :: "u32 \<Rightarrow> 'a core_scheme \<Rightarrow> u32 \<times> 'a core_scheme" where
  "mp_alloc sz c =
     (let mem_ptr = spm_alloc c; new_addr = mem_ptr + WALIGN sz
      in if new_addr < spm_base c then (0, c)
         else if new_addr > spm_base c + 4 * spm_size c then (0, c)
         else (mem_ptr, c\<lparr>spm_alloc := new_addr\<rparr>))"

text \<open>A core number cast to \<open>char\<close> and taken as an \<open>int\<close> again; whether \<open>char\<close> is signed (\<open>sc\<close>) depends on the
  implementation.  This happens when a port is created, and when a number is stored as a \<open>coreid_t\<close>.\<close>

definition to_char :: "bool \<Rightarrow> u32 \<Rightarrow> u32" where
  "to_char sc x = (if sc then scast (ucast x :: u8) else ucast (ucast x :: u8))"

definition set_port :: "u32 \<Rightarrow> (qpd_t \<Rightarrow> qpd_t) \<Rightarrow> core \<Rightarrow> core" where
  "set_port p f c = c\<lparr>qpds := (qpds c)(p := f (qpds c p))\<rparr>"

definition create_source :: "bool \<Rightarrow> u32 \<Rightarrow> chan_info_t \<Rightarrow> core \<Rightarrow> u32 \<times> chan_info_t \<times> core" where
  "create_source sc p ci c =
     (case mp_alloc (mp_send_alloc_size (qpds c p)) c of
        (send_addr, c) \<Rightarrow>
          if send_addr = 0 then (0, ci, c)
          else
            (let stride = buf_size (qpds c p) + FLAG_SIZE;
                 cnt = send_addr + stride * 2;
                 c = set_port p (\<lambda>q. q\<lparr>send_recv_count := cnt\<rparr>) c;
                 ci = ci\<lparr>src_qpd_ptr := p, src_addr := cnt, src_id := to_char sc (cpuid c)\<rparr>;
                 c = spm_store cnt 0 c;
                 c = set_port p (\<lambda>q. q\<lparr>send_count := 0, send_ptr := 0, write_buf := send_addr,
                       shadow_write_buf := send_addr + stride\<rparr>) c
             in (p, ci, c)))"

fun clear_flags :: "u32 \<Rightarrow> u32 \<Rightarrow> u32 \<Rightarrow> nat \<Rightarrow> core \<Rightarrow> core" where
  "clear_flags addr stride bsize 0 c = c"
| "clear_flags addr stride bsize (Suc i) c =
     spm_store (addr + stride * of_nat i + bsize) 0 (clear_flags addr stride bsize i c)"

definition create_sink :: "bool \<Rightarrow> u32 \<Rightarrow> chan_info_t \<Rightarrow> core \<Rightarrow> u32 \<times> chan_info_t \<times> core" where
  "create_sink sc p ci c =
     (case mp_alloc (mp_recv_alloc_size (qpds c p)) c of
        (addr, c) \<Rightarrow>
          (let c = set_port p (\<lambda>q. q\<lparr>recv_addr := addr\<rparr>) c;
               ci = ci\<lparr>sink_qpd_ptr := p, sink_addr := addr, sink_id := to_char sc (cpuid c)\<rparr>
           in if addr = 0 then (0, ci, c)
              else
                (let q = qpds c p;
                     cnt = addr + (buf_size q + FLAG_SIZE) * num_buf q;
                     c = set_port p (\<lambda>q. q\<lparr>read_buf := addr, recv_ptr := 0, recv_count := cnt\<rparr>) c;
                     c = spm_store cnt 0 c
                 in (p, ci, clear_flags addr (buf_size q + FLAG_SIZE) (buf_size q) (unat (num_buf q)) c))))"

definition mp_create_qport ::
  "bool \<Rightarrow> u32 \<Rightarrow> direction_t \<Rightarrow> u32 \<Rightarrow> u32 \<Rightarrow> (u32 \<Rightarrow> chan_info_t) \<Rightarrow> core \<Rightarrow> u32 \<times> (u32 \<Rightarrow> chan_info_t) \<times> core" where
  "mp_create_qport sc chan_id dir msg_size bufs ci c =
     (if chan_id \<ge> 256 then (0, ci, c)
      else
        (case mp_alloc 40 c of
           (p, c) \<Rightarrow>
             if p = 0 then (0, ci, c)
             else
               (let c = set_port p (\<lambda>q. q\<lparr>direction_type := dir, buf_size := WALIGN msg_size, num_buf := bufs\<rparr>) c;
                    i = (ci chan_id)\<lparr>port_type := QUEUING\<rparr>
                in case (case dir of SOURCE \<Rightarrow> create_source sc p i c | SINK \<Rightarrow> create_sink sc p i c) of
                     (r, i, c) \<Rightarrow> (r, ci(chan_id := i), c))))"

text \<open>The part of \<open>mp_init_ports\<close> for a queuing channel: the ends exchange their addresses.  \<open>None\<close>: it waits for the
  other end.\<close>

definition mp_init_port :: "bool \<Rightarrow> chan_info_t \<Rightarrow> core \<Rightarrow> core option" where
  "mp_init_port sc i c =
     (if src_id i = cpuid c then
        if sink_id i = -1 then None
        else Some (if port_type i = QUEUING then set_port (src_qpd_ptr i) (\<lambda>q. q\<lparr>recv_addr := sink_addr i, remote := to_char sc (sink_id i)\<rparr>) c else c)
      else if sink_id i = cpuid c then
        if src_id i = -1 then None
        else Some (if port_type i = QUEUING then set_port (sink_qpd_ptr i) (\<lambda>q. q\<lparr>send_recv_count := src_addr i, remote := to_char sc (src_id i)\<rparr>) c else c)
      else Some c)"

section \<open>A channel\<close>

record chan =
  sp :: qpd_t
  rp :: qpd_t
  sn :: node
  rn :: node
  sent :: "u32 list list"     \<comment> \<open>the contents of the write buffer at each successful send\<close>
  got :: "u32 list list"      \<comment> \<open>the contents of the read buffer after each successful receive\<close>
  acked :: nat                \<comment> \<open>successful acknowledgements\<close>

definition msg_at :: "nat \<Rightarrow> u32 \<Rightarrow> 'a node_scheme \<Rightarrow> u32 list" where
  "msg_at words p n = map (\<lambda>k. spm_load (p + 4 * of_nat k) n) [0..<words]"

text \<open>What can happen: the sender writes a word of its write buffer, the operations are called, and the network
  serves one of the two directions.  A message is acknowledged only after it was received.\<close>

datatype chan_op = Fill nat u32 | Send | Recv | Ack | Forward | Backward

definition chan_step :: "network \<Rightarrow> nat \<Rightarrow> chan_op \<Rightarrow> chan \<Rightarrow> chan" where
  "chan_step net bs op c = (case op of
      Fill k v \<Rightarrow> if k < bs then c\<lparr>sn := spm_store (write_buf (sp c) + 4 * of_nat k) v (sn c)\<rparr> else c
    | Send \<Rightarrow>
        (case mp_nbsend (sp c) (sn c) of
           (ok, q, n) \<Rightarrow> c\<lparr>sp := q, sn := n, sent := (if ok then sent c @ [msg_at bs (write_buf (sp c)) (sn c)] else sent c)\<rparr>)
    | Recv \<Rightarrow>
        (case mp_nbrecv (rp c) (rn c) of
           (ok, q, n) \<Rightarrow> c\<lparr>rp := q, rn := n, got := (if ok then got c @ [msg_at bs (read_buf q) n] else got c)\<rparr>)
    | Ack \<Rightarrow>
        if acked c < length (got c) then
          (case mp_nback (rp c) (rn c) of (ok, n) \<Rightarrow> c\<lparr>rn := n, acked := (if ok then acked c + 1 else acked c)\<rparr>)
        else c
    | Forward \<Rightarrow> (case net_slot net (remote (sp c)) (sn c) (rn c) of (a, b) \<Rightarrow> c\<lparr>sn := a, rn := b\<rparr>)
    | Backward \<Rightarrow> (case net_slot net (remote (rp c)) (rn c) (sn c) of (a, b) \<Rightarrow> c\<lparr>rn := a, sn := b\<rparr>))"

section \<open>The invariant of a channel\<close>

text \<open>Word numbers: buffer \<open>i mod nb\<close> of the receiver from \<open>r\<close> on, the two buffers of the sender from \<open>a\<close> on; a buffer has
  \<open>bs\<close> words and the flag.  Behind them are the two acknowledge counters.\<close>

definition slot_at :: "nat \<Rightarrow> nat \<Rightarrow> nat \<Rightarrow> nat \<Rightarrow> nat" where
  "slot_at bs nb r i = r + Suc bs * (i mod nb)"

definition sbuf_at :: "nat \<Rightarrow> nat \<Rightarrow> nat \<Rightarrow> nat" where
  "sbuf_at bs a i = a + (if even i then 0 else Suc bs)"

definition mirror_at :: "nat \<Rightarrow> nat \<Rightarrow> nat" where
  "mirror_at bs a = a + 2 * Suc bs"

definition count_at :: "nat \<Rightarrow> nat \<Rightarrow> nat \<Rightarrow> nat" where
  "count_at bs nb r = r + Suc bs * nb"

lemmas layout_defs = slot_at_def sbuf_at_def mirror_at_def count_at_def

definition channel_layout :: "nat \<Rightarrow> nat \<Rightarrow> nat \<Rightarrow> nat \<Rightarrow> chan \<Rightarrow> bool" where
  "channel_layout bs nb a r c \<longleftrightarrow>
     0 < nb \<and> count_at bs nb r < 2 ^ 14 \<and> mirror_at bs a < 2 ^ 14 \<and> spm_base (rn c) = spm_base (sn c) \<and>
     recv_addr (sp c) = spm_ptr (spm_base (sn c)) r \<and> recv_addr (rp c) = spm_ptr (spm_base (sn c)) r \<and>
     send_recv_count (sp c) = spm_ptr (spm_base (sn c)) (mirror_at bs a) \<and>
     send_recv_count (rp c) = spm_ptr (spm_base (sn c)) (mirror_at bs a) \<and>
     recv_count (rp c) = spm_ptr (spm_base (sn c)) (count_at bs nb r) \<and>
     buf_size (sp c) = 4 * of_nat bs \<and> buf_size (rp c) = 4 * of_nat bs \<and> num_buf (sp c) = of_nat nb \<and> num_buf (rp c) = of_nat nb \<and>
     send_count (sp c) = of_nat (length (sent c)) \<and> send_ptr (sp c) = of_nat (length (sent c) mod nb) \<and>
     recv_ptr (rp c) = of_nat (length (got c) mod nb) \<and>
     write_buf (sp c) = spm_ptr (spm_base (sn c)) (sbuf_at bs a (length (sent c))) \<and>
     shadow_write_buf (sp c) = spm_ptr (spm_base (sn c)) (sbuf_at bs a (Suc (length (sent c))))"

text \<open>A message has been delivered (\<open>D\<close> of them) when its flag has arrived; the last message may be on the way.  \<open>M\<close> is the number of
  acknowledgements that the sender knows of.\<close>

definition forward_ok :: "nat \<Rightarrow> nat \<Rightarrow> nat \<Rightarrow> nat \<Rightarrow> nat \<Rightarrow> chan \<Rightarrow> bool" where
  "forward_ok bs nb a r D c \<longleftrightarrow> (let e = dma_entry (remote (sp c)) (sn c) in
     (\<not> entry_active e \<longrightarrow> D = length (sent c)) \<and>
     (entry_active e \<longrightarrow> length (sent c) = Suc D \<and>
        (\<forall>j<bs. spm (sn c) (sbuf_at bs a D + j) = sent c ! D ! j) \<and> spm (sn c) (sbuf_at bs a D + bs) = FLAG_VALID \<and>
        (\<exists>k\<le>bs. entry_write e = slot_at bs nb r D + k \<and> entry_read e = sbuf_at bs a D + k \<and> entry_words e = Suc bs - k \<and>
           (\<forall>j<k. spm (rn c) (slot_at bs nb r D + j) = sent c ! D ! j))))"

definition backward_ok :: "nat \<Rightarrow> nat \<Rightarrow> nat \<Rightarrow> nat \<Rightarrow> nat \<Rightarrow> chan \<Rightarrow> bool" where
  "backward_ok bs nb a r M c \<longleftrightarrow> (let e = dma_entry (remote (rp c)) (rn c) in
     (\<not> entry_active e \<longrightarrow> M = acked c) \<and>
     (entry_active e \<longrightarrow> entry_write e = mirror_at bs a \<and> entry_read e = count_at bs nb r \<and> entry_words e = 1))"

definition slots_ok :: "nat \<Rightarrow> nat \<Rightarrow> nat \<Rightarrow> nat \<Rightarrow> chan \<Rightarrow> bool" where
  "slots_ok bs nb r D c \<longleftrightarrow>
     (\<forall>i j. acked c \<le> i \<and> i < D \<and> j < bs \<longrightarrow> spm (rn c) (slot_at bs nb r i + j) = sent c ! i ! j)"

definition flags_ok :: "nat \<Rightarrow> nat \<Rightarrow> nat \<Rightarrow> nat \<Rightarrow> chan \<Rightarrow> bool" where
  "flags_ok bs nb r D c \<longleftrightarrow>
     (\<forall>s<nb. spm (rn c) (r + Suc bs * s + bs) = (if \<exists>i. length (got c) \<le> i \<and> i < D \<and> i mod nb = s then FLAG_VALID else FLAG_INVALID))"

definition counts_ok :: "nat \<Rightarrow> nat \<Rightarrow> nat \<Rightarrow> nat \<Rightarrow> nat \<Rightarrow> nat \<Rightarrow> chan \<Rightarrow> bool" where
  "counts_ok bs nb a r D M c \<longleftrightarrow>
     M \<le> acked c \<and> acked c \<le> length (got c) \<and> length (got c) \<le> D \<and> D \<le> length (sent c) \<and> length (sent c) \<le> M + nb \<and>
     spm (sn c) (mirror_at bs a) = of_nat M \<and> spm (rn c) (count_at bs nb r) = of_nat (acked c) \<and>
     got c = take (length (got c)) (sent c) \<and> (\<forall>m \<in> set (sent c). length m = bs)"

definition channel_inv :: "nat \<Rightarrow> nat \<Rightarrow> nat \<Rightarrow> nat \<Rightarrow> nat \<Rightarrow> nat \<Rightarrow> chan \<Rightarrow> bool" where
  "channel_inv bs nb a r D M c \<longleftrightarrow> channel_layout bs nb a r c \<and> counts_ok bs nb a r D M c \<and> forward_ok bs nb a r D c \<and>
     backward_ok bs nb a r M c \<and> slots_ok bs nb r D c \<and> flags_ok bs nb r D c"

subsection \<open>Addresses\<close>

lemma ring_inj:
  fixes i j m nb :: nat
  assumes "m \<le> i" "i < m + nb" "m \<le> j" "j < m + nb" "i mod nb = j mod nb"
  shows "i = j"
proof -
  have "\<not> i < j" if eq: "i mod nb = j mod nb" and le: "m \<le> i" "j < m + nb" for i j :: nat
  proof
    assume "i < j"
    then obtain q where "j = i + nb * q"
      using mod_eq_nat1E [OF eq [symmetric] less_imp_le [OF \<open>i < j\<close>]] by blast
    then show False using \<open>i < j\<close> le by (cases q) auto
  qed
  from this [of i j] this [of j i] show ?thesis using assms by auto
qed

lemma stride_inj: "Suc bs * s + j = Suc bs * t + k \<Longrightarrow> j \<le> bs \<Longrightarrow> k \<le> bs \<Longrightarrow> s = t \<and> j = k"
proof -
  assume eq: "Suc bs * s + j = Suc bs * t + k" and le: "j \<le> bs" "k \<le> bs"
  have "(Suc bs * u + l) div Suc bs = u" if "l \<le> bs" for u l
    using that by (simp only: div_mult_self4 div_less less_Suc_eq_le add_0_right nat.distinct simp_thms)
  from this [OF le(1), of s] this [OF le(2), of t] show ?thesis using eq by simp
qed

lemma stride_bound: "s < nb \<Longrightarrow> j \<le> bs \<Longrightarrow> Suc bs * s + j < Suc bs * nb"
proof -
  assume "s < nb" "j \<le> bs"
  then have "Suc bs * s + j < Suc bs * Suc s" by simp
  also have "\<dots> \<le> Suc bs * nb" using \<open>s < nb\<close> by (intro mult_le_mono2) simp
  finally show ?thesis .
qed

lemma slot_bound: "0 < nb \<Longrightarrow> j \<le> bs \<Longrightarrow> slot_at bs nb r i + j < count_at bs nb r"
  using stride_bound [of "i mod nb" nb j bs] by (simp add: layout_defs)

lemma slot_eq_iff: "j \<le> bs \<Longrightarrow> k \<le> bs \<Longrightarrow> slot_at bs nb r i + j = slot_at bs nb r l + k \<longleftrightarrow> i mod nb = l mod nb \<and> j = k"
  using stride_inj [of bs "i mod nb" j "l mod nb" k] by (auto simp: slot_at_def)

lemma sbuf_bound: "j \<le> bs \<Longrightarrow> sbuf_at bs a i + j < mirror_at bs a"
  by (simp add: layout_defs)

lemma sbuf_eq_iff: "j \<le> bs \<Longrightarrow> k \<le> bs \<Longrightarrow> sbuf_at bs a i + j = sbuf_at bs a l + k \<longleftrightarrow> (even i \<longleftrightarrow> even l) \<and> j = k"
  by (auto simp: sbuf_at_def)

subsection \<open>The operations in terms of word numbers\<close>

lemma load_ptr: "w < 2 ^ 14 \<Longrightarrow> b = spm_base n \<Longrightarrow> spm_load (spm_ptr b w) n = spm n w"
  by (simp add: spm_load_def spm_word_ptr)

lemma store_ptr: "w < 2 ^ 14 \<Longrightarrow> b = spm_base n \<Longrightarrow> spm_store (spm_ptr b w) v n = n\<lparr>spm := (spm n)(w := v)\<rparr>"
  by (simp add: spm_store_def spm_word_ptr)

lemma stride_ptr: "spm_ptr b r + (4 * of_nat bs + FLAG_SIZE) * of_nat s = spm_ptr b (r + Suc bs * s)"
  by (simp add: spm_ptr_def FLAG_SIZE_def algebra_simps)

lemma stride_size: "4 * of_nat bs + FLAG_SIZE = (4 * of_nat (Suc bs) :: u32)"
  by (simp add: FLAG_SIZE_def)

lemma of_nat_u32_eq: "i < 2 ^ 32 \<Longrightarrow> j < 2 ^ 32 \<Longrightarrow> (of_nat i :: u32) = of_nat j \<longleftrightarrow> i = j"
  using unat_of_nat_u32 [of i] unat_of_nat_u32 [of j] by (auto simp: word_unat_eq_iff)

lemma next_ptr:
  assumes "0 < nb" "nb < 2 ^ 14"
  shows "(if of_nat (i mod nb) = (of_nat nb - 1 :: u32) then 0 else of_nat (i mod nb) + 1) = (of_nat (Suc i mod nb) :: u32)"
proof -
  have "of_nat nb - 1 = (of_nat (nb - 1) :: u32)" using assms(1) by (simp add: of_nat_diff)
  moreover have "k < 2 ^ 32" if "k < nb" for k using that assms(2) by simp
  then have "(of_nat (i mod nb) :: u32) = of_nat (nb - 1) \<longleftrightarrow> i mod nb = nb - 1"
    using assms(1) by (intro of_nat_u32_eq) auto
  ultimately show ?thesis using assms(1) by (auto simp: mod_Suc)
qed

lemma full_iff:
  assumes "m \<le> l" "l \<le> m + nb" "nb < 2 ^ 14"
  shows "of_nat l - of_nat m = (of_nat nb :: u32) \<longleftrightarrow> l = m + nb"
proof -
  have "of_nat l - of_nat m = (of_nat (l - m) :: u32)" using assms(1) by (simp add: of_nat_diff)
  moreover have "(of_nat (l - m) :: u32) = of_nat nb \<longleftrightarrow> l - m = nb" using assms by (intro of_nat_u32_eq) auto
  ultimately show ?thesis using assms by auto
qed

lemma layout_small:
  assumes "channel_layout bs nb a r c"
  shows "0 < nb" "nb < 2 ^ 14" "Suc bs < 2 ^ 14" "count_at bs nb r < 2 ^ 14" "mirror_at bs a < 2 ^ 14"
    "\<And>i j. j \<le> bs \<Longrightarrow> slot_at bs nb r i + j < 2 ^ 14" "\<And>i j. j \<le> bs \<Longrightarrow> sbuf_at bs a i + j < 2 ^ 14"
proof -
  show pos: "0 < nb" and cnt: "count_at bs nb r < 2 ^ 14" and mir: "mirror_at bs a < 2 ^ 14"
    using assms by (simp_all add: channel_layout_def)
  show "nb < 2 ^ 14" using cnt le_trans [of nb "Suc bs * nb"] by (simp add: count_at_def)
  show "Suc bs < 2 ^ 14" using mir by (simp add: mirror_at_def)
  show "\<And>i j. j \<le> bs \<Longrightarrow> slot_at bs nb r i + j < 2 ^ 14" using slot_bound [OF pos] cnt less_trans by blast
  show "\<And>i j. j \<le> bs \<Longrightarrow> sbuf_at bs a i + j < 2 ^ 14" using sbuf_bound mir less_trans by blast
qed

lemma nbsend_eq:
  assumes "channel_layout bs nb a r c"
  defines "n \<equiv> (sn c)\<lparr>spm := (spm (sn c))(sbuf_at bs a (length (sent c)) + bs := FLAG_VALID)\<rparr>"
  shows "mp_nbsend (sp c) (sn c) =
    (if of_nat (length (sent c)) - spm (sn c) (mirror_at bs a) = (of_nat nb :: u32) \<or> \<not> noc_dma_done (remote (sp c)) (sn c)
     then (False, sp c, n)
     else (True, (sp c)\<lparr>send_count := of_nat (Suc (length (sent c))), send_ptr := of_nat (Suc (length (sent c)) mod nb),
             write_buf := shadow_write_buf (sp c), shadow_write_buf := write_buf (sp c)\<rparr>,
           set_entry (remote (sp c))
             (data_entry DATA_IRQ_PKT_TYPE (slot_at bs nb r (length (sent c))) (sbuf_at bs a (length (sent c))) (Suc bs)) n))"
proof -
  let ?L = "length (sent c)"
  note small = layout_small [OF assms(1)]
  have f: "send_ptr (sp c) = of_nat (?L mod nb)" "send_count (sp c) = of_nat ?L" "num_buf (sp c) = of_nat nb"
    using assms(1) by (simp_all add: channel_layout_def)
  have w: "write_buf (sp c) + buf_size (sp c) = spm_ptr (spm_base (sn c)) (sbuf_at bs a ?L + bs)"
    using assms(1) by (simp add: channel_layout_def)
  have rmt: "recv_addr (sp c) + (buf_size (sp c) + FLAG_SIZE) * send_ptr (sp c) = spm_ptr (spm_base (sn c)) (slot_at bs nb r ?L)"
    using assms(1) by (simp add: channel_layout_def stride_ptr slot_at_def)
  have st: "spm_store (write_buf (sp c) + buf_size (sp c)) FLAG_VALID (sn c) = n"
    unfolding w n_def using small(7) by (simp add: store_ptr)
  have ld: "spm_load (send_recv_count (sp c)) n = spm (sn c) (mirror_at bs a)"
    using assms(1) small(5) sbuf_bound [of bs bs a ?L] by (simp add: channel_layout_def load_ptr n_def)
  have start: "noc_nbwrite (remote (sp c)) (spm_ptr (spm_base (sn c)) (slot_at bs nb r ?L)) (write_buf (sp c)) (buf_size (sp c) + FLAG_SIZE) 1 n =
      (if noc_dma_done (remote (sp c)) (sn c) then (True, set_entry (remote (sp c))
        (data_entry DATA_IRQ_PKT_TYPE (slot_at bs nb r ?L) (sbuf_at bs a ?L) (Suc bs)) n) else (False, n))"
    using nbwrite_data(1) [of "slot_at bs nb r ?L" "sbuf_at bs a ?L" "Suc bs" "remote (sp c)" n] small(6) [of 0 ?L] small(7) [of 0 ?L] small(3) assms(1)
    by (simp add: channel_layout_def stride_size n_def noc_dma_done_def k_noc_dma_done_def del: of_nat_Suc)
  have "(if send_ptr (sp c) = num_buf (sp c) - 1 then 0 else send_ptr (sp c) + 1) = of_nat (Suc ?L mod nb)"
    unfolding f using small(1,2) by (rule next_ptr)
  moreover have "send_count (sp c) + 1 = of_nat (Suc ?L)" by (simp add: f)
  ultimately show ?thesis
    unfolding mp_nbsend_def Let_def st rmt ld start by (simp add: f(2,3) del: of_nat_Suc)
qed

lemma nbrecv_eq:
  assumes "channel_layout bs nb a r c"
  shows "mp_nbrecv (rp c) (rn c) =
    (if spm (rn c) (slot_at bs nb r (length (got c)) + bs) = FLAG_INVALID then (False, rp c, rn c)
     else (True, (rp c)\<lparr>recv_ptr := of_nat (Suc (length (got c)) mod nb), read_buf := spm_ptr (spm_base (sn c)) (slot_at bs nb r (length (got c)))\<rparr>,
       (rn c)\<lparr>spm := (spm (rn c))(slot_at bs nb r (length (got c)) + bs := FLAG_INVALID)\<rparr>))"
proof -
  let ?G = "length (got c)"
  note small = layout_small [OF assms(1)]
  have f: "recv_ptr (rp c) = of_nat (?G mod nb)" "num_buf (rp c) = of_nat nb" "spm_base (rn c) = spm_base (sn c)"
      "buf_size (rp c) = 4 * of_nat bs"
    using assms(1) by (simp_all add: channel_layout_def)
  have addr: "recv_addr (rp c) + (buf_size (rp c) + FLAG_SIZE) * recv_ptr (rp c) = spm_ptr (spm_base (sn c)) (slot_at bs nb r ?G)"
    using assms(1) by (simp add: channel_layout_def stride_ptr slot_at_def)
  have flag: "spm_ptr (spm_base (sn c)) (slot_at bs nb r ?G) + buf_size (rp c) = spm_ptr (spm_base (rn c)) (slot_at bs nb r ?G + bs)"
    by (simp add: f)
  have "(if recv_ptr (rp c) = num_buf (rp c) - 1 then 0 else recv_ptr (rp c) + 1) = of_nat (Suc ?G mod nb)"
    unfolding f using small(1,2) by (rule next_ptr)
  then show ?thesis
    unfolding mp_nbrecv_def Let_def addr flag using small(6) [of bs ?G] by (simp add: load_ptr store_ptr)
qed

lemma nback_eq:
  assumes "channel_layout bs nb a r c"
  shows "mp_nback (rp c) (rn c) =
    (if \<not> noc_dma_done (remote (rp c)) (rn c) then (False, rn c)
     else (True, set_entry (remote (rp c)) (data_entry DATA_IRQ_PKT_TYPE (mirror_at bs a) (count_at bs nb r) 1)
        ((rn c)\<lparr>spm := (spm (rn c))(count_at bs nb r := spm (rn c) (count_at bs nb r) + 1)\<rparr>)))"
proof -
  note small = layout_small [OF assms(1)]
  have f: "send_recv_count (rp c) = spm_ptr (spm_base (rn c)) (mirror_at bs a)" "recv_count (rp c) = spm_ptr (spm_base (rn c)) (count_at bs nb r)"
    using assms(1) by (simp_all add: channel_layout_def)
  let ?n = "(rn c)\<lparr>spm := (spm (rn c))(count_at bs nb r := spm (rn c) (count_at bs nb r) + 1)\<rparr>"
  have "noc_nbwrite (remote (rp c)) (spm_ptr (spm_base (rn c)) (mirror_at bs a)) (spm_ptr (spm_base (rn c)) (count_at bs nb r)) 4 1 ?n =
      (if noc_dma_done (remote (rp c)) (rn c)
       then (True, set_entry (remote (rp c)) (data_entry DATA_IRQ_PKT_TYPE (mirror_at bs a) (count_at bs nb r) 1) ?n) else (False, ?n))"
    using nbwrite_data(1) [of "mirror_at bs a" "count_at bs nb r" 1 "remote (rp c)" ?n] small(4,5)
    by (simp add: noc_dma_done_def k_noc_dma_done_def)
  then show ?thesis unfolding mp_nback_def f using small(4) by (simp add: load_ptr store_ptr)
qed

text \<open>A slot of the network, for a transfer that fits in the scratchpads.\<close>

lemma net_slot_cases:
  assumes "in_order net" "e = dma_entry dma_id n"
    "entry_active e \<longrightarrow> entry_write e + entry_words e \<le> 2 ^ 14 \<and> entry_read e + entry_words e \<le> 2 ^ 14"
  obtains (idle) "\<not> entry_active e" "net_slot net dma_id n m = (n, m)"
  | (moved) k e' where "entry_active e" "k \<le> entry_words e" "entry_active e' \<longleftrightarrow> k < entry_words e"
      "k < entry_words e \<Longrightarrow> entry_words e' = entry_words e - k \<and> entry_read e' = entry_read e + k \<and> entry_write e' = entry_write e + k"
      "net_slot net dma_id n m = (set_entry dma_id e' n, m\<lparr>spm := copy_words k (entry_read e) (entry_write e) (spm n) (spm m)\<rparr>)"
proof (cases "entry_active e")
  case True
  then obtain k where "slot_ok e (spm n) (spm m) (net e (spm n) (spm m)) k"
    using assms(1,3) unfolding in_order_def by blast
  then show ?thesis using moved [of k "fst (net e (spm n) (spm m))"] True assms(2) by (simp add: slot_ok_def net_slot_def Let_def)
next
  case False
  then have "net e (spm n) (spm m) = (e, spm m)" using assms(1) unfolding in_order_def by blast
  then show ?thesis using False assms(2) idle by (simp add: net_slot_def)
qed

subsection \<open>Every step keeps the invariant\<close>

lemmas channel_defs = channel_inv_def channel_layout_def counts_ok_def forward_ok_def backward_ok_def slots_ok_def flags_ok_def Let_def

lemma dma_entry_spm [simp]: "dma_entry dma_id (n\<lparr>spm := f\<rparr>) = dma_entry dma_id n"
  by (simp add: dma_entry_def)

lemma fill_inv:
  assumes "channel_inv bs nb a r D M c"
  shows "channel_inv bs nb a r D M (chan_step net bs (Fill k v) c)"
proof (cases "k < bs")
  case True
  have lay: "channel_layout bs nb a r c" using assms by (simp add: channel_inv_def)
  have "write_buf (sp c) + 4 * of_nat k = spm_ptr (spm_base (sn c)) (sbuf_at bs a (length (sent c)) + k)"
    using lay by (simp add: channel_layout_def)
  then have step: "chan_step net bs (Fill k v) c = c\<lparr>sn := (sn c)\<lparr>spm := (spm (sn c))(sbuf_at bs a (length (sent c)) + k := v)\<rparr>\<rparr>"
    using True layout_small(7) [OF lay, of k "length (sent c)"] by (simp add: chan_step_def store_ptr)
  have "sbuf_at bs a D + j \<noteq> sbuf_at bs a (length (sent c)) + k" if "length (sent c) = Suc D" "j \<le> bs" for j
    using that True by (simp add: sbuf_eq_iff)
  moreover have "mirror_at bs a \<noteq> sbuf_at bs a (length (sent c)) + k" using sbuf_bound [of k bs a "length (sent c)"] True by simp
  ultimately show ?thesis using assms unfolding step by (auto simp: channel_defs)
qed (use assms in \<open>simp add: chan_step_def\<close>)

lemma send_inv:
  assumes "channel_inv bs nb a r D M c"
  shows "channel_inv bs nb a r D M (chan_step net bs Send c)"
proof -
  let ?L = "length (sent c)"
  let ?n = "(sn c)\<lparr>spm := (spm (sn c))(sbuf_at bs a ?L + bs := FLAG_VALID)\<rparr>"
  have lay: "channel_layout bs nb a r c" and cnt: "counts_ok bs nb a r D M c" using assms by (simp_all add: channel_inv_def)
  note small = layout_small [OF lay]
  have mir: "mirror_at bs a \<noteq> sbuf_at bs a ?L + bs" using sbuf_bound [of bs bs a ?L] by simp
  have full: "of_nat ?L - spm (sn c) (mirror_at bs a) = (of_nat nb :: u32) \<longleftrightarrow> ?L = M + nb"
    using cnt small(2) by (subst full_iff [symmetric, of M]) (auto simp: counts_ok_def)
  show ?thesis
  proof (cases "?L = M + nb \<or> \<not> noc_dma_done (remote (sp c)) (sn c)")
    case True
    then have "chan_step net bs Send c = c\<lparr>sn := ?n\<rparr>"
      using nbsend_eq [OF lay] full by (auto simp: chan_step_def)
    moreover have "sbuf_at bs a D + j \<noteq> sbuf_at bs a ?L + bs" if "?L = Suc D" "j \<le> bs" for j
      using that by (simp add: sbuf_eq_iff)
    ultimately show ?thesis using assms mir by (auto simp: channel_defs)
  next
    case False
    have D: "D = ?L" using assms False by (simp add: channel_defs dma_done_entry)
    let ?e = "data_entry DATA_IRQ_PKT_TYPE (slot_at bs nb r ?L) (sbuf_at bs a ?L) (Suc bs)"
    let ?q = "(sp c)\<lparr>send_count := of_nat (Suc ?L), send_ptr := of_nat (Suc ?L mod nb),
             write_buf := shadow_write_buf (sp c), shadow_write_buf := write_buf (sp c)\<rparr>"
    let ?m = "msg_at bs (write_buf (sp c)) (sn c)"
    have step: "chan_step net bs Send c = c\<lparr>sp := ?q, sn := set_entry (remote (sp c)) ?e ?n, sent := sent c @ [?m]\<rparr>"
      using nbsend_eq [OF lay] full False by (simp add: chan_step_def)
    have m: "length ?m = bs" "\<And>j. j < bs \<Longrightarrow> ?m ! j = spm (sn c) (sbuf_at bs a ?L + j)"
      using lay small(7) [of _ ?L] by (auto simp: msg_at_def channel_layout_def load_ptr)
    have e: "entry_active ?e" "entry_write ?e = slot_at bs nb r ?L" "entry_read ?e = sbuf_at bs a ?L" "entry_words ?e = Suc bs"
      using data_entry_fields [of "slot_at bs nb r ?L" "sbuf_at bs a ?L" "Suc bs"] small(3) small(6) [of 0 ?L] small(7) [of 0 ?L] by simp_all
    have "channel_layout bs nb a r (chan_step net bs Send c)"
      using lay unfolding step by (auto simp: channel_layout_def sbuf_at_def)
    moreover have "counts_ok bs nb a r D M (chan_step net bs Send c)"
      using cnt D False mir m(1) unfolding step by (auto simp: counts_ok_def)
    moreover have "forward_ok bs nb a r D (chan_step net bs Send c)"
      using D e m unfolding step by (auto simp: forward_ok_def nth_append)
    moreover have "backward_ok bs nb a r M (chan_step net bs Send c)" "flags_ok bs nb r D (chan_step net bs Send c)"
      "slots_ok bs nb r D (chan_step net bs Send c)"
      using assms D unfolding step by (auto simp: channel_defs nth_append)
    ultimately show ?thesis by (simp add: channel_inv_def)
  qed
qed

text \<open>Buffers of messages that are in the queue at the same time are different.\<close>

lemma slot_distinct:
  assumes "counts_ok bs nb a r D M c" "M \<le> i" "i < M + nb" "M \<le> l" "l < M + nb" "j \<le> bs" "k \<le> bs"
  shows "slot_at bs nb r i + j = slot_at bs nb r l + k \<longleftrightarrow> i = l \<and> j = k"
  using assms ring_inj [of M i nb l] by (auto simp: slot_eq_iff)

lemma flag_at:
  assumes "channel_inv bs nb a r D M c"
  shows "spm (rn c) (slot_at bs nb r (length (got c)) + bs) = (if length (got c) < D then FLAG_VALID else FLAG_INVALID)"
proof -
  let ?G = "length (got c)"
  have "0 < nb" using assms by (simp add: channel_defs)
  then have "?G mod nb < nb" by simp
  moreover have "?G < D" if "?G \<le> i" "i < D" for i using that by simp
  ultimately show ?thesis using assms unfolding channel_inv_def flags_ok_def slot_at_def by auto
qed

lemma flags_differ: "FLAG_VALID \<noteq> FLAG_INVALID"
  by (simp add: FLAG_VALID_def FLAG_INVALID_def)

lemma recv_inv:
  assumes "channel_inv bs nb a r D M c"
  shows "channel_inv bs nb a r D M (chan_step net bs Recv c)"
proof (cases "length (got c) < D")
  case False
  then show ?thesis
    using assms nbrecv_eq [of bs nb a r c] flag_at [OF assms] by (simp add: channel_inv_def chan_step_def)
next
  case True
  let ?G = "length (got c)"
  let ?q = "(rp c)\<lparr>recv_ptr := of_nat (Suc ?G mod nb), read_buf := spm_ptr (spm_base (sn c)) (slot_at bs nb r ?G)\<rparr>"
  let ?n = "(rn c)\<lparr>spm := (spm (rn c))(slot_at bs nb r ?G + bs := FLAG_INVALID)\<rparr>"
  let ?m = "msg_at bs (spm_ptr (spm_base (sn c)) (slot_at bs nb r ?G)) ?n"
  have lay: "channel_layout bs nb a r c" and cnt: "counts_ok bs nb a r D M c" and slots: "slots_ok bs nb r D c"
    using assms by (simp_all add: channel_inv_def)
  note small = layout_small [OF lay]
  have step: "chan_step net bs Recv c = c\<lparr>rp := ?q, rn := ?n, got := got c @ [?m]\<rparr>"
    using nbrecv_eq [OF lay] flag_at [OF assms] True flags_differ by (simp add: chan_step_def)
  have data: "slot_at bs nb r i + j \<noteq> slot_at bs nb r ?G + bs" if "j < bs" for i j using that by (simp add: slot_eq_iff)
  have "?m ! j = sent c ! ?G ! j" if "j < bs" for j
    using that lay slots cnt True small(6) [of j ?G] data [OF that]
    by (auto simp: msg_at_def load_ptr channel_layout_def slots_ok_def counts_ok_def)
  moreover have "length (sent c ! ?G) = bs" using cnt True by (auto simp: counts_ok_def)
  ultimately have m: "?m = sent c ! ?G" by (intro nth_equalityI) (auto simp: msg_at_def)
  have count: "count_at bs nb r \<noteq> slot_at bs nb r ?G + bs" using slot_bound [OF small(1), of bs bs r ?G] by simp
  have flag: "r + Suc bs * s + bs = slot_at bs nb r ?G + bs \<longleftrightarrow> s = ?G mod nb" for s
    using stride_inj [of bs s bs "?G mod nb" bs] by (auto simp: slot_at_def)
  have rest: "(\<exists>i. ?G \<le> i \<and> i < D \<and> i mod nb = s) \<longleftrightarrow> (\<exists>i. Suc ?G \<le> i \<and> i < D \<and> i mod nb = s)" if "s \<noteq> ?G mod nb" for s
    using that Suc_leI le_neq_implies_less by (metis Suc_leD)
  have gone: "i mod nb \<noteq> ?G mod nb" if "Suc ?G \<le> i" "i < D" for i
    using that cnt True ring_inj [of M i nb ?G] by (auto simp: counts_ok_def)
  have "got c @ [?m] = take (Suc ?G) (sent c)"
    unfolding m using cnt True by (simp add: counts_ok_def take_Suc_conv_app_nth)
  then have "counts_ok bs nb a r D M (chan_step net bs Recv c)"
    using cnt True count unfolding step by (simp add: counts_ok_def)
  moreover have "flags_ok bs nb r D (chan_step net bs Recv c)"
    using assms flag rest gone unfolding step channel_inv_def flags_ok_def by auto
  moreover have "slots_ok bs nb r D (chan_step net bs Recv c)"
    using slots data unfolding step by (simp add: slots_ok_def)
  moreover have "forward_ok bs nb a r D (chan_step net bs Recv c)"
    using assms data unfolding step by (auto simp: channel_inv_def forward_ok_def Let_def)
  moreover have "channel_layout bs nb a r (chan_step net bs Recv c)" "backward_ok bs nb a r M (chan_step net bs Recv c)"
    using assms unfolding step by (auto simp: channel_inv_def channel_layout_def backward_ok_def)
  ultimately show ?thesis by (simp add: channel_inv_def)
qed

lemma ack_inv:
  assumes "channel_inv bs nb a r D M c"
  shows "channel_inv bs nb a r D M (chan_step net bs Ack c)"
proof (cases "acked c < length (got c) \<and> noc_dma_done (remote (rp c)) (rn c)")
  case False
  then show ?thesis using assms nback_eq [of bs nb a r c] by (auto simp: channel_inv_def chan_step_def)
next
  case True
  let ?n = "(rn c)\<lparr>spm := (spm (rn c))(count_at bs nb r := spm (rn c) (count_at bs nb r) + 1)\<rparr>"
  let ?e = "data_entry DATA_IRQ_PKT_TYPE (mirror_at bs a) (count_at bs nb r) 1"
  have lay: "channel_layout bs nb a r c" using assms by (simp add: channel_inv_def)
  note small = layout_small [OF lay]
  have step: "chan_step net bs Ack c = c\<lparr>rn := set_entry (remote (rp c)) ?e ?n, acked := Suc (acked c)\<rparr>"
    using nback_eq [OF lay] True by (simp add: chan_step_def)
  have e: "entry_active ?e" "entry_write ?e = mirror_at bs a" "entry_read ?e = count_at bs nb r" "entry_words ?e = 1"
    using data_entry_fields [of "mirror_at bs a" "count_at bs nb r" 1] small(4,5) by simp_all
  have data: "slot_at bs nb r i + j \<noteq> count_at bs nb r" if "j \<le> bs" for i j using slot_bound [OF small(1) that, of r i] by simp
  have flag: "r + Suc bs * s + bs \<noteq> count_at bs nb r" if "s < nb" for s
    using stride_bound [OF that, of bs bs] by (simp add: count_at_def)
  have "counts_ok bs nb a r D M (chan_step net bs Ack c)"
    using assms True unfolding step by (auto simp: channel_inv_def counts_ok_def add.commute)
  moreover have "flags_ok bs nb r D (chan_step net bs Ack c)" "slots_ok bs nb r D (chan_step net bs Ack c)"
    using assms data flag unfolding step by (simp_all add: channel_inv_def flags_ok_def slots_ok_def)
  moreover have "forward_ok bs nb a r D (chan_step net bs Ack c)" "backward_ok bs nb a r M (chan_step net bs Ack c)"
    "channel_layout bs nb a r (chan_step net bs Ack c)"
    using assms data e unfolding step by (auto simp: channel_inv_def forward_ok_def backward_ok_def channel_layout_def Let_def)
  ultimately show ?thesis by (simp add: channel_inv_def)
qed

lemma copied_slot:
  assumes "k + l \<le> Suc bs" "j \<le> bs"
  shows "copy_words l origin (slot_at bs nb r D + k) src dst (slot_at bs nb r i + j) =
    (if i mod nb = D mod nb \<and> k \<le> j \<and> j < k + l then src (origin + (j - k)) else dst (slot_at bs nb r i + j))"
proof (cases "slot_at bs nb r D + k \<le> slot_at bs nb r i + j \<and> slot_at bs nb r i + j < slot_at bs nb r D + k + l")
  case True
  define m where "m = slot_at bs nb r i + j - slot_at bs nb r D"
  have eq: "slot_at bs nb r i + j = slot_at bs nb r D + m" and m: "k \<le> m" "m < k + l" using True by (auto simp: m_def)
  then have "i mod nb = D mod nb \<and> j = m" using assms slot_eq_iff [of j bs m nb r i D] by simp
  then show ?thesis using True m by (simp add: copy_words_def slot_at_def)
next
  case False
  then show ?thesis by (auto simp: copy_words_def slot_at_def)
qed

text \<open>The buffers of the receiver after \<open>l\<close> words of message \<open>D\<close> have arrived.\<close>

lemma forward_words:
  assumes inv: "channel_inv bs nb a r D M c" and act: "entry_active (dma_entry (remote (sp c)) (sn c))"
    and k: "k \<le> bs" "k + l \<le> Suc bs"
  defines "f \<equiv> copy_words l (sbuf_at bs a D + k) (slot_at bs nb r D + k) (spm (sn c)) (spm (rn c))"
  shows "\<And>i j. acked c \<le> i \<Longrightarrow> i < D \<Longrightarrow> j < bs \<Longrightarrow> f (slot_at bs nb r i + j) = sent c ! i ! j"
    and "\<And>s. s < nb \<Longrightarrow> f (r + Suc bs * s + bs) =
        (if s = D mod nb \<and> k + l = Suc bs then FLAG_VALID else spm (rn c) (r + Suc bs * s + bs))"
    and "\<And>j. j < k + l \<Longrightarrow> j < bs \<Longrightarrow> (\<And>j. j < k \<Longrightarrow> spm (rn c) (slot_at bs nb r D + j) = sent c ! D ! j) \<Longrightarrow>
        f (slot_at bs nb r D + j) = sent c ! D ! j"
    and "f (count_at bs nb r) = spm (rn c) (count_at bs nb r)"
proof -
  have cnt: "counts_ok bs nb a r D M c" and L: "length (sent c) = Suc D" and nb: "0 < nb"
    and src: "\<And>j. j < bs \<Longrightarrow> spm (sn c) (sbuf_at bs a D + j) = sent c ! D ! j" "spm (sn c) (sbuf_at bs a D + bs) = FLAG_VALID"
    and slots: "\<And>i j. acked c \<le> i \<Longrightarrow> i < D \<Longrightarrow> j < bs \<Longrightarrow> spm (rn c) (slot_at bs nb r i + j) = sent c ! i ! j"
    using inv act by (auto simp: channel_defs)
  note f_slot = copied_slot [OF k(2), of _ "sbuf_at bs a D + k" nb r D "spm (sn c)" "spm (rn c)", folded f_def]
  have other: "i mod nb \<noteq> D mod nb" if "acked c \<le> i" "i < D" for i
    using that cnt L ring_inj [of M i nb D] by (auto simp: counts_ok_def)
  show "f (slot_at bs nb r i + j) = sent c ! i ! j" if "acked c \<le> i" "i < D" "j < bs" for i j
    using that f_slot [of j i] slots other by simp
  show "f (r + Suc bs * s + bs) = (if s = D mod nb \<and> k + l = Suc bs then FLAG_VALID else spm (rn c) (r + Suc bs * s + bs))"
    if "s < nb" for s
    using that f_slot [of bs s] src(2) k by (auto simp: slot_at_def)
  show "f (slot_at bs nb r D + j) = sent c ! D ! j"
    if "j < k + l" "j < bs" "\<And>j. j < k \<Longrightarrow> spm (rn c) (slot_at bs nb r D + j) = sent c ! D ! j" for j
    using that f_slot [of j D] src(1) by auto
  show "f (count_at bs nb r) = spm (rn c) (count_at bs nb r)"
    using slot_bound [OF nb, of bs bs r D] k by (auto simp: f_def copy_words_def)
qed

lemma forward_inv:
  assumes "channel_inv bs nb a r D M c" "in_order net"
  shows "\<exists>D. channel_inv bs nb a r D M (chan_step net bs Forward c)"
proof -
  let ?e = "dma_entry (remote (sp c)) (sn c)"
  have lay: "channel_layout bs nb a r c" and cnt: "counts_ok bs nb a r D M c" using assms by (simp_all add: channel_inv_def)
  note small = layout_small [OF lay]
  have act: "\<exists>k\<le>bs. entry_write ?e = slot_at bs nb r D + k \<and> entry_read ?e = sbuf_at bs a D + k \<and> entry_words ?e = Suc bs - k \<and>
      (\<forall>j<k. spm (rn c) (slot_at bs nb r D + j) = sent c ! D ! j)" "length (sent c) = Suc D" if "entry_active ?e"
    using assms(1) that by (auto simp: channel_inv_def forward_ok_def Let_def)
  have fits: "entry_active ?e \<longrightarrow> entry_write ?e + entry_words ?e \<le> 2 ^ 14 \<and> entry_read ?e + entry_words ?e \<le> 2 ^ 14"
    using act(1) small(6) [of bs D] small(7) [of bs D] by auto
  from assms(2) refl fits show ?thesis
  proof (cases rule: net_slot_cases [where m = "rn c"])
    case idle
    then show ?thesis using assms(1) by (auto simp: chan_step_def)
  next
    case (moved l e')
    obtain k where k: "k \<le> bs" "entry_write ?e = slot_at bs nb r D + k" "entry_read ?e = sbuf_at bs a D + k" "entry_words ?e = Suc bs - k"
      "\<And>j. j < k \<Longrightarrow> spm (rn c) (slot_at bs nb r D + j) = sent c ! D ! j" and L: "length (sent c) = Suc D"
      using act moved(1) by blast
    define f where "f = copy_words l (sbuf_at bs a D + k) (slot_at bs nb r D + k) (spm (sn c)) (spm (rn c))"
    have step: "chan_step net bs Forward c = c\<lparr>sn := set_entry (remote (sp c)) e' (sn c), rn := (rn c)\<lparr>spm := f\<rparr>\<rparr>"
      using moved(5) k(2,3) by (simp add: chan_step_def f_def)
    have "k + l \<le> Suc bs" using moved(2) k(1,4) by auto
    note w = forward_words [OF assms(1) moved(1) k(1) this, folded f_def]
    have same: "channel_layout bs nb a r (chan_step net bs Forward c)" "backward_ok bs nb a r M (chan_step net bs Forward c)"
      using assms(1) unfolding step by (auto simp: channel_inv_def channel_layout_def backward_ok_def)
    show ?thesis
    proof (cases "l < entry_words ?e")
      case True
      then have e': "entry_active e'" "k + l \<le> bs" "entry_words e' = Suc bs - (k + l)" "entry_read e' = sbuf_at bs a D + (k + l)"
          "entry_write e' = slot_at bs nb r D + (k + l)"
        using moved(3) moved(4) k by auto
      have "forward_ok bs nb a r D (chan_step net bs Forward c)"
        using assms(1) moved(1) e' w(3) k(5) unfolding step by (auto simp: channel_inv_def forward_ok_def Let_def)
      moreover have "counts_ok bs nb a r D M (chan_step net bs Forward c)" "slots_ok bs nb r D (chan_step net bs Forward c)"
        using cnt w(1,4) unfolding step by (auto simp: counts_ok_def slots_ok_def)
      moreover have "flags_ok bs nb r D (chan_step net bs Forward c)"
        using assms(1) w(2) e'(2) unfolding step by (simp add: channel_inv_def flags_ok_def)
      ultimately show ?thesis using same by (auto simp: channel_inv_def)
    next
      case False
      then have e': "\<not> entry_active e'" and kl: "k + l = Suc bs" using moved(2,3) k(1,4) by auto
      have "forward_ok bs nb a r (Suc D) (chan_step net bs Forward c)" using L e' unfolding step by (simp add: forward_ok_def)
      moreover have "counts_ok bs nb a r (Suc D) M (chan_step net bs Forward c)"
        using cnt L w(4) unfolding step by (auto simp: counts_ok_def)
      moreover have "slots_ok bs nb r (Suc D) (chan_step net bs Forward c)"
        using w(1,3) k(5) kl unfolding step by (auto simp: slots_ok_def less_Suc_eq)
      moreover have "(\<exists>i. length (got c) \<le> i \<and> i < Suc D \<and> i mod nb = s) \<longleftrightarrow>
          s = D mod nb \<or> (\<exists>i. length (got c) \<le> i \<and> i < D \<and> i mod nb = s)" for s
        using cnt by (auto simp: less_Suc_eq counts_ok_def)
      then have "flags_ok bs nb r (Suc D) (chan_step net bs Forward c)"
        using assms(1) w(2) kl unfolding step by (auto simp: channel_inv_def flags_ok_def)
      ultimately show ?thesis using same by (auto simp: channel_inv_def)
    qed
  qed
qed

lemma backward_inv:
  assumes "channel_inv bs nb a r D M c" "in_order net"
  shows "\<exists>M. channel_inv bs nb a r D M (chan_step net bs Backward c)"
proof -
  let ?e = "dma_entry (remote (rp c)) (rn c)"
  have lay: "channel_layout bs nb a r c" and cnt: "counts_ok bs nb a r D M c" using assms by (simp_all add: channel_inv_def)
  note small = layout_small [OF lay]
  have act: "entry_write ?e = mirror_at bs a" "entry_read ?e = count_at bs nb r" "entry_words ?e = 1" if "entry_active ?e"
    using assms(1) that by (auto simp: channel_inv_def backward_ok_def Let_def)
  have fits: "entry_active ?e \<longrightarrow> entry_write ?e + entry_words ?e \<le> 2 ^ 14 \<and> entry_read ?e + entry_words ?e \<le> 2 ^ 14"
    using act small(4,5) by auto
  from assms(2) refl fits show ?thesis
  proof (cases rule: net_slot_cases [where m = "sn c"])
    case idle
    then show ?thesis using assms(1) by (auto simp: chan_step_def)
  next
    case (moved l e')
    define f where "f = copy_words l (count_at bs nb r) (mirror_at bs a) (spm (rn c)) (spm (sn c))"
    have step: "chan_step net bs Backward c = c\<lparr>rn := set_entry (remote (rp c)) e' (rn c), sn := (sn c)\<lparr>spm := f\<rparr>\<rparr>"
      using moved(5) act [OF moved(1)] by (simp add: chan_step_def f_def)
    have keep: "f (sbuf_at bs a i + j) = spm (sn c) (sbuf_at bs a i + j)" if "j \<le> bs" for i j
      using sbuf_bound [OF that, of a i] by (simp add: f_def copy_words_def)
    have mir: "f (mirror_at bs a) = (if l = 0 then spm (sn c) (mirror_at bs a) else spm (rn c) (count_at bs nb r))"
      by (simp add: f_def copy_words_def)
    have l: "l = 0 \<or> l = 1" using moved(2) act(3) [OF moved(1)] by auto
    have "channel_inv bs nb a r D (if l = 0 then M else acked c) (chan_step net bs Backward c)"
    proof -
      have "forward_ok bs nb a r D (chan_step net bs Backward c)"
        using assms(1) keep unfolding step by (auto simp: channel_inv_def forward_ok_def Let_def)
      moreover have "backward_ok bs nb a r (if l = 0 then M else acked c) (chan_step net bs Backward c)"
        using moved(3,4) act [OF moved(1)] l unfolding step by (auto simp: backward_ok_def)
      moreover have "counts_ok bs nb a r D (if l = 0 then M else acked c) (chan_step net bs Backward c)"
        using cnt mir unfolding step by (auto simp: counts_ok_def)
      moreover have "channel_layout bs nb a r (chan_step net bs Backward c)" "slots_ok bs nb r D (chan_step net bs Backward c)"
        "flags_ok bs nb r D (chan_step net bs Backward c)"
        using assms(1) unfolding step by (auto simp: channel_inv_def channel_layout_def slots_ok_def flags_ok_def)
      ultimately show ?thesis by (simp add: channel_inv_def)
    qed
    then show ?thesis by blast
  qed
qed

section \<open>A channel is a queue\<close>

definition connected :: "nat \<Rightarrow> nat \<Rightarrow> nat \<Rightarrow> nat \<Rightarrow> chan \<Rightarrow> bool" where
  "connected bs nb a r c \<longleftrightarrow> channel_layout bs nb a r c \<and> sent c = [] \<and> got c = [] \<and> acked c = 0 \<and>
     spm (sn c) (mirror_at bs a) = 0 \<and> spm (rn c) (count_at bs nb r) = 0 \<and> (\<forall>s<nb. spm (rn c) (r + Suc bs * s + bs) = FLAG_INVALID) \<and>
     noc_dma_done (remote (sp c)) (sn c) \<and> noc_dma_done (remote (rp c)) (rn c)"

lemma connected_inv: "connected bs nb a r c \<Longrightarrow> channel_inv bs nb a r 0 0 c"
  by (auto simp: connected_def channel_inv_def counts_ok_def forward_ok_def backward_ok_def slots_ok_def flags_ok_def dma_done_entry)

lemma step_inv:
  assumes "channel_inv bs nb a r D M c" "in_order net"
  shows "\<exists>D M. channel_inv bs nb a r D M (chan_step net bs op c)"
proof (cases op)
  case Forward
  then show ?thesis using forward_inv [OF assms] by blast
next
  case Backward
  then show ?thesis using backward_inv [OF assms] by blast
qed (use fill_inv [OF assms(1)] send_inv [OF assms(1)] recv_inv [OF assms(1)] ack_inv [OF assms(1)] in blast)+

lemma run_inv:
  "in_order net \<Longrightarrow> channel_inv bs nb a r D M c \<Longrightarrow> \<exists>D M. channel_inv bs nb a r D M (fold (chan_step net bs) ops c)"
  by (induction ops arbitrary: c D M) (simp, blast, simp, metis step_inv)

text \<open>C1: for every network that delivers words in order, and however sends, receives, acknowledgements and the slots of the network
  interleave, the messages are received in the order in which they were sent, unchanged; never more than the number of
  buffers are unacknowledged, and a message that was received stays in its buffer until it is acknowledged.  When no transfer is
  under way, a send is refused exactly when all buffers are in use, and a receive succeeds exactly when there is a message.\<close>

theorem queue_port_fifo:
  assumes "in_order net" "connected bs nb a r c0" "c = fold (chan_step net bs) ops c0"
  shows "got c = take (length (got c)) (sent c) \<and> length (sent c) \<le> acked c + nb \<and>
    (\<forall>i. acked c \<le> i \<and> i < length (got c) \<longrightarrow> map (\<lambda>j. spm (rn c) (slot_at bs nb r i + j)) [0..<bs] = sent c ! i) \<and>
    (noc_dma_done (remote (sp c)) (sn c) \<and> noc_dma_done (remote (rp c)) (rn c) \<longrightarrow>
       (fst (mp_nbsend (sp c) (sn c)) \<longleftrightarrow> length (sent c) < acked c + nb) \<and>
       (fst (mp_nbrecv (rp c) (rn c)) \<longleftrightarrow> length (got c) < length (sent c)))"
proof -
  obtain D M where inv: "channel_inv bs nb a r D M c"
    using run_inv [OF assms(1) connected_inv [OF assms(2)]] assms(3) by blast
  have lay: "channel_layout bs nb a r c" and cnt: "counts_ok bs nb a r D M c" and slots: "slots_ok bs nb r D c"
    using inv by (simp_all add: channel_inv_def)
  have "map (\<lambda>j. spm (rn c) (slot_at bs nb r i + j)) [0..<bs] = sent c ! i" if "acked c \<le> i" "i < length (got c)" for i
    using that slots cnt by (intro nth_equalityI) (auto simp: slots_ok_def counts_ok_def)
  moreover have "fst (mp_nbsend (sp c) (sn c)) \<longleftrightarrow> length (sent c) < acked c + nb" and
      "fst (mp_nbrecv (rp c) (rn c)) \<longleftrightarrow> length (got c) < length (sent c)"
    if "noc_dma_done (remote (sp c)) (sn c)" "noc_dma_done (remote (rp c)) (rn c)"
  proof -
    have idle: "D = length (sent c)" "M = acked c" using inv that by (auto simp: channel_defs dma_done_entry)
    have "of_nat (length (sent c)) - spm (sn c) (mirror_at bs a) = (of_nat nb :: u32) \<longleftrightarrow> length (sent c) = M + nb"
      using cnt layout_small(2) [OF lay] by (subst full_iff [symmetric, of M]) (auto simp: counts_ok_def)
    then show "fst (mp_nbsend (sp c) (sn c)) \<longleftrightarrow> length (sent c) < acked c + nb"
      using nbsend_eq [OF lay] that(1) idle cnt by (auto simp: counts_ok_def)
    show "fst (mp_nbrecv (rp c) (rn c)) \<longleftrightarrow> length (got c) < length (sent c)"
      using nbrecv_eq [OF lay] flag_at [OF inv] idle flags_differ by simp
  qed
  ultimately show ?thesis using cnt by (auto simp: counts_ok_def)
qed

section \<open>Creating a channel\<close>

text \<open>A core whose allocator stands at word \<open>w\<close> of a scratchpad of \<open>sz\<close> words.\<close>

definition core_ready :: "nat \<Rightarrow> nat \<Rightarrow> 'a core_scheme \<Rightarrow> bool" where
  "core_ready w sz c \<longleftrightarrow> spm_alloc c = spm_ptr (spm_base c) w \<and> spm_size c = 4 * of_nat sz \<and> sz \<le> 2 ^ 14 \<and>
     0 < unat (spm_base c) \<and> unat (spm_base c) + 2 ^ 18 < 2 ^ 32"

lemma unat_spm_ptr: "unat b + 4 * w < 2 ^ 32 \<Longrightarrow> unat (spm_ptr b w) = unat b + 4 * w"
  using unat_of_nat_u32 [of "unat b + 4 * w"] by (simp add: spm_ptr_def)

lemma WALIGN_bytes: "m + 3 < 2 ^ 32 \<Longrightarrow> WALIGN (of_nat m) = 4 * of_nat ((m + 3) div 4)"
proof -
  assume m: "m + 3 < 2 ^ 32"
  have "unat (of_nat m + 3 :: u32) = m + 3" using unat_of_nat_u32 [OF m] by simp
  then have "unat (drop_bit 2 (of_nat m + 3 :: u32)) = (m + 3) div 4"
    by (simp only: unat_drop_bit_eq) (simp add: drop_bit_eq_div)
  then have "drop_bit 2 (of_nat m + 3 :: u32) = of_nat ((m + 3) div 4)" by (metis of_nat_unat ucast_id)
  then show ?thesis unfolding WALIGN_def and_not_3 by (simp add: push_bit_eq_mult)
qed

lemma WALIGN_words: "k < 2 ^ 28 \<Longrightarrow> WALIGN (4 * of_nat k) = 4 * of_nat k"
  using WALIGN_bytes [of "4 * k"] by (simp add: div_add_self1)

lemma mp_alloc_ready:
  assumes "core_ready w sz c" "w + k \<le> sz"
  shows "mp_alloc (4 * of_nat k) c = (spm_ptr (spm_base c) w, c\<lparr>spm_alloc := spm_ptr (spm_base c) (w + k)\<rparr>)"
    "spm_ptr (spm_base c) w \<noteq> 0"
proof -
  have c: "spm_alloc c = spm_ptr (spm_base c) w" "spm_size c = 4 * of_nat sz" "sz \<le> 2 ^ 14" "0 < unat (spm_base c)"
      "unat (spm_base c) + 2 ^ 18 < 2 ^ 32" using assms(1) by (simp_all add: core_ready_def)
  have "spm_base c + 4 * spm_size c = spm_ptr (spm_base c) (4 * sz)" by (simp add: c(2) spm_ptr_def)
  moreover have "unat (spm_ptr (spm_base c) i) = unat (spm_base c) + 4 * i" if "i \<le> 4 * sz" for i
    using c(3,5) that by (intro unat_spm_ptr) simp
  then have u: "unat (spm_ptr (spm_base c) w) = unat (spm_base c) + 4 * w" "unat (spm_ptr (spm_base c) (w + k)) = unat (spm_base c) + 4 * (w + k)"
      "unat (spm_ptr (spm_base c) (4 * sz)) = unat (spm_base c) + 4 * (4 * sz)"
    using assms(2) by simp_all
  moreover have "WALIGN (4 * of_nat k) = 4 * of_nat k" using assms(2) c(3) by (intro WALIGN_words) simp
  ultimately show "mp_alloc (4 * of_nat k) c = (spm_ptr (spm_base c) w, c\<lparr>spm_alloc := spm_ptr (spm_base c) (w + k)\<rparr>)"
    using assms(2) by (simp add: mp_alloc_def c(1) word_less_nat_alt)
  show "spm_ptr (spm_base c) w \<noteq> 0" using u(1) c(4) by (metis add_eq_0_iff_both_eq_0 neq0_conv unat_0)
qed

lemma clear_flags_eq:
  assumes "count_at bs nb r < 2 ^ 14" "i \<le> nb"
  shows "clear_flags (spm_ptr (spm_base c) r) (4 * of_nat bs + FLAG_SIZE) (4 * of_nat bs) i c =
    c\<lparr>spm := (\<lambda>x. if \<exists>s<i. x = r + Suc bs * s + bs then 0 else spm c x)\<rparr>"
  using assms(2)
proof (induction i)
  case (Suc i)
  have "r + Suc bs * i + bs < 2 ^ 14" using stride_bound [of i nb bs bs] Suc.prems assms(1) by (simp add: count_at_def)
  moreover have "spm_ptr (spm_base c) r + (4 * of_nat bs + FLAG_SIZE) * of_nat i + 4 * of_nat bs =
      spm_ptr (spm_base c) (r + Suc bs * i + bs)"
    by (simp only: stride_ptr spm_ptr_add)
  moreover have "(\<lambda>x. if \<exists>s<i. x = r + Suc bs * s + bs then 0 else spm c x)(r + Suc bs * i + bs := 0) =
      (\<lambda>x. if \<exists>s<Suc i. x = r + Suc bs * s + bs then 0 else spm c x)"
    by (auto simp: fun_eq_iff less_Suc_eq)
  ultimately show ?case using Suc by (simp add: store_ptr del: spm_ptr_add)
qed simp

lemma create_source_eq:
  assumes "core_ready w sz c" "buf_size (qpds c p) = 4 * of_nat bs" "w + 2 * Suc bs + 1 \<le> sz"
  shows "create_source sc p i c = (p, i\<lparr>src_qpd_ptr := p, src_addr := spm_ptr (spm_base c) (mirror_at bs w), src_id := to_char sc (cpuid c)\<rparr>,
    c\<lparr>spm_alloc := spm_ptr (spm_base c) (mirror_at bs w + 1), spm := (spm c)(mirror_at bs w := 0),
      qpds := (qpds c)(p := (qpds c p)\<lparr>send_recv_count := spm_ptr (spm_base c) (mirror_at bs w), send_count := 0, send_ptr := 0,
        write_buf := spm_ptr (spm_base c) w, shadow_write_buf := spm_ptr (spm_base c) (w + Suc bs)\<rparr>)\<rparr>)"
proof -
  have sz: "mp_send_alloc_size (qpds c p) = 4 * of_nat (2 * Suc bs + 1)"
    using WALIGN_words [of 1] by (simp add: mp_send_alloc_size_def assms(2) FLAG_SIZE_def algebra_simps)
  have al: "mp_alloc (4 * of_nat (2 * Suc bs + 1)) c = (spm_ptr (spm_base c) w, c\<lparr>spm_alloc := spm_ptr (spm_base c) (w + (2 * Suc bs + 1))\<rparr>)"
      "spm_ptr (spm_base c) w \<noteq> 0"
    using mp_alloc_ready [OF assms(1), of "2 * Suc bs + 1"] assms(3) by auto
  have cnt: "spm_ptr (spm_base c) w + (buf_size (qpds c p) + FLAG_SIZE) * 2 = spm_ptr (spm_base c) (mirror_at bs w)"
    using stride_ptr [of "spm_base c" w bs 2] by (simp add: assms(2) mirror_at_def mult.commute)
  have sh: "spm_ptr (spm_base c) w + (buf_size (qpds c p) + FLAG_SIZE) = spm_ptr (spm_base c) (w + Suc bs)"
    using stride_ptr [of "spm_base c" w bs 1] by (simp add: assms(2))
  have "mirror_at bs w < 2 ^ 14" using assms(1,3) by (simp add: core_ready_def mirror_at_def)
  then show ?thesis
    unfolding create_source_def sz al(1) using al(2)
    by (simp add: Let_def cnt sh set_port_def store_ptr mirror_at_def del: of_nat_Suc distrib_right_numeral)
qed

lemma create_sink_eq:
  assumes "core_ready w sz c" "buf_size (qpds c p) = 4 * of_nat bs" "num_buf (qpds c p) = of_nat nb" "w + Suc bs * nb + 1 \<le> sz"
  shows "create_sink sc p i c = (p, i\<lparr>sink_qpd_ptr := p, sink_addr := spm_ptr (spm_base c) w, sink_id := to_char sc (cpuid c)\<rparr>,
    c\<lparr>spm_alloc := spm_ptr (spm_base c) (count_at bs nb w + 1),
      spm := (\<lambda>x. if \<exists>s<nb. x = w + Suc bs * s + bs then 0 else ((spm c)(count_at bs nb w := 0)) x),
      qpds := (qpds c)(p := (qpds c p)\<lparr>recv_addr := spm_ptr (spm_base c) w, read_buf := spm_ptr (spm_base c) w,
        recv_ptr := 0, recv_count := spm_ptr (spm_base c) (count_at bs nb w)\<rparr>)\<rparr>)"
proof -
  have sz: "mp_recv_alloc_size (qpds c p) = 4 * of_nat (Suc bs * nb + 1)"
    using WALIGN_words [of 1] by (simp add: mp_recv_alloc_size_def assms(2,3) FLAG_SIZE_def algebra_simps)
  have al: "mp_alloc (4 * of_nat (Suc bs * nb + 1)) c = (spm_ptr (spm_base c) w, c\<lparr>spm_alloc := spm_ptr (spm_base c) (w + (Suc bs * nb + 1))\<rparr>)"
      "spm_ptr (spm_base c) w \<noteq> 0"
    using mp_alloc_ready [OF assms(1), of "Suc bs * nb + 1"] assms(4) by auto
  have cnt: "spm_ptr (spm_base c) w + (4 * of_nat bs + FLAG_SIZE) * of_nat nb = spm_ptr (spm_base c) (count_at bs nb w)"
    using stride_ptr [of "spm_base c" w bs nb] by (simp add: count_at_def)
  have small: "count_at bs nb w < 2 ^ 14" using assms(1,4) by (simp add: core_ready_def count_at_def)
  then have "nb < 2 ^ 32" using le_trans [of nb "Suc bs * nb"] by (simp add: count_at_def)
  then have "unat (of_nat nb :: u32) = nb" by (rule unat_of_nat_u32)
  moreover have "clear_flags (spm_ptr (spm_base c) w) (4 * of_nat bs + FLAG_SIZE) (4 * of_nat bs) nb (c\<lparr>spm_alloc := x, qpds := y, spm := z\<rparr>) =
      c\<lparr>spm_alloc := x, qpds := y, spm := (\<lambda>x. if \<exists>s<nb. x = w + Suc bs * s + bs then 0 else z x)\<rparr>" for x y z
    using clear_flags_eq [OF small le_refl, of "c\<lparr>spm_alloc := x, qpds := y, spm := z\<rparr>"] by (simp cong: if_cong)
  ultimately show ?thesis
    unfolding create_sink_def sz al(1) using al(2) small by (simp add: Let_def set_port_def store_ptr assms(2,3) cnt del: of_nat_Suc)
      (simp add: count_at_def)
qed

lemma ten_words: "core_ready w sz c \<Longrightarrow> w + 10 \<le> sz \<Longrightarrow>
    mp_alloc 40 c = (spm_ptr (spm_base c) w, c\<lparr>spm_alloc := spm_ptr (spm_base c) (w + 10)\<rparr>) \<and> spm_ptr (spm_base c) w \<noteq> 0"
  using mp_alloc_ready [of w sz c 10] by simp

lemma create_qport_source:
  assumes "core_ready w sz c" "ch < 256" "WALIGN msg_size = 4 * of_nat bs" "w + 10 + 2 * Suc bs + 1 \<le> sz"
  defines "p \<equiv> spm_ptr (spm_base c) w" and "a \<equiv> w + 10"
  shows "mp_create_qport sc ch SOURCE msg_size bufs ci c = (p, ci(ch := (ci ch)\<lparr>port_type := QUEUING, src_qpd_ptr := p,
      src_addr := spm_ptr (spm_base c) (mirror_at bs a), src_id := to_char sc (cpuid c)\<rparr>),
    c\<lparr>spm_alloc := spm_ptr (spm_base c) (mirror_at bs a + 1), spm := (spm c)(mirror_at bs a := 0),
      qpds := (qpds c)(p := (qpds c p)\<lparr>direction_type := SOURCE, buf_size := 4 * of_nat bs, num_buf := bufs,
        send_recv_count := spm_ptr (spm_base c) (mirror_at bs a), send_count := 0, send_ptr := 0,
        write_buf := spm_ptr (spm_base c) a, shadow_write_buf := spm_ptr (spm_base c) (a + Suc bs)\<rparr>)\<rparr>)"
proof -
  have ten: "mp_alloc 40 c = (p, c\<lparr>spm_alloc := spm_ptr (spm_base c) a\<rparr>)" "p \<noteq> 0" "\<not> 256 \<le> ch"
    using ten_words [OF assms(1)] assms(2,4) by (auto simp: p_def a_def)
  let ?c = "c\<lparr>spm_alloc := spm_ptr (spm_base c) a,
     qpds := (qpds c)(p := (qpds c p)\<lparr>direction_type := SOURCE, buf_size := 4 * of_nat bs, num_buf := bufs\<rparr>)\<rparr>"
  have "core_ready a sz ?c" using assms(1) by (simp add: core_ready_def a_def)
  from create_source_eq [OF this, of p bs sc] show ?thesis
    using ten assms(4) by (simp add: mp_create_qport_def assms(3) set_port_def a_def)
qed

lemma create_qport_sink:
  assumes "core_ready w sz c" "ch < 256" "WALIGN msg_size = 4 * of_nat bs" "w + 10 + Suc bs * nb + 1 \<le> sz"
  defines "p \<equiv> spm_ptr (spm_base c) w" and "r \<equiv> w + 10"
  shows "mp_create_qport sc ch SINK msg_size (of_nat nb) ci c = (p, ci(ch := (ci ch)\<lparr>port_type := QUEUING, sink_qpd_ptr := p,
      sink_addr := spm_ptr (spm_base c) r, sink_id := to_char sc (cpuid c)\<rparr>),
    c\<lparr>spm_alloc := spm_ptr (spm_base c) (count_at bs nb r + 1),
      spm := (\<lambda>x. if \<exists>s<nb. x = r + Suc bs * s + bs then 0 else ((spm c)(count_at bs nb r := 0)) x),
      qpds := (qpds c)(p := (qpds c p)\<lparr>direction_type := SINK, buf_size := 4 * of_nat bs, num_buf := of_nat nb,
        recv_addr := spm_ptr (spm_base c) r, read_buf := spm_ptr (spm_base c) r, recv_ptr := 0,
        recv_count := spm_ptr (spm_base c) (count_at bs nb r)\<rparr>)\<rparr>)"
proof -
  have ten: "mp_alloc 40 c = (p, c\<lparr>spm_alloc := spm_ptr (spm_base c) r\<rparr>)" "p \<noteq> 0" "\<not> 256 \<le> ch"
    using ten_words [OF assms(1)] assms(2,4) by (auto simp: p_def r_def)
  let ?c = "c\<lparr>spm_alloc := spm_ptr (spm_base c) r,
     qpds := (qpds c)(p := (qpds c p)\<lparr>direction_type := SINK, buf_size := 4 * of_nat bs, num_buf := of_nat nb\<rparr>)\<rparr>"
  have "core_ready r sz ?c" using assms(1) by (simp add: core_ready_def r_def)
  from create_sink_eq [OF this, of p bs nb sc] show ?thesis
    using ten assms(4) by (simp add: mp_create_qport_def assms(3) set_port_def r_def cong: if_cong)
qed

text \<open>The two ends of a channel after both have been created and have exchanged their addresses.\<close>

definition channel_of :: "u32 \<Rightarrow> u32 \<Rightarrow> core \<Rightarrow> core \<Rightarrow> chan" where
  "channel_of p q cs ck = \<lparr>sp = qpds cs p, rp = qpds ck q, sn = node.truncate cs, rn = node.truncate ck, sent = [], got = [], acked = 0\<rparr>"

text \<open>A \<open>char\<close> holds the numbers of the first 128 cores, or of 256 cores if it is unsigned.\<close>

lemma small_take_bit: "unat x < 2 ^ n \<Longrightarrow> take_bit n x = (x :: u32)"
  by (simp add: word_unat_eq_iff unsigned_take_bit_eq take_bit_nat_eq_self)

lemma bit_to_char:
  "bit (to_char True x) n \<longleftrightarrow> n < 32 \<and> bit x (min n 7)"
  "bit (to_char False x) n \<longleftrightarrow> n < 8 \<and> bit x n"
  by (auto simp: to_char_def bit_signed_iff bit_unsigned_iff bit_simps min_def)

lemma to_char_id:
  assumes "unat x < (if sc then 128 else 256)"
  shows "to_char sc x = x"
proof (cases sc)
  case True
  then have x: "take_bit 7 x = x" using assms by (intro small_take_bit) simp
  have "n < 7" if "bit x n" for n using that x by (metis bit_take_bit_iff)
  moreover have "\<not> bit x 7" using x by (metis bit_take_bit_iff less_irrefl)
  ultimately have "bit x (min n 7) \<longleftrightarrow> bit x n" for n by (cases "n \<le> 7") (auto simp: min_def dest: less_imp_le)
  then have same: "bit (to_char True x) n \<longleftrightarrow> n < 32 \<and> bit x n" for n by (simp only: bit_to_char)
  have "to_char True x = x" by (rule bit_eqI) (simp add: same)
  then show ?thesis using True by simp
next
  case False
  then have x: "take_bit 8 x = x" using assms by (intro small_take_bit) simp
  then have "n < 8" if "bit x n" for n using that by (metis bit_take_bit_iff)
  then show ?thesis using False by (auto intro!: bit_eqI simp: bit_to_char)
qed

lemma unat_minus_one_u32: "unat (- 1 :: u32) = 4294967295"
  by simp

text \<open>C35: two cores whose numbers fit into a \<open>char\<close>, with enough scratchpad memory, that create the source and
  the sink of a channel and initialise the ports end up with a connected channel: both sides agree on all addresses and
  know each other's number, the counters and the flags are cleared.\<close>

theorem ports_connected:
  assumes ready: "core_ready w sz cs" "core_ready v vz ck" "spm_base ck = spm_base cs"
    and ids: "cpuid cs \<noteq> cpuid ck" "unat (cpuid cs) < (if sc then 128 else 256)" "unat (cpuid ck) < (if sc then 128 else 256)" "ch < 256"
    and size: "unat msg_size + 3 < 2 ^ 32" "bs = (unat msg_size + 3) div 4" "0 < nb"
    and room: "w + 10 + 2 * Suc bs + 1 \<le> sz" "v + 10 + Suc bs * nb + 1 \<le> vz"
    and idle: "noc_dma_done (cpuid ck) cs" "noc_dma_done (cpuid cs) ck"
    and create: "mp_create_qport sc ch SOURCE msg_size (of_nat nb) ci cs = (p, ci1, cs1)"
      "mp_create_qport sc ch SINK msg_size (of_nat nb) ci1 ck = (q, ci2, ck1)"
  shows "\<exists>cs2 ck2. mp_init_port sc (ci2 ch) cs1 = Some cs2 \<and> mp_init_port sc (ci2 ch) ck1 = Some ck2 \<and>
    connected bs nb (w + 10) (v + 10) (channel_of p q cs2 ck2) \<and>
    remote (qpds cs2 p) = cpuid ck \<and> remote (qpds ck2 q) = cpuid cs"
proof -
  have al: "WALIGN msg_size = 4 * of_nat bs" using WALIGN_bytes [OF size(1)] size(2) by simp
  note cs = create_qport_source [OF ready(1) ids(4) al room(1), of sc "of_nat nb" ci, unfolded create(1)]
  note ck = create_qport_sink [OF ready(2) ids(4) al room(2), of sc ci1, unfolded create(2)]
  note num = to_char_id [OF ids(2)] to_char_id [OF ids(3)]
  have ne: "cpuid cs \<noteq> - 1" "cpuid ck \<noteq> - 1" using ids(2,3) by (auto simp: unat_minus_one_u32 split: if_splits)
  have "mirror_at bs (w + 10) < 2 ^ 14" "count_at bs nb (v + 10) < 2 ^ 14"
    using ready(1,2) room by (auto simp: core_ready_def mirror_at_def count_at_def)
  moreover have "count_at bs nb (v + 10) \<noteq> v + 10 + Suc bs * s + bs" if "s < nb" for s
    using stride_bound [OF that, of bs bs] by (simp add: count_at_def)
  ultimately show ?thesis
    using cs ck ids(1,4) ne num ready(3) size(3) idle
    by (auto simp: mp_init_port_def set_port_def connected_def channel_layout_def channel_of_def node.defs sbuf_at_def
        noc_dma_done_def k_noc_dma_done_def FLAG_INVALID_def)
qed

text \<open>The comment in \<^verbatim>\<open>mp.h\<close> promises 256 cores.  With a signed \<open>char\<close>, a core from number 128 on never finds the ports it
  created: \<open>mp_init_ports\<close> leaves its source port as it is, without the addresses of the other end.\<close>

lemma to_char_high:
  assumes "128 \<le> unat x" "unat x < 256"
  shows "to_char True x \<noteq> x"
proof
  assume eq: "to_char True x = x"
  have x: "take_bit 8 x = x" using assms by (intro small_take_bit) simp
  have "\<not> bit (take_bit 8 x) 31" by (simp add: bit_take_bit_iff)
  then have "\<not> bit x 31" unfolding x .
  then have "\<not> bit x 7" using eq bit_to_char(1) [of x 31] by simp
  then have "take_bit 7 x = take_bit 8 x" by (auto intro!: bit_eqI simp: bit_take_bit_iff less_Suc_eq numeral_eq_Suc)
  then have "unat x < 2 ^ 7" using x by (metis take_bit_nat_less_exp unsigned_take_bit_eq)
  then show False using assms(1) by simp
qed
theorem high_core_not_initialised:
  assumes "core_ready w sz c" "ch < 256" "WALIGN msg_size = 4 * of_nat bs" "w + 10 + 2 * Suc bs + 1 \<le> sz"
    and "128 \<le> unat (cpuid c)" "unat (cpuid c) < 256" "sink_id (ci ch) \<noteq> cpuid c"
    and "mp_create_qport True ch SOURCE msg_size bufs ci c = (p, ci1, c1)"
  shows "p \<noteq> 0 \<and> mp_init_port True (ci1 ch) c1 = Some c1"
  using create_qport_source [OF assms(1-4), of True bufs ci] assms(8) to_char_high [OF assms(5,6)] assms(7)
    mp_alloc_ready(2) [OF assms(1), of 0] assms(4)
  by (auto simp: mp_init_port_def)

section \<open>Witnesses\<close>

definition demo_qpd :: qpd_t where
  "demo_qpd = \<lparr>direction_type = SOURCE, remote = 0, recv_addr = 0, send_recv_count = 0, buf_size = 0, num_buf = 0, write_buf = 0,
     shadow_write_buf = 0, send_count = 0, send_ptr = 0, read_buf = 0, recv_count = 0, recv_ptr = 0\<rparr>"

definition demo_core :: "u32 \<Rightarrow> core" where
  "demo_core i = \<lparr>spm_base = 0x1000, spm = \<lambda>_. 5, dma_tab = \<lambda>_. 0, cpuid = i, spm_alloc = spm_ptr 0x1000 1, spm_size = 256, qpds = \<lambda>_. demo_qpd\<rparr>"

definition demo_info :: "u32 \<Rightarrow> chan_info_t" where
  "demo_info = (\<lambda>_. \<lparr>port_type = SAMPLING, src_id = -1, sink_id = -1, src_addr = 0, sink_addr = 0, src_qpd_ptr = 0, sink_qpd_ptr = 0\<rparr>)"

theorem ports_connected_witness:
  "\<exists>p ci1 cs1 q ci2 ck1 cs2 ck2. mp_create_qport True 7 SOURCE 6 2 demo_info (demo_core 0) = (p, ci1, cs1) \<and>
     mp_create_qport True 7 SINK 6 2 ci1 (demo_core 1) = (q, ci2, ck1) \<and>
     mp_init_port True (ci2 7) cs1 = Some cs2 \<and> mp_init_port True (ci2 7) ck1 = Some ck2 \<and> connected 2 2 11 11 (channel_of p q cs2 ck2)"
proof -
  obtain p ci1 cs1 where 1: "mp_create_qport True 7 SOURCE 6 2 demo_info (demo_core 0) = (p, ci1, cs1)" by (metis prod_cases3)
  obtain q ci2 ck1 where 2: "mp_create_qport True 7 SINK 6 2 ci1 (demo_core 1) = (q, ci2, ck1)" by (metis prod_cases3)
  have "core_ready 1 64 (demo_core i)" for i by (simp add: core_ready_def demo_core_def)
  moreover have "noc_dma_done j (demo_core i)" for i j by (simp add: noc_dma_done_def k_noc_dma_done_def demo_core_def)
  ultimately have "\<exists>cs2 ck2. mp_init_port True (ci2 7) cs1 = Some cs2 \<and> mp_init_port True (ci2 7) ck1 = Some ck2 \<and>
      connected 2 2 (1 + 10) (1 + 10) (channel_of p q cs2 ck2) \<and>
      remote (qpds cs2 p) = cpuid (demo_core 1) \<and> remote (qpds ck2 q) = cpuid (demo_core 0)"
    using 1 2 by (intro ports_connected [of 1 64 "demo_core 0" 1 64 "demo_core 1" True 7 6 2 2]) (simp_all add: demo_core_def)
  then show ?thesis using 1 2 by auto
qed

definition demo_chan :: chan where
  "demo_chan = \<lparr>
     sp = demo_qpd\<lparr>remote := 1, recv_addr := spm_ptr 0 0, send_recv_count := spm_ptr 0 4, buf_size := 4, num_buf := 1, write_buf := spm_ptr 0 0,
       shadow_write_buf := spm_ptr 0 2\<rparr>,
     rp = demo_qpd\<lparr>remote := 0, recv_addr := spm_ptr 0 0, send_recv_count := spm_ptr 0 4, recv_count := spm_ptr 0 2, buf_size := 4, num_buf := 1\<rparr>,
     sn = \<lparr>spm_base = 0, spm = \<lambda>_. 0, dma_tab = \<lambda>_. 0\<rparr>, rn = \<lparr>spm_base = 0, spm = \<lambda>_. 0, dma_tab = \<lambda>_. 0\<rparr>, sent = [], got = [], acked = 0\<rparr>"

lemma demo_chan_connected: "connected 1 1 0 0 demo_chan"
  by (simp add: connected_def channel_layout_def demo_chan_def demo_qpd_def mirror_at_def count_at_def sbuf_at_def FLAG_INVALID_def
      noc_dma_done_def k_noc_dma_done_def spm_ptr_def)

theorem queue_port_fifo_witness:
  "in_order one_word_net \<and> connected 1 1 0 0 demo_chan \<and>
    (\<exists>c. c = fold (chan_step one_word_net 1) [Fill 0 7, Send, Forward, Forward, Recv] demo_chan \<and>
       sent c = [[7]] \<and> length (got c) = 1 \<and> got c = [[7]])"
proof -
  let ?c = "fold (chan_step one_word_net 1) [Fill 0 7, Send, Forward, Forward, Recv] demo_chan"
  have sent: "sent ?c = [[7]]" and got: "length (got ?c) = 1" by code_simp+
  have "got ?c = take (length (got ?c)) (sent ?c)"
    using queue_port_fifo [OF one_word_net_in_order demo_chan_connected, of ?c] by blast
  then show ?thesis using one_word_net_in_order demo_chan_connected sent got by simp
qed

end
