(* ===== verification/Mp_Lock.thy ===== *)
theory Mp_Lock
  imports Mp_Queue
begin

text \<open>
  The lock between two cores \<^verbatim>\<open>c/libmp/lock.c\<close>: Lamport's bakery algorithm, with every shared variable replaced
  by a local copy and a copy at the other core, which the network updates some time later.

  A step of a core is one access to the scratchpad or one attempt to start or to await a transfer; the cores and
  the network interleave arbitrarily.  Before \<open>acquire_lock\<close> and between it and \<open>release_lock\<close> a core runs code of its own, which may
  use the rest of the scratchpads and the same DMA entry.  \<open>True\<close> and \<open>False\<close> name the two cores.
\<close>

section \<open>The lock\<close>

text \<open>The places in \<open>acquire_lock\<close> and \<open>release_lock\<close>; \<open>Held\<close> is between the two.\<close>

datatype lock_pc =
    Free | WriteEntering | AwaitEntering | TakeNumber | WriteNumber | AwaitNumber | ClearEntering | WriteCleared
  | AwaitRemote | ReadRemote | Compare
  | Held | WriteReleased | AwaitReleased

record lock_core =
  lnode :: node
  lcpuid :: u32
  lock :: u32           \<comment> \<open>the address of the \<open>LOCK_T\<close>\<close>
  remote_ptr :: u32
  remote_cpuid :: u32
  lpc :: lock_pc
  lock_n :: u32         \<comment> \<open>the local variables \<open>n\<close> and \<open>m\<close>\<close>
  lock_m :: u32

record lock_sys =
  cores :: "bool \<Rightarrow> lock_core"
  wrapped :: bool       \<comment> \<open>some core has computed \<open>n = 0\<close>\<close>

text \<open>The words of a \<open>LOCK_T\<close>, by byte offset.\<close>

definition remote_entering :: "u32 \<Rightarrow> u32" where
  "remote_entering p = p"

definition remote_number :: "u32 \<Rightarrow> u32" where
  "remote_number p = p + 4"

definition local_entering :: "u32 \<Rightarrow> u32" where
  "local_entering p = p + 8"

definition local_number :: "u32 \<Rightarrow> u32" where
  "local_number p = p + 12"

text \<open>The result is the address of the lock and its field \<open>remote_cpuid\<close>, an \<open>unsigned char\<close>.  A failed allocation is not noticed.\<close>

definition initialize_lock :: "u32 \<Rightarrow> 'a core_scheme \<Rightarrow> u32 \<times> u32 \<times> 'a core_scheme" where
  "initialize_lock rem c =
     (case mp_alloc 24 c of
        (p, c) \<Rightarrow> (p, ucast (ucast rem :: u8), spm_store (local_number p) 0 (spm_store (local_entering p) 0
          (spm_store (remote_number p) 0 (spm_store (remote_entering p) 0 c)))))"

text \<open>\<open>noc_write\<close> of one word, one attempt: the core moves on when the transfer has been started.\<close>

definition send_word :: "u32 \<Rightarrow> u32 \<Rightarrow> lock_pc \<Rightarrow> lock_core \<Rightarrow> lock_core" where
  "send_word dst src p c =
     (case noc_nbwrite (remote_cpuid c) dst src 4 0 (lnode c) of
        (started, n) \<Rightarrow> if started then c\<lparr>lnode := n, lpc := p\<rparr> else c\<lparr>lnode := n\<rparr>)"

definition await_done :: "lock_pc \<Rightarrow> lock_core \<Rightarrow> lock_core" where
  "await_done p c = (if noc_dma_done (remote_cpuid c) (lnode c) then c\<lparr>lpc := p\<rparr> else c)"

definition store_local :: "u32 \<Rightarrow> u32 \<Rightarrow> lock_pc \<Rightarrow> lock_core \<Rightarrow> lock_core" where
  "store_local a v p c = c\<lparr>lnode := spm_store a v (lnode c), lpc := p\<rparr>"

definition core_step :: "lock_core \<Rightarrow> lock_core" where
  "core_step c = (case lpc c of
      Free \<Rightarrow> store_local (local_entering (lock c)) 1 WriteEntering c
    | WriteEntering \<Rightarrow> send_word (remote_entering (remote_ptr c)) (local_entering (lock c)) AwaitEntering c
    | AwaitEntering \<Rightarrow> await_done TakeNumber c
    | TakeNumber \<Rightarrow>
        (let n = spm_load (remote_number (lock c)) (lnode c) + 1
         in store_local (local_number (lock c)) n WriteNumber (c\<lparr>lock_n := n\<rparr>))
    | WriteNumber \<Rightarrow> send_word (remote_number (remote_ptr c)) (local_number (lock c)) AwaitNumber c
    | AwaitNumber \<Rightarrow> await_done ClearEntering c
    | ClearEntering \<Rightarrow> store_local (local_entering (lock c)) 0 WriteCleared c
    | WriteCleared \<Rightarrow> send_word (remote_entering (remote_ptr c)) (local_entering (lock c)) AwaitRemote c
    | AwaitRemote \<Rightarrow> (if spm_load (remote_entering (lock c)) (lnode c) = 1 then c else c\<lparr>lpc := ReadRemote\<rparr>)
    | ReadRemote \<Rightarrow> c\<lparr>lock_m := spm_load (remote_number (lock c)) (lnode c), lpc := Compare\<rparr>
    | Compare \<Rightarrow>
        (if lock_m c \<noteq> 0 \<and> (lock_m c < lock_n c \<or> (lock_m c = lock_n c \<and> remote_cpuid c < lcpuid c))
         then c\<lparr>lpc := ReadRemote\<rparr> else c\<lparr>lpc := Held\<rparr>)
    | Held \<Rightarrow> store_local (local_number (lock c)) 0 WriteReleased c
    | WriteReleased \<Rightarrow> send_word (remote_number (remote_ptr c)) (local_number (lock c)) AwaitReleased c
    | AwaitReleased \<Rightarrow> await_done Free c)"

text \<open>Code outside the lock may change a node as it likes, but for the four words of the lock; it may start a transfer when none is
  active, to words outside the other core's lock.\<close>

definition entry_misses :: "nat \<Rightarrow> nat \<Rightarrow> u32 \<times> u32 \<Rightarrow> bool" where
  "entry_misses w k e \<longleftrightarrow> 0 < entry_words e \<and> entry_write e + entry_words e \<le> 2 ^ 14 \<and> entry_read e + entry_words e \<le> 2 ^ 14 \<and>
     (entry_write e + entry_words e \<le> w \<or> w + k \<le> entry_write e)"

definition app_ok :: "lock_core \<Rightarrow> node \<Rightarrow> bool" where
  "app_ok c n \<longleftrightarrow> (lpc c = Free \<or> lpc c = Held) \<and> spm_base n = spm_base (lnode c) \<and>
     list_all (\<lambda>k. spm n (spm_word (lnode c) (lock c) + k) = spm (lnode c) (spm_word (lnode c) (lock c) + k)) [0..<4] \<and>
     (dma_entry (remote_cpuid c) n = dma_entry (remote_cpuid c) (lnode c) \<or>
      noc_dma_done (remote_cpuid c) (lnode c) \<and> entry_misses (spm_word (lnode c) (remote_ptr c)) 4 (dma_entry (remote_cpuid c) n))"

datatype lock_act = Core bool | App bool node | Net bool

definition lock_step :: "network \<Rightarrow> lock_act \<Rightarrow> lock_sys \<Rightarrow> lock_sys" where
  "lock_step net act s = (case act of
      Core x \<Rightarrow>
        (let c = core_step (cores s x)
         in s\<lparr>cores := (cores s)(x := c), wrapped := (wrapped s \<or> (lpc (cores s x) = TakeNumber \<and> lock_n c = 0))\<rparr>)
    | App x n \<Rightarrow> if app_ok (cores s x) n then s\<lparr>cores := (cores s)(x := (cores s x)\<lparr>lnode := n\<rparr>)\<rparr> else s
    | Net x \<Rightarrow>
        (case net_slot net (remote_cpuid (cores s x)) (lnode (cores s x)) (lnode (cores s (\<not> x))) of
           (a, b) \<Rightarrow> s\<lparr>cores := (cores s)(x := (cores s x)\<lparr>lnode := a\<rparr>, (\<not> x) := (cores s (\<not> x))\<lparr>lnode := b\<rparr>)\<rparr>))"

section \<open>The algorithm without the memory\<close>

text \<open>What a core has written, what the other core sees of it (\<open>_r\<close>) and which of its two words, or what else, is on the way.\<close>

datatype xfer = NoX | EntX | NumX | OtherX

record view =
  vpc :: lock_pc
  ent :: u32
  num :: u32
  ent_r :: u32
  num_r :: u32
  xf :: xfer
  vn :: u32
  vm :: u32
  vid :: u32

definition start_x :: "xfer \<Rightarrow> lock_pc \<Rightarrow> view \<Rightarrow> view" where
  "start_x t p v = (if xf v = NoX then v\<lparr>xf := t, vpc := p\<rparr> else v)"

definition await_x :: "lock_pc \<Rightarrow> view \<Rightarrow> view" where
  "await_x p v = (if xf v = NoX then v\<lparr>vpc := p\<rparr> else v)"

text \<open>A step of a core with view \<open>v\<close>, the other core having view \<open>w\<close>.\<close>

definition bakery_step :: "view \<Rightarrow> view \<Rightarrow> view" where
  "bakery_step v w = (case vpc v of
      Free \<Rightarrow> v\<lparr>ent := 1, vpc := WriteEntering\<rparr>
    | WriteEntering \<Rightarrow> start_x EntX AwaitEntering v
    | AwaitEntering \<Rightarrow> await_x TakeNumber v
    | TakeNumber \<Rightarrow> v\<lparr>vn := num_r w + 1, num := num_r w + 1, vpc := WriteNumber\<rparr>
    | WriteNumber \<Rightarrow> start_x NumX AwaitNumber v
    | AwaitNumber \<Rightarrow> await_x ClearEntering v
    | ClearEntering \<Rightarrow> v\<lparr>ent := 0, vpc := WriteCleared\<rparr>
    | WriteCleared \<Rightarrow> start_x EntX AwaitRemote v
    | AwaitRemote \<Rightarrow> if ent_r w = 1 then v else v\<lparr>vpc := ReadRemote\<rparr>
    | ReadRemote \<Rightarrow> v\<lparr>vm := num_r w, vpc := Compare\<rparr>
    | Compare \<Rightarrow>
        if vm v \<noteq> 0 \<and> (vm v < vn v \<or> (vm v = vn v \<and> vid w < vid v)) then v\<lparr>vpc := ReadRemote\<rparr> else v\<lparr>vpc := Held\<rparr>
    | Held \<Rightarrow> v\<lparr>num := 0, vpc := WriteReleased\<rparr>
    | WriteReleased \<Rightarrow> start_x NumX AwaitReleased v
    | AwaitReleased \<Rightarrow> await_x Free v)"

definition bakery_arrive :: "view \<Rightarrow> view" where
  "bakery_arrive v = (case xf v of NoX \<Rightarrow> v | EntX \<Rightarrow> v\<lparr>ent_r := ent v, xf := NoX\<rparr> | NumX \<Rightarrow> v\<lparr>num_r := num v, xf := NoX\<rparr>
     | OtherX \<Rightarrow> v\<lparr>xf := NoX\<rparr>)"

definition bakery_app :: "view \<Rightarrow> view" where
  "bakery_app v = (if (vpc v = Free \<or> vpc v = Held) \<and> xf v = NoX then v\<lparr>xf := OtherX\<rparr> else v)"

subsection \<open>Mutual exclusion\<close>

text \<open>What is written, what is visible and what is on the way, at each place.\<close>

definition not_lock_x :: "view \<Rightarrow> bool" where
  "not_lock_x v \<longleftrightarrow> xf v = NoX \<or> xf v = OtherX"

definition own_ok :: "view \<Rightarrow> bool" where
  "own_ok v \<longleftrightarrow> (case vpc v of
      Free \<Rightarrow> not_lock_x v \<and> ent v = 0 \<and> num v = 0 \<and> ent_r v = 0 \<and> num_r v = 0
    | WriteEntering \<Rightarrow> not_lock_x v \<and> ent v = 1 \<and> num v = 0 \<and> ent_r v = 0 \<and> num_r v = 0
    | AwaitEntering \<Rightarrow> ent v = 1 \<and> num v = 0 \<and> num_r v = 0 \<and> (xf v = EntX \<or> xf v = NoX \<and> ent_r v = 1)
    | TakeNumber \<Rightarrow> xf v = NoX \<and> ent v = 1 \<and> num v = 0 \<and> ent_r v = 1 \<and> num_r v = 0
    | WriteNumber \<Rightarrow> xf v = NoX \<and> ent v = 1 \<and> num v = vn v \<and> ent_r v = 1
    | AwaitNumber \<Rightarrow> ent v = 1 \<and> num v = vn v \<and> ent_r v = 1 \<and> (xf v = NumX \<or> xf v = NoX \<and> num_r v = vn v)
    | ClearEntering \<Rightarrow> xf v = NoX \<and> ent v = 1 \<and> num v = vn v \<and> ent_r v = 1 \<and> num_r v = vn v
    | WriteCleared \<Rightarrow> xf v = NoX \<and> ent v = 0 \<and> num v = vn v \<and> ent_r v = 1 \<and> num_r v = vn v
    | WriteReleased \<Rightarrow> ent v = 0 \<and> num v = 0 \<and> (xf v = EntX \<or> not_lock_x v \<and> ent_r v = 0)
    | AwaitReleased \<Rightarrow> ent v = 0 \<and> num v = 0 \<and> ent_r v = 0 \<and> (xf v = NumX \<or> xf v = NoX \<and> num_r v = 0)
    | _ \<Rightarrow> ent v = 0 \<and> num v = vn v \<and> num_r v = vn v \<and> (xf v = EntX \<and> ent_r v = 1 \<or> not_lock_x v \<and> ent_r v = 0))"

definition chosen :: "view \<Rightarrow> bool" where
  "chosen v \<longleftrightarrow> vpc v \<in> {WriteNumber, AwaitNumber, ClearEntering, WriteCleared, AwaitRemote, ReadRemote, Compare, Held}"

definition before :: "view \<Rightarrow> view \<Rightarrow> bool" where
  "before v w \<longleftrightarrow> vn v < vn w \<or> (vn v = vn w \<and> vid v < vid w)"

text \<open>A core that has seen the other one not entering is either first, or it sees the other one's number.\<close>

definition pair_ok :: "view \<Rightarrow> view \<Rightarrow> bool" where
  "pair_ok v w \<longleftrightarrow> (chosen w \<longrightarrow>
     (vpc v = ReadRemote \<longrightarrow> before v w \<or> num_r w = vn w) \<and>
     (vpc v = Compare \<longrightarrow> before v w \<or> vm v = vn w \<and> num_r w = vn w) \<and>
     (vpc v = Held \<longrightarrow> before v w))"

definition bakery_inv :: "view \<Rightarrow> view \<Rightarrow> bool" where
  "bakery_inv v w \<longleftrightarrow> own_ok v \<and> own_ok w \<and> (chosen v \<longrightarrow> vn v \<noteq> 0) \<and> (chosen w \<longrightarrow> vn w \<noteq> 0) \<and> pair_ok v w \<and> pair_ok w v"

lemma bakery_inv_commute: "bakery_inv v w \<longleftrightarrow> bakery_inv w v"
  by (auto simp: bakery_inv_def)

lemma less_Suc_number: "(n :: u32) + 1 \<noteq> 0 \<Longrightarrow> n < n + 1"
  using unatSuc [of n] by (simp add: word_less_nat_alt add.commute)

lemma published: "own_ok w \<Longrightarrow> vpc w \<in> {ReadRemote, Compare, Held} \<Longrightarrow> num_r w = vn w"
  by (auto simp: own_ok_def)

lemma visible: "own_ok w \<Longrightarrow> chosen w \<Longrightarrow> ent_r w \<noteq> 1 \<Longrightarrow> num_r w = vn w"
  by (auto simp: own_ok_def chosen_def)

lemma own_step: "own_ok v \<Longrightarrow> own_ok (bakery_step v w)"
  by (cases "vpc v") (auto simp: bakery_step_def own_ok_def start_x_def await_x_def not_lock_x_def)

lemma chosen_step:
  "chosen (bakery_step v w) \<Longrightarrow> vpc v = TakeNumber \<and> vn (bakery_step v w) = num_r w + 1 \<or> chosen v \<and> vn (bakery_step v w) = vn v"
  by (cases "vpc v") (auto simp: bakery_step_def chosen_def start_x_def await_x_def split: if_splits)

lemma same_step: "vid (bakery_step v w) = vid v" "num_r (bakery_step v w) = num_r v"
  by (cases "vpc v"; simp add: bakery_step_def start_x_def await_x_def)+

lemma pair_step:
  assumes "own_ok w" "chosen w \<longrightarrow> vn w \<noteq> 0" "pair_ok v w" "vid v \<noteq> vid w"
  shows "pair_ok (bakery_step v w) w"
  using assms visible [OF assms(1)]
  by (cases "vpc v") (auto simp: bakery_step_def pair_ok_def before_def start_x_def await_x_def)

lemma pair_other_step:
  assumes "own_ok w" "pair_ok w v" "vpc v = TakeNumber \<longrightarrow> num_r w + 1 \<noteq> 0"
  shows "pair_ok w (bakery_step v w)"
proof (cases "vpc v = TakeNumber \<and> vpc w \<in> {ReadRemote, Compare, Held}")
  case True
  then have "vn (bakery_step v w) = num_r w + 1" by (simp add: bakery_step_def)
  then show ?thesis using True published [OF assms(1)] less_Suc_number [of "num_r w"] assms(3) by (auto simp: pair_ok_def before_def)
next
  case False
  then show ?thesis using assms(2) chosen_step [of v w] by (auto simp: pair_ok_def before_def same_step)
qed

lemma bakery_step_inv:
  assumes "bakery_inv v w" "vid v \<noteq> vid w" "vpc v = TakeNumber \<longrightarrow> num_r w + 1 \<noteq> 0"
  shows "bakery_inv (bakery_step v w) w"
  using assms own_step [of v w] chosen_step [of v w] pair_step [of w v] pair_other_step [of w v] by (auto simp: bakery_inv_def)

lemma own_arrive: "own_ok v \<Longrightarrow> own_ok (bakery_arrive v)"
  by (cases "vpc v") (auto simp: bakery_arrive_def own_ok_def not_lock_x_def split: xfer.splits)

lemma same_arrive: "vid (bakery_arrive v) = vid v" "vn (bakery_arrive v) = vn v" "vm (bakery_arrive v) = vm v" "vpc (bakery_arrive v) = vpc v"
    "chosen (bakery_arrive v) = chosen v" "before (bakery_arrive v) w = before v w" "before w (bakery_arrive v) = before w v"
  by (simp_all add: bakery_arrive_def chosen_def before_def split: xfer.splits)

text \<open>An arriving number is the one that was chosen.\<close>

lemma number_arrive: "own_ok v \<Longrightarrow> chosen v \<Longrightarrow> num_r v = vn v \<Longrightarrow> num_r (bakery_arrive v) = vn v"
  by (cases "vpc v") (auto simp: bakery_arrive_def own_ok_def chosen_def not_lock_x_def split: xfer.splits)

lemma pair_arrive: "pair_ok (bakery_arrive v) w \<longleftrightarrow> pair_ok v w" "own_ok v \<Longrightarrow> pair_ok w v \<Longrightarrow> pair_ok w (bakery_arrive v)"
proof -
  show "pair_ok (bakery_arrive v) w \<longleftrightarrow> pair_ok v w" by (simp add: pair_ok_def same_arrive)
  show "pair_ok w (bakery_arrive v)" if "own_ok v" "pair_ok w v"
  proof (cases "chosen v")
    case True
    note num = number_arrive [OF that(1) True]
    show ?thesis
      using that(2) num True by (cases "vpc w") (auto simp: pair_ok_def same_arrive)
  qed (simp add: pair_ok_def same_arrive)
qed

lemma bakery_arrive_inv: "bakery_inv v w \<Longrightarrow> bakery_inv (bakery_arrive v) w"
  by (simp add: bakery_inv_def same_arrive own_arrive pair_arrive)

lemma own_app: "own_ok v \<Longrightarrow> own_ok (bakery_app v)"
  by (cases "vpc v") (auto simp: bakery_app_def own_ok_def not_lock_x_def)

lemma same_app: "vpc (bakery_app v) = vpc v" "vn (bakery_app v) = vn v" "vm (bakery_app v) = vm v" "num_r (bakery_app v) = num_r v"
    "chosen (bakery_app v) = chosen v" "before (bakery_app v) w = before v w" "before w (bakery_app v) = before w v"
  by (simp_all add: bakery_app_def chosen_def before_def)

lemma bakery_app_inv: "bakery_inv v w \<Longrightarrow> bakery_inv (bakery_app v) w"
  by (simp add: bakery_inv_def own_app pair_ok_def same_app)

lemma bakery_exclusive: "bakery_inv v w \<Longrightarrow> \<not> (vpc v = Held \<and> vpc w = Held)"
proof
  assume "bakery_inv v w" "vpc v = Held \<and> vpc w = Held"
  then have "before v w" "before w v" by (simp_all add: bakery_inv_def pair_ok_def chosen_def)
  then show False unfolding before_def using less_asym by (metis less_irrefl)
qed

section \<open>The code implements the algorithm\<close>

text \<open>Lock \<open>x\<close> is at word \<open>lw x\<close> of its core's scratchpad; a transfer of core \<open>x\<close> is one of its two words or misses the other lock.\<close>

definition xfer_ok :: "(bool \<Rightarrow> nat) \<Rightarrow> bool \<Rightarrow> u32 \<times> u32 \<Rightarrow> bool" where
  "xfer_ok lw x e \<longleftrightarrow> (entry_active e \<longrightarrow> entry_misses (lw (\<not> x)) 4 e \<or> entry_words e = 1 \<and>
     (entry_write e = lw (\<not> x) \<and> entry_read e = lw x + 2 \<or> entry_write e = lw (\<not> x) + 1 \<and> entry_read e = lw x + 3))"

definition lock_layout :: "(bool \<Rightarrow> nat) \<Rightarrow> u32 \<Rightarrow> (bool \<Rightarrow> lock_core) \<Rightarrow> bool" where
  "lock_layout lw b C \<longleftrightarrow> lcpuid (C True) \<noteq> lcpuid (C False) \<and> (\<forall>x. lw x + 3 < 2 ^ 14 \<and> spm_base (lnode (C x)) = b \<and>
     lock (C x) = spm_ptr b (lw x) \<and> remote_ptr (C x) = spm_ptr b (lw (\<not> x)) \<and> remote_cpuid (C x) = lcpuid (C (\<not> x)) \<and>
     xfer_ok lw x (dma_entry (lcpuid (C (\<not> x))) (lnode (C x))))"

definition xfer_of :: "(bool \<Rightarrow> nat) \<Rightarrow> bool \<Rightarrow> u32 \<times> u32 \<Rightarrow> xfer" where
  "xfer_of lw x e = (if \<not> entry_active e then NoX else if entry_write e = lw (\<not> x) then EntX
     else if entry_write e = lw (\<not> x) + 1 then NumX else OtherX)"

definition view_of :: "(bool \<Rightarrow> nat) \<Rightarrow> (bool \<Rightarrow> lock_core) \<Rightarrow> bool \<Rightarrow> view" where
  "view_of lw C x = \<lparr>vpc = lpc (C x), ent = spm (lnode (C x)) (lw x + 2), num = spm (lnode (C x)) (lw x + 3),
     ent_r = spm (lnode (C (\<not> x))) (lw (\<not> x)), num_r = spm (lnode (C (\<not> x))) (lw (\<not> x) + 1),
     xf = xfer_of lw x (dma_entry (remote_cpuid (C x)) (lnode (C x))), vn = lock_n (C x), vm = lock_m (C x), vid = lcpuid (C x)\<rparr>"

lemma lock_fields:
  shows "remote_entering (spm_ptr b w) = spm_ptr b w" "remote_number (spm_ptr b w) = spm_ptr b (w + 1)"
    "local_entering (spm_ptr b w) = spm_ptr b (w + 2)" "local_number (spm_ptr b w) = spm_ptr b (w + 3)"
  by (simp_all add: remote_entering_def remote_number_def local_entering_def local_number_def spm_ptr_def)

text \<open>The helpers of the step, in terms of word numbers.\<close>

lemma send_word_eq:
  assumes "spm_base (lnode c) = b" "w < 2 ^ 14" "r < 2 ^ 14"
  shows "send_word (spm_ptr b w) (spm_ptr b r) p c =
    (if noc_dma_done (remote_cpuid c) (lnode c)
     then c\<lparr>lnode := set_entry (remote_cpuid c) (data_entry DATA_PKT_TYPE w r 1) (lnode c), lpc := p\<rparr> else c)"
  using nbwrite_data(2) [OF assms(2,3), of 1 "remote_cpuid c" "lnode c"] assms(1) by (simp add: send_word_def)

lemma data_word: "w < 2 ^ 14 \<Longrightarrow> r < 2 ^ 14 \<Longrightarrow> entry_active (data_entry t w r 1) \<and> entry_write (data_entry t w r 1) = w \<and>
    entry_read (data_entry t w r 1) = r \<and> entry_words (data_entry t w r 1) = 1"
  using data_entry_fields [of w r 1 t] by simp

text \<open>A core step in terms of word numbers: \<open>l\<close> is the own lock, \<open>r\<close> the other one's.\<close>

definition word_step :: "nat \<Rightarrow> nat \<Rightarrow> lock_core \<Rightarrow> lock_core" where
  "word_step l r c =
     (let put = (\<lambda>k v p c. c\<lparr>lnode := (lnode c)\<lparr>spm := (spm (lnode c))(l + k := v)\<rparr>, lpc := p\<rparr>);
          start = (\<lambda>w k p. if noc_dma_done (remote_cpuid c) (lnode c)
             then c\<lparr>lnode := set_entry (remote_cpuid c) (data_entry DATA_PKT_TYPE w (l + k) 1) (lnode c), lpc := p\<rparr> else c);
          await = (\<lambda>p. if noc_dma_done (remote_cpuid c) (lnode c) then c\<lparr>lpc := p\<rparr> else c);
          number = spm (lnode c) (l + 1)
      in case lpc c of
        Free \<Rightarrow> put 2 1 WriteEntering c | WriteEntering \<Rightarrow> start r 2 AwaitEntering | AwaitEntering \<Rightarrow> await TakeNumber
      | TakeNumber \<Rightarrow> put 3 (number + 1) WriteNumber (c\<lparr>lock_n := number + 1\<rparr>) | WriteNumber \<Rightarrow> start (r + 1) 3 AwaitNumber
      | AwaitNumber \<Rightarrow> await ClearEntering | ClearEntering \<Rightarrow> put 2 0 WriteCleared c | WriteCleared \<Rightarrow> start r 2 AwaitRemote
      | AwaitRemote \<Rightarrow> if spm (lnode c) l = 1 then c else c\<lparr>lpc := ReadRemote\<rparr>
      | ReadRemote \<Rightarrow> c\<lparr>lock_m := number, lpc := Compare\<rparr>
      | Compare \<Rightarrow>
          if lock_m c \<noteq> 0 \<and> (lock_m c < lock_n c \<or> (lock_m c = lock_n c \<and> remote_cpuid c < lcpuid c))
          then c\<lparr>lpc := ReadRemote\<rparr> else c\<lparr>lpc := Held\<rparr>
      | Held \<Rightarrow> put 3 0 WriteReleased c | WriteReleased \<Rightarrow> start (r + 1) 3 AwaitReleased | AwaitReleased \<Rightarrow> await Free)"

lemma core_step_words:
  assumes "spm_base (lnode c) = b" "lock c = spm_ptr b l" "remote_ptr c = spm_ptr b r" "l + 3 < 2 ^ 14" "r + 3 < 2 ^ 14"
  shows "core_step c = word_step l r c"
proof -
  have lt: "l < 2 ^ 14" "l + 1 < 2 ^ 14" "l + 2 < 2 ^ 14" "r < 2 ^ 14" "r + 1 < 2 ^ 14" using assms(4,5) by simp_all
  note send = send_word_eq [OF assms(1) lt(4) lt(3)] send_word_eq [OF assms(1) lt(5) assms(4)]
  have st: "spm_store (spm_ptr b (l + 2)) v (lnode c) = (lnode c)\<lparr>spm := (spm (lnode c))(l + 2 := v)\<rparr>"
      "spm_store (spm_ptr b (l + 3)) v (lnode c) = (lnode c)\<lparr>spm := (spm (lnode c))(l + 3 := v)\<rparr>"
      "spm_load (spm_ptr b (l + 1)) (lnode c) = spm (lnode c) (l + 1)" "spm_load (spm_ptr b l) (lnode c) = spm (lnode c) l" for v
    using lt assms(1,4) by (simp_all add: store_ptr load_ptr)
  show ?thesis
    unfolding core_step_def word_step_def Let_def store_local_def await_done_def assms(2,3) lock_fields send st
    by (cases "lpc c") (simp_all add: st)
qed

lemma word_step_same:
  "lcpuid (word_step l r c) = lcpuid c" "lock (word_step l r c) = lock c" "remote_ptr (word_step l r c) = remote_ptr c"
  "remote_cpuid (word_step l r c) = remote_cpuid c" "spm_base (lnode (word_step l r c)) = spm_base (lnode c)"
  "spm (lnode (word_step l r c)) l = spm (lnode c) l" "spm (lnode (word_step l r c)) (Suc l) = spm (lnode c) (Suc l)"
  by (cases "lpc c"; simp add: word_step_def Let_def)+

lemma word_step_entry:
  "dma_entry (remote_cpuid c) (lnode (word_step l r c)) \<in>
     {dma_entry (remote_cpuid c) (lnode c), data_entry DATA_PKT_TYPE r (l + 2) 1, data_entry DATA_PKT_TYPE (r + 1) (l + 3) 1}"
  by (cases "lpc c") (auto simp: word_step_def Let_def)

lemma word_step_view:
  assumes "lw x + 3 < 2 ^ 14" "lw (\<not> x) + 3 < 2 ^ 14" "c = C x" "remote_cpuid c = lcpuid (C (\<not> x))"
  shows "view_of lw (C(x := word_step (lw x) (lw (\<not> x)) c)) x = bakery_step (view_of lw C x) (view_of lw C (\<not> x))"
proof -
  have lt: "lw x < 2 ^ 14" "lw x + 2 < 2 ^ 14" "lw (\<not> x) < 2 ^ 14" "lw (\<not> x) + 1 < 2 ^ 14" using assms(1,2) by simp_all
  note data = data_word [OF lt(3) lt(2), of DATA_PKT_TYPE] data_word [OF lt(4) assms(1), of DATA_PKT_TYPE]
  show ?thesis
    using data assms(3,4) unfolding view_of_def word_step_def bakery_step_def Let_def
    by (cases "lpc c") (simp_all add: start_x_def await_x_def xfer_of_def dma_done_entry)
qed

lemma core_step_refines:
  assumes "lock_layout lw b C"
  shows "lock_layout lw b (C(x := core_step (C x)))" (is ?layout)
    and "view_of lw (C(x := core_step (C x))) = (view_of lw C)(x := bakery_step (view_of lw C x) (view_of lw C (\<not> x)))" (is ?view)
proof -
  have f: "spm_base (lnode (C x)) = b" "lock (C x) = spm_ptr b (lw x)" "remote_ptr (C x) = spm_ptr b (lw (\<not> x))"
      "remote_cpuid (C x) = lcpuid (C (\<not> x))" "lw x + 3 < 2 ^ 14" "lw (\<not> x) + 3 < 2 ^ 14" "xfer_ok lw x (dma_entry (remote_cpuid (C x)) (lnode (C x)))"
    using assms by (simp_all add: lock_layout_def)
  note words = core_step_words [OF f(1,2,3,5,6)]
  have lt: "lw x + 2 < 2 ^ 14" "lw (\<not> x) < 2 ^ 14" "lw (\<not> x) + 1 < 2 ^ 14" using f(5,6) by simp_all
  have "xfer_ok lw x (dma_entry (remote_cpuid (C x)) (lnode (word_step (lw x) (lw (\<not> x)) (C x))))"
    using word_step_entry [of "C x" "lw x" "lw (\<not> x)"] f(7)
      data_word [OF lt(2) lt(1), of DATA_PKT_TYPE] data_word [OF lt(3) f(5), of DATA_PKT_TYPE] by (auto simp: xfer_ok_def)
  then show ?layout using assms unfolding words by (cases x) (simp_all add: lock_layout_def word_step_same all_bool_eq)
  show ?view
  proof
    fix y
    show "view_of lw (C(x := core_step (C x))) y = ((view_of lw C)(x := bakery_step (view_of lw C x) (view_of lw C (\<not> x)))) y"
    proof (cases "y = x")
      case True
      then show ?thesis using word_step_view [OF f(5,6) refl f(4)] unfolding words by simp
    next
      case False
      then have "x = (\<not> y)" by auto
      then show ?thesis unfolding words by (simp add: view_of_def word_step_same)
    qed
  qed
qed

text \<open>A slot of the network either changes nothing that matters, or the word of the core arrives.\<close>

lemma net_refines:
  assumes "lock_layout lw b C" "in_order net" "net_slot net (remote_cpuid (C x)) (lnode (C x)) (lnode (C (\<not> x))) = (n, m)"
  defines "C' \<equiv> C(x := (C x)\<lparr>lnode := n\<rparr>, (\<not> x) := (C (\<not> x))\<lparr>lnode := m\<rparr>)"
  shows "lock_layout lw b C'" and "view_of lw C' = view_of lw C \<or> view_of lw C' = (view_of lw C)(x := bakery_arrive (view_of lw C x))"
proof -
  let ?e = "dma_entry (remote_cpuid (C x)) (lnode (C x))"
  have f: "lw x + 3 < 2 ^ 14" "lw (\<not> x) + 3 < 2 ^ 14" "xfer_ok lw x ?e"
    using assms(1) by (simp_all add: lock_layout_def)
  have fits: "entry_active ?e \<longrightarrow> entry_write ?e + entry_words ?e \<le> 2 ^ 14 \<and> entry_read ?e + entry_words ?e \<le> 2 ^ 14"
    using f by (auto simp: xfer_ok_def entry_misses_def)
  from assms(2) refl fits have "lock_layout lw b C' \<and> (view_of lw C' = view_of lw C \<or> view_of lw C' = (view_of lw C)(x := bakery_arrive (view_of lw C x)))"
  proof (cases rule: net_slot_cases [where m = "lnode (C (\<not> x))"])
    case idle
    then have "C' = C" using assms(3) by (cases x) (auto simp: C'_def fun_eq_iff)
    then show ?thesis using assms(1) by simp
  next
    case (moved k e')
    have n: "n = set_entry (remote_cpuid (C x)) e' (lnode (C x))"
      and m: "m = (lnode (C (\<not> x)))\<lparr>spm := copy_words k (entry_read ?e) (entry_write ?e) (spm (lnode (C x))) (spm (lnode (C (\<not> x))))\<rparr>"
      using moved(5) assms(3) by simp_all
    have ok: "xfer_ok lw x e'" using f(3) moved by (auto simp: xfer_ok_def entry_misses_def)
    moreover have "xfer_ok lw (\<not> x) (dma_entry (remote_cpuid (C (\<not> x))) m)" using assms(1) by (cases x) (simp_all add: m lock_layout_def all_bool_eq)
    ultimately have "lock_layout lw b C'"
      using assms(1) unfolding C'_def by (cases x) (simp_all add: lock_layout_def n m all_bool_eq)
    moreover have "view_of lw C' = view_of lw C \<or> view_of lw C' = (view_of lw C)(x := bakery_arrive (view_of lw C x))"
    proof (cases "entry_misses (lw (\<not> x)) 4 ?e")
      case True
      then have keep: "copy_words k (entry_read ?e) (entry_write ?e) src dst (lw (\<not> x) + i) = dst (lw (\<not> x) + i)" if "i < 4" for i src dst
        using that moved(2) by (auto simp: entry_misses_def copy_words_def)
      have other: "xfer_of lw x ?e = OtherX" using True moved(1) by (auto simp: xfer_of_def entry_misses_def)
      have "xfer_of lw x e' = (if entry_active e' then OtherX else NoX)" using True moved by (auto simp: xfer_of_def entry_misses_def)
      then have "view_of lw C' y = (if entry_active e' then view_of lw C else (view_of lw C)(x := bakery_arrive (view_of lw C x))) y" for y
        using other keep [of 0] keep [of 1] keep [of 2] keep [of 3] unfolding C'_def
        by (cases x; cases y) (simp_all add: view_of_def bakery_arrive_def n m)
      then show ?thesis by (cases "entry_active e'") auto
    next
      case mine: False
      show ?thesis
      proof (cases "k = 0")
        case True
        then have "xfer_of lw x e' = xfer_of lw x ?e" using f(3) mine moved by (auto simp: xfer_of_def xfer_ok_def)
        then have "view_of lw C' y = view_of lw C y" for y
          using True unfolding C'_def by (cases x; cases y) (simp_all add: view_of_def n m)
        then show ?thesis by auto
      next
        case False
        then have k: "k = 1" "\<not> entry_active e'" using f(3) mine moved by (auto simp: xfer_ok_def)
        have "view_of lw C' y = ((view_of lw C)(x := bakery_arrive (view_of lw C x))) y" for y
          using f(3) mine moved(1) k unfolding C'_def xfer_ok_def
          by (cases x; cases y) (auto simp: view_of_def bakery_arrive_def xfer_of_def n m copy_words_1 simp del: One_nat_def)
        then show ?thesis by auto
      qed
    qed
    ultimately show ?thesis by blast
  qed
  then show "lock_layout lw b C'" and "view_of lw C' = view_of lw C \<or> view_of lw C' = (view_of lw C)(x := bakery_arrive (view_of lw C x))" by auto
qed

text \<open>Code outside the lock changes nothing of the views but that a transfer is on the way.\<close>

lemma app_refines:
  assumes "lock_layout lw b C" "app_ok (C x) n"
  defines "C' \<equiv> C(x := (C x)\<lparr>lnode := n\<rparr>)"
  shows "lock_layout lw b C'" and "view_of lw C' = view_of lw C \<or> view_of lw C' = (view_of lw C)(x := bakery_app (view_of lw C x))"
proof -
  let ?e = "dma_entry (remote_cpuid (C x))"
  have f: "lw x + 3 < 2 ^ 14" "lw (\<not> x) + 3 < 2 ^ 14" "spm_base (lnode (C x)) = b" "lock (C x) = spm_ptr b (lw x)"
      "remote_ptr (C x) = spm_ptr b (lw (\<not> x))" "remote_cpuid (C x) = lcpuid (C (\<not> x))" "xfer_ok lw x (?e (lnode (C x)))"
    using assms(1) by (simp_all add: lock_layout_def)
  have w: "spm_word (lnode (C x)) (spm_ptr b (lw y)) = lw y" for y
    using spm_word_ptr [of "lw y" "lnode (C x)"] f(1-3) by (cases "y = x") auto
  have pc: "lpc (C x) = Free \<or> lpc (C x) = Held" and base: "spm_base n = b"
    and keep: "k < 4 \<Longrightarrow> spm n (lw x + k) = spm (lnode (C x)) (lw x + k)" for k
    using assms(2) f by (auto simp: app_ok_def w list_all_iff)
  from assms(2) have e: "?e n = ?e (lnode (C x)) \<or> noc_dma_done (remote_cpuid (C x)) (lnode (C x)) \<and> entry_misses (lw (\<not> x)) 4 (?e n)"
    by (simp add: app_ok_def w f(5))
  then have "xfer_ok lw x (?e n)" using f(7) by (auto simp: xfer_ok_def)
  then show "lock_layout lw b C'"
    using assms(1) base f unfolding C'_def by (cases x) (simp_all add: lock_layout_def all_bool_eq)
  have same: "view_of lw C' (\<not> x) = view_of lw C (\<not> x)" using keep [of 0] keep [of 1] unfolding C'_def by (simp add: view_of_def)
  have own: "view_of lw C' x = (view_of lw C x)\<lparr>xf := xfer_of lw x (?e n)\<rparr>"
    using keep [of 2] keep [of 3] unfolding C'_def by (simp add: view_of_def)
  have "view_of lw C' x = view_of lw C x \<or> view_of lw C' x = bakery_app (view_of lw C x)"
  proof (cases "?e n = ?e (lnode (C x))")
    case True
    then show ?thesis using own by (simp add: view_of_def)
  next
    case False
    then have new: "\<not> entry_active (?e (lnode (C x)))" "entry_misses (lw (\<not> x)) 4 (?e n)" using e by (simp_all add: dma_done_entry)
    have "xfer_of lw x (?e n) = NoX \<or> xfer_of lw x (?e n) = OtherX" using new(2) by (auto simp: xfer_of_def entry_misses_def)
    then show ?thesis using new(1) own pc by (auto simp: view_of_def bakery_app_def xfer_of_def)
  qed
  moreover have "view_of lw C' y = ((view_of lw C)(x := view_of lw C' x)) y" for y using same by (cases x; cases y) auto
  then have "view_of lw C' = (view_of lw C)(x := view_of lw C' x)" ..
  ultimately show "view_of lw C' = view_of lw C \<or> view_of lw C' = (view_of lw C)(x := bakery_app (view_of lw C x))" by (metis fun_upd_triv)
qed

section \<open>The lock excludes\<close>

definition lock_start :: "(bool \<Rightarrow> nat) \<Rightarrow> u32 \<Rightarrow> lock_sys \<Rightarrow> bool" where
  "lock_start lw b s \<longleftrightarrow> lock_layout lw b (cores s) \<and> \<not> wrapped s \<and>
     (\<forall>x. lpc (cores s x) = Free \<and> noc_dma_done (remote_cpuid (cores s x)) (lnode (cores s x)) \<and>
        (\<forall>k<4. spm (lnode (cores s x)) (lw x + k) = 0))"

definition lock_inv :: "(bool \<Rightarrow> nat) \<Rightarrow> u32 \<Rightarrow> lock_sys \<Rightarrow> bool" where
  "lock_inv lw b s \<longleftrightarrow> lock_layout lw b (cores s) \<and>
     (\<not> wrapped s \<longrightarrow> bakery_inv (view_of lw (cores s) True) (view_of lw (cores s) False))"

lemma bakery_inv_any: "bakery_inv (view_of lw C True) (view_of lw C False) \<longleftrightarrow> bakery_inv (view_of lw C x) (view_of lw C (\<not> x))"
  using bakery_inv_commute by (cases x) auto

lemma lock_start_inv: "lock_start lw b s \<Longrightarrow> lock_inv lw b s"
proof -
  assume start: "lock_start lw b s"
  have zero: "spm (lnode (cores s x)) (lw x + k) = 0" if "k < 4" for x k using start that by (simp add: lock_start_def)
  have "view_of lw (cores s) x = \<lparr>vpc = Free, ent = 0, num = 0, ent_r = 0, num_r = 0, xf = NoX, vn = lock_n (cores s x),
      vm = lock_m (cores s x), vid = lcpuid (cores s x)\<rparr>" for x
    using start zero [of 0] zero [of 1] zero [of 2] zero [of 3] by (simp add: view_of_def lock_start_def xfer_of_def dma_done_entry)
  then show ?thesis
    using start by (simp add: lock_inv_def lock_start_def bakery_inv_def own_ok_def pair_ok_def chosen_def not_lock_x_def)
qed

lemma lock_step_inv:
  assumes "lock_inv lw b s" "in_order net"
  shows "lock_inv lw b (lock_step net act s)"
proof (cases act)
  case (Core x)
  let ?C = "cores s" and ?s = "lock_step net act s"
  have lay: "lock_layout lw b ?C" using assms(1) by (simp add: lock_inv_def)
  have cores: "cores ?s = ?C(x := core_step (?C x))"
    and wrap: "wrapped ?s \<longleftrightarrow> wrapped s \<or> (lpc (?C x) = TakeNumber \<and> lock_n (core_step (?C x)) = 0)"
    using Core by (simp_all add: lock_step_def Let_def)
  note ref = core_step_refines [OF lay, of x, folded cores]
  have "bakery_inv (view_of lw (cores ?s) x) (view_of lw (cores ?s) (\<not> x))" if "\<not> wrapped ?s"
  proof -
    have "bakery_inv (view_of lw ?C x) (view_of lw ?C (\<not> x))"
      using assms(1) that wrap bakery_inv_any [of lw ?C x] by (simp add: lock_inv_def)
    moreover have "vid (view_of lw ?C x) \<noteq> vid (view_of lw ?C (\<not> x))"
      using lay not_sym by (cases x) (auto simp: lock_layout_def view_of_def)
    moreover have "vn (view_of lw (cores ?s) x) = lock_n (core_step (?C x))" by (simp add: view_of_def cores)
    then have "lock_n (core_step (?C x)) = vn (bakery_step (view_of lw ?C x) (view_of lw ?C (\<not> x)))" unfolding ref(2) by simp
    then have "vpc (view_of lw ?C x) = TakeNumber \<longrightarrow> num_r (view_of lw ?C (\<not> x)) + 1 \<noteq> 0"
      using that wrap by (auto simp: view_of_def bakery_step_def)
    ultimately show ?thesis using bakery_step_inv ref(2) by (cases x) simp_all
  qed
  then show ?thesis using ref(1) bakery_inv_any [of lw "cores ?s" x] by (simp add: lock_inv_def)
next
  case (App x n)
  let ?C = "cores s"
  have lay: "lock_layout lw b ?C" using assms(1) by (simp add: lock_inv_def)
  show ?thesis
  proof (cases "app_ok (?C x) n")
    case True
    note ref = app_refines [OF lay True]
    have "bakery_inv (bakery_app (view_of lw ?C x)) (view_of lw ?C (\<not> x))" if "\<not> wrapped s"
      using assms(1) that bakery_inv_any [of lw ?C x] by (intro bakery_app_inv) (simp add: lock_inv_def)
    then show ?thesis
      using ref assms(1) bakery_inv_commute True App by (cases x) (auto simp: lock_inv_def lock_step_def)
  qed (use assms(1) App in \<open>simp add: lock_step_def\<close>)
next
  case (Net x)
  let ?C = "cores s"
  have lay: "lock_layout lw b ?C" using assms(1) by (simp add: lock_inv_def)
  obtain n m where nm: "net_slot net (remote_cpuid (?C x)) (lnode (?C x)) (lnode (?C (\<not> x))) = (n, m)" by force
  note ref = net_refines [OF lay assms(2) nm]
  have step: "lock_step net act s = s\<lparr>cores := ?C(x := (?C x)\<lparr>lnode := n\<rparr>, (\<not> x) := (?C (\<not> x))\<lparr>lnode := m\<rparr>)\<rparr>"
    using Net nm by (simp add: lock_step_def)
  have "bakery_inv (bakery_arrive (view_of lw ?C x)) (view_of lw ?C (\<not> x))" if "\<not> wrapped s"
    using assms(1) that bakery_inv_any [of lw ?C x] by (intro bakery_arrive_inv) (simp add: lock_inv_def)
  then show ?thesis
    using ref assms(1) bakery_inv_commute unfolding step by (cases x) (auto simp: lock_inv_def)
qed

text \<open>Two cores that have initialised their locks, and know the other one's address, are in the initial state.\<close>

definition locks_of :: "(bool \<Rightarrow> u32 \<times> u32 \<times> 'a core_scheme) \<Rightarrow> lock_sys" where
  "locks_of I = \<lparr>cores = (\<lambda>x. case I x of (p, q, c) \<Rightarrow>
     \<lparr>lnode = node.truncate c, lcpuid = cpuid c, lock = p, remote_ptr = fst (I (\<not> x)), remote_cpuid = q, lpc = Free, lock_n = 0, lock_m = 0\<rparr>),
     wrapped = False\<rparr>"

lemma initialize_lock_eq:
  assumes "core_ready w sz c" "w + 6 \<le> sz"
  shows "initialize_lock rem c = (spm_ptr (spm_base c) w, ucast (ucast rem :: u8),
    c\<lparr>spm_alloc := spm_ptr (spm_base c) (w + 6), spm := (spm c)(w := 0, w + 1 := 0, w + 2 := 0, w + 3 := 0)\<rparr>)"
proof -
  have "mp_alloc 24 c = (spm_ptr (spm_base c) w, c\<lparr>spm_alloc := spm_ptr (spm_base c) (w + 6)\<rparr>)"
    using mp_alloc_ready(1) [OF assms] by simp
  moreover have "w + 3 < 2 ^ 14" using assms by (simp add: core_ready_def)
  ultimately show ?thesis by (simp add: initialize_lock_def lock_fields store_ptr)
qed

lemma initialized_locks_start:
  assumes "\<And>x. core_ready (lw x) (sz x) (C x)" "\<And>x. lw x + 6 \<le> sz x" "\<And>x. spm_base (C x) = b"
    "cpuid (C True) \<noteq> cpuid (C False)" "\<And>x. cpuid (C x) < 256" "\<And>x. noc_dma_done (cpuid (C (\<not> x))) (C x)"
  shows "lock_start lw b (locks_of (\<lambda>x. initialize_lock (cpuid (C (\<not> x))) (C x)))"
proof -
  let ?s = "locks_of (\<lambda>x. initialize_lock (cpuid (C (\<not> x))) (C x))"
  have id: "(ucast (ucast (cpuid (C x)) :: u8) :: u32) = cpuid (C x)" for x
    using assms(5) [of x] by (simp add: word_unat_eq_iff unsigned_ucast_eq unsigned_take_bit_eq take_bit_nat_eq_self word_less_nat_alt)
  have small: "lw x + 3 < 2 ^ 14" for x using assms(1,2) [of x] by (simp add: core_ready_def)
  have c: "cores ?s x = \<lparr>lnode = \<lparr>spm_base = b, spm = (spm (C x))(lw x := 0, lw x + 1 := 0, lw x + 2 := 0, lw x + 3 := 0), dma_tab = dma_tab (C x)\<rparr>,
      lcpuid = cpuid (C x), lock = spm_ptr b (lw x), remote_ptr = spm_ptr b (lw (\<not> x)), remote_cpuid = cpuid (C (\<not> x)),
      lpc = Free, lock_n = 0, lock_m = 0\<rparr>" for x
    by (simp add: locks_of_def initialize_lock_eq [OF assms(1,2)] node.defs assms(3) id)
  have idle: "\<not> entry_active (dma_entry (cpuid (C (\<not> x))) (lnode (cores ?s x)))" for x
    using assms(6) [of x] by (simp add: c dma_done_entry dma_entry_def)
  have "spm (lnode (cores ?s x)) (lw x + k) = 0" if "k < 4" for x k
    using that by (auto simp: c less_Suc_eq numeral_eq_Suc)
  moreover have "lock_layout lw b (cores ?s)"
    using assms(4) small idle by (simp add: lock_layout_def xfer_ok_def c)
  moreover have "noc_dma_done (remote_cpuid (cores ?s x)) (lnode (cores ?s x))" for x
    using idle [of x] by (simp add: dma_done_entry c)
  ultimately show ?thesis by (simp add: lock_start_def c) (simp add: locks_of_def)
qed

text \<open>C3: for every network that delivers words in order, and however the two cores and the network interleave, over any number of
  acquisitions and releases, and whatever else the cores do outside the lock, the cores never hold the lock at the same time, as long as no number has wrapped
  around to 0.\<close>

theorem lock_mutual_exclusion:
  assumes "in_order net" "lock_start lw b s0" "s = fold (lock_step net) acts s0" "\<not> wrapped s"
  shows "\<not> (lpc (cores s True) = Held \<and> lpc (cores s False) = Held)"
proof -
  have "lock_inv lw b (fold (lock_step net) acts s)" if "lock_inv lw b s" for s
    using that by (induction acts arbitrary: s) (simp_all add: lock_step_inv assms(1))
  then have "bakery_inv (view_of lw (cores s) True) (view_of lw (cores s) False)"
    using lock_start_inv [OF assms(2)] assms(3,4) by (simp add: lock_inv_def)
  then show ?thesis using bakery_exclusive by (force simp: view_of_def)
qed

section \<open>Witness\<close>

definition demo_lock_core :: "u32 \<Rightarrow> u32 \<Rightarrow> lock_core" where
  "demo_lock_core i j = \<lparr>lnode = \<lparr>spm_base = 0x1000, spm = \<lambda>_. 0, dma_tab = \<lambda>_. 0\<rparr>, lcpuid = i, lock = spm_ptr 0x1000 8, remote_ptr = spm_ptr 0x1000 8,
     remote_cpuid = j, lpc = Free, lock_n = 0, lock_m = 0\<rparr>"

definition demo_locks :: lock_sys where
  "demo_locks = \<lparr>cores = (\<lambda>x. if x then demo_lock_core 1 2 else demo_lock_core 2 1), wrapped = False\<rparr>"

text \<open>Both cores enter at the same time; the one with the smaller identifier gets the lock, the other one waits.\<close>

definition demo_acts :: "lock_act list" where
  "demo_acts = concat (replicate 11 [Core True, Core False, Net True, Net False])"

theorem lock_mutual_exclusion_witness:
  "in_order one_word_net \<and> lock_start (\<lambda>_. 8) 0x1000 demo_locks \<and>
    (\<exists>s. s = fold (lock_step one_word_net) demo_acts demo_locks \<and> \<not> wrapped s \<and> lpc (cores s True) = Held \<and> lpc (cores s False) \<noteq> Held)"
proof -
  let ?s = "fold (lock_step one_word_net) demo_acts demo_locks"
  have start: "lock_start (\<lambda>_. 8) 0x1000 demo_locks"
    by (simp add: lock_start_def lock_layout_def demo_locks_def demo_lock_core_def xfer_ok_def dma_done_entry dma_entry_def entry_active_def)
  have run: "lpc (cores ?s True) = Held" "\<not> wrapped ?s" by code_simp+
  then have "\<not> (lpc (cores ?s True) = Held \<and> lpc (cores ?s False) = Held)"
    using lock_mutual_exclusion [OF one_word_net_in_order start refl] by blast
  then show ?thesis using run start one_word_net_in_order by blast
qed

end
