(* ===== verification/Mp_Sample.thy ===== *)
theory Mp_Sample
  imports Mp_Lock
begin

text \<open>
  Sampling ports \<^verbatim>\<open>c/libmp/sampling.c\<close>, in the variant that is compiled by default (\<open>DOUBLE_NOC\<close>): two read buffers at the
  sink, of which \<open>newest\<close> is the one to read; the source fills the other one without the lock and takes the lock only
  to switch.

  The source is core \<open>True\<close> and the sink core \<open>False\<close> of the lock.  A step is one access to the scratchpad or one attempt to
  start or to await a transfer; the calls, both cores and the network interleave arbitrarily.
\<close>

section \<open>The ports\<close>

record spd_t =
  spd_ptr :: u32        \<comment> \<open>the address of the descriptor, whose fields \<open>next\<close> and \<open>newest\<close> are in the scratchpad\<close>
  spd_direction :: direction_t
  remote :: u32
  remote_spd :: u32
  read_bufs :: u32
  sample_size :: u32
  spd_lock :: u32

text \<open>The union of the descriptor holds \<open>reading\<close> and \<open>next\<close> at the source, \<open>newest\<close> and \<open>next_reading\<close> at the sink.\<close>

definition newest_at :: "u32 \<Rightarrow> u32" where
  "newest_at p = p + 32"

definition next_at :: "u32 \<Rightarrow> u32" where
  "next_at p = p + 36"

datatype write_pc = WIdle | WSend | WAwait | WAcquire | WNewest | WAwaitNewest | WRelease | WFlip

datatype read_pc = RIdle | RAcquire | RLoad | RCopy nat | RRelease

record samp_sys =
  locks :: lock_sys
  src_port :: spd_t
  sink_port :: spd_t
  wpc :: write_pc
  wsample :: u32              \<comment> \<open>the argument of \<open>mp_write\<close>\<close>
  rpc :: read_pc
  rsample :: u32              \<comment> \<open>the argument of \<open>mp_read\<close>\<close>
  rnewest :: u32              \<comment> \<open>the local variable \<open>newest\<close>\<close>
  written :: "u32 list list"        \<comment> \<open>the samples of all calls of \<open>mp_write\<close>, in order\<close>
  published :: "u32 list list"      \<comment> \<open>the samples that have become the newest, in order\<close>
  reads :: "(nat \<times> u32 list) list"    \<comment> \<open>what was read, with the number of samples published at that time\<close>

definition core_of :: "bool \<Rightarrow> samp_sys \<Rightarrow> lock_core" where
  "core_of x s = cores (locks s) x"

definition node_of :: "bool \<Rightarrow> samp_sys \<Rightarrow> node" where
  "node_of x s = lnode (core_of x s)"

definition set_node :: "bool \<Rightarrow> node \<Rightarrow> samp_sys \<Rightarrow> samp_sys" where
  "set_node x n s = s\<lparr>locks := (locks s)\<lparr>cores := (cores (locks s))(x := (core_of x s)\<lparr>lnode := n\<rparr>)\<rparr>\<rparr>"

definition words_from :: "u32 \<Rightarrow> nat \<Rightarrow> node \<Rightarrow> u32 list" where
  "words_from p k n = map (\<lambda>i. spm_load (p + 4 * of_nat i) n) [0..<k]"

text \<open>The number of words, for sizes below \<open>2 ^ 31\<close>.\<close>

definition itteration_count :: "u32 \<Rightarrow> nat" where
  "itteration_count bytes = unat ((bytes + 4 - 1) div 4)"

text \<open>\<open>mp_write\<close>: the places between two steps, with the lock as in \<open>acquire_lock\<close> and \<open>release_lock\<close>.\<close>

definition write_step :: "network \<Rightarrow> samp_sys \<Rightarrow> samp_sys" where
  "write_step net s =
     (let sport = src_port s; n = node_of True s; L = lock_step net (Core True) (locks s)
      in case wpc s of
        WIdle \<Rightarrow> s
      | WSend \<Rightarrow>
          (case noc_nbwrite (remote sport) (read_bufs sport + spm_load (next_at (spd_ptr sport)) n * sample_size sport) (wsample s)
                  (sample_size sport) 0 n of
             (started, n) \<Rightarrow> (set_node True n s)\<lparr>wpc := (if started then WAwait else WSend)\<rparr>)
      | WAwait \<Rightarrow> if noc_dma_done (remote sport) n then s\<lparr>wpc := WAcquire\<rparr> else s
      | WAcquire \<Rightarrow> s\<lparr>locks := L, wpc := (if lpc (cores L True) = Held then WNewest else WAcquire)\<rparr>
      | WNewest \<Rightarrow>
          (case noc_nbwrite (remote sport) (newest_at (remote_spd sport)) (next_at (spd_ptr sport)) 4 0 n of
             (started, n) \<Rightarrow> (set_node True n s)\<lparr>wpc := (if started then WAwaitNewest else WNewest)\<rparr>)
      | WAwaitNewest \<Rightarrow>
          if noc_dma_done (remote sport) n
          then s\<lparr>wpc := WRelease, published := published s @ [words_from (wsample s) (itteration_count (sample_size sport)) n]\<rparr> else s
      | WRelease \<Rightarrow> s\<lparr>locks := L, wpc := (if lpc (cores L True) = Free then WFlip else WRelease)\<rparr>
      | WFlip \<Rightarrow> (set_node True (spm_store (next_at (spd_ptr sport)) (spm_load (next_at (spd_ptr sport)) n XOR 1) n) s)\<lparr>wpc := WIdle\<rparr>)"

text \<open>\<open>mp_read\<close>, with the loop of \<open>mem_copy\<close>.\<close>

definition read_step :: "network \<Rightarrow> samp_sys \<Rightarrow> samp_sys" where
  "read_step net s =
     (let sport = sink_port s; n = node_of False s; L = lock_step net (Core False) (locks s)
      in case rpc s of
        RIdle \<Rightarrow> s
      | RAcquire \<Rightarrow> s\<lparr>locks := L, rpc := (if lpc (cores L False) = Held then RLoad else RAcquire)\<rparr>
      | RLoad \<Rightarrow> s\<lparr>rnewest := spm_load (newest_at (spd_ptr sport)) n, rpc := RCopy 0\<rparr>
      | RCopy i \<Rightarrow>
          if i < itteration_count (sample_size sport)
          then (set_node False (spm_store (rsample s + 4 * of_nat i)
                  (spm_load (read_bufs sport + rnewest s * sample_size sport + 4 * of_nat i) n) n) s)\<lparr>rpc := RCopy (i + 1)\<rparr>
          else s\<lparr>rpc := RRelease, reads := reads s @ [(length (published s), words_from (rsample s) (itteration_count (sample_size sport)) n)]\<rparr>
      | RRelease \<Rightarrow> s\<lparr>locks := L, rpc := (if lpc (cores L False) = Free then RIdle else RRelease)\<rparr>)"

text \<open>The application calls \<open>mp_write\<close> with a sample it has put into the scratchpad, and \<open>mp_read\<close> with the place for one.\<close>

definition put_words :: "u32 \<Rightarrow> u32 list \<Rightarrow> node \<Rightarrow> node" where
  "put_words p xs n = fold (\<lambda>i. spm_store (p + 4 * of_nat i) (xs ! i)) [0..<length xs] n"

datatype samp_act = MpWrite u32 "u32 list" | MpRead u32 | Writer | Reader | Slot bool

definition samp_step :: "network \<Rightarrow> samp_act \<Rightarrow> samp_sys \<Rightarrow> samp_sys" where
  "samp_step net act s = (case act of
      MpWrite p xs \<Rightarrow> if wpc s = WIdle then (set_node True (put_words p xs (node_of True s)) s)\<lparr>wpc := WSend, wsample := p, written := written s @ [xs]\<rparr> else s
    | MpRead p \<Rightarrow> if rpc s = RIdle then s\<lparr>rpc := RAcquire, rsample := p\<rparr> else s
    | Writer \<Rightarrow> write_step net s
    | Reader \<Rightarrow> read_step net s
    | Slot x \<Rightarrow> s\<lparr>locks := lock_step net (Net x) (locks s)\<rparr>)"

section \<open>What the buffers hold\<close>

text \<open>The layout in words: the locks, \<open>next\<close> at the source; \<open>newest\<close> and the two buffers of \<open>l_words\<close> words at the sink.\<close>

record samp_layout =
  l_lock :: "bool \<Rightarrow> nat"
  l_next :: nat
  l_newest :: nat
  l_bufs :: nat
  l_words :: nat

definition clear_of :: "nat \<Rightarrow> nat \<Rightarrow> nat \<Rightarrow> nat \<Rightarrow> bool" where
  "clear_of a k b m \<longleftrightarrow> a + k \<le> b \<or> b + m \<le> a"

definition layout_ok :: "samp_layout \<Rightarrow> bool" where
  "layout_ok l \<longleftrightarrow> 0 < l_words l \<and> l_next l < 2 ^ 14 \<and> l_newest l < 2 ^ 14 \<and> l_bufs l + 2 * l_words l \<le> 2 ^ 14 \<and>
     clear_of (l_next l) 1 (l_lock l True) 4 \<and> clear_of (l_newest l) 1 (l_lock l False) 4 \<and>
     clear_of (l_bufs l) (2 * l_words l) (l_lock l False) 4 \<and> clear_of (l_bufs l) (2 * l_words l) (l_newest l) 1"

text \<open>Where a sample may be when \<open>mp_write\<close> is called, and where \<open>mp_read\<close> may put it.\<close>

definition src_area :: "samp_layout \<Rightarrow> nat \<Rightarrow> bool" where
  "src_area l a \<longleftrightarrow> a + l_words l \<le> 2 ^ 14 \<and> clear_of a (l_words l) (l_lock l True) 4 \<and> clear_of a (l_words l) (l_next l) 1"

definition sink_area :: "samp_layout \<Rightarrow> nat \<Rightarrow> bool" where
  "sink_area l a \<longleftrightarrow> a + l_words l \<le> 2 ^ 14 \<and> clear_of a (l_words l) (l_lock l False) 4 \<and> clear_of a (l_words l) (l_newest l) 1 \<and>
     clear_of a (l_words l) (l_bufs l) (2 * l_words l)"

text \<open>The part of the state that the data depend on: the two scratchpads, the entry of the source, the places and the arguments in words.\<close>

record samp_view =
  v_src :: "nat \<Rightarrow> u32"
  v_sink :: "nat \<Rightarrow> u32"
  v_ent :: "u32 \<times> u32"
  v_wpc :: write_pc
  v_smp :: nat
  v_rpc :: read_pc
  v_dst :: nat
  v_new :: u32
  v_calls :: "u32 list list"
  v_pub :: "u32 list list"
  v_got :: "(nat \<times> u32 list) list"

definition nxt :: "samp_layout \<Rightarrow> samp_view \<Rightarrow> nat" where
  "nxt l v = unat (v_src v (l_next l))"

definition cur :: "samp_layout \<Rightarrow> samp_view \<Rightarrow> nat" where
  "cur l v = (if v_wpc v = WRelease \<or> v_wpc v = WFlip then nxt l v else 1 - nxt l v)"

definition slot :: "samp_layout \<Rightarrow> nat \<Rightarrow> nat" where
  "slot l j = l_bufs l + j * l_words l"

definition sample_of :: "samp_layout \<Rightarrow> samp_view \<Rightarrow> u32 list" where
  "sample_of l v = map (\<lambda>i. v_src v (v_smp v + i)) [0..<l_words l]"

definition holds :: "samp_layout \<Rightarrow> samp_view \<Rightarrow> nat \<Rightarrow> u32 list \<Rightarrow> bool" where
  "holds l v j xs \<longleftrightarrow> length xs = l_words l \<and> (\<forall>i < l_words l. v_sink v (slot l j + i) = xs ! i)"

text \<open>Except while \<open>newest\<close> is on the way, \<open>newest\<close> names the buffer with the last published sample.\<close>

definition port_ok :: "samp_layout \<Rightarrow> samp_view \<Rightarrow> bool" where
  "port_ok l v \<longleftrightarrow> nxt l v < 2 \<and>
     (v_pub v \<noteq> [] \<and> v_wpc v \<noteq> WAwaitNewest \<longrightarrow> v_sink v (l_newest l) = of_nat (cur l v) \<and> holds l v (cur l v) (last (v_pub v)))"

definition lock_entry :: "samp_layout \<Rightarrow> u32 \<times> u32 \<Rightarrow> bool" where
  "lock_entry l e \<longleftrightarrow> (entry_active e \<longrightarrow> entry_words e = 1 \<and> (entry_write e = l_lock l False \<or> entry_write e = l_lock l False + 1))"

definition sending :: "samp_layout \<Rightarrow> samp_view \<Rightarrow> bool" where
  "sending l v \<longleftrightarrow>
     (if entry_active (v_ent v)
      then \<exists>k < l_words l. entry_words (v_ent v) = l_words l - k \<and> entry_write (v_ent v) = slot l (nxt l v) + k \<and>
        entry_read (v_ent v) = v_smp v + k \<and> (\<forall>i<k. v_sink v (slot l (nxt l v) + i) = v_src v (v_smp v + i))
      else holds l v (nxt l v) (sample_of l v))"

definition writer_ok :: "samp_layout \<Rightarrow> samp_view \<Rightarrow> bool" where
  "writer_ok l v \<longleftrightarrow> (v_wpc v \<noteq> WIdle \<longrightarrow> src_area l (v_smp v)) \<and> (case v_wpc v of
      WAwait \<Rightarrow> sending l v
    | WAwaitNewest \<Rightarrow> holds l v (nxt l v) (sample_of l v) \<and>
        (if entry_active (v_ent v)
         then entry_words (v_ent v) = 1 \<and> entry_write (v_ent v) = l_newest l \<and> entry_read (v_ent v) = l_next l
         else v_sink v (l_newest l) = v_src v (l_next l))
    | WAcquire \<Rightarrow> holds l v (nxt l v) (sample_of l v) \<and> lock_entry l (v_ent v)
    | WNewest \<Rightarrow> holds l v (nxt l v) (sample_of l v) \<and> lock_entry l (v_ent v)
    | WRelease \<Rightarrow> v_pub v \<noteq> [] \<and> lock_entry l (v_ent v)
    | WFlip \<Rightarrow> v_pub v \<noteq> [] \<and> lock_entry l (v_ent v)
    | _ \<Rightarrow> lock_entry l (v_ent v))"

definition reader_ok :: "samp_layout \<Rightarrow> samp_view \<Rightarrow> bool" where
  "reader_ok l v \<longleftrightarrow> (v_rpc v \<noteq> RIdle \<longrightarrow> sink_area l (v_dst v)) \<and> (case v_rpc v of
      RCopy i \<Rightarrow> i \<le> l_words l \<and>
        (v_pub v \<noteq> [] \<longrightarrow> v_new v = of_nat (cur l v) \<and> (\<forall>k<i. v_sink v (v_dst v + k) = last (v_pub v) ! k))
    | _ \<Rightarrow> True)"

definition log_ok :: "samp_view \<Rightarrow> bool" where
  "log_ok v \<longleftrightarrow> sorted (map fst (v_got v)) \<and> (\<forall>(k, xs) \<in> set (v_got v). k \<le> length (v_pub v) \<and> (0 < k \<longrightarrow> xs = v_pub v ! (k - 1)))"

definition calls_ok :: "samp_layout \<Rightarrow> samp_view \<Rightarrow> bool" where
  "calls_ok l v \<longleftrightarrow> v_calls v = (case v_wpc v of WIdle \<Rightarrow> v_pub v | WRelease \<Rightarrow> v_pub v | WFlip \<Rightarrow> v_pub v | _ \<Rightarrow> v_pub v @ [sample_of l v])"

definition view_ok :: "samp_layout \<Rightarrow> samp_view \<Rightarrow> bool" where
  "view_ok l v \<longleftrightarrow> calls_ok l v \<and> port_ok l v \<and> writer_ok l v \<and> reader_ok l v \<and> log_ok v"

text \<open>The critical sections that the lock keeps apart.\<close>

definition reading :: "samp_view \<Rightarrow> bool" where
  "reading v \<longleftrightarrow> (case v_rpc v of RLoad \<Rightarrow> True | RCopy i \<Rightarrow> True | _ \<Rightarrow> False)"

definition switching :: "samp_view \<Rightarrow> bool" where
  "switching v \<longleftrightarrow> v_wpc v = WNewest \<or> v_wpc v = WAwaitNewest"

lemmas view_defs = view_ok_def calls_ok_def port_ok_def writer_ok_def reader_ok_def log_ok_def holds_def sample_of_def nxt_def cur_def lock_entry_def

text \<open>What does not touch these words keeps the invariant.\<close>

lemma slot_in_bufs: "j < 2 \<Longrightarrow> i < l_words l \<Longrightarrow> l_bufs l \<le> slot l j + i \<and> slot l j + i < l_bufs l + 2 * l_words l"
  by (cases "j = 0"; cases "j = 1") (auto simp: slot_def)

lemma view_frame:
  assumes ok: "view_ok l v" and "v' = v\<lparr>v_src := f, v_sink := g, v_ent := e\<rparr>"
    and f: "f (l_next l) = v_src v (l_next l)" "v_wpc v \<noteq> WIdle \<longrightarrow> (\<forall>i < l_words l. f (v_smp v + i) = v_src v (v_smp v + i))"
    and g: "g (l_newest l) = v_sink v (l_newest l)" "\<And>a. l_bufs l \<le> a \<Longrightarrow> a < l_bufs l + 2 * l_words l \<Longrightarrow> g a = v_sink v a"
      "v_rpc v \<noteq> RIdle \<longrightarrow> (\<forall>i < l_words l. g (v_dst v + i) = v_sink v (v_dst v + i))"
    and e: "e = v_ent v \<or> lock_entry l e \<and> v_wpc v \<noteq> WAwait \<and> v_wpc v \<noteq> WAwaitNewest"
  shows "view_ok l v'"
proof -
  have n: "nxt l v' = nxt l v" "cur l v' = cur l v" "nxt l v < 2" "cur l v < 2"
    using assms(2) f(1) ok by (auto simp: nxt_def cur_def view_ok_def port_ok_def)
  have h: "holds l v' j xs = holds l v j xs" if "j < 2" for j xs
    using assms(2) g(2) slot_in_bufs [OF that] by (auto simp: holds_def)
  have s: "sample_of l v' = sample_of l v" if "v_wpc v \<noteq> WIdle" using that f(2) assms(2) by (auto simp: sample_of_def)
  have "port_ok l v'" using ok h n g(1) assms(2) by (auto simp: view_ok_def port_ok_def)
  moreover have "log_ok v'" using ok assms(2) by (simp add: view_ok_def log_ok_def)
  moreover have "reader_ok l v'" using ok n g(3) assms(2) by (auto simp: view_ok_def reader_ok_def split: read_pc.splits)
  moreover have "sending l v'" if "sending l v" "v_wpc v = WAwait"
  proof -
    have "v_sink v' (slot l (nxt l v) + i) = v_sink v (slot l (nxt l v) + i)" if "i < l_words l" for i
      using g(2) slot_in_bufs [OF n(3) that] assms(2) by simp
    moreover have "v_src v' (v_smp v + i) = v_src v (v_smp v + i)" if "i < l_words l" for i
      using f(2) \<open>v_wpc v = WAwait\<close> that assms(2) by simp
    ultimately show ?thesis using that h [OF n(3)] s e n assms(2) unfolding sending_def by (auto simp del: One_nat_def)
  qed
  then have "writer_ok l v'"
    using ok h [OF n(3)] s n g(1) f(1) e assms(2) by (cases "v_wpc v") (auto simp: view_ok_def writer_ok_def)
  moreover have "calls_ok l v'" using ok s assms(2) by (cases "v_wpc v") (auto simp: view_ok_def calls_ok_def)
  ultimately show ?thesis by (simp add: view_ok_def)
qed

subsection \<open>The source\<close>

lemma write_call_ok:
  assumes "view_ok l v" "v_wpc v = WIdle" "src_area l a" "f (l_next l) = v_src v (l_next l)"
    "xs = map (\<lambda>i. f (a + i)) [0..<l_words l]"
  shows "view_ok l (v\<lparr>v_src := f, v_wpc := WSend, v_smp := a, v_calls := v_calls v @ [xs]\<rparr>)"
  using assms by (auto simp: view_defs split: read_pc.splits)

lemma send_start_ok:
  assumes "view_ok l v" "v_wpc v = WSend" "entry_active e" "entry_words e = l_words l" "entry_write e = slot l (nxt l v)"
    "entry_read e = v_smp v" "0 < l_words l"
  shows "view_ok l (v\<lparr>v_wpc := WAwait, v_ent := e\<rparr>)"
  using assms by (auto simp: view_defs sending_def split: read_pc.splits intro!: exI [of _ 0])

lemma sent_ok: "view_ok l v \<Longrightarrow> v_wpc v = WAwait \<Longrightarrow> \<not> entry_active (v_ent v) \<Longrightarrow> view_ok l (v\<lparr>v_wpc := WAcquire\<rparr>)"
  by (auto simp: view_defs sending_def split: read_pc.splits)

lemma acquired_ok: "view_ok l v \<Longrightarrow> v_wpc v = WAcquire \<Longrightarrow> view_ok l (v\<lparr>v_wpc := WNewest\<rparr>)"
  by (auto simp: view_defs split: read_pc.splits)

lemma newest_start_ok:
  assumes "view_ok l v" "v_wpc v = WNewest" "entry_active e" "entry_words e = 1" "entry_write e = l_newest l" "entry_read e = l_next l"
  shows "view_ok l (v\<lparr>v_wpc := WAwaitNewest, v_ent := e\<rparr>)"
  using assms by (auto simp: view_defs split: read_pc.splits)

lemma publish_ok:
  assumes "view_ok l v" "v_wpc v = WAwaitNewest" "\<not> entry_active (v_ent v)" "\<not> reading v"
  shows "view_ok l (v\<lparr>v_wpc := WRelease, v_pub := v_pub v @ [sample_of l v]\<rparr>)"
proof -
  let ?u = "v\<lparr>v_wpc := WRelease, v_pub := v_pub v @ [sample_of l v]\<rparr>"
  have "log_ok ?u" using assms(1) by (fastforce simp: view_ok_def log_ok_def nth_append)
  moreover have "port_ok l ?u" "writer_ok l ?u" using assms by (auto simp: view_ok_def port_ok_def writer_ok_def cur_def nxt_def holds_def lock_entry_def)
  moreover have "reader_ok l ?u" using assms by (auto simp: view_ok_def reader_ok_def reading_def split: read_pc.splits)
  moreover have "calls_ok l ?u" using assms(1,2) by (simp add: view_ok_def calls_ok_def)
  ultimately show ?thesis by (simp add: view_ok_def)
qed

lemma released_ok: "view_ok l v \<Longrightarrow> v_wpc v = WRelease \<Longrightarrow> view_ok l (v\<lparr>v_wpc := WFlip\<rparr>)"
  by (auto simp: view_defs split: read_pc.splits)

lemma flip_bit:
  fixes x :: u32
  assumes "unat x < 2"
  shows "unat (x XOR 1) = 1 - unat x"
proof -
  from assms have "unat x = 0 \<or> unat x = unat (1 :: u32)" by auto
  then have "x = 0 \<or> x = 1" unfolding word_unat_eq_iff by simp
  then show ?thesis by auto
qed

lemma flip_ok:
  assumes "view_ok l v" "v_wpc v = WFlip"
  shows "view_ok l (v\<lparr>v_wpc := WIdle, v_src := (v_src v)(l_next l := v_src v (l_next l) XOR 1)\<rparr>)"
proof -
  have "unat (v_src v (l_next l)) < 2" using assms(1) by (simp add: view_ok_def port_ok_def nxt_def)
  note flip = flip_bit [OF this] this
  then have "1 - (1 - unat (v_src v (l_next l))) = unat (v_src v (l_next l))" by simp
  then show ?thesis using assms flip by (auto simp: view_defs split: read_pc.splits)
qed

subsection \<open>The sink\<close>

lemma sink_view:
  assumes u_def: "u = v\<lparr>v_rpc := p, v_dst := a, v_new := x, v_got := g\<rparr>"
  shows "port_ok l u = port_ok l v" "writer_ok l u = writer_ok l v" "cur l u = cur l v" "calls_ok l u = calls_ok l v"
proof -
  have same: "nxt l u = nxt l v" "cur l u = cur l v" "holds l u = holds l v" "sample_of l u = sample_of l v" "sending l u = sending l v"
    by (simp_all add: u_def nxt_def cur_def holds_def sample_of_def sending_def fun_eq_iff)
  have fields: "v_src u = v_src v" "v_sink u = v_sink v" "v_ent u = v_ent v" "v_wpc u = v_wpc v" "v_smp u = v_smp v" "v_pub u = v_pub v" "v_calls u = v_calls v"
    by (simp_all add: u_def)
  show "port_ok l u = port_ok l v" "writer_ok l u = writer_ok l v" "cur l u = cur l v" "calls_ok l u = calls_ok l v"
    unfolding port_ok_def writer_ok_def calls_ok_def same fields by (rule refl)+
qed

lemma sink_step:
  assumes "view_ok l v" "u = v\<lparr>v_rpc := p, v_dst := a, v_new := x, v_got := g\<rparr>" "reader_ok l u" "log_ok u"
  shows "view_ok l u"
  using assms sink_view [OF assms(2)] by (simp add: view_ok_def)

lemma read_call_ok: "view_ok l v \<Longrightarrow> sink_area l a \<Longrightarrow> view_ok l (v\<lparr>v_rpc := RAcquire, v_dst := a\<rparr>)"
  by (rule sink_step [where v = v and x = "v_new v" and g = "v_got v"]) (simp_all add: view_ok_def reader_ok_def log_ok_def)

lemma read_pc_ok:
  "view_ok l v \<Longrightarrow> v_rpc v = RAcquire \<Longrightarrow> view_ok l (v\<lparr>v_rpc := RLoad\<rparr>)"
  "view_ok l v \<Longrightarrow> v_rpc v = RRelease \<Longrightarrow> view_ok l (v\<lparr>v_rpc := RIdle\<rparr>)"
  by (rule sink_step [where v = v and a = "v_dst v" and x = "v_new v" and g = "v_got v"], (simp_all add: view_ok_def reader_ok_def log_ok_def)[4])+

lemma load_newest_ok:
  assumes "view_ok l v" "v_rpc v = RLoad" "\<not> switching v"
  shows "view_ok l (v\<lparr>v_rpc := RCopy 0, v_new := v_sink v (l_newest l)\<rparr>)"
proof (rule sink_step [where v = v and a = "v_dst v" and g = "v_got v", OF assms(1)])
  let ?u = "v\<lparr>v_rpc := RCopy 0, v_new := v_sink v (l_newest l)\<rparr>"
  have "cur l ?u = cur l v" by (simp add: cur_def nxt_def)
  then show "reader_ok l ?u" using assms by (auto simp: view_ok_def reader_ok_def port_ok_def switching_def)
  show "log_ok ?u" using assms(1) by (simp add: view_ok_def log_ok_def)
qed simp

text \<open>The loop copies from the buffer with the last published sample.  The source word is the one that \<open>newest\<close> selects.\<close>

lemma copy_word_ok:
  assumes ok: "view_ok l v" and "v_rpc v = RCopy i" "i < l_words l" "\<not> switching v" "layout_ok l"
    and x: "v_pub v \<noteq> [] \<Longrightarrow> x = v_sink v (slot l (cur l v) + i)"
  shows "view_ok l (v\<lparr>v_rpc := RCopy (i + 1), v_sink := (v_sink v)(v_dst v + i := x)\<rparr>)"
proof -
  have area: "sink_area l (v_dst v)" using ok assms(2) by (auto simp: view_ok_def reader_ok_def)
  let ?u = "v\<lparr>v_rpc := RIdle\<rparr>" and ?g = "(v_sink v)(v_dst v + i := x)" and ?w = "v\<lparr>v_rpc := RCopy (i + 1), v_sink := (v_sink v)(v_dst v + i := x)\<rparr>"
  have "view_ok l ?u"
    by (rule sink_step [where v = v and a = "v_dst v" and x = "v_new v" and g = "v_got v", OF ok])
      (use ok in \<open>simp_all add: view_ok_def reader_ok_def log_ok_def\<close>)
  then have u: "view_ok l (?u\<lparr>v_sink := ?g\<rparr>)"
    using assms(3) area by (rule_tac view_frame [where v = ?u and f = "v_src v" and g = ?g and e = "v_ent v"]) (auto simp: sink_area_def clear_of_def)
  have cur: "cur l v < 2" "cur l ?w = cur l v" using ok by (auto simp: view_ok_def port_ok_def cur_def nxt_def)
  have "reader_ok l ?w"
  proof (cases "v_pub v = []")
    case False
    then have "v_new v = of_nat (cur l v)" "\<forall>k<i. v_sink v (v_dst v + k) = last (v_pub v) ! k" "holds l v (cur l v) (last (v_pub v))"
      using ok assms(2,4) by (auto simp: view_ok_def reader_ok_def port_ok_def switching_def)
    then show ?thesis using x [OF False] assms(3) area cur by (auto simp: reader_ok_def holds_def less_Suc_eq)
  qed (use assms(3) area in \<open>simp add: reader_ok_def\<close>)
  moreover have "log_ok ?w" using ok by (simp add: view_ok_def log_ok_def)
  ultimately show ?thesis
    using sink_step [OF u, where p = "RCopy (i + 1)" and a = "v_dst v" and x = "v_new v" and g = "v_got v" and u = ?w] by simp
qed

lemma read_done_ok:
  assumes "view_ok l v" "v_rpc v = RCopy (l_words l)" "\<not> switching v"
    and "xs = map (\<lambda>i. v_sink v (v_dst v + i)) [0..<l_words l]"
  shows "view_ok l (v\<lparr>v_rpc := RRelease, v_got := v_got v @ [(length (v_pub v), xs)]\<rparr>)"
proof (rule sink_step [where v = v and a = "v_dst v" and x = "v_new v", OF assms(1)])
  have "xs = last (v_pub v)" if "v_pub v \<noteq> []"
    using assms that by (auto simp: view_ok_def reader_ok_def port_ok_def switching_def holds_def intro!: nth_equalityI)
  then show "log_ok (v\<lparr>v_rpc := RRelease, v_got := v_got v @ [(length (v_pub v), xs)]\<rparr>)"
    using assms(1) by (fastforce simp: view_ok_def log_ok_def sorted_append last_conv_nth)
  show "reader_ok l (v\<lparr>v_rpc := RRelease, v_got := v_got v @ [(length (v_pub v), xs)]\<rparr>)"
    using assms(1,2) by (simp add: view_ok_def reader_ok_def)
qed simp

subsection \<open>The network\<close>

text \<open>A slot of the source's transfer: \<open>k\<close> words of the entry are moved, \<open>e\<close> describes the rest.\<close>

definition slot_moves :: "nat \<Rightarrow> u32 \<times> u32 \<Rightarrow> u32 \<times> u32 \<Rightarrow> bool" where
  "slot_moves k e e' \<longleftrightarrow> entry_active e \<and> k \<le> entry_words e \<and> (entry_active e' \<longleftrightarrow> k < entry_words e) \<and>
     (k < entry_words e \<longrightarrow> entry_words e' = entry_words e - k \<and> entry_read e' = entry_read e + k \<and> entry_write e' = entry_write e + k)"

definition slot_view :: "nat \<Rightarrow> u32 \<times> u32 \<Rightarrow> samp_view \<Rightarrow> samp_view" where
  "slot_view k e v = v\<lparr>v_ent := e, v_sink := copy_words k (entry_read (v_ent v)) (entry_write (v_ent v)) (v_src v) (v_sink v)\<rparr>"

lemma slot_view_same [simp]:
  "v_src (slot_view k e v) = v_src v" "v_ent (slot_view k e v) = e" "v_wpc (slot_view k e v) = v_wpc v" "v_smp (slot_view k e v) = v_smp v"
  "v_rpc (slot_view k e v) = v_rpc v" "v_dst (slot_view k e v) = v_dst v" "v_new (slot_view k e v) = v_new v" "v_pub (slot_view k e v) = v_pub v"
  "v_got (slot_view k e v) = v_got v" "v_calls (slot_view k e v) = v_calls v" "nxt l (slot_view k e v) = nxt l v" "cur l (slot_view k e v) = cur l v"
  "sample_of l (slot_view k e v) = sample_of l v" "log_ok (slot_view k e v) = log_ok v" "calls_ok l (slot_view k e v) = calls_ok l v"
  by (simp_all add: slot_view_def nxt_def cur_def sample_of_def log_ok_def calls_ok_def cong: write_pc.case_cong)

lemma slot_view_sink: "a < entry_write (v_ent v) \<or> entry_write (v_ent v) + k \<le> a \<Longrightarrow> v_sink (slot_view k e v) a = v_sink v a"
  by (auto simp: slot_view_def copy_words_def)

lemma slot_lock_ok:
  assumes ok: "view_ok l v" and "layout_ok l" "slot_moves k (v_ent v) e" "lock_entry l (v_ent v)" "v_wpc v \<noteq> WAwait" "v_wpc v \<noteq> WAwaitNewest"
  shows "view_ok l (slot_view k e v)"
proof (rule view_frame [where v = v, OF ok])
  have w: "l_lock l False \<le> entry_write (v_ent v)" "entry_write (v_ent v) + k \<le> l_lock l False + 4"
    using assms(3,4) by (auto simp: slot_moves_def lock_entry_def)
  let ?g = "v_sink (slot_view k e v)"
  show "slot_view k e v = v\<lparr>v_src := v_src v, v_sink := ?g, v_ent := e\<rparr>" by (simp add: slot_view_def)
  show "?g (l_newest l) = v_sink v (l_newest l)" using assms(2) w by (intro slot_view_sink) (auto simp: layout_ok_def clear_of_def)
  show "?g a = v_sink v a" if "l_bufs l \<le> a" "a < l_bufs l + 2 * l_words l" for a
    using assms(2) w that by (intro slot_view_sink) (auto simp: layout_ok_def clear_of_def)
  have "sink_area l (v_dst v)" if "v_rpc v \<noteq> RIdle" using ok that by (simp add: view_ok_def reader_ok_def)
  then show "v_rpc v \<noteq> RIdle \<longrightarrow> (\<forall>i < l_words l. ?g (v_dst v + i) = v_sink v (v_dst v + i))"
    using w by (intro impI allI slot_view_sink) (auto simp: sink_area_def clear_of_def)
  show "e = v_ent v \<or> lock_entry l e \<and> v_wpc v \<noteq> WAwait \<and> v_wpc v \<noteq> WAwaitNewest"
    using assms(3-6) by (auto simp: slot_moves_def lock_entry_def)
qed simp_all

lemma slot_sample_ok:
  assumes ok: "view_ok l v" and lay: "layout_ok l" and mv: "slot_moves k (v_ent v) e" and pc: "v_wpc v = WAwait"
  shows "view_ok l (slot_view k e v)"
proof -
  let ?u = "slot_view k e v" and ?n = "nxt l v" and ?c = "cur l v"
  have n: "?n < 2" "?c = 1 - ?n" using ok pc by (auto simp: view_ok_def port_ok_def cur_def)
  obtain j where j: "j < l_words l" "entry_words (v_ent v) = l_words l - j" "entry_write (v_ent v) = slot l ?n + j"
      "entry_read (v_ent v) = v_smp v + j" "\<forall>i<j. v_sink v (slot l ?n + i) = v_src v (v_smp v + i)"
    using ok mv pc by (auto simp: view_ok_def writer_ok_def sending_def slot_moves_def)
  have k: "j + k \<le> l_words l" using mv j by (auto simp: slot_moves_def)
  have outside: "v_sink ?u a = v_sink v a" if "a < slot l ?n \<or> slot l ?n + l_words l \<le> a" for a
    using that j(3) k by (intro slot_view_sink) auto
  have bufs: "l_bufs l \<le> slot l ?n" "slot l ?n + l_words l \<le> l_bufs l + 2 * l_words l" using n by (auto simp: slot_def less_2_cases_iff)
  have "v_sink ?u (slot l ?c + i) = v_sink v (slot l ?c + i)" if "i < l_words l" for i
    using n that by (intro outside) (auto simp: slot_def less_2_cases_iff)
  moreover have "v_sink ?u (l_newest l) = v_sink v (l_newest l)"
    using lay bufs by (intro outside) (auto simp: layout_ok_def clear_of_def)
  ultimately have "port_ok l ?u" using ok by (auto simp: view_ok_def port_ok_def holds_def)
  moreover have "v_sink ?u (v_dst v + i) = v_sink v (v_dst v + i)" if "v_rpc v \<noteq> RIdle" "i < l_words l" for i
    using ok that bufs by (intro outside) (auto simp: view_ok_def reader_ok_def sink_area_def clear_of_def)
  then have "reader_ok l ?u" using ok by (auto simp: view_ok_def reader_ok_def split: read_pc.splits)
  moreover have "v_sink ?u (slot l ?n + i) = v_src v (v_smp v + i)" if "i < j + k" for i
    using that j by (cases "i < j") (auto simp: slot_view_def copy_words_def)
  then have "sending l ?u" using mv j k
    by (auto simp: sending_def slot_moves_def holds_def sample_of_def intro!: exI [of _ "j + k"])
  then have "writer_ok l ?u" using ok pc by (simp add: view_ok_def writer_ok_def)
  ultimately show ?thesis using ok by (simp add: view_ok_def)
qed

lemma slot_newest_ok:
  assumes ok: "view_ok l v" and lay: "layout_ok l" and mv: "slot_moves k (v_ent v) e" and pc: "v_wpc v = WAwaitNewest" "\<not> reading v"
  shows "view_ok l (slot_view k e v)"
proof -
  let ?u = "slot_view k e v"
  have e: "entry_words (v_ent v) = 1" "entry_write (v_ent v) = l_newest l" "entry_read (v_ent v) = l_next l"
      and n: "nxt l v < 2" and h: "holds l v (nxt l v) (sample_of l v)"
    using ok mv pc(1) by (auto simp: view_ok_def port_ok_def writer_ok_def slot_moves_def)
  have k: "k = 0 \<or> k = 1" using mv e by (auto simp: slot_moves_def)
  have "v_sink ?u (slot l (nxt l v) + i) = v_sink v (slot l (nxt l v) + i)" if "i < l_words l" for i
    using lay slot_in_bufs [OF n that] k e(2) by (intro slot_view_sink) (auto simp: layout_ok_def clear_of_def)
  then have "holds l ?u (nxt l v) (sample_of l v)" using h by (simp add: holds_def)
  moreover have "entry_active e \<longrightarrow> k = 0" "\<not> entry_active e \<longrightarrow> k = 1" using mv e k by (auto simp: slot_moves_def)
  then have "if entry_active e then entry_words e = 1 \<and> entry_write e = l_newest l \<and> entry_read e = l_next l
      else v_sink ?u (l_newest l) = v_src v (l_next l)"
    using mv e by (auto simp: slot_moves_def slot_view_def copy_words_def)
  ultimately have "writer_ok l ?u" using ok pc(1) by (simp add: view_ok_def writer_ok_def)
  moreover have "port_ok l ?u" using n pc(1) by (simp add: port_ok_def)
  moreover have "reader_ok l ?u" using ok pc(2) by (auto simp: view_ok_def reader_ok_def reading_def split: read_pc.splits)
  ultimately show ?thesis using ok by (simp add: view_ok_def)
qed

lemma slot_ok_view:
  assumes "view_ok l v" "layout_ok l" "slot_moves k (v_ent v) e" "\<not> (switching v \<and> reading v)"
  shows "view_ok l (slot_view k e v)"
proof (cases "v_wpc v = WAwait \<or> v_wpc v = WAwaitNewest")
  case False
  then have "lock_entry l (v_ent v)" using assms(1) by (cases "v_wpc v") (auto simp: view_ok_def writer_ok_def)
  then show ?thesis using slot_lock_ok [OF assms(1-3)] False by simp
qed (use slot_sample_ok [OF assms(1-3)] slot_newest_ok [OF assms(1-3)] assms(4) in \<open>auto simp: switching_def\<close>)

section \<open>The ports keep the invariant\<close>

definition entry_of :: "bool \<Rightarrow> samp_sys \<Rightarrow> u32 \<times> u32" where
  "entry_of x s = dma_entry (remote_cpuid (core_of x s)) (node_of x s)"

definition view_of_ports :: "samp_sys \<Rightarrow> samp_view" where
  "view_of_ports s = \<lparr>v_src = spm (node_of True s), v_sink = spm (node_of False s),
     v_ent = entry_of True s, v_wpc = wpc s, v_smp = spm_word (node_of True s) (wsample s),
     v_rpc = rpc s, v_dst = spm_word (node_of False s) (rsample s), v_new = rnewest s, v_calls = written s, v_pub = published s, v_got = reads s\<rparr>"

text \<open>The descriptors describe the layout, and the arguments of the calls point into the scratchpads.\<close>

definition ports_ok :: "samp_layout \<Rightarrow> u32 \<Rightarrow> samp_sys \<Rightarrow> bool" where
  "ports_ok l b s \<longleftrightarrow> remote (src_port s) = remote_cpuid (core_of True s) \<and> next_at (spd_ptr (src_port s)) = spm_ptr b (l_next l) \<and>
     newest_at (remote_spd (src_port s)) = spm_ptr b (l_newest l) \<and> read_bufs (src_port s) = spm_ptr b (l_bufs l) \<and>
     sample_size (src_port s) = 4 * of_nat (l_words l) \<and> newest_at (spd_ptr (sink_port s)) = spm_ptr b (l_newest l) \<and>
     read_bufs (sink_port s) = spm_ptr b (l_bufs l) \<and> sample_size (sink_port s) = 4 * of_nat (l_words l)"

definition args_ok :: "u32 \<Rightarrow> samp_sys \<Rightarrow> bool" where
  "args_ok b s \<longleftrightarrow> (wpc s \<noteq> WIdle \<longrightarrow> spm_ptr b (spm_word (node_of True s) (wsample s)) = wsample s) \<and>
     (rpc s \<noteq> RIdle \<longrightarrow> spm_ptr b (spm_word (node_of False s) (rsample s)) = rsample s)"

text \<open>Where the lock is, for each place in \<open>mp_write\<close> and \<open>mp_read\<close>.\<close>

definition acquiring :: "lock_pc \<Rightarrow> bool" where
  "acquiring p \<longleftrightarrow> p \<noteq> Held \<and> p \<noteq> WriteReleased \<and> p \<noteq> AwaitReleased"

definition releasing :: "lock_pc \<Rightarrow> bool" where
  "releasing p \<longleftrightarrow> p = Held \<or> p = WriteReleased \<or> p = AwaitReleased"

definition write_place :: "write_pc \<Rightarrow> lock_pc \<Rightarrow> bool" where
  "write_place w p = (case w of WAcquire \<Rightarrow> acquiring p | WNewest \<Rightarrow> p = Held | WAwaitNewest \<Rightarrow> p = Held | WRelease \<Rightarrow> releasing p | _ \<Rightarrow> p = Free)"

definition read_place :: "read_pc \<Rightarrow> lock_pc \<Rightarrow> bool" where
  "read_place r p = (case r of RIdle \<Rightarrow> p = Free | RAcquire \<Rightarrow> acquiring p | RRelease \<Rightarrow> releasing p | _ \<Rightarrow> p = Held)"

text \<open>The transfers of the sink are only those of the lock.\<close>

definition sink_entry_ok :: "samp_layout \<Rightarrow> samp_sys \<Rightarrow> bool" where
  "sink_entry_ok l s \<longleftrightarrow> (entry_active (entry_of False s) \<longrightarrow> entry_words (entry_of False s) = 1 \<and>
     (entry_write (entry_of False s) = l_lock l True \<or> entry_write (entry_of False s) = l_lock l True + 1))"

definition samp_inv :: "samp_layout \<Rightarrow> u32 \<Rightarrow> samp_sys \<Rightarrow> bool" where
  "samp_inv l b s \<longleftrightarrow> layout_ok l \<and> ports_ok l b s \<and> args_ok b s \<and> lock_inv (l_lock l) b (locks s) \<and> write_place (wpc s) (lpc (core_of True s)) \<and>
     read_place (rpc s) (lpc (core_of False s)) \<and> sink_entry_ok l s \<and> view_ok l (view_of_ports s)"

lemma samp_exclusive:
  assumes "samp_inv l b s" "\<not> wrapped (locks s)"
  shows "\<not> (switching (view_of_ports s) \<and> reading (view_of_ports s))"
proof -
  have "bakery_inv (view_of (l_lock l) (cores (locks s)) True) (view_of (l_lock l) (cores (locks s)) False)"
    using assms by (simp add: samp_inv_def lock_inv_def)
  then have "\<not> (lpc (core_of True s) = Held \<and> lpc (core_of False s) = Held)"
    using bakery_exclusive by (force simp: view_of_def core_of_def)
  then show ?thesis using assms(1)
    by (auto simp: samp_inv_def switching_def reading_def view_of_ports_def write_place_def read_place_def split: read_pc.splits)
qed

lemma inv_layout: "samp_inv l b s \<Longrightarrow> lock_layout (l_lock l) b (cores (locks s))"
  by (simp add: samp_inv_def lock_inv_def)

lemma inv_base: "samp_inv l b s \<Longrightarrow> spm_base (node_of x s) = b"
  using inv_layout by (force simp: lock_layout_def node_of_def core_of_def)

subsection \<open>Steps of the lock\<close>

lemma core_step_frame:
  assumes "lock_layout lw b C"
  shows "a < lw x \<or> lw x + 4 \<le> a \<Longrightarrow> spm (lnode (core_step (C x))) a = spm (lnode (C x)) a"
    and "dma_entry (remote_cpuid (C x)) (lnode (core_step (C x))) = dma_entry (remote_cpuid (C x)) (lnode (C x)) \<or>
      (entry_words (dma_entry (remote_cpuid (C x)) (lnode (core_step (C x)))) = 1 \<and>
       (entry_write (dma_entry (remote_cpuid (C x)) (lnode (core_step (C x)))) = lw (\<not> x) \<or>
        entry_write (dma_entry (remote_cpuid (C x)) (lnode (core_step (C x)))) = lw (\<not> x) + 1))"
    and "remote_cpuid (core_step (C x)) = remote_cpuid (C x)" "spm_base (lnode (core_step (C x))) = b"
proof -
  have f: "spm_base (lnode (C x)) = b" "lock (C x) = spm_ptr b (lw x)" "remote_ptr (C x) = spm_ptr b (lw (\<not> x))"
      "lw x + 3 < 2 ^ 14" "lw (\<not> x) + 3 < 2 ^ 14"
    using assms by (simp_all add: lock_layout_def)
  note words = core_step_words [OF f]
  have lt: "lw x + 2 < 2 ^ 14" "lw (\<not> x) < 2 ^ 14" "lw (\<not> x) + 1 < 2 ^ 14" using f(4,5) by simp_all
  show "spm (lnode (core_step (C x))) a = spm (lnode (C x)) a" if "a < lw x \<or> lw x + 4 \<le> a"
    using that unfolding words by (cases "lpc (C x)") (auto simp: word_step_def Let_def)
  show "dma_entry (remote_cpuid (C x)) (lnode (core_step (C x))) = dma_entry (remote_cpuid (C x)) (lnode (C x)) \<or>
      (entry_words (dma_entry (remote_cpuid (C x)) (lnode (core_step (C x)))) = 1 \<and>
       (entry_write (dma_entry (remote_cpuid (C x)) (lnode (core_step (C x)))) = lw (\<not> x) \<or>
        entry_write (dma_entry (remote_cpuid (C x)) (lnode (core_step (C x)))) = lw (\<not> x) + 1))"
    using word_step_entry [of "C x" "lw x" "lw (\<not> x)"] data_word [OF lt(2) lt(1), of DATA_PKT_TYPE] data_word [OF lt(3) f(4), of DATA_PKT_TYPE]
    unfolding words by auto
  show "remote_cpuid (core_step (C x)) = remote_cpuid (C x)" "spm_base (lnode (core_step (C x))) = b"
    using f(1) unfolding words by (simp_all add: word_step_same)
qed

lemma core_step_place:
  "acquiring (lpc c) \<Longrightarrow> lpc (core_step c) = Held \<or> acquiring (lpc (core_step c))"
  "releasing (lpc c) \<Longrightarrow> lpc (core_step c) = Free \<or> releasing (lpc (core_step c))"
  by (cases "lpc c"; auto simp: core_step_def acquiring_def releasing_def store_local_def send_word_def await_done_def Let_def split: prod.splits)+

lemma spm_word_base: "spm_base n = spm_base m \<Longrightarrow> spm_word n p = spm_word m p"
  by (simp add: spm_word_def)

text \<open>A step of \<open>acquire_lock\<close> or \<open>release_lock\<close> touches nothing of the ports.\<close>

lemma core_run:
  assumes inv: "samp_inv l b s" and net: "in_order net" and s': "s' = s\<lparr>locks := lock_step net (Core x) (locks s)\<rparr>"
    and idle: "x \<longrightarrow> wpc s \<noteq> WAwait \<and> wpc s \<noteq> WAwaitNewest"
  shows "ports_ok l b s'" "args_ok b s'" "lock_inv (l_lock l) b (locks s')" "sink_entry_ok l s'" "view_ok l (view_of_ports s')"
    "core_of y s' = (if y = x then core_step (core_of x s) else core_of y s)"
proof -
  have lay: "layout_ok l" using inv by (simp add: samp_inv_def)
  note frame = core_step_frame [OF inv_layout [OF inv], where x = x, folded core_of_def]
  show core: "core_of y s' = (if y = x then core_step (core_of x s) else core_of y s)" for y
    by (simp add: s' core_of_def lock_step_def Let_def)
  show "lock_inv (l_lock l) b (locks s')" using lock_step_inv [OF _ net] inv by (simp add: s' samp_inv_def)
  have remote: "remote_cpuid (core_of y s') = remote_cpuid (core_of y s)" for y using frame(3) by (simp add: core)
  have base: "spm_base (node_of y s') = spm_base (node_of y s)" for y using frame(4) inv_base [OF inv] by (simp add: core node_of_def)
  have fields: "src_port s' = src_port s" "sink_port s' = sink_port s" "wpc s' = wpc s" "rpc s' = rpc s" "wsample s' = wsample s" "rsample s' = rsample s"
    by (simp_all add: s')
  show "ports_ok l b s'" using inv by (simp add: samp_inv_def ports_ok_def fields remote)
  show "args_ok b s'" using inv by (simp add: samp_inv_def args_ok_def fields spm_word_base [OF base])
  have mem: "spm (node_of y s') a = spm (node_of y s) a" if "y = x \<longrightarrow> a < l_lock l x \<or> l_lock l x + 4 \<le> a" for y a
    using frame(1) that by (auto simp: core node_of_def)
  have ent: "y \<noteq> x \<Longrightarrow> entry_of y s' = entry_of y s" "entry_of x s' = entry_of x s \<or> entry_words (entry_of x s') = 1 \<and>
      (entry_write (entry_of x s') = l_lock l (\<not> x) \<or> entry_write (entry_of x s') = l_lock l (\<not> x) + 1)" for y
    using frame(2,3) by (simp_all add: entry_of_def node_of_def core)
  show "sink_entry_ok l s'"
  proof (cases x)
    case True
    then show ?thesis using inv ent(1) [of False] by (simp add: samp_inv_def sink_entry_ok_def)
  next
    case False
    then show ?thesis using inv ent(2) by (auto simp: samp_inv_def sink_entry_ok_def)
  qed
  let ?v = "view_of_ports s"
  have ok: "view_ok l ?v" using inv by (simp add: samp_inv_def)
  have srca: "src_area l (v_smp ?v)" if "wpc s \<noteq> WIdle" using ok that by (simp add: view_ok_def writer_ok_def view_of_ports_def)
  have dsta: "sink_area l (v_dst ?v)" if "rpc s \<noteq> RIdle" using ok that by (simp add: view_ok_def reader_ok_def view_of_ports_def)
  show "view_ok l (view_of_ports s')"
  proof (rule view_frame [OF ok])
    show "view_of_ports s' = ?v\<lparr>v_src := v_src (view_of_ports s'), v_sink := v_sink (view_of_ports s'), v_ent := v_ent (view_of_ports s')\<rparr>"
      by (simp add: view_of_ports_def spm_word_base [OF base]) (simp add: s')
    show "v_src (view_of_ports s') (l_next l) = v_src ?v (l_next l)"
      using lay by (auto simp: view_of_ports_def layout_ok_def clear_of_def intro!: mem)
    show "v_wpc ?v \<noteq> WIdle \<longrightarrow> (\<forall>i<l_words l. v_src (view_of_ports s') (v_smp ?v + i) = v_src ?v (v_smp ?v + i))"
      using srca by (auto simp: view_of_ports_def src_area_def clear_of_def intro!: mem)
    show "v_sink (view_of_ports s') (l_newest l) = v_sink ?v (l_newest l)"
      using lay by (auto simp: view_of_ports_def layout_ok_def clear_of_def intro!: mem)
    show "v_sink (view_of_ports s') a = v_sink ?v a" if "l_bufs l \<le> a" "a < l_bufs l + 2 * l_words l" for a
      using lay that by (auto simp: view_of_ports_def layout_ok_def clear_of_def intro!: mem)
    show "v_rpc ?v \<noteq> RIdle \<longrightarrow> (\<forall>i<l_words l. v_sink (view_of_ports s') (v_dst ?v + i) = v_sink ?v (v_dst ?v + i))"
      using dsta by (auto simp: view_of_ports_def sink_area_def clear_of_def intro!: mem)
    show "v_ent (view_of_ports s') = v_ent ?v \<or> lock_entry l (v_ent (view_of_ports s')) \<and> v_wpc ?v \<noteq> WAwait \<and> v_wpc ?v \<noteq> WAwaitNewest"
    proof (cases x)
      case True
      then show ?thesis using ent(2) idle by (auto simp: view_of_ports_def lock_entry_def)
    next
      case False
      then show ?thesis using ent(1) [of True] by (simp add: view_of_ports_def)
    qed
  qed
qed

subsection \<open>Steps outside the lock\<close>

lemma app_okI:
  assumes "samp_inv l b s" "lpc (core_of x s) = Free \<or> lpc (core_of x s) = Held" "spm_base n = b"
    and "\<And>k. k < 4 \<Longrightarrow> spm n (l_lock l x + k) = spm (node_of x s) (l_lock l x + k)"
    and "dma_entry (remote_cpuid (core_of x s)) n = entry_of x s \<or>
      noc_dma_done (remote_cpuid (core_of x s)) (node_of x s) \<and> entry_misses (l_lock l (\<not> x)) 4 (dma_entry (remote_cpuid (core_of x s)) n)"
  shows "app_ok (core_of x s) n"
proof -
  let ?c = "core_of x s"
  have f: "l_lock l x + 3 < 2 ^ 14" "l_lock l (\<not> x) + 3 < 2 ^ 14" "spm_base (lnode ?c) = b" "lock ?c = spm_ptr b (l_lock l x)"
      "remote_ptr ?c = spm_ptr b (l_lock l (\<not> x))"
    using inv_layout [OF assms(1)] by (simp_all add: lock_layout_def core_of_def)
  have "spm_word (lnode ?c) (lock ?c) = l_lock l x" "spm_word (lnode ?c) (remote_ptr ?c) = l_lock l (\<not> x)"
    using spm_word_ptr [of _ "lnode ?c"] f by auto
  then show ?thesis using assms(2-5) f(3) by (auto simp: app_ok_def node_of_def list_all_iff entry_of_def)
qed

lemma core_of_set: "core_of y (set_node x n s) = (if y = x then (core_of x s)\<lparr>lnode := n\<rparr> else core_of y s)"
  by (simp add: core_of_def set_node_def)

lemma node_of_set: "node_of y (set_node x n s) = (if y = x then n else node_of y s)"
  by (simp add: node_of_def core_of_set)

lemma set_node_fields [simp]:
  "src_port (set_node x n s) = src_port s" "sink_port (set_node x n s) = sink_port s" "wpc (set_node x n s) = wpc s" "rpc (set_node x n s) = rpc s"
  "wsample (set_node x n s) = wsample s" "rsample (set_node x n s) = rsample s" "rnewest (set_node x n s) = rnewest s"
  "written (set_node x n s) = written s" "published (set_node x n s) = published s" "reads (set_node x n s) = reads s"
  "wrapped (locks (set_node x n s)) = wrapped (locks s)"
  by (simp_all add: set_node_def)

lemma set_node_inv:
  assumes "samp_inv l b s" "in_order net" "app_ok (core_of x s) n"
  shows "lock_inv (l_lock l) b (locks (set_node x n s))" "ports_ok l b (set_node x n s)" "args_ok b (set_node x n s)"
    "lpc (core_of y (set_node x n s)) = lpc (core_of y s)"
proof -
  have "locks (set_node x n s) = lock_step net (App x n) (locks s)"
    using assms(3) by (simp add: set_node_def lock_step_def core_of_def)
  then show "lock_inv (l_lock l) b (locks (set_node x n s))" using lock_step_inv [OF _ assms(2)] assms(1) by (simp add: samp_inv_def)
  show "ports_ok l b (set_node x n s)" using assms(1) by (auto simp: samp_inv_def ports_ok_def core_of_set)
  have "spm_base (node_of y (set_node x n s)) = spm_base (node_of y s)" for y
    using assms(3) by (simp add: node_of_set app_ok_def) (simp add: node_of_def)
  note word = spm_word_base [OF this]
  show "args_ok b (set_node x n s)" using assms(1) by (simp add: samp_inv_def args_ok_def word)
  show "lpc (core_of y (set_node x n s)) = lpc (core_of y s)" by (simp add: core_of_set)
qed

lemma put_words_eq:
  assumes "a + length xs \<le> 2 ^ 14" "b = spm_base n"
  shows "put_words (spm_ptr b a) xs n = n\<lparr>spm := \<lambda>w. if a \<le> w \<and> w < a + length xs then xs ! (w - a) else spm n w\<rparr>"
proof -
  have "fold (\<lambda>i. spm_store (spm_ptr b a + 4 * of_nat i) (xs ! i)) [0..<m] n =
      n\<lparr>spm := \<lambda>w. if a \<le> w \<and> w < a + m then xs ! (w - a) else spm n w\<rparr>" if "m \<le> length xs" for m
    using that
  proof (induction m)
    case (Suc m)
    then show ?case using assms by (auto simp: store_ptr fun_eq_iff)
  qed (cases n, auto simp: fun_eq_iff)
  then show ?thesis unfolding put_words_def by simp
qed

lemma words_from_eq: "a + k \<le> 2 ^ 14 \<Longrightarrow> b = spm_base n \<Longrightarrow> words_from (spm_ptr b a) k n = map (\<lambda>i. spm n (a + i)) [0..<k]"
  by (auto simp: words_from_def load_ptr)

lemma itteration_count_words:
  assumes "w \<le> 2 ^ 14"
  shows "itteration_count (4 * of_nat w) = w"
proof -
  have v: "unat (4 * of_nat w + 3 :: u32) = 4 * w + 3"
    using unat_of_nat_u32 [of "4 * w + 3"] assms by (simp add: of_nat_mult of_nat_add)
  have eq: "(4 * of_nat w + 4 - 1 :: u32) = 4 * of_nat w + 3" and four: "unat (4 :: u32) = 4" by simp_all
  show ?thesis unfolding itteration_count_def eq unat_div v four by simp
qed

lemma same_pc: "wpc s = p \<Longrightarrow> s\<lparr>wpc := p\<rparr> = s" "rpc s = q \<Longrightarrow> s\<lparr>rpc := q\<rparr> = s" "set_node x (node_of x s) s = s"
  by (cases s, simp add: set_node_def node_of_def core_of_def fun_upd_triv)+

text \<open>What is left to show of a step outside the lock.\<close>

lemma outside_step_inv:
  assumes inv: "samp_inv l b s" and net: "in_order net"
    and step: "locks s' = locks s \<or> (\<exists>x n. app_ok (core_of x s) n \<and> locks s' = locks (set_node x n s))"
    and ports: "src_port s' = src_port s" "sink_port s' = sink_port s"
    and "write_place (wpc s') (lpc (core_of True s))" "read_place (rpc s') (lpc (core_of False s))" "args_ok b s'" "sink_entry_ok l s'"
      "view_ok l (view_of_ports s')"
  shows "samp_inv l b s'"
proof -
  have "lock_inv (l_lock l) b (locks s') \<and> (\<forall>y. lpc (core_of y s') = lpc (core_of y s) \<and> remote_cpuid (core_of y s') = remote_cpuid (core_of y s))"
    using step
  proof
    assume "locks s' = locks s"
    then show ?thesis using inv by (simp add: samp_inv_def core_of_def)
  next
    assume "\<exists>x n. app_ok (core_of x s) n \<and> locks s' = locks (set_node x n s)"
    then obtain x n where x: "app_ok (core_of x s) n" "locks s' = locks (set_node x n s)" by auto
    then have "core_of y s' = core_of y (set_node x n s)" for y by (simp add: core_of_def)
    then show ?thesis using set_node_inv(1) [OF inv net x(1)] x(2) by (simp add: core_of_set)
  qed
  then show ?thesis using inv ports assms(6-) by (simp add: samp_inv_def ports_ok_def)
qed

lemma inv_places: "samp_inv l b s \<Longrightarrow> write_place (wpc s) (lpc (core_of True s)) \<and> read_place (rpc s) (lpc (core_of False s))"
  by (simp add: samp_inv_def)

lemma inv_word: "samp_inv l b s \<Longrightarrow> a < 2 ^ 14 \<Longrightarrow> spm_word (node_of x s) (spm_ptr b a) = a"
  using spm_word_ptr [of a "node_of x s"] inv_base by simp

lemma area_start: "layout_ok l \<Longrightarrow> src_area l a \<Longrightarrow> a < 2 ^ 14" "layout_ok l \<Longrightarrow> sink_area l a \<Longrightarrow> a < 2 ^ 14"
  by (auto simp: layout_ok_def src_area_def sink_area_def)

lemma write_call_inv:
  assumes inv: "samp_inv l b s" and net: "in_order net" and pc: "wpc s = WIdle" and a: "src_area l a" "length xs = l_words l"
  shows "samp_inv l b ((set_node True (put_words (spm_ptr b a) xs (node_of True s)) s)\<lparr>wpc := WSend, wsample := spm_ptr b a, written := written s @ [xs]\<rparr>)"
    (is "samp_inv l b ?s")
proof -
  let ?f = "\<lambda>w. if a \<le> w \<and> w < a + l_words l then xs ! (w - a) else spm (node_of True s) w"
  have n: "put_words (spm_ptr b a) xs (node_of True s) = (node_of True s)\<lparr>spm := ?f\<rparr>"
    using put_words_eq [of a xs b "node_of True s"] a inv_base [OF inv] by (simp add: src_area_def)
  have app: "app_ok (core_of True s) ((node_of True s)\<lparr>spm := ?f\<rparr>)"
    by (rule app_okI [OF inv]) (use inv pc a inv_base [OF inv] in \<open>auto simp: samp_inv_def write_place_def src_area_def clear_of_def entry_of_def\<close>)
  have core: "core_of y ?s = core_of y (set_node True ((node_of True s)\<lparr>spm := ?f\<rparr>) s)" for y by (simp add: core_of_def n)
  then have node: "node_of y ?s = (if y then (node_of True s)\<lparr>spm := ?f\<rparr> else node_of y s)" for y by (simp add: node_of_def core_of_set)
  have ent: "entry_of y ?s = entry_of y s" for y by (simp add: entry_of_def node core core_of_set)
  have word: "spm_word (node_of y ?s) p = spm_word (node_of y s) p" for y p by (simp add: node spm_word_def)
  have ptr: "spm_word (node_of True s) (spm_ptr b a) = a" using inv_word [OF inv] area_start(1) [OF _ a(1)] inv by (simp add: samp_inv_def)
  have view: "view_of_ports ?s = (view_of_ports s)\<lparr>v_src := ?f, v_wpc := WSend, v_smp := a, v_calls := v_calls (view_of_ports s) @ [xs]\<rparr>"
    by (simp add: view_of_ports_def ent word ptr del: samp_sys.select_convs) (simp add: node ptr)
  show ?thesis
  proof (rule outside_step_inv [OF inv net])
    show "locks ?s = locks s \<or> (\<exists>x n. app_ok (core_of x s) n \<and> locks ?s = locks (set_node x n s))" using app n by auto
    show "view_ok l (view_of_ports ?s)" unfolding view
      using inv pc a by (intro write_call_ok) (auto simp: samp_inv_def view_of_ports_def src_area_def clear_of_def intro: nth_equalityI)
    show "args_ok b ?s" using inv by (simp add: samp_inv_def args_ok_def word ptr)
    show "sink_entry_ok l ?s" using inv by (simp add: samp_inv_def sink_entry_ok_def ent)
  qed (use inv_places [OF inv] pc in \<open>simp_all add: write_place_def\<close>)
qed

lemma inv_defs:
  assumes "samp_inv l b s"
  shows "layout_ok l" "ports_ok l b s" "args_ok b s" "sink_entry_ok l s" "view_ok l (view_of_ports s)"
  using assms by (simp_all add: samp_inv_def)

text \<open>The source starts a transfer: of the sample to the buffer \<open>next\<close>, or of \<open>next\<close> to \<open>newest\<close>.\<close>

lemma start_inv:
  assumes inv: "samp_inv l b s" and net: "in_order net" and idle: "noc_dma_done (remote_cpuid (core_of True s)) (node_of True s)"
    and e: "entry_misses (l_lock l False) 4 e" and place: "write_place p (lpc (core_of True s))" "lpc (core_of True s) = Free \<or> lpc (core_of True s) = Held"
      "p \<noteq> WIdle" "wpc s \<noteq> WIdle"
    and view: "view_ok l ((view_of_ports s)\<lparr>v_wpc := p, v_ent := e\<rparr>)"
  shows "samp_inv l b ((set_node True (set_entry (remote_cpuid (core_of True s)) e (node_of True s)) s)\<lparr>wpc := p\<rparr>)" (is "samp_inv l b ?s")
proof -
  let ?n = "set_entry (remote_cpuid (core_of True s)) e (node_of True s)"
  have app: "app_ok (core_of True s) ?n"
    by (rule app_okI [OF inv place(2)]) (use idle e inv_base [OF inv] in simp_all)
  have core: "core_of y ?s = core_of y (set_node True ?n s)" for y by (simp add: core_of_def)
  then have node: "node_of y ?s = (if y then ?n else node_of y s)" for y by (simp add: node_of_def core_of_set)
  have ent: "entry_of y ?s = (if y then e else entry_of y s)" for y by (cases y) (simp_all add: entry_of_def node core core_of_set)
  have word: "spm_word (node_of y ?s) q = spm_word (node_of y s) q" for y q by (simp add: node spm_word_def)
  have v: "view_of_ports ?s = (view_of_ports s)\<lparr>v_wpc := p, v_ent := e\<rparr>" by (simp add: view_of_ports_def ent word) (simp add: node)
  show ?thesis
  proof (rule outside_step_inv [OF inv net])
    show "locks ?s = locks s \<or> (\<exists>x n. app_ok (core_of x s) n \<and> locks ?s = locks (set_node x n s))" using app by auto
    show "view_ok l (view_of_ports ?s)" using view v by simp
    show "args_ok b ?s" using inv_defs(3) [OF inv] place(4) by (simp add: args_ok_def word)
    show "sink_entry_ok l ?s" using inv_defs(4) [OF inv] by (simp add: sink_entry_ok_def ent)
  qed (use inv_places [OF inv] place in simp_all)
qed

lemma WSend_inv:
  assumes inv: "samp_inv l b s" and net: "in_order net" and pc: "wpc s = WSend"
  shows "samp_inv l b (write_step net s)"
proof -
  let ?v = "view_of_ports s" and ?n = "node_of True s" and ?id = "remote_cpuid (core_of True s)"
  note ok = inv_defs(5) [OF inv] and lay = inv_defs(1) [OF inv]
  let ?j = "nxt l ?v" and ?a = "v_smp ?v"
  have j: "?j < 2" and a: "src_area l ?a" using ok pc by (auto simp: view_ok_def port_ok_def writer_ok_def view_of_ports_def)
  have small: "slot l ?j + l_words l \<le> l_bufs l + 2 * l_words l" "l_bufs l \<le> slot l ?j" using j by (auto simp: slot_def less_2_cases_iff)
  have lt: "slot l ?j < 2 ^ 14" "?a < 2 ^ 14" "l_words l < 2 ^ 16" using lay small area_start(1) [OF lay a] by (auto simp: layout_ok_def)
  have base: "spm_base ?n = b" by (rule inv_base [OF inv])
  have load: "spm_load (next_at (spd_ptr (src_port s))) ?n = of_nat ?j"
    using inv_defs(2) [OF inv] lay load_ptr [of "l_next l" b ?n] base by (simp add: ports_ok_def layout_ok_def nxt_def view_of_ports_def)
  have dst: "read_bufs (src_port s) + of_nat ?j * sample_size (src_port s) = spm_ptr b (slot l ?j)"
    using inv_defs(2) [OF inv] by (simp add: ports_ok_def slot_def spm_ptr_def algebra_simps)
  have src: "wsample s = spm_ptr b ?a" using inv_defs(3) [OF inv] pc by (simp add: args_ok_def view_of_ports_def)
  let ?e = "data_entry DATA_PKT_TYPE (slot l ?j) ?a (l_words l)"
  note e = data_entry_fields [OF lt, of DATA_PKT_TYPE]
  have nb: "noc_nbwrite (remote (src_port s)) (read_bufs (src_port s) + spm_load (next_at (spd_ptr (src_port s))) ?n * sample_size (src_port s))
      (wsample s) (sample_size (src_port s)) 0 ?n = (if noc_dma_done ?id ?n then (True, set_entry ?id ?e ?n) else (False, ?n))"
    using nbwrite_data(2) [OF lt, of ?id ?n] inv_defs(2) [OF inv] unfolding load dst src base by (simp add: ports_ok_def)
  show ?thesis
  proof (cases "noc_dma_done ?id ?n")
    case True
    have "write_step net s = (set_node True (set_entry ?id ?e ?n) s)\<lparr>wpc := WAwait\<rparr>"
      using pc nb True by (simp add: write_step_def Let_def)
    moreover have "entry_misses (l_lock l False) 4 ?e"
      using e lay small a by (auto simp: entry_misses_def layout_ok_def clear_of_def src_area_def)
    moreover have "view_ok l (?v\<lparr>v_wpc := WAwait, v_ent := ?e\<rparr>)"
      using e lay pc by (intro send_start_ok [OF ok]) (auto simp: layout_ok_def view_of_ports_def)
    ultimately show ?thesis
      using start_inv [OF inv net True, of ?e WAwait] inv_places [OF inv] pc by (simp add: write_place_def)
  next
    case False
    then have "write_step net s = s" using pc nb by (simp add: write_step_def Let_def same_pc)
    then show ?thesis using inv by simp
  qed
qed

lemma WNewest_inv:
  assumes inv: "samp_inv l b s" and net: "in_order net" and pc: "wpc s = WNewest"
  shows "samp_inv l b (write_step net s)"
proof -
  let ?v = "view_of_ports s" and ?n = "node_of True s" and ?id = "remote_cpuid (core_of True s)"
  note ok = inv_defs(5) [OF inv] and lay = inv_defs(1) [OF inv]
  have lt: "l_newest l < 2 ^ 14" "l_next l < 2 ^ 14" "(1 :: nat) < 2 ^ 16" using lay by (auto simp: layout_ok_def)
  let ?e = "data_entry DATA_PKT_TYPE (l_newest l) (l_next l) 1"
  note e = data_entry_fields [OF lt, of DATA_PKT_TYPE]
  have nb: "noc_nbwrite (remote (src_port s)) (newest_at (remote_spd (src_port s))) (next_at (spd_ptr (src_port s))) 4 0 ?n =
      (if noc_dma_done ?id ?n then (True, set_entry ?id ?e ?n) else (False, ?n))"
    using nbwrite_data(2) [OF lt, of ?id ?n] inv_defs(2) [OF inv] inv_base [OF inv] by (simp add: ports_ok_def)
  show ?thesis
  proof (cases "noc_dma_done ?id ?n")
    case True
    have "write_step net s = (set_node True (set_entry ?id ?e ?n) s)\<lparr>wpc := WAwaitNewest\<rparr>"
      using pc nb True by (simp add: write_step_def Let_def)
    moreover have "entry_misses (l_lock l False) 4 ?e"
      using e lay by (auto simp: entry_misses_def layout_ok_def clear_of_def)
    moreover have "view_ok l (?v\<lparr>v_wpc := WAwaitNewest, v_ent := ?e\<rparr>)"
      using e pc by (intro newest_start_ok [OF ok]) (auto simp: view_of_ports_def)
    ultimately show ?thesis
      using start_inv [OF inv net True, of ?e WAwaitNewest] inv_places [OF inv] pc by (simp add: write_place_def)
  next
    case False
    then have "write_step net s = s" using pc nb by (simp add: write_step_def Let_def same_pc)
    then show ?thesis using inv by simp
  qed
qed

text \<open>The source sees that a transfer has arrived.\<close>

lemma await_inv:
  assumes inv: "samp_inv l b s" and net: "in_order net" and pc: "wpc s = WAwait \<or> wpc s = WAwaitNewest" and "\<not> wrapped (locks s)"
  shows "samp_inv l b (write_step net s)"
proof -
  let ?v = "view_of_ports s" and ?n = "node_of True s"
  note ok = inv_defs(5) [OF inv] and lay = inv_defs(1) [OF inv]
  have id: "remote (src_port s) = remote_cpuid (core_of True s)" using inv_defs(2) [OF inv] by (simp add: ports_ok_def)
  have a: "src_area l (v_smp ?v)" using ok pc by (auto simp: view_ok_def writer_ok_def view_of_ports_def)
  have smp: "words_from (wsample s) (itteration_count (sample_size (src_port s))) ?n = sample_of l ?v"
    using inv_defs(2,3) [OF inv] pc a words_from_eq [of "v_smp ?v" "l_words l" b ?n] inv_base [OF inv] itteration_count_words [of "l_words l"] lay
    by (auto simp: ports_ok_def args_ok_def src_area_def sample_of_def view_of_ports_def layout_ok_def)
  show ?thesis
  proof (cases "noc_dma_done (remote_cpuid (core_of True s)) ?n")
    case True
    then have idle: "\<not> entry_active (v_ent ?v)" by (simp add: dma_done_entry view_of_ports_def entry_of_def)
    define s' where "s' = (if wpc s = WAwait then s\<lparr>wpc := WAcquire\<rparr> else s\<lparr>wpc := WRelease, published := published s @ [sample_of l ?v]\<rparr>)"
    have step: "write_step net s = s'" using pc True id smp by (auto simp: write_step_def s'_def Let_def)
    have same: "locks s' = locks s" "core_of y s' = core_of y s" "node_of y s' = node_of y s" "entry_of y s' = entry_of y s" for y
      by (simp_all add: s'_def core_of_def node_of_def entry_of_def)
    have "view_of_ports s' = (if wpc s = WAwait then ?v\<lparr>v_wpc := WAcquire\<rparr> else ?v\<lparr>v_wpc := WRelease, v_pub := v_pub ?v @ [sample_of l ?v]\<rparr>)"
      unfolding view_of_ports_def same by (simp add: s'_def) (simp add: view_of_ports_def)
    moreover have "wpc s = WAwaitNewest \<longrightarrow> \<not> reading ?v"
      using samp_exclusive [OF inv assms(4)] by (auto simp: switching_def view_of_ports_def)
    ultimately have "view_ok l (view_of_ports s')"
      using sent_ok [OF ok _ idle] publish_ok [OF ok _ idle] pc by (auto simp: view_of_ports_def)
    then show ?thesis unfolding step
    proof (rule outside_step_inv [OF inv net, rotated -1])
      show "args_ok b s'" using inv_defs(3) [OF inv] pc unfolding args_ok_def same by (auto simp: s'_def)
      show "sink_entry_ok l s'" using inv_defs(4) [OF inv] by (simp add: sink_entry_ok_def same)
    qed (use inv_places [OF inv] pc same in \<open>auto simp: s'_def write_place_def acquiring_def releasing_def\<close>)
  next
    case False
    then have "write_step net s = s" using pc id by (auto simp: write_step_def Let_def)
    then show ?thesis using inv by simp
  qed
qed

text \<open>A store of one core outside the lock.\<close>

lemma store_inv:
  assumes inv: "samp_inv l b s" and net: "in_order net" and lpc: "lpc (core_of x s) = Free \<or> lpc (core_of x s) = Held"
    and a: "a < 2 ^ 14" "clear_of a 1 (l_lock l x) 4"
    and s': "s' = (set_node x (spm_store (spm_ptr b a) v (node_of x s)) s)\<lparr>wpc := p, rpc := q\<rparr>"
    and place: "write_place p (lpc (core_of True s))" "read_place q (lpc (core_of False s))" "wpc s = WIdle \<longrightarrow> p = WIdle" "rpc s = RIdle \<longrightarrow> q = RIdle"
    and view: "view_ok l ((view_of_ports s)\<lparr>v_wpc := p, v_rpc := q, v_src := (if x then (v_src (view_of_ports s))(a := v) else v_src (view_of_ports s)),
      v_sink := (if x then v_sink (view_of_ports s) else (v_sink (view_of_ports s))(a := v))\<rparr>)"
  shows "samp_inv l b s'"
proof -
  let ?n = "(node_of x s)\<lparr>spm := (spm (node_of x s))(a := v)\<rparr>"
  have n: "spm_store (spm_ptr b a) v (node_of x s) = ?n" using store_ptr [OF a(1) inv_base [OF inv, symmetric]] by simp
  have app: "app_ok (core_of x s) ?n"
    by (rule app_okI [OF inv lpc]) (use a inv_base [OF inv] in \<open>auto simp: clear_of_def entry_of_def\<close>)
  have core: "core_of y s' = core_of y (set_node x ?n s)" for y by (simp add: core_of_def s' n)
  then have node: "node_of y s' = (if y = x then ?n else node_of y s)" for y by (simp add: node_of_def core_of_set)
  have ent: "entry_of y s' = entry_of y s" for y by (simp add: entry_of_def node core core_of_set)
  have word: "spm_word (node_of y s') r = spm_word (node_of y s) r" for y r by (simp add: node spm_word_def)
  have "view_of_ports s' = (view_of_ports s)\<lparr>v_wpc := p, v_rpc := q, v_src := (if x then (v_src (view_of_ports s))(a := v) else v_src (view_of_ports s)),
      v_sink := (if x then v_sink (view_of_ports s) else (v_sink (view_of_ports s))(a := v))\<rparr>"
    by (simp add: view_of_ports_def ent word node) (simp add: s' spm_word_def)
  then have "view_ok l (view_of_ports s')" using view by simp
  then show ?thesis
  proof (rule outside_step_inv [OF inv net, rotated -1])
    show "locks s' = locks s \<or> (\<exists>x n. app_ok (core_of x s) n \<and> locks s' = locks (set_node x n s))" using app n s' by auto
    show "args_ok b s'" using inv_defs(3) [OF inv] place unfolding args_ok_def word by (auto simp: s')
    show "sink_entry_ok l s'" using inv_defs(4) [OF inv] by (simp add: sink_entry_ok_def ent)
  qed (use place in \<open>simp_all add: s'\<close>)
qed

lemma WFlip_inv:
  assumes inv: "samp_inv l b s" and net: "in_order net" and pc: "wpc s = WFlip"
  shows "samp_inv l b (write_step net s)"
proof -
  let ?v = "view_of_ports s"
  note ok = inv_defs(5) [OF inv] and lay = inv_defs(1) [OF inv]
  have ptr: "next_at (spd_ptr (src_port s)) = spm_ptr b (l_next l)" using inv_defs(2) [OF inv] by (simp add: ports_ok_def)
  have load: "spm_load (spm_ptr b (l_next l)) (node_of True s) = v_src ?v (l_next l)"
    using load_ptr [of "l_next l" b "node_of True s"] lay inv_base [OF inv] by (simp add: layout_ok_def view_of_ports_def)
  have step: "write_step net s = (set_node True (spm_store (spm_ptr b (l_next l)) (v_src ?v (l_next l) XOR 1) (node_of True s)) s)\<lparr>wpc := WIdle, rpc := rpc s\<rparr>"
    using pc ptr load by (simp add: write_step_def Let_def same_pc)
  show ?thesis
  proof (rule store_inv [OF inv net _ _ _ step])
    show "view_ok l (?v\<lparr>v_wpc := WIdle, v_rpc := rpc s, v_src := (if True then (v_src ?v)(l_next l := v_src ?v (l_next l) XOR 1) else v_src ?v),
        v_sink := (if True then v_sink ?v else (v_sink ?v)(l_next l := v_src ?v (l_next l) XOR 1))\<rparr>)"
      using flip_ok [OF ok] pc by (simp add: view_of_ports_def)
  qed (use inv_places [OF inv] pc lay in \<open>auto simp: write_place_def layout_ok_def\<close>)
qed

lemma write_step_inv:
  assumes inv: "samp_inv l b s" and net: "in_order net" and "\<not> wrapped (locks s)"
  shows "samp_inv l b (write_step net s)"
proof -
  let ?L = "lock_step net (Core True) (locks s)"
  define t where "t = s\<lparr>locks := ?L\<rparr>"
  have run: "samp_inv l b (t\<lparr>wpc := p\<rparr>)"
    if pc: "wpc s = WAcquire \<or> wpc s = WRelease" and p: "write_place p (lpc (core_of True t))" "p \<noteq> WIdle"
      and view: "view_ok l (view_of_ports t) \<Longrightarrow> view_ok l ((view_of_ports t)\<lparr>v_wpc := p\<rparr>)" for p
  proof -
    have "True \<longrightarrow> wpc s \<noteq> WAwait \<and> wpc s \<noteq> WAwaitNewest" using pc by auto
    note run = core_run [OF inv net t_def this]
    have same: "core_of y (t\<lparr>wpc := p\<rparr>) = core_of y t" "node_of y (t\<lparr>wpc := p\<rparr>) = node_of y t" "entry_of y (t\<lparr>wpc := p\<rparr>) = entry_of y t" for y
      by (simp_all add: core_of_def node_of_def entry_of_def)
    have "view_of_ports (t\<lparr>wpc := p\<rparr>) = (view_of_ports t)\<lparr>v_wpc := p\<rparr>" by (simp add: view_of_ports_def same)
    moreover have "rpc t = rpc s" "wpc t = wpc s" by (simp_all add: t_def)
    moreover have "ports_ok l b (t\<lparr>wpc := p\<rparr>)" using run(1) by (simp add: ports_ok_def same)
    moreover have "args_ok b (t\<lparr>wpc := p\<rparr>)" using run(2) pc unfolding args_ok_def same by (auto simp: t_def)
    moreover have "sink_entry_ok l (t\<lparr>wpc := p\<rparr>)" using run(4) by (simp add: sink_entry_ok_def same)
    moreover have "core_of False t = core_of False s" using run(6) [of False] by simp
    ultimately show ?thesis using run(3) view [OF run(5)] p inv by (simp add: samp_inv_def same)
  qed
  have core: "core_of True t = core_step (core_of True s)" "core_of True t = cores ?L True" by (simp_all add: t_def core_of_def lock_step_def Let_def)
  show ?thesis
  proof (cases "wpc s")
    case WAcquire
    have wt: "wpc t = WAcquire" using WAcquire by (simp add: t_def)
    have "write_step net s = t\<lparr>wpc := (if lpc (core_of True t) = Held then WNewest else WAcquire)\<rparr>"
      using WAcquire by (simp add: write_step_def Let_def t_def core_of_def)
    moreover have "lpc (core_of True t) = Held \<or> acquiring (lpc (core_of True t))"
      using inv_places [OF inv] WAcquire core_step_place(1) by (simp add: write_place_def core)
    ultimately show ?thesis using run [of WNewest] run [of WAcquire] acquired_ok [of l "view_of_ports t"] WAcquire wt
      by (auto simp: write_place_def view_of_ports_def)
  next
    case WRelease
    have wt: "wpc t = WRelease" using WRelease by (simp add: t_def)
    have "write_step net s = t\<lparr>wpc := (if lpc (core_of True t) = Free then WFlip else WRelease)\<rparr>"
      using WRelease by (simp add: write_step_def Let_def t_def core_of_def)
    moreover have "lpc (core_of True t) = Free \<or> releasing (lpc (core_of True t))"
      using inv_places [OF inv] WRelease core_step_place(2) by (simp add: write_place_def core)
    ultimately show ?thesis using run [of WFlip] run [of WRelease] released_ok [of l "view_of_ports t"] WRelease wt
      by (auto simp: write_place_def view_of_ports_def)
  qed (use WSend_inv [OF inv net] WNewest_inv [OF inv net] await_inv [OF inv net _ assms(3)] WFlip_inv [OF inv net] inv in \<open>simp_all add: write_step_def\<close>)
qed

text \<open>A step of the sink that changes only its local variables.\<close>

lemma local_inv:
  assumes inv: "samp_inv l b s" and net: "in_order net" and s': "s' = s\<lparr>rpc := q, rnewest := x, reads := g\<rparr>"
    and "read_place q (lpc (core_of False s))" "rpc s \<noteq> RIdle" and view: "view_ok l ((view_of_ports s)\<lparr>v_rpc := q, v_new := x, v_got := g\<rparr>)"
  shows "samp_inv l b s'"
proof -
  have same: "locks s' = locks s" "core_of y s' = core_of y s" "node_of y s' = node_of y s" "entry_of y s' = entry_of y s" for y
    by (simp_all add: s' core_of_def node_of_def entry_of_def)
  have "view_of_ports s' = (view_of_ports s)\<lparr>v_rpc := q, v_new := x, v_got := g\<rparr>" unfolding view_of_ports_def same by (simp add: s')
  then have "view_ok l (view_of_ports s')" using view by simp
  then show ?thesis
  proof (rule outside_step_inv [OF inv net, rotated -1])
    show "args_ok b s'" using inv_defs(3) [OF inv] assms(5) unfolding args_ok_def same by (auto simp: s')
    show "sink_entry_ok l s'" using inv_defs(4) [OF inv] by (simp add: sink_entry_ok_def same)
  qed (use inv_places [OF inv] assms(4) same in \<open>auto simp: s'\<close>)
qed

lemma not_switching:
  assumes "samp_inv l b s" "\<not> wrapped (locks s)" "rpc s = RLoad \<or> rpc s = RCopy i"
  shows "\<not> switching (view_of_ports s)"
  using samp_exclusive [OF assms(1,2)] assms(3) by (auto simp: reading_def view_of_ports_def)

lemma RLoad_inv:
  assumes inv: "samp_inv l b s" and net: "in_order net" and "\<not> wrapped (locks s)" and pc: "rpc s = RLoad"
  shows "samp_inv l b (read_step net s)"
proof -
  let ?v = "view_of_ports s"
  have load: "spm_load (newest_at (spd_ptr (sink_port s))) (node_of False s) = v_sink ?v (l_newest l)"
    using load_ptr [of "l_newest l" b "node_of False s"] inv_defs(1,2) [OF inv] inv_base [OF inv]
    by (simp add: layout_ok_def ports_ok_def view_of_ports_def)
  have step: "read_step net s = s\<lparr>rpc := RCopy 0, rnewest := v_sink ?v (l_newest l), reads := reads s\<rparr>"
    using pc load by (simp add: read_step_def Let_def)
  show ?thesis
  proof (rule local_inv [OF inv net step])
    show "view_ok l (?v\<lparr>v_rpc := RCopy 0, v_new := v_sink ?v (l_newest l), v_got := reads s\<rparr>)"
      using load_newest_ok [OF inv_defs(5) [OF inv]] not_switching [OF inv assms(3)] pc by (simp add: view_of_ports_def)
  qed (use inv_places [OF inv] pc in \<open>auto simp: read_place_def\<close>)
qed

lemma RCopy_inv:
  assumes inv: "samp_inv l b s" and net: "in_order net" and "\<not> wrapped (locks s)" and pc: "rpc s = RCopy i"
  shows "samp_inv l b (read_step net s)"
proof -
  let ?v = "view_of_ports s" and ?n = "node_of False s"
  note ok = inv_defs(5) [OF inv] and lay = inv_defs(1) [OF inv]
  have a: "sink_area l (v_dst ?v)" and i: "i \<le> l_words l" and j: "cur l ?v < 2"
    using ok pc by (auto simp: view_ok_def reader_ok_def port_ok_def cur_def view_of_ports_def)
  have n: "itteration_count (sample_size (sink_port s)) = l_words l"
    using itteration_count_words [of "l_words l"] inv_defs(2) [OF inv] lay by (simp add: ports_ok_def layout_ok_def)
  have dst: "rsample s = spm_ptr b (v_dst ?v)" using inv_defs(3) [OF inv] pc by (simp add: args_ok_def view_of_ports_def)
  have sw: "\<not> switching ?v" using not_switching [OF inv assms(3)] pc by simp
  show ?thesis
  proof (cases "i < l_words l")
    case True
    let ?x = "spm_load (read_bufs (sink_port s) + rnewest s * sample_size (sink_port s) + 4 * of_nat i) ?n"
    have x: "?x = v_sink ?v (slot l (cur l ?v) + i)" if "v_pub ?v \<noteq> []"
    proof -
      have new: "rnewest s = of_nat (cur l ?v)" using ok pc that by (auto simp: view_ok_def reader_ok_def view_of_ports_def)
      have "read_bufs (sink_port s) + rnewest s * sample_size (sink_port s) = spm_ptr b (slot l (cur l ?v))"
        using inv_defs(2) [OF inv] unfolding new by (simp add: ports_ok_def slot_def spm_ptr_def algebra_simps)
      moreover have "slot l (cur l ?v) + i < 2 ^ 14" using slot_in_bufs [OF j True] lay by (auto simp: layout_ok_def)
      ultimately show ?thesis using load_ptr [of "slot l (cur l ?v) + i" b ?n] inv_base [OF inv] by (simp add: view_of_ports_def)
    qed
    have step: "read_step net s = (set_node False (spm_store (spm_ptr b (v_dst ?v + i)) ?x ?n) s)\<lparr>wpc := wpc s, rpc := RCopy (i + 1)\<rparr>"
      using pc True n dst by (simp add: read_step_def Let_def same_pc)
    show ?thesis
    proof (rule store_inv [OF inv net _ _ _ step])
      show "view_ok l (?v\<lparr>v_wpc := wpc s, v_rpc := RCopy (i + 1), v_src := (if False then (v_src ?v)(v_dst ?v + i := ?x) else v_src ?v),
          v_sink := (if False then v_sink ?v else (v_sink ?v)(v_dst ?v + i := ?x))\<rparr>)"
        using copy_word_ok [OF ok _ True sw lay x] pc by (simp add: view_of_ports_def)
      show "v_dst ?v + i < 2 ^ 14" "clear_of (v_dst ?v + i) 1 (l_lock l False) 4" using a True by (auto simp: sink_area_def clear_of_def)
    qed (use inv_places [OF inv] pc in \<open>auto simp: read_place_def\<close>)
  next
    case False
    have mem: "v_sink ?v = spm ?n" by (simp add: view_of_ports_def)
    have xs: "words_from (rsample s) (l_words l) ?n = map (\<lambda>k. v_sink ?v (v_dst ?v + k)) [0..<l_words l]"
      using words_from_eq [of "v_dst ?v" "l_words l" b ?n] a inv_base [OF inv] mem unfolding dst by (simp add: sink_area_def)
    have step: "read_step net s = s\<lparr>rpc := RRelease, rnewest := rnewest s,
        reads := reads s @ [(length (published s), map (\<lambda>k. v_sink ?v (v_dst ?v + k)) [0..<l_words l])]\<rparr>"
      using pc False n xs by (simp add: read_step_def Let_def)
    show ?thesis
    proof (rule local_inv [OF inv net step])
      show "view_ok l (?v\<lparr>v_rpc := RRelease, v_new := rnewest s,
          v_got := reads s @ [(length (published s), map (\<lambda>k. v_sink ?v (v_dst ?v + k)) [0..<l_words l])]\<rparr>)"
        using read_done_ok [OF ok _ sw refl] pc i False by (simp add: view_of_ports_def)
    qed (use inv_places [OF inv] pc in \<open>auto simp: read_place_def releasing_def\<close>)
  qed
qed

lemma read_step_inv:
  assumes inv: "samp_inv l b s" and net: "in_order net" and "\<not> wrapped (locks s)"
  shows "samp_inv l b (read_step net s)"
proof -
  let ?L = "lock_step net (Core False) (locks s)"
  define t where "t = s\<lparr>locks := ?L\<rparr>"
  have "False \<longrightarrow> wpc s \<noteq> WAwait \<and> wpc s \<noteq> WAwaitNewest" by simp
  note run = core_run [OF inv net t_def this]
  have run: "samp_inv l b (t\<lparr>rpc := p\<rparr>)"
    if pc: "rpc s \<noteq> RIdle" and p: "read_place p (lpc (core_of False t))"
      and view: "view_ok l (view_of_ports t) \<Longrightarrow> view_ok l ((view_of_ports t)\<lparr>v_rpc := p\<rparr>)" for p
  proof -
    have same: "core_of y (t\<lparr>rpc := p\<rparr>) = core_of y t" "node_of y (t\<lparr>rpc := p\<rparr>) = node_of y t" "entry_of y (t\<lparr>rpc := p\<rparr>) = entry_of y t" for y
      by (simp_all add: core_of_def node_of_def entry_of_def)
    have "view_of_ports (t\<lparr>rpc := p\<rparr>) = (view_of_ports t)\<lparr>v_rpc := p\<rparr>" by (simp add: view_of_ports_def same)
    moreover have "rpc t = rpc s" "wpc t = wpc s" by (simp_all add: t_def)
    moreover have "ports_ok l b (t\<lparr>rpc := p\<rparr>)" using run(1) by (simp add: ports_ok_def same)
    moreover have "args_ok b (t\<lparr>rpc := p\<rparr>)" using run(2) pc unfolding args_ok_def same by (auto simp: t_def)
    moreover have "sink_entry_ok l (t\<lparr>rpc := p\<rparr>)" using run(4) by (simp add: sink_entry_ok_def same)
    moreover have "core_of True t = core_of True s" using run(6) [of True] by simp
    ultimately show ?thesis using run(3) view [OF run(5)] p inv by (simp add: samp_inv_def same)
  qed
  have core: "core_of False t = core_step (core_of False s)" by (simp add: t_def core_of_def lock_step_def Let_def)
  show ?thesis
  proof (cases "rpc s")
    case RAcquire
    have wt: "rpc t = RAcquire" using RAcquire by (simp add: t_def)
    have "read_step net s = t\<lparr>rpc := (if lpc (core_of False t) = Held then RLoad else RAcquire)\<rparr>"
      using RAcquire by (simp add: read_step_def Let_def t_def core_of_def)
    moreover have "lpc (core_of False t) = Held \<or> acquiring (lpc (core_of False t))"
      using inv_places [OF inv] RAcquire core_step_place(1) by (simp add: read_place_def core)
    ultimately show ?thesis using run [of RLoad] run [of RAcquire] read_pc_ok(1) [of l "view_of_ports t"] RAcquire wt
      by (auto simp: read_place_def view_of_ports_def)
  next
    case RRelease
    have wt: "rpc t = RRelease" using RRelease by (simp add: t_def)
    have "read_step net s = t\<lparr>rpc := (if lpc (core_of False t) = Free then RIdle else RRelease)\<rparr>"
      using RRelease by (simp add: read_step_def Let_def t_def core_of_def)
    moreover have "lpc (core_of False t) = Free \<or> releasing (lpc (core_of False t))"
      using inv_places [OF inv] RRelease core_step_place(2) by (simp add: read_place_def core)
    ultimately show ?thesis using run [of RIdle] run [of RRelease] read_pc_ok(2) [of l "view_of_ports t"] RRelease wt
      by (auto simp: read_place_def view_of_ports_def)
  qed (use RLoad_inv [OF inv net assms(3)] RCopy_inv [OF inv net assms(3)] inv in \<open>simp_all add: read_step_def\<close>)
qed

lemma read_call_inv:
  assumes inv: "samp_inv l b s" and net: "in_order net" and pc: "rpc s = RIdle" and a: "sink_area l a"
  shows "samp_inv l b (s\<lparr>rpc := RAcquire, rsample := spm_ptr b a\<rparr>)" (is "samp_inv l b ?s")
proof (rule outside_step_inv [OF inv net])
  have same: "core_of y ?s = core_of y s" "node_of y ?s = node_of y s" "entry_of y ?s = entry_of y s" for y
    by (simp_all add: core_of_def node_of_def entry_of_def)
  have ptr: "spm_word (node_of False s) (spm_ptr b a) = a" using inv_word [OF inv] area_start(2) [OF inv_defs(1) [OF inv] a] by simp
  have "view_of_ports ?s = (view_of_ports s)\<lparr>v_rpc := RAcquire, v_dst := a\<rparr>" by (simp add: view_of_ports_def same ptr)
  then show "view_ok l (view_of_ports ?s)" using read_call_ok [OF inv_defs(5) [OF inv] a] by simp
  show "args_ok b ?s" using inv_defs(3) [OF inv] by (simp add: args_ok_def same ptr)
  show "sink_entry_ok l ?s" using inv_defs(4) [OF inv] by (simp add: sink_entry_ok_def same)
qed (use inv_places [OF inv] pc in \<open>simp_all add: read_place_def acquiring_def\<close>)

subsection \<open>Slots of the network\<close>

lemma slot_fits:
  assumes "lock_layout lw b C" "e = dma_entry (remote_cpuid (C x)) (lnode (C x))"
  shows "entry_active e \<longrightarrow> entry_write e + entry_words e \<le> 2 ^ 14 \<and> entry_read e + entry_words e \<le> 2 ^ 14"
proof -
  have "lw x + 3 < 2 ^ 14" "lw (\<not> x) + 3 < 2 ^ 14" "xfer_ok lw x e" using assms by (simp_all add: lock_layout_def)
  then show ?thesis by (auto simp: xfer_ok_def entry_misses_def)
qed

lemma slot_inv:
  assumes inv: "samp_inv l b s" and net: "in_order net" and "\<not> wrapped (locks s)"
  shows "samp_inv l b (s\<lparr>locks := lock_step net (Net x) (locks s)\<rparr>)" (is "samp_inv l b ?s")
proof -
  let ?e = "entry_of x s" and ?id = "remote_cpuid (core_of x s)" and ?v = "view_of_ports s"
  note lay = inv_layout [OF inv]
  have fits: "entry_active ?e \<longrightarrow> entry_write ?e + entry_words ?e \<le> 2 ^ 14 \<and> entry_read ?e + entry_words ?e \<le> 2 ^ 14"
    by (rule slot_fits [OF lay, of _ x]) (simp add: entry_of_def node_of_def core_of_def)
  have lock: "lock_inv (l_lock l) b (locks ?s)" using lock_step_inv [OF _ net] inv by (simp add: samp_inv_def)
  show ?thesis
    using net entry_of_def [of x s] fits
  proof (cases rule: net_slot_cases [where m = "node_of (\<not> x) s"])
    case idle
    then have "lock_step net (Net x) (locks s) = locks s"
      by (cases "locks s"; cases x) (auto simp: lock_step_def core_of_def node_of_def fun_eq_iff)
    then show ?thesis using inv by simp
  next
    case (moved k e')
    define t where t: "t = ?s"
    let ?n = "set_entry ?id e' (node_of x s)" and ?m = "(node_of (\<not> x) s)\<lparr>spm := copy_words k (entry_read ?e) (entry_write ?e) (spm (node_of x s)) (spm (node_of (\<not> x) s))\<rparr>"
    have core: "core_of y t = (core_of y s)\<lparr>lnode := (if y = x then ?n else ?m)\<rparr>" for y
      using moved(5) unfolding t by (cases x; cases y) (simp_all add: lock_step_def core_of_def node_of_def)
    then have node: "node_of y t = (if y = x then ?n else ?m)" for y by (simp add: node_of_def)
    have same: "src_port t = src_port s" "sink_port t = sink_port s" "wpc t = wpc s" "rpc t = rpc s" "wsample t = wsample s" "rsample t = rsample s"
        "rnewest t = rnewest s" "written t = written s" "published t = published s" "reads t = reads s"
      by (simp_all add: t)
    have other: "y \<noteq> x \<Longrightarrow> node_of (\<not> x) s = node_of y s" for y by (cases x; cases y) simp_all
    have ent: "entry_of y t = (if y = x then e' else entry_of y s)" for y
      using other [of y] by (cases "y = x") (auto simp: entry_of_def node core)
    have word: "spm_word (node_of y t) p = spm_word (node_of y s) p" for y p using other [of y] by (cases "y = x") (auto simp: node spm_word_def)
    have mv: "slot_moves k ?e e'" using moved by (simp add: slot_moves_def)
    have fields: "remote_cpuid (core_of y t) = remote_cpuid (core_of y s)" "lpc (core_of y t) = lpc (core_of y s)" for y by (simp_all add: core)
    have "sink_entry_ok l t \<and> view_ok l (view_of_ports t)"
    proof (cases x)
      case True
      have "view_of_ports t = slot_view k e' ?v"
        using True by (simp add: view_of_ports_def slot_view_def ent word same) (simp add: node)
      then show ?thesis
        using slot_ok_view [OF inv_defs(5) [OF inv] inv_defs(1) [OF inv] _ samp_exclusive [OF inv assms(3)], of k e'] mv True inv_defs(4) [OF inv]
        by (simp add: sink_entry_ok_def ent view_of_ports_def)
    next
      case False
      have e: "entry_words ?e = 1" "entry_write ?e = l_lock l True \<or> entry_write ?e = l_lock l True + 1"
        using inv_defs(4) [OF inv] moved(1) False by (simp_all add: sink_entry_ok_def)
      have keep: "spm ?m a = spm (node_of True s) a" if "a < l_lock l True \<or> l_lock l True + 4 \<le> a" for a
        using that e moved(2) False by (auto simp: copy_words_def)
      have "sink_entry_ok l t" using e mv False by (auto simp: sink_entry_ok_def ent slot_moves_def)
      moreover have "view_ok l (view_of_ports t)"
      proof (rule view_frame [OF inv_defs(5) [OF inv], where f = "spm ?m" and g = "v_sink ?v" and e = "v_ent ?v"])
        show "view_of_ports t = ?v\<lparr>v_src := spm ?m, v_sink := v_sink ?v, v_ent := v_ent ?v\<rparr>"
          using False by (simp add: view_of_ports_def ent word same) (simp add: node)
        show "spm ?m (l_next l) = v_src ?v (l_next l)"
          using keep [of "l_next l"] inv_defs(1) [OF inv] by (auto simp: layout_ok_def clear_of_def view_of_ports_def)
        have "src_area l (v_smp ?v)" if "v_wpc ?v \<noteq> WIdle" using inv_defs(5) [OF inv] that by (simp add: view_ok_def writer_ok_def)
        then show "v_wpc ?v \<noteq> WIdle \<longrightarrow> (\<forall>i < l_words l. spm ?m (v_smp ?v + i) = v_src ?v (v_smp ?v + i))"
          using keep by (auto simp: src_area_def clear_of_def view_of_ports_def)
      qed simp_all
      ultimately show ?thesis by simp
    qed
    moreover have "lock_inv (l_lock l) b (locks t)" using lock t by simp
    ultimately have "samp_inv l b t" using inv by (simp add: samp_inv_def ports_ok_def args_ok_def fields word same)
    then show ?thesis using t by simp
  qed
qed

section \<open>The theorem\<close>

definition act_ok :: "samp_layout \<Rightarrow> u32 \<Rightarrow> samp_act \<Rightarrow> bool" where
  "act_ok l b act = (case act of
      MpWrite p xs \<Rightarrow> (let a = unat (p - b) div 4 in p = spm_ptr b a \<and> src_area l a \<and> length xs = l_words l)
    | MpRead p \<Rightarrow> (let a = unat (p - b) div 4 in p = spm_ptr b a \<and> sink_area l a)
    | _ \<Rightarrow> True)"

lemma wrapped_step: "wrapped (locks s) \<Longrightarrow> wrapped (locks (samp_step net act s))"
  by (cases act; cases "wpc s"; cases "rpc s")
    (auto simp: samp_step_def write_step_def read_step_def Let_def lock_step_def split: prod.splits)

lemma samp_step_inv:
  assumes inv: "samp_inv l b s" and net: "in_order net" and nw: "\<not> wrapped (locks s)" and act: "act_ok l b act"
  shows "samp_inv l b (samp_step net act s)"
proof (cases act)
  case (MpWrite p xs)
  then show ?thesis using write_call_inv [OF inv net, of "unat (p - b) div 4" xs] act inv by (auto simp: samp_step_def act_ok_def Let_def)
next
  case (MpRead p)
  then show ?thesis using read_call_inv [OF inv net, of "unat (p - b) div 4"] act inv by (auto simp: samp_step_def act_ok_def Let_def)
qed (use write_step_inv [OF inv net nw] read_step_inv [OF inv net nw] slot_inv [OF inv net nw] in \<open>simp_all add: samp_step_def\<close>)

definition samp_start :: "samp_layout \<Rightarrow> u32 \<Rightarrow> samp_sys \<Rightarrow> bool" where
  "samp_start l b s \<longleftrightarrow> layout_ok l \<and> lock_start (l_lock l) b (locks s) \<and> ports_ok l b s \<and> wpc s = WIdle \<and> rpc s = RIdle \<and>
     spm (node_of True s) (l_next l) = 0 \<and> written s = [] \<and> published s = [] \<and> reads s = []"

lemma samp_start_inv: "samp_start l b s \<Longrightarrow> samp_inv l b s"
proof -
  assume start: "samp_start l b s"
  then have lock: "lock_inv (l_lock l) b (locks s)" using lock_start_inv by (simp add: samp_start_def)
  have idle: "\<not> entry_active (entry_of x s)" "lpc (core_of x s) = Free" for x
    using start by (simp_all add: samp_start_def lock_start_def dma_done_entry entry_of_def node_of_def core_of_def)
  have "view_ok l (view_of_ports s)"
    using start idle by (simp add: samp_start_def view_of_ports_def view_defs)
  then show ?thesis
    using start lock idle by (simp add: samp_inv_def samp_start_def args_ok_def sink_entry_ok_def write_place_def read_place_def)
qed

lemma samp_run_inv:
  assumes "samp_inv l b s" "in_order net" "list_all (act_ok l b) acts" "\<not> wrapped (locks (fold (samp_step net) acts s))"
  shows "samp_inv l b (fold (samp_step net) acts s)"
  using assms(1,3,4)
proof (induction acts arbitrary: s)
  case (Cons act acts)
  have "wrapped (locks (fold (samp_step net) acts s))" if "wrapped (locks s)" for s
    using that by (induction acts arbitrary: s) (simp_all add: wrapped_step)
  then have "\<not> wrapped (locks s)" using Cons.prems(3) wrapped_step by auto
  then show ?case using Cons samp_step_inv [OF Cons.prems(1) assms(2), of act] by simp
qed simp

text \<open>C2: for every network that delivers words in order, and however \<open>mp_write\<close>, \<open>mp_read\<close> and the network interleave,
  every sample that was read is, unless nothing had been published, exactly the sample that was published last at that time, whole and
  unmixed; the reads never go back; and what is published are the arguments of \<open>mp_write\<close> in order, all but at most the one that is being written.\<close>

theorem sampling_port_atomic:
  assumes "in_order net" "samp_start l b s0" "list_all (act_ok l b) acts" "s = fold (samp_step net) acts s0" "\<not> wrapped (locks s)"
  shows "(\<forall>(k, xs) \<in> set (reads s). k \<le> length (published s) \<and> (0 < k \<longrightarrow> xs = published s ! (k - 1))) \<and>
    sorted (map fst (reads s)) \<and> (\<exists>w. written s = published s @ w \<and> length w \<le> 1)"
proof -
  have "view_ok l (view_of_ports s)"
    using samp_run_inv [OF samp_start_inv [OF assms(2)] assms(1,3)] assms(4,5) by (simp add: samp_inv_def)
  then have ok: "log_ok (view_of_ports s)" "calls_ok l (view_of_ports s)" by (simp_all add: view_ok_def)
  moreover have "\<exists>w. written s = published s @ w \<and> length w \<le> 1"
    using ok(2) by (cases "wpc s") (auto simp: calls_ok_def view_of_ports_def)
  ultimately show ?thesis by (simp add: log_ok_def view_of_ports_def)
qed

section \<open>Witness\<close>

definition demo_layout :: samp_layout where
  "demo_layout = \<lparr>l_lock = \<lambda>_. 8, l_next = 21, l_newest = 20, l_bufs = 24, l_words = 1\<rparr>"

definition demo_spd :: "u32 \<Rightarrow> spd_t" where
  "demo_spd i = \<lparr>spd_ptr = 0x1030, spd_direction = SOURCE, remote = i, remote_spd = 0x1030, read_bufs = 0x1060, sample_size = 4, spd_lock = 0x1020\<rparr>"

definition demo_ports :: samp_sys where
  "demo_ports = \<lparr>locks = demo_locks, src_port = demo_spd 2, sink_port = demo_spd 1, wpc = WIdle, wsample = 0, rpc = RIdle, rsample = 0,
     rnewest = 0, written = [], published = [], reads = []\<rparr>"

text \<open>A sample is written, then read; \<open>Slot\<close> lets the transfer of the source or the sink arrive.\<close>

definition demo_samp_acts :: "samp_act list" where
  "demo_samp_acts =
     [MpWrite 0x1080 [7], Writer, Slot True, Writer, Writer, Writer, Slot True, Writer, Writer, Writer, Slot True, Writer, Writer, Writer, Slot True,
      Writer, Writer, Writer, Writer, Slot True, Writer, Writer, Writer, Slot True, Writer, Writer, MpRead 0x1080,
      Reader, Reader, Slot False, Reader, Reader, Reader, Slot False, Reader, Reader, Reader, Slot False, Reader, Reader, Reader, Reader, Reader, Reader]"

theorem sampling_port_atomic_witness:
  "\<exists>s. s = fold (samp_step one_word_net) demo_samp_acts demo_ports \<and> samp_start demo_layout 0x1000 demo_ports \<and>
     reads s = [(1, [7])] \<and> published s ! 0 = [7]"
proof -
  let ?s = "fold (samp_step one_word_net) demo_samp_acts demo_ports"
  have start: "samp_start demo_layout 0x1000 demo_ports"
    by (simp add: samp_start_def layout_ok_def clear_of_def demo_layout_def demo_ports_def demo_spd_def ports_ok_def demo_locks_def demo_lock_core_def
        lock_start_def lock_layout_def xfer_ok_def dma_done_entry dma_entry_def entry_active_def core_of_def node_of_def newest_at_def next_at_def spm_ptr_def)
  have acts: "list_all (act_ok demo_layout 0x1000) demo_samp_acts" by code_simp
  have run: "reads ?s = [(1, [7])]" "\<not> wrapped (locks ?s)" by code_simp+
  show ?thesis using sampling_port_atomic [OF one_word_net_in_order start acts refl run(2)] run(1) start by auto
qed

end
