(* ===== verification/Mp_Sample_Create.thy ===== *)
theory Mp_Sample_Create
  imports Mp_Sample
begin

text \<open>
  The creation of sampling ports in \<^verbatim>\<open>c/libmp/sampling.c\<close> and the part of \<open>mp_init_ports\<close> in \<^verbatim>\<open>c/libmp/mp.c\<close> for a sampling channel:
  two cores that create a source and a sink and exchange their addresses are in the state from which
  the samples are atomic.  As for queuing ports, \<open>sc\<close> says whether a \<open>char\<close> is signed.
\<close>

section \<open>Creation and initialisation\<close>

record samp_core = core +
  spds :: "u32 \<Rightarrow> spd_t"                   \<comment> \<open>the descriptors in the scratchpad\<close>
  lock_remotes :: "u32 \<Rightarrow> u32 \<times> u32"     \<comment> \<open>the fields \<open>remote_cpuid\<close> and \<open>remote_ptr\<close> of the locks\<close>

record samp_info = chan_info_t +
  src_lock :: u32
  sink_lock :: u32
  src_spd_ptr :: u32
  sink_spd_ptr :: u32

definition set_spd :: "u32 \<Rightarrow> (spd_t \<Rightarrow> spd_t) \<Rightarrow> samp_core \<Rightarrow> samp_core" where
  "set_spd p f c = c\<lparr>spds := (spds c)(p := f (spds c p))\<rparr>"

definition set_lock_remote :: "u32 \<Rightarrow> u32 \<times> u32 \<Rightarrow> samp_core \<Rightarrow> samp_core" where
  "set_lock_remote p r c = c\<lparr>lock_remotes := (lock_remotes c)(p := r)\<rparr>"

definition create_ssource :: "bool \<Rightarrow> u32 \<Rightarrow> samp_info \<Rightarrow> samp_core \<Rightarrow> u32 \<times> samp_info \<times> samp_core" where
  "create_ssource sc p i c =
     (p, i\<lparr>src_spd_ptr := p, src_lock := spd_lock (spds c p), src_id := to_char sc (cpuid c)\<rparr>, spm_store (next_at p) 0 c)"

definition create_ssink :: "bool \<Rightarrow> u32 \<Rightarrow> u32 \<Rightarrow> samp_info \<Rightarrow> samp_core \<Rightarrow> u32 \<times> samp_info \<times> samp_core" where
  "create_ssink sc sz p i c =
     (case mp_alloc (WALIGN sz * 2) c of
        (bufs, c) \<Rightarrow>
          (let c = set_spd p (\<lambda>q. q\<lparr>read_bufs := bufs\<rparr>) c;
               c = spm_store (newest_at p) (-1) c;
               i = i\<lparr>sink_spd_ptr := p, sink_lock := spd_lock (spds c p), sink_addr := bufs\<rparr>
           in if bufs = 0 then (0, i, c) else (p, i\<lparr>sink_id := to_char sc (cpuid c)\<rparr>, c)))"

definition mp_create_sport ::
  "bool \<Rightarrow> u32 \<Rightarrow> direction_t \<Rightarrow> u32 \<Rightarrow> (u32 \<Rightarrow> samp_info) \<Rightarrow> samp_core \<Rightarrow> u32 \<times> (u32 \<Rightarrow> samp_info) \<times> samp_core" where
  "mp_create_sport sc chan_id dir sz ci c =
     (if chan_id \<ge> 256 then (0, ci, c)
      else
        (case mp_alloc 40 c of
           (p, c) \<Rightarrow>
             if p = 0 then (0, ci, c)
             else
               (let c = set_spd p (\<lambda>q. q\<lparr>spd_ptr := p, spd_direction := dir, sample_size := WALIGN sz\<rparr>) c
                in case initialize_lock 0 c of
                     (lk, rid, c) \<Rightarrow>
                       (let c = set_lock_remote lk (rid, snd (lock_remotes c lk)) (set_spd p (\<lambda>q. q\<lparr>spd_lock := lk\<rparr>) c)
                        in if lk = 0 then (0, ci, c)
                           else
                             (let i = (ci chan_id)\<lparr>port_type := SAMPLING\<rparr>
                              in case (case dir of SOURCE \<Rightarrow> create_ssource sc p i c | SINK \<Rightarrow> create_ssink sc sz p i c) of
                                   (r, i, c) \<Rightarrow> (r, ci(chan_id := i), c))))))"

text \<open>The exchange of addresses; \<open>None\<close>: it waits for the other end.  \<open>remote\<close> is a \<open>coreid_t\<close>, a \<open>char\<close>, and \<open>remote_cpuid\<close> of the lock
  an \<open>unsigned char\<close>.\<close>

definition mp_init_sport :: "bool \<Rightarrow> samp_info \<Rightarrow> samp_core \<Rightarrow> samp_core option" where
  "mp_init_sport sc i c =
     (if src_id i = cpuid c then
        if sink_id i = -1 then None
        else Some (if port_type i = SAMPLING
          then set_spd (src_spd_ptr i) (\<lambda>q. q\<lparr>remote := to_char sc (sink_id i), read_bufs := sink_addr i, remote_spd := sink_spd_ptr i\<rparr>)
            (set_lock_remote (spd_lock (spds c (src_spd_ptr i))) (ucast (ucast (sink_id i) :: u8), sink_lock i) c) else c)
      else if sink_id i = cpuid c then
        if src_id i = -1 then None
        else Some (if port_type i = SAMPLING
          then set_spd (sink_spd_ptr i) (\<lambda>q. q\<lparr>remote := to_char sc (src_id i), remote_spd := src_spd_ptr i\<rparr>)
            (set_lock_remote (spd_lock (spds c (sink_spd_ptr i))) (ucast (ucast (src_id i) :: u8), src_lock i) c) else c)
      else Some c)"

section \<open>The ports are connected\<close>

text \<open>The two ends as a system: port \<open>p\<close> of the source and port \<open>q\<close> of the sink.\<close>

definition lock_core_of :: "u32 \<Rightarrow> samp_core \<Rightarrow> lock_core" where
  "lock_core_of p c =
     (let lk = spd_lock (spds c p)
      in \<lparr>lnode = node.truncate c, lcpuid = cpuid c, lock = lk, remote_ptr = snd (lock_remotes c lk), remote_cpuid = fst (lock_remotes c lk),
          lpc = Free, lock_n = 0, lock_m = 0\<rparr>)"

definition ports_of :: "u32 \<Rightarrow> u32 \<Rightarrow> samp_core \<Rightarrow> samp_core \<Rightarrow> samp_sys" where
  "ports_of p q cs ck = \<lparr>locks = \<lparr>cores = (\<lambda>x. if x then lock_core_of p cs else lock_core_of q ck), wrapped = False\<rparr>,
     src_port = spds cs p, sink_port = spds ck q, wpc = WIdle, wsample = 0, rpc = RIdle, rsample = 0, rnewest = 0,
     written = [], published = [], reads = []\<rparr>"

text \<open>The source needs 16 words from \<open>w\<close> on, the sink 16 words and two buffers from \<open>v\<close> on.\<close>

definition created_layout :: "nat \<Rightarrow> nat \<Rightarrow> nat \<Rightarrow> samp_layout" where
  "created_layout w v nw = \<lparr>l_lock = (\<lambda>x. if x then w + 10 else v + 10), l_next = w + 9, l_newest = v + 8, l_bufs = v + 16, l_words = nw\<rparr>"

lemma created_layout_ok: "0 < nw \<Longrightarrow> w + 16 \<le> 2 ^ 14 \<Longrightarrow> v + 16 + 2 * nw \<le> 2 ^ 14 \<Longrightarrow> layout_ok (created_layout w v nw)"
  by (simp add: layout_ok_def created_layout_def clear_of_def)

text \<open>What both directions do: the descriptor and the lock.\<close>

definition created :: "direction_t \<Rightarrow> nat \<Rightarrow> nat \<Rightarrow> samp_core \<Rightarrow> samp_core" where
  "created dir w nw c =
     (let b = spm_base c; p = spm_ptr b w; lk = spm_ptr b (w + 10)
      in c\<lparr>spm_alloc := spm_ptr b (w + 16), spm := (spm c)(w + 10 := 0, w + 11 := 0, w + 12 := 0, w + 13 := 0),
           spds := (spds c)(p := (spds c p)\<lparr>spd_ptr := p, spd_direction := dir, sample_size := 4 * of_nat nw, spd_lock := lk\<rparr>),
           lock_remotes := (lock_remotes c)(lk := (0, snd (lock_remotes c lk)))\<rparr>)"

lemma create_sport_eq:
  assumes "core_ready w sz c" "w + 16 \<le> sz" "ch < 256" "WALIGN n = 4 * of_nat nw"
  shows "mp_create_sport sc ch dir n ci c =
    (case (case dir of SOURCE \<Rightarrow> create_ssource sc (spm_ptr (spm_base c) w) ((ci ch)\<lparr>port_type := SAMPLING\<rparr>) (created dir w nw c)
           | SINK \<Rightarrow> create_ssink sc n (spm_ptr (spm_base c) w) ((ci ch)\<lparr>port_type := SAMPLING\<rparr>) (created dir w nw c)) of
       (r, i, c) \<Rightarrow> (r, ci(ch := i), c))"
    and "core_ready (w + 16) sz (created dir w nw c)" "spm_ptr (spm_base c) w \<noteq> 0"
proof -
  let ?p = "spm_ptr (spm_base c) w"
  let ?c = "set_spd ?p (\<lambda>q. q\<lparr>spd_ptr := ?p, spd_direction := dir, sample_size := 4 * of_nat nw\<rparr>) (c\<lparr>spm_alloc := spm_ptr (spm_base c) (w + 10)\<rparr>)"
  have ten: "mp_alloc 40 c = (?p, c\<lparr>spm_alloc := spm_ptr (spm_base c) (w + 10)\<rparr>)" and p: "?p \<noteq> 0"
    using mp_alloc_ready [OF assms(1), of 10] assms(2) by simp_all
  have ready: "core_ready (w + 10) sz ?c" using assms(1) by (simp add: core_ready_def set_spd_def)
  have lock: "initialize_lock 0 ?c = (spm_ptr (spm_base c) (w + 10), 0, ?c\<lparr>spm_alloc := spm_ptr (spm_base c) (w + 16),
      spm := (spm c)(w + 10 := 0, w + 11 := 0, w + 12 := 0, w + 13 := 0)\<rparr>)"
    using initialize_lock_eq [OF ready, of 0] assms(2) by (simp add: set_spd_def add.commute)
  have lk: "spm_ptr (spm_base c) (w + 10) \<noteq> 0" using mp_alloc_ready(2) [OF ready, of 6] assms(2) by (simp add: set_spd_def)
  let ?d = "?c\<lparr>spm_alloc := spm_ptr (spm_base c) (w + 16), spm := (spm c)(w + 10 := 0, w + 11 := 0, w + 12 := 0, w + 13 := 0)\<rparr>"
  have made: "set_lock_remote (spm_ptr (spm_base c) (w + 10)) (0, snd (lock_remotes ?d (spm_ptr (spm_base c) (w + 10))))
      (set_spd ?p (\<lambda>q. q\<lparr>spd_lock := spm_ptr (spm_base c) (w + 10)\<rparr>) ?d) = created dir w nw c"
    by (simp add: created_def Let_def set_spd_def set_lock_remote_def)
  have ch: "\<not> 256 \<le> ch" using assms(3) by simp
  show "mp_create_sport sc ch dir n ci c =
    (case (case dir of SOURCE \<Rightarrow> create_ssource sc (spm_ptr (spm_base c) w) ((ci ch)\<lparr>port_type := SAMPLING\<rparr>) (created dir w nw c)
           | SINK \<Rightarrow> create_ssink sc n (spm_ptr (spm_base c) w) ((ci ch)\<lparr>port_type := SAMPLING\<rparr>) (created dir w nw c)) of
       (r, i, c) \<Rightarrow> (r, ci(ch := i), c))"
    unfolding mp_create_sport_def ten assms(4) by (simp only: ch p lk if_False prod.case Let_def lock made)
  show "core_ready (w + 16) sz (created dir w nw c)" using assms(1) by (simp add: core_ready_def created_def Let_def)
  show "spm_ptr (spm_base c) w \<noteq> 0" by (rule p)
qed

lemma create_ssource_eq:
  assumes "core_ready w sz c" "w + 16 \<le> sz" "ch < 256" "WALIGN n = 4 * of_nat nw"
  shows "mp_create_sport sc ch SOURCE n ci c =
    (spm_ptr (spm_base c) w, ci(ch := (ci ch)\<lparr>port_type := SAMPLING, src_spd_ptr := spm_ptr (spm_base c) w,
        src_lock := spm_ptr (spm_base c) (w + 10), src_id := to_char sc (cpuid c)\<rparr>),
     (created SOURCE w nw c)\<lparr>spm := (spm (created SOURCE w nw c))(w + 9 := 0)\<rparr>)"
proof -
  have base: "spm_base (created SOURCE w nw c) = spm_base c" by (simp add: created_def Let_def)
  have "w + 9 < 2 ^ 14" using assms(1,2) by (simp add: core_ready_def)
  moreover have "next_at (spm_ptr (spm_base c) w) = spm_ptr (spm_base c) (w + 9)" by (simp add: next_at_def spm_ptr_def)
  ultimately have "spm_store (next_at (spm_ptr (spm_base c) w)) 0 (created SOURCE w nw c) = (created SOURCE w nw c)\<lparr>spm := (spm (created SOURCE w nw c))(w + 9 := 0)\<rparr>"
    using store_ptr [of "w + 9" "spm_base c" "created SOURCE w nw c"] base by simp
  then show ?thesis unfolding create_sport_eq(1) [OF assms] by (simp add: create_ssource_def) (simp add: created_def Let_def)
qed

lemma create_ssink_eq:
  assumes "core_ready w sz c" "w + 16 + 2 * nw \<le> sz" "ch < 256" "WALIGN n = 4 * of_nat nw"
  defines "d \<equiv> created SINK w nw c"
  shows "mp_create_sport sc ch SINK n ci c =
    (spm_ptr (spm_base c) w, ci(ch := (ci ch)\<lparr>port_type := SAMPLING, sink_spd_ptr := spm_ptr (spm_base c) w,
        sink_lock := spm_ptr (spm_base c) (w + 10), sink_addr := spm_ptr (spm_base c) (w + 16), sink_id := to_char sc (cpuid c)\<rparr>),
     set_spd (spm_ptr (spm_base c) w) (\<lambda>q. q\<lparr>read_bufs := spm_ptr (spm_base c) (w + 16)\<rparr>)
       (d\<lparr>spm_alloc := spm_ptr (spm_base c) (w + 16 + 2 * nw), spm := (spm d)(w + 8 := -1)\<rparr>))"
proof -
  have base: "spm_base d = spm_base c" by (simp add: d_def created_def Let_def)
  have room: "w + 16 \<le> sz" using assms(2) by simp
  note eq = create_sport_eq(1,2) [OF assms(1) room assms(3,4), where dir = SINK, folded d_def]
  have bufs: "mp_alloc (WALIGN n * 2) d = (spm_ptr (spm_base c) (w + 16), d\<lparr>spm_alloc := spm_ptr (spm_base c) (w + 16 + 2 * nw)\<rparr>)"
    "spm_ptr (spm_base c) (w + 16) \<noteq> 0"
    using mp_alloc_ready [OF eq(2), of "2 * nw"] assms(2,4) base by (simp_all add: algebra_simps)
  have small: "w + 8 < 2 ^ 14" using assms(1,2) by (simp add: core_ready_def)
  have at: "newest_at (spm_ptr (spm_base c) w) = spm_ptr (spm_base c) (w + 8)" by (simp add: newest_at_def spm_ptr_def)
  have store: "spm_store (spm_ptr (spm_base c) (w + 8)) (-1) e = e\<lparr>spm := (spm e)(w + 8 := -1)\<rparr>" if "spm_base e = spm_base c" for e :: samp_core
    using store_ptr [OF small, of "spm_base c" e] that by simp
  have lk: "spd_lock (spds d (spm_ptr (spm_base c) w)) = spm_ptr (spm_base c) (w + 10)" "cpuid d = cpuid c" by (simp_all add: d_def created_def Let_def)
  show ?thesis unfolding eq(1)
    using bufs store base lk by (simp add: create_ssink_def at Let_def set_spd_def)
qed

text \<open>C37: two cores whose numbers fit into a \<open>char\<close>, with enough scratchpad memory, that create the source and the sink of a sampling channel and initialise the ports end up
  in a state from which the samples are atomic: both sides agree on all addresses, the locks are free, nothing is on the way.\<close>

theorem sampling_ports_start:
  assumes ready: "core_ready w sz cs" "core_ready v vz ck" "spm_base ck = spm_base cs"
    and ids: "cpuid cs \<noteq> cpuid ck" "unat (cpuid cs) < (if sc then 128 else 256)" "unat (cpuid ck) < (if sc then 128 else 256)" "ch < 256"
    and size: "unat n + 3 < 2 ^ 32" "nw = (unat n + 3) div 4" "0 < nw"
    and room: "w + 16 \<le> sz" "v + 16 + 2 * nw \<le> vz"
    and idle: "noc_dma_done (cpuid ck) cs" "noc_dma_done (cpuid cs) ck"
    and create: "mp_create_sport sc ch SOURCE n ci cs = (p, ci1, cs1)" "mp_create_sport sc ch SINK n ci1 ck = (q, ci2, ck1)"
  shows "\<exists>cs2 ck2. mp_init_sport sc (ci2 ch) cs1 = Some cs2 \<and> mp_init_sport sc (ci2 ch) ck1 = Some ck2 \<and>
    samp_start (created_layout w v nw) (spm_base cs) (ports_of p q cs2 ck2)"
proof -
  have al: "WALIGN n = 4 * of_nat nw" using WALIGN_bytes [OF size(1)] size(2) by simp
  note cs = create_ssource_eq [OF ready(1) room(1) ids(4) al, of sc ci, unfolded create(1)]
  note ck = create_ssink_eq [OF ready(2) room(2) ids(4) al, of sc ci1, unfolded create(2)]
  have fits: "unat (cpuid cs) < 256" "unat (cpuid ck) < 256" using ids(2,3) by (simp_all split: if_splits)
  have num: "to_char sc (cpuid cs) = cpuid cs" "to_char sc (cpuid ck) = cpuid ck"
      "ucast (ucast (cpuid cs) :: u8) = cpuid cs" "ucast (ucast (cpuid ck) :: u8) = cpuid ck"
    using to_char_id [OF ids(2)] to_char_id [OF ids(3)] to_char_id [of "cpuid cs" False] to_char_id [of "cpuid ck" False] fits
    by (simp_all add: to_char_def)
  have ne: "cpuid cs \<noteq> - 1" "cpuid ck \<noteq> - 1" using fits by (auto simp: unat_minus_one_u32)
  have lay: "layout_ok (created_layout w v nw)"
    using ready(1,2) room size(3) by (intro created_layout_ok) (auto simp: core_ready_def)
  define lks lkk where lk: "lks = spm_ptr (spm_base cs) (w + 10)" "lkk = spm_ptr (spm_base cs) (v + 10)"
  define cs2 where "cs2 = set_spd p (\<lambda>d. d\<lparr>remote := cpuid ck, read_bufs := spm_ptr (spm_base cs) (v + 16), remote_spd := q\<rparr>)
    (set_lock_remote lks (cpuid ck, lkk) cs1)"
  define ck2 where "ck2 = set_spd q (\<lambda>d. d\<lparr>remote := cpuid cs, remote_spd := p\<rparr>) (set_lock_remote lkk (cpuid cs, lks) ck1)"
  have init: "mp_init_sport sc (ci2 ch) cs1 = Some cs2" "mp_init_sport sc (ci2 ch) ck1 = Some ck2"
    using cs ck ids(1,4) ne ready(3) by (simp_all add: num mp_init_sport_def cs2_def ck2_def lk set_spd_def created_def Let_def)
  let ?s = "ports_of p q cs2 ck2" and ?l = "created_layout w v nw" and ?b = "spm_base cs"
  have nodes: "node_of True ?s = \<lparr>spm_base = ?b, spm = (spm cs)(w + 10 := 0, w + 11 := 0, w + 12 := 0, w + 13 := 0, w + 9 := 0), dma_tab = dma_tab cs\<rparr>"
      "node_of False ?s = \<lparr>spm_base = ?b, spm = (spm ck)(v + 10 := 0, v + 11 := 0, v + 12 := 0, v + 13 := 0, v + 8 := -1), dma_tab = dma_tab ck\<rparr>"
    using cs ck ready(3)
    by (simp_all add: node_of_def core_of_def ports_of_def lock_core_of_def Let_def node.defs cs2_def ck2_def set_spd_def set_lock_remote_def created_def)
  have locks: "core_of True ?s = \<lparr>lnode = node_of True ?s, lcpuid = cpuid cs, lock = lks, remote_ptr = lkk, remote_cpuid = cpuid ck, lpc = Free, lock_n = 0, lock_m = 0\<rparr>"
      "core_of False ?s = \<lparr>lnode = node_of False ?s, lcpuid = cpuid ck, lock = lkk, remote_ptr = lks, remote_cpuid = cpuid cs, lpc = Free, lock_n = 0, lock_m = 0\<rparr>"
    using cs ck ready(3)
    by (simp_all add: node_of_def core_of_def ports_of_def lock_core_of_def Let_def cs2_def ck2_def set_spd_def set_lock_remote_def created_def lk)
  have quiet: "\<not> entry_active (dma_entry (cpuid ck) (node_of True ?s))" "\<not> entry_active (dma_entry (cpuid cs) (node_of False ?s))"
    using idle by (simp_all add: dma_done_entry dma_entry_def nodes)
  have zero: "spm (node_of True ?s) (w + 10 + k) = 0" "spm (node_of False ?s) (v + 10 + k) = 0" if "k < 4" for k
    using that by (auto simp: nodes less_Suc_eq numeral_eq_Suc)
  have small: "w + 13 < 2 ^ 14" "v + 13 < 2 ^ 14" using ready(1,2) room by (auto simp: core_ready_def)
  have start: "cores (locks ?s) = (\<lambda>x. core_of x ?s)" "\<not> wrapped (locks ?s)" by (simp_all add: core_of_def) (simp add: ports_of_def)
  have "lock_layout (l_lock ?l) ?b (\<lambda>x. core_of x ?s)"
    using ids(1) small quiet by (simp add: lock_layout_def all_bool_eq locks created_layout_def lk xfer_ok_def) (simp add: nodes)
  then have "lock_start (l_lock ?l) ?b (locks ?s)"
    using quiet zero start by (simp add: lock_start_def all_bool_eq dma_done_entry created_layout_def locks)
  moreover have "ports_ok ?l ?b ?s"
    using cs ck ready(3) unfolding ports_ok_def locks
    by (simp add: ports_of_def cs2_def ck2_def set_spd_def set_lock_remote_def created_def created_layout_def Let_def next_at_def newest_at_def spm_ptr_def)
  ultimately have "samp_start ?l ?b ?s" using lay nodes(1) by (simp add: samp_start_def created_layout_def) (simp add: ports_of_def)
  then show ?thesis using init by blast
qed

section \<open>Witness\<close>

definition demo_samp_core :: "u32 \<Rightarrow> samp_core" where
  "demo_samp_core i = \<lparr>spm_base = 0x1000, spm = \<lambda>_. 0, dma_tab = \<lambda>_. 0, cpuid = i, spm_alloc = 0x1000, spm_size = 4 * 256,
     qpds = \<lambda>_. demo_qpd, spds = \<lambda>_. demo_spd 0, lock_remotes = \<lambda>_. (0, 0)\<rparr>"

definition demo_samp_info :: "u32 \<Rightarrow> samp_info" where
  "demo_samp_info ch = \<lparr>port_type = QUEUING, src_id = -1, sink_id = -1, src_addr = 0, sink_addr = 0, src_qpd_ptr = 0, sink_qpd_ptr = 0,
     src_lock = 0, sink_lock = 0, src_spd_ptr = 0, sink_spd_ptr = 0\<rparr>"

theorem sampling_ports_start_witness:
  "\<exists>p ci1 cs1 q ci2 ck1 cs2 ck2. mp_create_sport True 3 SOURCE 6 demo_samp_info (demo_samp_core 1) = (p, ci1, cs1) \<and>
     mp_create_sport True 3 SINK 6 ci1 (demo_samp_core 2) = (q, ci2, ck1) \<and> mp_init_sport True (ci2 3) cs1 = Some cs2 \<and> mp_init_sport True (ci2 3) ck1 = Some ck2 \<and>
     samp_start (created_layout 0 0 2) 0x1000 (ports_of p q cs2 ck2)"
proof -
  obtain p ci1 cs1 where c1: "mp_create_sport True 3 SOURCE 6 demo_samp_info (demo_samp_core 1) = (p, ci1, cs1)" by (metis prod_cases3)
  obtain q ci2 ck1 where c2: "mp_create_sport True 3 SINK 6 ci1 (demo_samp_core 2) = (q, ci2, ck1)" by (metis prod_cases3)
  have d: "core_ready 0 256 (demo_samp_core i)" "spm_base (demo_samp_core i) = 0x1000" "cpuid (demo_samp_core i) = i" "noc_dma_done j (demo_samp_core i)" for i j
    by (simp_all add: core_ready_def demo_samp_core_def spm_ptr_def dma_done_entry dma_entry_def entry_active_def)
  have "\<exists>cs2 ck2. mp_init_sport True (ci2 3) cs1 = Some cs2 \<and> mp_init_sport True (ci2 3) ck1 = Some ck2 \<and>
      samp_start (created_layout 0 0 2) (spm_base (demo_samp_core 1)) (ports_of p q cs2 ck2)"
    by (rule sampling_ports_start [OF d(1) d(1) _ _ _ _ _ _ _ _ _ _ d(4) d(4) c1 c2]) (simp_all add: d(2,3))
  then show ?thesis using c1 c2 unfolding d(2) by blast
qed

end
