(* ===== verification/Corethread.thy ===== *)
theory Corethread
  imports Eth_Prelude
begin

text \<open>
  Threads on other cores \<^verbatim>\<open>c/libcorethread/corethread.c\<close>: the master hands a function to a slave core through the slave's record in
  \<open>boot_info\<close>, and waits for its status.  The loop of the slave is compiled into the C library of the tool chain; the
  file documents it in the comment \<open>corethread_worker\<close>, from which \<open>worker_step\<close> is taken.

  A step is one access to the shared record; the calls of the master and the steps of both cores interleave arbitrarily.
  The threads themselves are a parameter: \<open>routine f a\<close> is the argument with which \<open>f (a)\<close> calls \<open>corethread_exit\<close> last, or
  \<open>None\<close> when it returns without.
\<close>

section \<open>Master and worker\<close>

datatype thread_status = STATUS_INITDONE | STATUS_RETURN | STATUS_OTHER u32

record slave_record =
  status :: thread_status
  funcpoint :: u32
  param :: u32
  return_val :: u32

text \<open>The places in \<open>corethread_create\<close> and \<open>corethread_join\<close>, and in the worker.\<close>

datatype master_pc =
    MIdle
  | MCheckStatus u32 u32 | MCheckFunc u32 u32 | MParam u32 u32 | MFunc u32 u32 | MWaitInit u32 u32
  | MWaitReturn | MReadVal | MClear u32

datatype worker_pc =
    KStart | KPoll | KTest | KTake | KReset u32 | KInit u32 | KCall u32 | KBody u32 u32 | KExit u32 | KExitStatus | KAfter | KWait | KStop | KExited

datatype ct_event =
    Created u32 u32 | Again
  | Joined "(u32 \<times> u32) option" u32   \<comment> \<open>the thread that was created last, if it has not been joined, and the value\<close>

record ct_state =
  slave :: slave_record
  master_returned :: bool       \<comment> \<open>\<open>boot_info->master.status\<close> is \<open>STATUS_RETURN\<close>\<close>
  mpc :: master_pc
  kpc :: worker_pc
  pending :: "(u32 \<times> u32) option"
  events :: "ct_event list"

definition set_slave :: "(slave_record \<Rightarrow> slave_record) \<Rightarrow> ct_state \<Rightarrow> ct_state" where
  "set_slave f s = s\<lparr>slave := f (slave s)\<rparr>"

definition corethread_create_step :: "ct_state \<Rightarrow> ct_state" where
  "corethread_create_step s = (case mpc s of
      MCheckStatus f a \<Rightarrow>
        if status (slave s) \<noteq> STATUS_INITDONE then s\<lparr>mpc := MCheckFunc f a\<rparr> else s\<lparr>mpc := MIdle, events := events s @ [Again]\<rparr>
    | MCheckFunc f a \<Rightarrow>
        if funcpoint (slave s) = 0 then s\<lparr>mpc := MParam f a\<rparr> else s\<lparr>mpc := MIdle, events := events s @ [Again]\<rparr>
    | MParam f a \<Rightarrow> (set_slave (\<lambda>r. r\<lparr>param := a\<rparr>) s)\<lparr>mpc := MFunc f a\<rparr>
    | MFunc f a \<Rightarrow> (set_slave (\<lambda>r. r\<lparr>funcpoint := f\<rparr>) s)\<lparr>mpc := MWaitInit f a\<rparr>
    | MWaitInit f a \<Rightarrow>
        if status (slave s) \<noteq> STATUS_INITDONE then s
        else s\<lparr>mpc := MIdle, pending := Some (f, a), events := events s @ [Created f a]\<rparr>
    | _ \<Rightarrow> s)"

definition corethread_join_step :: "ct_state \<Rightarrow> ct_state" where
  "corethread_join_step s = (case mpc s of
      MWaitReturn \<Rightarrow> if status (slave s) \<noteq> STATUS_RETURN then s else s\<lparr>mpc := MReadVal\<rparr>
    | MReadVal \<Rightarrow> s\<lparr>mpc := MClear (return_val (slave s))\<rparr>
    | MClear v \<Rightarrow> (set_slave (\<lambda>r. r\<lparr>funcpoint := 0\<rparr>) s)\<lparr>mpc := MIdle, pending := None, events := events s @ [Joined (pending s) v]\<rparr>
    | _ \<Rightarrow> s)"

text \<open>\<open>corethread_exit\<close> runs on the core of the thread.\<close>

definition corethread_exit_step :: "ct_state \<Rightarrow> ct_state" where
  "corethread_exit_step s = (case kpc s of
      KExit r \<Rightarrow> (set_slave (\<lambda>x. x\<lparr>return_val := r\<rparr>) s)\<lparr>kpc := KExitStatus\<rparr>
    | KExitStatus \<Rightarrow> (set_slave (\<lambda>x. x\<lparr>status := STATUS_RETURN\<rparr>) s)\<lparr>kpc := KAfter\<rparr>
    | _ \<Rightarrow> s)"

definition worker_step :: "(u32 \<Rightarrow> u32 \<Rightarrow> u32 option) \<Rightarrow> ct_state \<Rightarrow> ct_state" where
  "worker_step routine s = (case kpc s of
      KStart \<Rightarrow> (set_slave (\<lambda>x. x\<lparr>status := STATUS_RETURN\<rparr>) s)\<lparr>kpc := KPoll\<rparr>
    | KPoll \<Rightarrow> s\<lparr>kpc := (if master_returned s then KStop else KTest)\<rparr>
    | KTest \<Rightarrow> s\<lparr>kpc := (if funcpoint (slave s) \<noteq> 0 then KTake else KPoll)\<rparr>
    | KTake \<Rightarrow> s\<lparr>kpc := KReset (funcpoint (slave s))\<rparr>
    | KReset f \<Rightarrow> (set_slave (\<lambda>x. x\<lparr>return_val := -1\<rparr>) s)\<lparr>kpc := KInit f\<rparr>
    | KInit f \<Rightarrow> (set_slave (\<lambda>x. x\<lparr>status := STATUS_INITDONE\<rparr>) s)\<lparr>kpc := KCall f\<rparr>
    | KCall f \<Rightarrow> s\<lparr>kpc := KBody f (param (slave s))\<rparr>
    | KBody f a \<Rightarrow> s\<lparr>kpc := (case routine f a of Some r \<Rightarrow> KExit r | None \<Rightarrow> KAfter)\<rparr>
    | KAfter \<Rightarrow> (set_slave (\<lambda>x. x\<lparr>status := STATUS_RETURN\<rparr>) s)\<lparr>kpc := KWait\<rparr>
    | KWait \<Rightarrow> s\<lparr>kpc := (if funcpoint (slave s) \<noteq> 0 then KWait else KPoll)\<rparr>
    | KStop \<Rightarrow> (set_slave (\<lambda>x. x\<lparr>status := STATUS_RETURN\<rparr>) s)\<lparr>kpc := KExited\<rparr>
    | KExited \<Rightarrow> s
    | _ \<Rightarrow> corethread_exit_step s)"

text \<open>The master may call \<open>corethread_create\<close> with a function, \<open>corethread_join\<close>, or leave \<open>main\<close>.\<close>

datatype ct_act = Create u32 u32 | Join | Quit | Master | Worker

definition ct_step :: "(u32 \<Rightarrow> u32 \<Rightarrow> u32 option) \<Rightarrow> ct_act \<Rightarrow> ct_state \<Rightarrow> ct_state" where
  "ct_step routine act s = (case act of
      Create f a \<Rightarrow> if mpc s = MIdle \<and> f \<noteq> 0 then s\<lparr>mpc := MCheckStatus f a\<rparr> else s
    | Join \<Rightarrow> if mpc s = MIdle then s\<lparr>mpc := MWaitReturn\<rparr> else s
    | Quit \<Rightarrow> if mpc s = MIdle then s\<lparr>master_returned := True\<rparr> else s
    | Master \<Rightarrow> corethread_join_step (corethread_create_step s)
    | Worker \<Rightarrow> worker_step routine s)"

section \<open>A join gets the value of its thread\<close>

definition thread_value :: "(u32 \<Rightarrow> u32 \<Rightarrow> u32 option) \<Rightarrow> u32 \<Rightarrow> u32 \<Rightarrow> u32" where
  "thread_value routine f a = (case routine f a of Some r \<Rightarrow> r | None \<Rightarrow> -1)"

text \<open>The worker has taken thread \<open>f (a)\<close>.\<close>

definition taken :: "(u32 \<Rightarrow> u32 \<Rightarrow> u32 option) \<Rightarrow> u32 \<Rightarrow> u32 \<Rightarrow> slave_record \<Rightarrow> worker_pc \<Rightarrow> bool" where
  "taken routine f a r k = (case k of
      KCall g \<Rightarrow> g = f \<and> status r = STATUS_INITDONE \<and> return_val r = -1
    | KBody g b \<Rightarrow> g = f \<and> b = a \<and> status r = STATUS_INITDONE \<and> return_val r = -1
    | KExit v \<Rightarrow> v = thread_value routine f a \<and> status r = STATUS_INITDONE
    | KExitStatus \<Rightarrow> return_val r = thread_value routine f a \<and> status r = STATUS_INITDONE
    | KAfter \<Rightarrow> return_val r = thread_value routine f a \<and> (status r = STATUS_INITDONE \<or> status r = STATUS_RETURN)
    | KWait \<Rightarrow> return_val r = thread_value routine f a \<and> status r = STATUS_RETURN
    | _ \<Rightarrow> False)"

text \<open>It has none, or has not noticed the new one.\<close>

definition unaware :: "slave_record \<Rightarrow> worker_pc \<Rightarrow> bool" where
  "unaware r k \<longleftrightarrow> k \<in> {KStart, KPoll, KTest, KAfter, KWait, KStop, KExited} \<and> (status r = STATUS_INITDONE \<longrightarrow> k = KStart)"

definition taking :: "u32 \<Rightarrow> slave_record \<Rightarrow> worker_pc \<Rightarrow> bool" where
  "taking f r k \<longleftrightarrow> status r \<noteq> STATUS_INITDONE \<and> (k = KTake \<or> k = KReset f \<or> k = KInit f \<and> return_val r = -1)"

definition ct_inv :: "(u32 \<Rightarrow> u32 \<Rightarrow> u32 option) \<Rightarrow> ct_state \<Rightarrow> bool" where
  "ct_inv routine s \<longleftrightarrow> (let r = slave s; k = kpc s in case pending s of
      Some (f, a) \<Rightarrow> f \<noteq> 0 \<and> funcpoint r = f \<and> param r = a \<and> taken routine f a r k \<and>
        (case mpc s of MParam _ _ \<Rightarrow> False | MFunc _ _ \<Rightarrow> False | MWaitInit _ _ \<Rightarrow> False
         | MReadVal \<Rightarrow> status r = STATUS_RETURN | MClear v \<Rightarrow> status r = STATUS_RETURN \<and> v = thread_value routine f a | _ \<Rightarrow> True)
    | None \<Rightarrow>
        (case mpc s of
           MWaitInit f a \<Rightarrow> f \<noteq> 0 \<and> funcpoint r = f \<and> param r = a \<and>
             (taken routine f a r k \<or> taking f r k \<or> unaware r k \<and> status r \<noteq> STATUS_INITDONE)
         | MCheckFunc f a \<Rightarrow> f \<noteq> 0 \<and> funcpoint r = 0 \<and> unaware r k \<and> status r \<noteq> STATUS_INITDONE
         | MParam f a \<Rightarrow> f \<noteq> 0 \<and> funcpoint r = 0 \<and> unaware r k \<and> status r \<noteq> STATUS_INITDONE
         | MFunc f a \<Rightarrow> f \<noteq> 0 \<and> param r = a \<and> funcpoint r = 0 \<and> unaware r k \<and> status r \<noteq> STATUS_INITDONE
         | MCheckStatus f a \<Rightarrow> f \<noteq> 0 \<and> funcpoint r = 0 \<and> unaware r k
         | _ \<Rightarrow> funcpoint r = 0 \<and> unaware r k))"

definition log_ok :: "(u32 \<Rightarrow> u32 \<Rightarrow> u32 option) \<Rightarrow> ct_state \<Rightarrow> bool" where
  "log_ok routine s \<longleftrightarrow> (\<forall>f a v. Joined (Some (f, a)) v \<in> set (events s) \<longrightarrow> v = thread_value routine f a)"

lemma taken_returned: "taken routine f a r k \<Longrightarrow> status r = STATUS_RETURN \<Longrightarrow> unaware r k \<and> return_val r = thread_value routine f a"
  by (cases k) (auto simp: taken_def unaware_def)

lemma unaware_slave [simp]: "unaware (r\<lparr>param := x\<rparr>) k = unaware r k" "unaware (r\<lparr>funcpoint := y\<rparr>) k = unaware r k"
  by (simp_all add: unaware_def)

lemma create_inv: "ct_inv routine s \<Longrightarrow> ct_inv routine (corethread_create_step s)"
  by (cases "mpc s"; cases "pending s") (auto simp: corethread_create_step_def ct_inv_def Let_def set_slave_def taking_def)

lemma join_inv: "ct_inv routine s \<Longrightarrow> ct_inv routine (corethread_join_step s)"
  using taken_returned by (cases "mpc s"; cases "pending s") (auto simp: corethread_join_step_def ct_inv_def Let_def set_slave_def)

text \<open>The worker does not touch what the master writes, and never takes back that a thread has returned while the master waits for it.\<close>

lemma worker_same [simp]:
  "funcpoint (slave (worker_step routine s)) = funcpoint (slave s)" "param (slave (worker_step routine s)) = param (slave s)"
  "mpc (worker_step routine s) = mpc s" "pending (worker_step routine s) = pending s" "events (worker_step routine s) = events s"
  by (cases "kpc s"; simp add: worker_step_def corethread_exit_step_def set_slave_def)+

lemma worker_taken:
  assumes "taken routine f a (slave s) (kpc s)" "funcpoint (slave s) = f" "param (slave s) = a" "f \<noteq> 0"
  shows "taken routine f a (slave (worker_step routine s)) (kpc (worker_step routine s))"
    "status (slave s) = STATUS_RETURN \<Longrightarrow> status (slave (worker_step routine s)) = STATUS_RETURN"
  using assms
  by (cases "kpc s"; auto simp: worker_step_def corethread_exit_step_def set_slave_def taken_def thread_value_def split: option.splits)+

lemma worker_unaware:
  assumes "unaware (slave s) (kpc s)"
  shows "funcpoint (slave s) = 0 \<Longrightarrow> unaware (slave (worker_step routine s)) (kpc (worker_step routine s))"
    "status (slave s) \<noteq> STATUS_INITDONE \<Longrightarrow> status (slave (worker_step routine s)) \<noteq> STATUS_INITDONE"
    "unaware (slave (worker_step routine s)) (kpc (worker_step routine s)) \<or> kpc (worker_step routine s) = KTake"
  using assms by (cases "kpc s"; auto simp: worker_step_def set_slave_def unaware_def)+

lemma worker_taking:
  assumes "taking f (slave s) (kpc s)" "funcpoint (slave s) = f"
  shows "taking f (slave (worker_step routine s)) (kpc (worker_step routine s)) \<or> taken routine f a (slave (worker_step routine s)) (kpc (worker_step routine s))"
  using assms by (cases "kpc s") (auto simp: worker_step_def set_slave_def taking_def taken_def)

lemma worker_inv: "ct_inv routine s \<Longrightarrow> ct_inv routine (worker_step routine s)"
proof (cases "pending s")
  case None
  assume inv: "ct_inv routine s"
  show ?thesis
  proof (cases "\<exists>f a. mpc s = MWaitInit f a")
    case True
    then obtain f a where "mpc s = MWaitInit f a" by auto
    then show ?thesis
      using inv None worker_taken [of routine f a s] worker_taking [of f s routine a] worker_unaware [of s routine]
      by (auto simp: ct_inv_def Let_def taking_def)
  next
    case False
    then show ?thesis using inv None worker_unaware [of s routine] by (cases "mpc s") (auto simp: ct_inv_def Let_def)
  qed
next
  case (Some fa)
  assume "ct_inv routine s"
  then show ?thesis using Some worker_taken [of routine "fst fa" "snd fa" s] by (cases "mpc s") (auto simp: ct_inv_def Let_def)
qed

lemma ct_step_inv:
  assumes "ct_inv routine s" "log_ok routine s"
  shows "ct_inv routine (ct_step routine act s)" "log_ok routine (ct_step routine act s)"
proof -
  show "ct_inv routine (ct_step routine act s)"
  proof (cases act)
    case (Create f a)
    then show ?thesis using assms(1) by (auto simp: ct_step_def ct_inv_def Let_def split: option.splits)
  next
    case Join
    then show ?thesis using assms(1) by (auto simp: ct_step_def ct_inv_def Let_def split: option.splits)
  next
    case Quit
    then show ?thesis using assms(1) by (auto simp: ct_step_def ct_inv_def Let_def split: option.splits)
  qed (simp_all add: ct_step_def worker_inv join_inv create_inv assms(1))
  have "log_ok routine (corethread_join_step (corethread_create_step s))"
    using assms by (cases "mpc s"; cases "pending s")
      (auto simp: corethread_create_step_def corethread_join_step_def set_slave_def log_ok_def ct_inv_def Let_def)
  then show "log_ok routine (ct_step routine act s)" using assms(2) by (cases act) (auto simp: ct_step_def log_ok_def)
qed

lemma ct_run_inv:
  assumes "ct_inv routine s" "log_ok routine s"
  shows "ct_inv routine (fold (ct_step routine) acts s) \<and> log_ok routine (fold (ct_step routine) acts s)"
  using assms
proof (induction acts arbitrary: s)
  case (Cons act acts)
  show ?case unfolding fold_Cons comp_apply by (rule Cons.IH) (rule ct_step_inv [OF Cons.prems])+
qed simp

definition ct_start :: "ct_state \<Rightarrow> bool" where
  "ct_start s \<longleftrightarrow> mpc s = MIdle \<and> kpc s = KStart \<and> pending s = None \<and> events s = [] \<and> funcpoint (slave s) = 0"

text \<open>C38: however the calls of the master and the worker interleave, and whatever the status was before, a \<open>corethread_join\<close> after a successful
  \<open>corethread_create\<close> returns the value with which that thread left, or \<open>-1\<close> when it did not call \<open>corethread_exit\<close>.\<close>

theorem join_gets_thread_value:
  assumes "ct_start s0" "Joined (Some (f, a)) v \<in> set (events (fold (ct_step routine) acts s0))"
  shows "v = thread_value routine f a"
proof -
  have "ct_inv routine s0" "log_ok routine s0" using assms(1) by (simp_all add: ct_start_def ct_inv_def log_ok_def unaware_def Let_def)
  from ct_run_inv [OF this] have "log_ok routine (fold (ct_step routine) acts s0)" by blast
  then show ?thesis using assms(2) unfolding log_ok_def by blast
qed

section \<open>A create may wait for ever\<close>

text \<open>The thread is over before the master has looked: the worker waits for the join, the master for the thread.\<close>

definition missed :: "u32 \<Rightarrow> u32 \<Rightarrow> ct_state \<Rightarrow> bool" where
  "missed f a s \<longleftrightarrow> mpc s = MWaitInit f a \<and> kpc s = KWait \<and> status (slave s) = STATUS_RETURN \<and> funcpoint (slave s) = f \<and> f \<noteq> 0"

lemma missed_step: "missed f a s \<Longrightarrow> missed f a (ct_step routine act s)"
  by (cases act) (auto simp: missed_def ct_step_def corethread_create_step_def corethread_join_step_def worker_step_def)

text \<open>C39: for every function there is an interleaving of its very first creation after which \<open>corethread_create\<close> never returns, whatever happens then.\<close>

theorem create_may_hang:
  assumes "ct_start s0" "\<not> master_returned s0" "f \<noteq> 0"
  shows "\<exists>acts. \<forall>more. mpc (fold (ct_step routine) (acts @ more) s0) = MWaitInit f a"
proof -
  let ?acts = "[Worker, Create f a, Master, Master, Master, Master,
    Worker, Worker, Worker, Worker, Worker, Worker, Worker, Worker, Worker, Worker, Worker]"
  have "missed f a (fold (ct_step routine) ?acts s0)"
    using assms by (cases "routine f a")
      (simp_all add: ct_start_def missed_def ct_step_def corethread_create_step_def corethread_join_step_def worker_step_def
        corethread_exit_step_def set_slave_def)
  moreover have "missed f a (fold (ct_step routine) more s)" if "missed f a s" for more s
    using that by (induction more arbitrary: s) (simp_all add: missed_step)
  ultimately have "\<forall>more. mpc (fold (ct_step routine) (?acts @ more) s0) = MWaitInit f a" by (simp add: missed_def)
  then show ?thesis by blast
qed

section \<open>Witnesses\<close>

definition demo_ct :: ct_state where
  "demo_ct = \<lparr>slave = \<lparr>status = STATUS_INITDONE, funcpoint = 0, param = 0, return_val = 0\<rparr>, master_returned = False, mpc = MIdle, kpc = KStart,
     pending = None, events = []\<rparr>"

definition double :: "u32 \<Rightarrow> u32 \<Rightarrow> u32 option" where
  "double f a = Some (2 * a)"

definition demo_ct_acts :: "ct_act list" where
  "demo_ct_acts = [Worker, Create 16 21, Master, Master, Master, Master, Worker, Worker, Worker, Worker, Worker, Master,
     Worker, Worker, Worker, Worker, Worker, Join, Master, Master, Master]"

theorem join_gets_thread_value_witness:
  "ct_start demo_ct \<and> Joined (Some (16, 21)) 42 \<in> set (events (fold (ct_step double) demo_ct_acts demo_ct)) \<and> thread_value double 16 21 = 42"
proof -
  have start: "ct_start demo_ct" by (simp add: ct_start_def demo_ct_def)
  have run: "events (fold (ct_step double) demo_ct_acts demo_ct) = [Created 16 21, Joined (Some (16, 21)) 42]" by code_simp
  then have "(42 :: u32) = thread_value double 16 21" by (intro join_gets_thread_value [OF start, of 16 21 42 double demo_ct_acts]) simp
  then show ?thesis using start run by simp
qed

theorem create_may_hang_witness:
  "ct_start demo_ct \<and> \<not> master_returned demo_ct \<and> (\<exists>acts. \<forall>more. mpc (fold (ct_step double) (acts @ more) demo_ct) = MWaitInit 16 21)"
proof -
  have "ct_start demo_ct" "\<not> master_returned demo_ct" by (simp_all add: ct_start_def demo_ct_def)
  then show ?thesis using create_may_hang [of demo_ct 16 double 21] by simp
qed

end
