(* ===== verification/Spec2Isabelle.thy ===== *)
theory Spec2Isabelle
  imports Icmp Udp Tcp Ptp1588 Tte Rm_Scheduler Tt_Scheduler Boot_Main Boot_Ethmac Noc_Init Mp_Sample_Create Corethread
begin

text \<open>
  Verification of the C system software of this repository: the network stack, the TTEthernet node, the
  time-triggered and rate-monotonic schedulers, the boot loader and the on-chip message passing of the Patmos
  multi-core processor, on which FShark runs.  File names are relative to \<^verbatim>\<open>src/c\<close>.

  \<^bold>\<open>Conventions.\<close>  The C integer types are words (\<open>u8\<close>, \<open>u16\<close>, \<open>u32\<close>, \<open>u64\<close>), so all arithmetic wraps as on the
  machine; memory is a function from addresses to words or bytes.  State is passed explicitly as records.  An
  operation that can leave the defined behaviour of C returns \<open>fault + _\<close>; a loop that may run for ever is a
  \<open>partial_function (option)\<close>, where \<open>None\<close> is not returning, or is parametrised by what happens between two
  polls.  What is not C code of this repository is a parameter: the devices, timers and the DMA of the Ethernet
  controller (\<open>env\<close>, arbitrary functions of the history of accesses), the on-chip network (\<open>network\<close>, with the hypothesis
  \<open>in_order\<close>), the address decoder of a memory (\<open>phys\<close>), the application that is booted (\<open>app\<close>) and the tasks that are
  scheduled.

  \<^bold>\<open>Theories.\<close>

  \<^item> \<open>Eth_Prelude\<close>: the types, masks, byte lanes, address ranges, and the locale \<open>round_loop\<close> for polling loops.

  \<^item> \<open>Patmos_IO\<close> (\<^verbatim>\<open>ethlib/eth_patmos_io.c\<close>): the machine, register and buffer access; what a load returns after a store.

  \<^item> \<open>Eth_Mac_Driver\<close> (\<^verbatim>\<open>ethlib/eth_mac_driver.c\<close>): initialisation, blocking and non-blocking transmission and
    reception; the exact sequence of register accesses, when the calls return and with which result.

  \<^item> \<open>Mac\<close>, \<open>Checksum\<close>, \<open>Ipv4\<close>, \<open>Icmp\<close>, \<open>Arp\<close>, \<open>Frame\<close>, \<open>Udp\<close>, \<open>Tcp\<close> (\<^verbatim>\<open>ethlib/*.c\<close>): headers, Internet checksum,
    address resolution table and protocol, datagrams and the connection state machine.  Frames that are built carry
    valid checksums and are read back unchanged; the ARP table refines a finite map of bindings; the TCP handler refines a
    table of next states, answers and results, up to the frame it hands to the controller; a handshake and the sending of a
    datagram are followed from the call to the bytes in the transmit area.

  \<^item> \<open>Ptp1588\<close> (\<^verbatim>\<open>ethlib/ptp1588.c\<close>): messages, time stamps, offset and delay computation.

  \<^item> \<open>Fifo\<close>, \<open>Tte\<close> (\<^verbatim>\<open>ethlib/tte.c\<close>): the queues of the virtual links refine a bounded list (locale \<open>bounded_fifo\<close>), the
    generated schedule contains exactly the ticks of all links, integration frames and the clock interrupt.

  \<^item> \<open>Task_List\<close>, \<open>Rm_Scheduler\<close>, \<open>Tt_Scheduler\<close> (\<^verbatim>\<open>apps/rmscheduling\<close>, \<^verbatim>\<open>apps/ttscheduling\<close>): linked task lists in a store of nodes,
    sorted insertion, hyper period, the two dispatchers, and the exact number of rounds of the time-triggered loop.

  \<^item> \<open>Download\<close>, \<open>Decompress\<close>, \<open>Boot_Ethmac\<close>, \<open>Boot_Main\<close> (\<^verbatim>\<open>bootloader\<close>): the packet protocol over any byte channel (locale
    \<open>byte_channel\<close>, interpreted for the serial line and for the LZSS decoder), the UDP variant, and the start of all cores as
    an interleaving of the steps of \<open>main\<close> on the shared \<open>boot_info\<close>.

  \<^item> \<open>Noc\<close> (\<^verbatim>\<open>libnoc/noc.c\<close>, \<^verbatim>\<open>libmp/utils.c\<close>): the DMA table of the network interface, and the measurement of a memory's size.

  \<^item> \<open>Noc_Multicast\<close> (\<^verbatim>\<open>libnoc/noc.c\<close>, \<^verbatim>\<open>libnoc/coreset.h\<close>): sets of cores (locale \<open>core_set\<close>), multicast transfers and the loading of the
    generated schedules.

  \<^item> \<open>Noc_Init\<close> (\<^verbatim>\<open>libnoc/noc.c\<close>): the start-up of all cores, of the tables and of the network.

  \<^item> \<open>Mp_Queue\<close> (\<^verbatim>\<open>libmp/queuing.c\<close>, \<^verbatim>\<open>libmp/mp.c\<close>): allocation and creation of ports, send, receive and acknowledge; a channel
    is a bounded queue for every interleaving with the network.

  \<^item> \<open>Mp_Lock\<close> (\<^verbatim>\<open>libmp/lock.c\<close>): the lock between two cores; the code on the scratchpads refines the bakery algorithm with
    delayed copies, which excludes whatever else the cores do outside the lock.

  \<^item> \<open>Mp_Sample\<close>, \<open>Mp_Sample_Create\<close> (\<^verbatim>\<open>libmp/sampling.c\<close>, \<^verbatim>\<open>libmp/mp.c\<close>): sampling ports with two buffers, on top of the lock and the NoC driver; a
    read returns one whole sample, the last published one.

  \<^item> \<open>Corethread\<close> (\<^verbatim>\<open>libcorethread/corethread.c\<close>): threads on other cores as an interleaving of master and worker on the shared record.

  \<^bold>\<open>How the parts interact.\<close>  UDP, TCP, ICMP, ARP and PTP call the link layer and the driver; the UDP channel of the boot loader
  runs on that stack; the loader's \<open>main\<close> calls the download, which reads from the decoder, which reads from the serial line.
  The sampling ports run inside and outside the lock.  The queuing ports, the sampling ports and the lock start transfers through the NoC driver, and the other core sees them only after the network
  has moved the words.

  \<^bold>\<open>Bounds and hypotheses.\<close>  Loops with a C bound are structural recursions or have a termination proof; there is no fuel.
  The queuing channel and the lock assume buffers within the \<open>2 ^ 14\<close> words a DMA pointer can address, equal scratchpad
  addresses on both cores, and that a transfer is reported done when its last word has arrived.  The mutual exclusion
  assumes that no number has wrapped around; theorems that follow a frame to the transmit area assume that the DMA of the Ethernet
  controller does not write there (\<open>keeps_area\<close>); where the code stores a core number in a \<open>char\<close>, whose sign depends on the
  implementation, the sign is a parameter and the number has to fit; the boot theorem assumes that the application does not write \<open>boot_info\<close>.

  \<^bold>\<open>Not modelled.\<close>  Printing and tracing (\<open>print_*\<close>, \<open>TRACE\<close>, debug output); register clobber lists and cache
  invalidation, which have no effect on the modelled state; the TRAP variant and interrupt handlers of
  \<^verbatim>\<open>libnoc\<close>; the variants of sampling ports that are not compiled by default and the collectives of \<^verbatim>\<open>libmp\<close>; the hardware (Chisel, VHDL, C++ harness); code
  that is vendored (\<^verbatim>\<open>libelf\<close>, FatFs in \<^verbatim>\<open>apps/fastsd\<close>, \<^verbatim>\<open>apps/rosace\<close>), benchmarks, demos and tests; the SD card, audio and
  ELF loader libraries.
\<close>

end
